(* ===== verification/Prelude.thy ===== *)
theory Prelude
  imports Complex_Main "HOL-Library.Word" "HOL-Library.Multiset"
begin

text \<open>
  Shared vocabulary of the development: the machine integer types of the C++ code, the
  faults an operation may end in, the monadic plumbing over them, the collections of
  rewrite rules the component theories extend, and the generic lemmas on lists and words
  that more than one component uses.
\<close>

unbundle bit_operations_syntax

section \<open>Machine integers\<close>

text \<open>
  Unsigned C++ integers are words and wrap around. Signed \<open>int\<close> and \<open>long\<close> values are
  HOL integers: their overflow is undefined in C++, and no model below relies on it; where a
  signed value is converted to an unsigned one the conversion \<^const>\<open>word_of_int\<close> is written.
\<close>

type_synonym u8 = "8 word"
type_synonym u16 = "16 word"
type_synonym u32 = "32 word"
type_synonym u64 = "64 word"

section \<open>Faults\<close>

text \<open>
  How an operation can fail: by throwing \<open>std::logic_error\<close> or \<open>std::runtime_error\<close>, by
  throwing a bare string (two port caches do), or by running into behaviour C++ leaves
  undefined (an integer division by zero, a read through a null pointer, an index outside
  an array).
\<close>

datatype fault =
    Logic_error string
  | Runtime_error string
  | Thrown_string string
  | Undefined string

type_synonym 'a res = "fault + 'a"

definition bind_res :: "'a res \<Rightarrow> ('a \<Rightarrow> 'b res) \<Rightarrow> 'b res" where
  "bind_res r f = (case r of Inl e \<Rightarrow> Inl e | Inr a \<Rightarrow> f a)"

definition is_ok :: "'a res \<Rightarrow> bool" where
  "is_ok r = (case r of Inl _ \<Rightarrow> False | Inr _ \<Rightarrow> True)"

named_theorems res_simps "rewrite rules for results and their sequencing"
named_theorems value_simps "rewrite rules for the values musical times denote"
named_theorems queue_simps "rewrite rules for queues and collectors"
named_theorems state_defs "unfolding rules of the components' state predicates"

lemma bind_res_simps [simp, res_simps]:
  "bind_res (Inl e) f = Inl e"
  "bind_res (Inr a) f = f a"
  by (simp_all add: bind_res_def)

lemma is_ok_simps [simp, res_simps]: "\<not> is_ok (Inl e)" "is_ok (Inr a)"
  by (simp_all add: is_ok_def)

lemma bind_res_eq_Inr:
  "bind_res r f = Inr b \<longleftrightarrow> (\<exists>a. r = Inr a \<and> f a = Inr b)"
  by (cases r) simp_all

lemma bind_res_eq_Inl:
  "bind_res r f = Inl e \<longleftrightarrow> r = Inl e \<or> (\<exists>a. r = Inr a \<and> f a = Inl e)"
  by (cases r) auto

lemma is_ok_iff: "is_ok r \<longleftrightarrow> (\<exists>a. r = Inr a)"
  by (cases r) simp_all

text \<open>A loop whose body may fault: it stops at the first fault.\<close>

fun fold_res :: "('a \<Rightarrow> 's \<Rightarrow> 's res) \<Rightarrow> 'a list \<Rightarrow> 's \<Rightarrow> 's res" where
  "fold_res f [] s = Inr s"
| "fold_res f (x # xs) s = bind_res (f x s) (fold_res f xs)"

lemma fold_res_append:
  "fold_res f (xs @ ys) s = bind_res (fold_res f xs s) (fold_res f ys)"
proof (induction xs arbitrary: s)
  case Nil
  then show ?case by simp
next
  case (Cons x xs)
  then show ?case by (cases "f x s") simp_all
qed

lemma fold_res_invariant:
  assumes "fold_res f xs s = Inr t" and "P s"
    and "\<And>x s s'. x \<in> set xs \<Longrightarrow> P s \<Longrightarrow> f x s = Inr s' \<Longrightarrow> P s'"
  shows "P t"
  using assms
proof (induction xs arbitrary: s)
  case Nil
  then show ?case by simp
next
  case (Cons x xs)
  from Cons.prems(1) obtain u where u: "f x s = Inr u" "fold_res f xs u = Inr t"
    by (auto simp: bind_res_eq_Inr)
  have "P u" using Cons.prems(2,3) u(1) by auto
  then show ?case using Cons.IH [OF u(2)] Cons.prems(3) by auto
qed

section \<open>Actions\<close>

text \<open>
  An action on a state that may fault. The state reached before the fault is kept: an exception
  does not undo what a C++ method did before it was thrown.
\<close>

type_synonym ('s, 'a) act = "'s \<Rightarrow> 'a res \<times> 's"

definition ret :: "'a \<Rightarrow> ('s, 'a) act" where
  "ret a = (\<lambda>s. (Inr a, s))"

definition throw :: "fault \<Rightarrow> ('s, 'a) act" where
  "throw e = (\<lambda>s. (Inl e, s))"

definition lift_res :: "'a res \<Rightarrow> ('s, 'a) act" where
  "lift_res r = (\<lambda>s. (r, s))"

definition modify :: "('s \<Rightarrow> 's) \<Rightarrow> ('s, unit) act" where
  "modify f = (\<lambda>s. (Inr (), f s))"

definition gets :: "('s \<Rightarrow> 'a) \<Rightarrow> ('s, 'a) act" where
  "gets f = (\<lambda>s. (Inr (f s), s))"

definition then_do :: "('s, 'a) act \<Rightarrow> ('a \<Rightarrow> ('s, 'b) act) \<Rightarrow> ('s, 'b) act" where
  "then_do m f = (\<lambda>s. case m s of (Inl e, s') \<Rightarrow> (Inl e, s') | (Inr a, s') \<Rightarrow> f a s')"

fun do_each :: "('a \<Rightarrow> ('s, unit) act) \<Rightarrow> 'a list \<Rightarrow> ('s, unit) act" where
  "do_each f [] = ret ()"
| "do_each f (x # xs) = then_do (f x) (\<lambda>_. do_each f xs)"

lemma act_simps [simp, res_simps]:
  "ret a s = (Inr a, s)" "throw e s = (Inl e, s)" "lift_res r s = (r, s)"
  "modify g s = (Inr (), g s)" "gets h s = (Inr (h s), s)"
  "then_do (ret a) f = f a" "then_do (throw e) f = throw e"
  "then_do (lift_res (Inr a)) f = f a" "then_do (lift_res (Inl e)) f = throw e"
  "then_do (modify g) k s = k () (g s)" "then_do (gets h) j s = j (h s) s"
  by (auto simp: ret_def throw_def lift_res_def modify_def gets_def then_do_def)

lemma then_do_ok [simp, res_simps]: "m s = (Inr a, s') \<Longrightarrow> then_do m f s = f a s'"
  by (simp add: then_do_def)

lemma then_do_fault [simp, res_simps]: "m s = (Inl e, s') \<Longrightarrow> then_do m f s = (Inl e, s')"
  by (simp add: then_do_def)

lemma then_do_cases:
  assumes "then_do m f s = (r, t)"
  obtains (fault) e where "m s = (Inl e, t)" "r = Inl e"
    | (ok) a u where "m s = (Inr a, u)" "f a u = (r, t)"
  using assms by (auto simp: then_do_def split: prod.splits sum.splits)

text \<open>What every step of an action keeps, the whole action keeps, faults included.\<close>

lemma do_each_invariant:
  assumes "do_each f xs s = (r, t)" "I s"
    and "\<And>x s r t. x \<in> set xs \<Longrightarrow> I s \<Longrightarrow> f x s = (r, t) \<Longrightarrow> I t"
  shows "I t"
  using assms
proof (induction xs arbitrary: s)
  case Nil
  then show ?case by simp
next
  case (Cons x xs)
  from Cons.prems(1) show ?case unfolding do_each.simps
  proof (cases rule: then_do_cases)
    case (fault e)
    then show ?thesis using Cons.prems(2,3) by auto
  next
    case (ok a u)
    then show ?thesis using Cons.IH [of u] Cons.prems(2,3) by auto
  qed
qed

section \<open>Decimal numerals\<close>

text \<open>\<open>std::to_string\<close> of an unsigned number.\<close>

fun decimal :: "nat \<Rightarrow> string" where
  "decimal n = (if n < 10 then [char_of (48 + n)] else decimal (n div 10) @ [char_of (48 + n mod 10)])"

declare decimal.simps [simp del]

text \<open>\<open>std::to_string\<close> of a signed number.\<close>

definition show_int :: "int \<Rightarrow> string" where
  "show_int n = (if n < 0 then ''-'' @ decimal (nat (- n)) else decimal (nat n))"

section \<open>Words and truncation\<close>

declare of_nat_unat [simp del]

lemma unat_mult_bounded:
  fixes a b :: "'a::len word"
  assumes "unat a * unat b < 2 ^ LENGTH('a)"
  shows "unat (a * b) = unat a * unat b"
  using assms by (simp add: unat_word_ariths)

lemma unat_add_bounded:
  fixes a b :: "'a::len word"
  assumes "unat a + unat b < 2 ^ LENGTH('a)"
  shows "unat (a + b) = unat a + unat b"
  using assms by (simp add: unat_word_ariths)

lemma word_of_nat_unat [simp]: "word_of_nat (unat (x :: 'a::len word)) = x"
  by (simp add: of_nat_unat)

lemma unat_u32_less: "unat (x :: u32) < 4294967296"
  using unsigned_less [of x] by simp

lemma unat_u32_of_nat: "n < 2 ^ 32 \<Longrightarrow> unat (of_nat n :: u32) = n"
  by (simp add: unsigned_of_nat take_bit_nat_eq_self)

lemma unat_u32_of_int: "0 \<le> n \<Longrightarrow> n < 2 ^ 32 \<Longrightarrow> int (unat (word_of_int n :: u32)) = n"
  by (simp add: unsigned_of_int take_bit_int_eq_self)

text \<open>The C++ conversion of a floating point value to an integer type truncates towards zero.\<close>

definition trunc :: "rat \<Rightarrow> int" where
  "trunc x = (if 0 \<le> x then \<lfloor>x\<rfloor> else - \<lfloor>- x\<rfloor>)"

lemma trunc_of_int [simp]: "trunc (of_int n) = n"
  by (simp add: trunc_def flip: of_int_minus)

lemma trunc_of_nat [simp]: "trunc (of_nat n) = int n"
  using trunc_of_int [of "int n"] by simp

lemma trunc_numeral [simp]: "trunc (numeral n) = numeral n"
  using trunc_of_int [of "numeral n"] by simp

lemma trunc_nonneg: "0 \<le> x \<Longrightarrow> 0 \<le> trunc x"
  by (simp add: trunc_def)

lemma trunc_floor: "0 \<le> x \<Longrightarrow> trunc x = \<lfloor>x\<rfloor>"
  by (simp add: trunc_def)

section \<open>Lists\<close>

lemma sorted_wrt_insert_between:
  assumes "sorted_wrt P (xs @ ys)"
    and "\<And>x. x \<in> set xs \<Longrightarrow> P x e" and "\<And>y. y \<in> set ys \<Longrightarrow> P e y"
  shows "sorted_wrt P (xs @ e # ys)"
  using assms by (auto simp: sorted_wrt_append)

lemma takeWhile_mset: "mset (takeWhile P xs) + mset (dropWhile P xs) = mset xs"
  by (metis mset_append takeWhile_dropWhile_id)

end
