(* ===== verification/Floats.thy ===== *)
theory Floats
  imports Prelude
begin

text \<open>
  The floating point arithmetic of the code. A \<open>float\<close> or \<open>double\<close> is the rational number it
  denotes; every operation is the exact rational operation followed by the rounding of IEEE
  754 (to nearest, ties to even) at 24 and 53 bits of precision. Left out: the infinities,
  not-a-number and the denormalised range, that is exponents outside the format's range.
  The file proves what the components need of rounding: values that fit are kept, the
  relative error is at most half a unit in the last place, and a truncated quotient of two
  integers that fit is the integer quotient.
\<close>

section \<open>Exponents\<close>

fun log2n :: "nat \<Rightarrow> nat" where
  "log2n n = (if n < 2 then 0 else Suc (log2n (n div 2)))"

declare log2n.simps [simp del]

lemma log2n_bounds: "0 < n \<Longrightarrow> 2 ^ log2n n \<le> n \<and> n < 2 ^ Suc (log2n n)"
proof (induction n rule: log2n.induct)
  case (1 n)
  show ?case
  proof (cases "n < 2")
    case True
    with "1.prems" show ?thesis by (simp add: log2n.simps [of n])
  next
    case False
    with "1.IH" have "2 ^ log2n (n div 2) \<le> n div 2 \<and> n div 2 < 2 ^ Suc (log2n (n div 2))"
      by simp
    with False show ?thesis by (auto simp: log2n.simps [of n])
  qed
qed

definition pow2 :: "int \<Rightarrow> rat" where
  "pow2 e = (if 0 \<le> e then 2 ^ nat e else 1 / 2 ^ nat (- e))"

lemma pow2_pos [simp]: "0 < pow2 e"
  by (simp add: pow2_def)

lemma pow2_nonzero [simp]: "pow2 e \<noteq> 0"
  using pow2_pos [of e] by linarith

lemma pow2_powi: "pow2 e = 2 powi e"
  by (auto simp: pow2_def power_int_def divide_simps)

lemma pow2_add: "pow2 (a + b) = pow2 a * pow2 b"
  by (simp add: pow2_powi power_int_add)

lemma pow2_minus: "pow2 (- a) = 1 / pow2 a"
  by (simp add: pow2_powi power_int_minus_divide)

lemma pow2_of_nat: "pow2 (int k) = 2 ^ k"
  by (simp add: pow2_def)

lemma pow2_mono: "a \<le> b \<Longrightarrow> pow2 a \<le> pow2 b"
  by (simp add: pow2_powi power_int_increasing)

lemma pow2_strict: "a < b \<Longrightarrow> pow2 a < pow2 b"
  by (simp add: pow2_powi power_int_strict_increasing)

lemma pow2_less_iff: "pow2 a < pow2 b \<longleftrightarrow> a < b"
  by (metis linorder_not_less order_less_le pow2_mono pow2_strict)

text \<open>The exponent of a positive rational: \<open>2 ^ e \<le> x < 2 ^ (e + 1)\<close>.\<close>

definition expo :: "rat \<Rightarrow> int" where
  "expo x =
     (if 1 \<le> x then int (log2n (nat \<lfloor>x\<rfloor>))
      else let n = nat \<lceil>1 / x\<rceil>; k = log2n n in
           if n = 2 ^ k then - int k else - int (Suc k))"

lemma expo_ge1:
  assumes "1 \<le> x"
  shows "pow2 (expo x) \<le> x \<and> x < pow2 (expo x + 1)"
proof -
  define n where "n = nat \<lfloor>x\<rfloor>"
  have n: "0 < n" "of_nat n \<le> x" "x < of_nat n + 1"
    using assms by (simp_all add: n_def le_floor_iff) linarith
  from log2n_bounds [OF n(1)]
  have b: "2 ^ log2n n \<le> n" "n + 1 \<le> 2 ^ Suc (log2n n)" by auto
  have "pow2 (expo x) = of_nat (2 ^ log2n n)"
    using assms by (simp add: expo_def pow2_of_nat n_def)
  moreover have "pow2 (expo x + 1) = of_nat (2 ^ Suc (log2n n))"
    using assms pow2_of_nat [of "Suc (log2n n)"] by (simp add: expo_def n_def add.commute)
  moreover have "of_nat (2 ^ log2n n) \<le> (of_nat n :: rat)"
    using b(1) by (simp only: of_nat_le_iff)
  moreover have "of_nat n + 1 \<le> (of_nat (2 ^ Suc (log2n n)) :: rat)"
    using b(2) by (metis of_nat_1 of_nat_add of_nat_le_iff)
  ultimately show ?thesis using n by linarith
qed

lemma expo_lt1:
  assumes "0 < x" "x < 1"
  shows "pow2 (expo x) \<le> x \<and> x < pow2 (expo x + 1)"
proof -
  define n where "n = nat \<lceil>1 / x\<rceil>"
  define k where "k = log2n n"
  have x1: "1 < 1 / x" using assms by simp
  have n: "0 < n" "1 / x \<le> of_nat n" "of_nat n < 1 / x + 1"
    using x1 by (simp_all add: n_def less_ceiling_iff del: zero_less_divide_1_iff) linarith+
  from log2n_bounds [OF n(1)] have b: "2 ^ k \<le> n" "n < 2 ^ Suc k" by (auto simp: k_def)
  have inv: "pow2 (- int j) = 1 / of_nat (2 ^ j)" for j
    by (simp add: pow2_minus pow2_of_nat)
  show ?thesis
  proof (cases "n = 2 ^ k")
    case True
    then have e: "expo x = - int k"
      using assms by (simp add: expo_def n_def k_def Let_def)
    have "pow2 (expo x) \<le> x"
      using n(1,2) assms unfolding e inv True [symmetric] by (simp add: divide_le_eq mult.commute)
    moreover have "x < pow2 (expo x + 1)"
    proof (cases k)
      case 0
      then show ?thesis using assms e by (simp add: pow2_def)
    next
      case (Suc j)
      have "expo x + 1 = - int j" using e Suc by simp
      moreover have "of_nat (2 ^ j) < 1 / x"
      proof -
        have "2 ^ j + 1 \<le> n" using True Suc by simp
        then have "of_nat (2 ^ j) + 1 \<le> (of_nat n :: rat)"
          by (metis of_nat_1 of_nat_add of_nat_le_iff)
        then show ?thesis using n(3) by linarith
      qed
      ultimately show ?thesis using assms by (simp add: inv field_simps)
    qed
    ultimately show ?thesis by simp
  next
    case False
    then have e: "expo x = - int (Suc k)"
      using assms by (simp add: expo_def n_def k_def Let_def)
    have "of_nat n \<le> (of_nat (2 ^ Suc k) :: rat)" using b(2) by (simp only: of_nat_le_iff)
    then have "1 / x \<le> of_nat (2 ^ Suc k)" using n(2) by linarith
    then have "pow2 (expo x) \<le> x"
      using assms unfolding e inv by (simp add: field_simps)
    moreover have "2 ^ k + 1 \<le> n" using b(1) False by simp
    then have "of_nat (2 ^ k) + 1 \<le> (of_nat n :: rat)"
      by (metis of_nat_1 of_nat_add of_nat_le_iff)
    then have "of_nat (2 ^ k) < 1 / x" using n(3) by linarith
    moreover have "expo x + 1 = - int k" using e by simp
    ultimately show ?thesis using assms by (simp add: inv field_simps)
  qed
qed

lemma expo_bounds: "0 < x \<Longrightarrow> pow2 (expo x) \<le> x \<and> x < pow2 (expo x + 1)"
  using expo_ge1 [of x] expo_lt1 [of x] by linarith

section \<open>Rounding\<close>

definition half_even :: "rat \<Rightarrow> int" where
  "half_even y =
     (let k = \<lfloor>y\<rfloor>; f = y - of_int k in
      if f < 1 / 2 then k else if 1 / 2 < f then k + 1 else if even k then k else k + 1)"

lemma half_even_of_int [simp]: "half_even (of_int k) = k"
  by (simp add: half_even_def Let_def)

lemma half_even_error: "\<bar>of_int (half_even y) - y\<bar> \<le> 1 / 2"
proof -
  have "of_int \<lfloor>y\<rfloor> \<le> y" "y < of_int \<lfloor>y\<rfloor> + 1" using floor_correct [of y] by simp_all
  then show ?thesis unfolding half_even_def Let_def by (auto simp: abs_le_iff)
qed

text \<open>Rounding to \<open>p\<close> significant bits.\<close>

definition rnd :: "nat \<Rightarrow> rat \<Rightarrow> rat" where
  "rnd p x =
     (if x = 0 then 0
      else let s = pow2 (int p - 1 - expo \<bar>x\<bar>) in sgn x * (of_int (half_even (\<bar>x\<bar> * s)) / s))"

abbreviation rnd_float :: "rat \<Rightarrow> rat" where "rnd_float \<equiv> rnd 24"
abbreviation rnd_double :: "rat \<Rightarrow> rat" where "rnd_double \<equiv> rnd 53"

lemma rnd_0 [simp]: "rnd p 0 = 0"
  by (simp add: rnd_def)

lemma rnd_minus: "rnd p (- x) = - rnd p x"
  by (simp add: rnd_def Let_def)

text \<open>A value with at most \<open>p\<close> bits is representable, so rounding keeps it.\<close>

lemma rnd_dyadic_pos:
  assumes "0 < n" "n < 2 ^ p"
  shows "rnd p (of_int n / 2 ^ k) = of_int n / 2 ^ k"
proof -
  define x :: rat where "x = of_int n / 2 ^ k"
  define e where "e = expo x"
  have x: "0 < x" using assms(1) by (simp add: x_def)
  have "pow2 (e + int k) \<le> of_int n"
    using expo_bounds [OF x] by (simp add: e_def pow2_add pow2_of_nat x_def field_simps)
  also have "of_int n < (of_int (2 ^ p) :: rat)" using assms(2) by (simp only: of_int_less_iff)
  also have "of_int (2 ^ p) = pow2 (int p)" by (simp add: pow2_of_nat)
  finally have "e + int k < int p" by (simp only: pow2_less_iff)
  then obtain j where j: "int p - 1 - e = int k + int j"
    by (metis add_diff_cancel_left' diff_diff_eq nonneg_int_cases zle_iff_zadd
        add.commute add_le_imp_le_diff zless_imp_add1_zle)
  define s where "s = pow2 (int p - 1 - e)"
  have "x * s = of_int (n * 2 ^ j)"
    by (simp add: x_def s_def j pow2_add pow2_of_nat)
  then have "half_even (x * s) = n * 2 ^ j" by (simp only: half_even_of_int)
  then have "of_int (half_even (x * s)) / s = x"
    using \<open>x * s = of_int (n * 2 ^ j)\<close> by (simp add: s_def field_simps)
  then have "rnd p x = x"
    using x by (simp add: rnd_def Let_def e_def s_def)
  then show ?thesis by (simp add: x_def)
qed

lemma rnd_dyadic:
  assumes "\<bar>n\<bar> < 2 ^ p"
  shows "rnd p (of_int n / 2 ^ k) = of_int n / 2 ^ k"
proof (cases n "0::int" rule: linorder_cases)
  case less
  then have "rnd p (of_int (- n) / 2 ^ k) = of_int (- n) / 2 ^ k"
    using assms by (intro rnd_dyadic_pos) simp_all
  then show ?thesis using rnd_minus [of p "of_int (- n) / 2 ^ k"] by simp
next
  case equal
  then show ?thesis by simp
next
  case greater
  then show ?thesis using assms by (intro rnd_dyadic_pos) simp_all
qed

lemma rnd_of_int: "\<bar>n\<bar> < 2 ^ p \<Longrightarrow> rnd p (of_int n) = of_int n"
  using rnd_dyadic [of n p 0] by simp

lemma rnd_of_nat: "n < 2 ^ p \<Longrightarrow> rnd p (of_nat n) = of_nat n"
  using rnd_of_int [of "int n" p] by (metis of_int_of_nat_eq of_nat_less_iff of_nat_numeral
      of_nat_power abs_of_nat)

text \<open>The relative error is at most \<open>2 ^ - p\<close>.\<close>

lemma rnd_error:
  assumes "0 < x"
  shows "\<bar>rnd p x - x\<bar> \<le> x / 2 ^ p"
proof -
  define e where "e = expo x"
  define s where "s = pow2 (int p - 1 - e)"
  have s: "0 < s" by (simp add: s_def)
  have "rnd p x - x = (of_int (half_even (x * s)) - x * s) / s"
    using assms s by (simp add: rnd_def Let_def e_def s_def field_simps)
  then have "\<bar>rnd p x - x\<bar> = \<bar>of_int (half_even (x * s)) - x * s\<bar> / s"
    using s by simp
  also have "\<dots> \<le> (1 / 2) / s"
    using half_even_error [of "x * s"] s by (intro divide_right_mono) simp_all
  also have "\<dots> = pow2 e / 2 ^ p"
  proof -
    have "2 * s * pow2 e = 2 ^ p"
    proof -
      have "2 * s * pow2 e = pow2 1 * pow2 (int p - 1 - e) * pow2 e"
        by (simp add: s_def pow2_def)
      also have "\<dots> = pow2 (int p)" by (simp flip: pow2_add)
      finally show ?thesis by (simp add: pow2_of_nat)
    qed
    then show ?thesis using s by (simp add: field_simps)
  qed
  also have "\<dots> \<le> x / 2 ^ p"
    using expo_bounds [OF assms] by (simp add: e_def divide_right_mono)
  finally show ?thesis .
qed

lemma rnd_nonneg: "0 \<le> x \<Longrightarrow> 0 \<le> rnd p x"
proof (cases "x = 0")
  case False
  assume "0 \<le> x"
  with False have x: "0 < x" by simp
  have "x / 2 ^ p \<le> x" using x by (simp add: divide_le_eq)
  then show ?thesis using rnd_error [OF x, of p] by linarith
qed simp

text \<open>Rounding is monotone.\<close>

lemma half_even_mono: "x \<le> y \<Longrightarrow> half_even x \<le> half_even y"
proof -
  assume xy: "x \<le> y"
  have b: "\<lfloor>z\<rfloor> \<le> half_even z \<and> half_even z \<le> \<lfloor>z\<rfloor> + 1" for z
    by (simp add: half_even_def Let_def)
  show ?thesis
  proof (cases "\<lfloor>x\<rfloor> = \<lfloor>y\<rfloor>")
    case True
    with xy show ?thesis by (simp add: half_even_def Let_def)
  next
    case False
    with floor_mono [OF xy] have "\<lfloor>x\<rfloor> + 1 \<le> \<lfloor>y\<rfloor>" by simp
    with b [of x] b [of y] show ?thesis by linarith
  qed
qed

lemma expo_mono:
  assumes "0 < x" "x \<le> y"
  shows "expo x \<le> expo y"
proof -
  have "pow2 (expo x) < pow2 (expo y + 1)"
    using expo_bounds [of x] expo_bounds [of y] assms by linarith
  then show ?thesis by (simp add: pow2_less_iff)
qed

lemma rnd_binade:
  assumes x: "0 < x" and p: "0 < p"
  shows "pow2 (expo x) \<le> rnd p x \<and> rnd p x \<le> pow2 (expo x + 1)"
proof -
  define s where "s = pow2 (int p - 1 - expo x)"
  have s: "0 < s" by (simp add: s_def)
  have lo: "pow2 (expo x) * s = of_int (2 ^ (p - 1))"
    using p by (simp add: s_def flip: pow2_add) (simp add: pow2_def nat_diff_distrib)
  have hi: "pow2 (expo x + 1) * s = of_int (2 ^ p)"
    by (simp add: s_def flip: pow2_add) (simp add: pow2_of_nat)
  have "of_int (2 ^ (p - 1)) \<le> x * s" "x * s \<le> of_int (2 ^ p)"
    using expo_bounds [OF x] s unfolding lo [symmetric] hi [symmetric]
    by (auto intro: mult_right_mono less_imp_le)
  then have "2 ^ (p - 1) \<le> half_even (x * s)" "half_even (x * s) \<le> 2 ^ p"
    using half_even_mono half_even_of_int by metis+
  then have "pow2 (expo x) * s \<le> of_int (half_even (x * s))"
    "of_int (half_even (x * s)) \<le> pow2 (expo x + 1) * s"
    unfolding lo hi by (simp_all only: of_int_le_iff)
  moreover have "rnd p x = of_int (half_even (x * s)) / s"
    using x by (simp add: rnd_def Let_def s_def)
  ultimately show ?thesis using s by (simp add: pos_le_divide_eq pos_divide_le_eq)
qed

lemma rnd_mono_pos:
  assumes x: "0 < x" and xy: "x \<le> y" and p: "0 < p"
  shows "rnd p x \<le> rnd p y"
proof (cases "expo x = expo y")
  case True
  define s where "s = pow2 (int p - 1 - expo x)"
  have "of_int (half_even (x * s)) \<le> (of_int (half_even (y * s)) :: rat)"
    using xy by (simp add: half_even_mono s_def)
  then show ?thesis
    using x xy True by (simp add: rnd_def Let_def s_def divide_right_mono less_imp_le)
next
  case False
  with expo_mono [OF x xy] have "pow2 (expo x + 1) \<le> pow2 (expo y)" by (intro pow2_mono) simp
  moreover have "rnd p x \<le> pow2 (expo x + 1)" using rnd_binade [OF x p] by simp
  moreover have "pow2 (expo y) \<le> rnd p y" using rnd_binade [of y p] x xy p by simp
  ultimately show ?thesis by linarith
qed

lemma rnd_mono:
  assumes "x \<le> y" "0 < p"
  shows "rnd p x \<le> rnd p y"
proof (cases "0 < x")
  case True
  then show ?thesis using assms by (simp add: rnd_mono_pos)
next
  case False
  show ?thesis
  proof (cases "0 \<le> y")
    case True
    have "0 \<le> rnd p (- x)" using False by (intro rnd_nonneg) simp
    then show ?thesis using rnd_nonneg [OF True, of p] by (simp add: rnd_minus)
  next
    case neg: False
    then have "rnd p (- y) \<le> rnd p (- x)" using assms by (intro rnd_mono_pos) simp_all
    then show ?thesis by (simp add: rnd_minus)
  qed
qed

lemma trunc_mono: "x \<le> y \<Longrightarrow> trunc x \<le> trunc y"
proof (cases "0 \<le> x")
  case False
  assume xy: "x \<le> y"
  show ?thesis
  proof (cases "0 \<le> y")
    case True
    have "trunc x \<le> 0" using False by (simp add: trunc_def)
    also have "0 \<le> trunc y" using True by (rule trunc_nonneg)
    finally show ?thesis .
  next
    case neg: False
    then show ?thesis using False xy by (simp add: trunc_def floor_mono)
  qed
qed (simp add: trunc_def floor_mono)

text \<open>Truncating a rounded quotient of integers that fit gives the integer quotient.\<close>

lemma floor_rnd_div:
  fixes a b :: nat
  assumes "0 < b" "a < 2 ^ p"
  shows "\<lfloor>rnd p (of_nat a / of_nat b)\<rfloor> = int (a div b)"
proof (cases "b dvd a")
  case True
  then have "(of_nat a / of_nat b :: rat) = of_nat (a div b)"
    by (simp add: of_nat_div dvd_def) (metis assms(1) nonzero_mult_div_cancel_left of_nat_0_less_iff
        of_nat_mult order_less_irrefl nonzero_mult_div_cancel_left div_mult_self1_is_m)
  moreover have "a div b < 2 ^ p" using assms(2) by (meson div_le_dividend le_less_trans)
  ultimately show ?thesis by (simp add: rnd_of_nat)
next
  case False
  define x :: rat where "x = of_nat a / of_nat b"
  define q where "q = a div b"
  have "0 < a" using False by (cases a) simp_all
  then have x: "0 < x" using assms(1) by (simp add: x_def)
  have m: "0 < a mod b" using False by (simp add: dvd_eq_mod_eq_0)
  have ab: "a = q * b + a mod b" by (simp add: q_def)
  have "q * b + 1 \<le> a" "a + 1 \<le> (q + 1) * b"
    using m ab mod_less_divisor [OF assms(1), of a] by (simp_all add: algebra_simps)
  then have "of_nat (q * b + 1) \<le> (of_nat a :: rat)" "of_nat (a + 1) \<le> (of_nat ((q + 1) * b) :: rat)"
    by (simp_all only: of_nat_le_iff)
  then have le: "of_nat q * of_nat b + 1 \<le> (of_nat a :: rat)"
      "of_nat a + 1 \<le> (of_nat q + 1) * (of_nat b :: rat)"
    by (simp_all add: algebra_simps)
  have lo: "of_nat q + 1 / of_nat b \<le> x"
    using divide_right_mono [OF le(1), of "of_nat b"] assms(1)
    by (simp add: x_def add_divide_distrib)
  have hi: "x + 1 / of_nat b \<le> of_nat q + 1"
    using divide_right_mono [OF le(2), of "of_nat b"] assms(1)
    by (simp add: x_def add_divide_distrib)
  have "x / 2 ^ p < 1 / of_nat b"
  proof -
    have "(of_nat a :: rat) < of_nat (2 ^ p)" using assms(2) by (simp only: of_nat_less_iff)
    then show ?thesis using assms(1) by (simp add: x_def field_simps)
  qed
  with rnd_error [OF x, of p] lo hi
  have "of_nat q \<le> rnd p x" "rnd p x < of_nat q + 1" by linarith+
  then have "\<lfloor>rnd p x\<rfloor> = int q" by (simp add: floor_eq_iff)
  then show ?thesis by (simp add: x_def q_def)
qed

end
