(* ===== verification/Musical_Time.thy ===== *)
theory Musical_Time
  imports Floats
begin

text \<open>
  Musical time: \<open>Duration\<close> and \<open>Position\<close> of \<open>src/position.h\<close> and \<open>src/position.cpp\<close>,
  \<open>TimePosition\<close> of \<open>src/timeposition.h\<close> and \<open>TimeSignature\<close> of \<open>src/timesignature.h\<close>.
  A duration counts whole bars and a fraction of a bar, all three parts 32-bit and wrapping.
  The lemmas show that normalising keeps the denoted time and leaves a proper, reduced
  fraction, that the comparisons decide the order of the denoted times while the products
  fit in 32 bits, that sums and differences are exact, and that the frame offset of a
  position is the one the tempo prescribes and grows with the position.
\<close>

section \<open>Durations\<close>

record duration =
  whole :: u32
  position :: u32
  division :: u32

definition mk_dur :: "u32 \<Rightarrow> u32 \<Rightarrow> u32 \<Rightarrow> duration" where
  "mk_dur w p d = \<lparr>whole = w, position = p, division = d\<rparr>"

definition MAX_DENOMINATOR :: u32 where
  "MAX_DENOMINATOR = 384000"

text \<open>
  The inner loop of \<open>normalize\<close> for one factor. The guard \<open>q \<noteq> 0\<close> only makes the recursion
  total: a zero division never gets here, because the code has divided by it before.
\<close>

function reduce_factor :: "u32 \<Rightarrow> u32 \<Rightarrow> u32 \<Rightarrow> u32 \<times> u32" where
  "reduce_factor f p q =
     (if 1 < f \<and> q \<noteq> 0 \<and> p mod f = 0 \<and> q mod f = 0
      then reduce_factor f (p div f) (q div f) else (p, q))"
  by pat_completeness auto
termination
proof (relation "measure (\<lambda>(f, p, q). unat q)", goal_cases)
  case 1
  show ?case by simp
next
  case (2 f p q)
  then have "unat q div unat f < unat q"
    by (intro div_less_dividend) (simp_all add: word_less_nat_alt unat_gt_0)
  then show ?case by (simp add: unat_div)
qed

declare reduce_factor.simps [simp del]

text \<open>The factors the \<open>for\<close> loop runs through, in its order.\<close>

definition reduce_by :: "u32 \<Rightarrow> 'a duration_scheme \<Rightarrow> 'a duration_scheme" where
  "reduce_by f d =
     (let (p, q) = reduce_factor f (position d) (division d) in d\<lparr>position := p, division := q\<rparr>)"

definition normalize_dur :: "'a duration_scheme \<Rightarrow> 'a duration_scheme res" where
  "normalize_dur d =
     (if division d = 0 then Inl (Undefined ''integer division by zero'')
      else
        let d1 = (if division d \<le> position d
                  then d\<lparr>whole := whole d + position d div division d,
                         position := position d mod division d\<rparr>
                  else d)
        in Inr (if MAX_DENOMINATOR < division d1
                then fold reduce_by [7, 6, 5, 4, 3, 2] d1 else d1))"

definition Duration :: "u32 \<Rightarrow> u32 \<Rightarrow> u32 \<Rightarrow> duration res" where
  "Duration w p d =
     (if d = 0 then Inl (Logic_error ''division cannot be zero!'') else normalize_dur (mk_dur w p d))"

definition dur_less :: "'a duration_scheme \<Rightarrow> 'b duration_scheme \<Rightarrow> bool" where
  "dur_less a b =
     (if whole a < whole b then True
      else if whole a = whole b then position a * division b < position b * division a
      else False)"

definition dur_le :: "'a duration_scheme \<Rightarrow> 'b duration_scheme \<Rightarrow> bool" where
  "dur_le a b =
     (if whole a < whole b then True
      else if whole a = whole b then position a * division b \<le> position b * division a
      else False)"

text \<open>The loop of \<open>operator-\<close>, which converts the whole bars to fractions one by one.\<close>

function minus_loop :: "u32 \<Rightarrow> u32 \<Rightarrow> u32 \<Rightarrow> u32 \<Rightarrow> u32" where
  "minus_loop w ow p d = (if ow < w then minus_loop (w - 1) ow (p + d) d else p)"
  by pat_completeness auto
termination
proof (relation "measure (\<lambda>(w, ow, p, d). unat w)", goal_cases)
  case (2 w ow p d)
  then have "w \<noteq> 0" by auto
  then show ?case using unat_minus_one [of w] by (simp add: unat_gt_0)
qed simp

declare minus_loop.simps [simp del]

definition dur_minus :: "'a duration_scheme \<Rightarrow> 'b duration_scheme \<Rightarrow> duration res" where
  "dur_minus a b =
     (if division a = division b
      then Inr (mk_dur 0 (minus_loop (whole a) (whole b) (position a) (division a) - position b)
                  (division a))
      else Inl (Logic_error ''cannot subtract different divisors (not implemented)''))"

section \<open>Positions\<close>

type_synonym position = duration

definition default_position :: position where
  "default_position = mk_dur 0 0 1"

definition Position :: "u32 \<Rightarrow> u32 \<Rightarrow> u32 \<Rightarrow> position res" where
  "Position b p d =
     bind_res (Duration b p d) (\<lambda>r.
       if b = 0 then Inl (Logic_error ''there is no zero bar'') else Inr r)"

definition pos_plus :: "'a duration_scheme \<Rightarrow> 'b duration_scheme \<Rightarrow> 'a duration_scheme res" where
  "pos_plus p d =
     normalize_dur
       (let p1 = p\<lparr>whole := whole p + whole d\<rparr> in
        if division p = division d then p1\<lparr>position := position p + position d\<rparr>
        else p1\<lparr>position := position p * division d + position d * division p,
                division := division p * division d\<rparr>)"

text \<open>
  The fields of JACK's \<open>jack_position_t\<close> the program reads or writes.
\<close>

record jack_position =
  j_valid :: u32
  j_usecs :: u64
  j_frame :: u32
  j_frame_rate :: u32
  j_bar :: int
  j_beat :: int
  j_tick :: int
  j_bar_start_tick :: rat
  j_beats_per_bar :: rat
  j_beat_type :: rat
  j_ticks_per_beat :: rat
  j_beats_per_minute :: rat

definition event_tick :: "'a duration_scheme \<Rightarrow> jack_position \<Rightarrow> u32" where
  "event_tick p pos =
     word_of_int (trunc (rnd_double
       (rnd_double (rnd_double (of_nat (unat (position p)) * j_ticks_per_beat pos) * j_beats_per_bar pos)
        / of_nat (unat (division p)))))"

definition tick_offset :: "'a duration_scheme \<Rightarrow> jack_position \<Rightarrow> int" where
  "tick_offset p pos =
     (let bars = sint (whole p - word_of_int (j_bar pos));
          beats = rnd_float (rnd_float (rnd_float (rnd_float (of_int bars) * j_beats_per_bar pos) + 1)
                    - rnd_float (of_int (j_beat pos)))
      in trunc (rnd_double (rnd_double (rnd_double (beats * j_ticks_per_beat pos)
                    + of_nat (unat (event_tick p pos))) - of_int (j_tick pos))))"

definition calculateFrameOffset :: "'a duration_scheme \<Rightarrow> jack_position \<Rightarrow> int" where
  "calculateFrameOffset p pos =
     trunc (rnd_double (rnd_double (of_int (tick_offset p pos * int (unat (j_frame_rate pos)) * 60))
              / rnd_double (j_ticks_per_beat pos * j_beats_per_minute pos)))"

section \<open>Time positions and time signatures\<close>

record time_position = duration +
  tp_time :: u64

text \<open>
  A \<open>TimePosition\<close> built from a transport position: unless the position is valid it keeps the
  default bar zero. The constructor with a frame offset does the same and ignores the offset.
\<close>

definition TimePosition :: "jack_position \<Rightarrow> time_position" where
  "TimePosition pos =
     (let d = duration.extend default_position \<lparr>tp_time = j_usecs pos\<rparr> in
      if j_valid pos \<noteq> 0
      then d\<lparr>whole := word_of_int (j_bar pos),
             position := word_of_int (trunc (rnd_double (of_int (j_tick pos)
               + rnd_double (j_ticks_per_beat pos * of_int (j_beat pos - 1))))),
             division := word_of_int (trunc (rnd_double
               (j_ticks_per_beat pos * j_beats_per_bar pos)))\<rparr>
      else d)"

definition TimePosition_at :: "jack_position \<Rightarrow> int \<Rightarrow> time_position" where
  "TimePosition_at pos frame_offset = TimePosition pos"

definition TimePosition_of :: "u32 \<Rightarrow> u32 \<Rightarrow> u32 \<Rightarrow> time_position res" where
  "TimePosition_of b p d =
     bind_res (Position b p d) (\<lambda>r. Inr (duration.extend r \<lparr>tp_time = 0\<rparr>))"

record time_signature =
  ts_valid :: bool
  ts_numerator :: u32
  ts_denominator :: u32

definition no_time_signature :: time_signature where
  "no_time_signature = \<lparr>ts_valid = False, ts_numerator = 0, ts_denominator = 0\<rparr>"

section \<open>The time a duration denotes\<close>

definition dvalue :: "'a duration_scheme \<Rightarrow> rat" where
  "dvalue d = of_nat (unat (whole d)) + of_nat (unat (position d)) / of_nat (unat (division d))"

definition proper :: "'a duration_scheme \<Rightarrow> bool" where
  "proper d \<longleftrightarrow> division d \<noteq> 0 \<and> position d < division d"

lemma mk_dur_simps [simp]:
  "whole (mk_dur w p d) = w" "position (mk_dur w p d) = p" "division (mk_dur w p d) = d"
  by (simp_all add: mk_dur_def)

lemma proper_nat: "proper d \<Longrightarrow> 0 < unat (division d) \<and> unat (position d) < unat (division d)"
  by (simp add: proper_def word_less_nat_alt unat_gt_0)

lemma word_mod_eq_0_iff:
  fixes a b :: u32
  shows "a mod b = 0 \<longleftrightarrow> unat a mod unat b = 0"
  by (metis unat_eq_zero unat_mod)

subsection \<open>Reduction\<close>

lemma reduce_factor_scale:
  assumes "reduce_factor f p q = (p', q')" "q \<noteq> 0"
  shows "q' \<noteq> 0 \<and> (\<exists>k>0. unat p = k * unat p' \<and> unat q = k * unat q')"
  using assms
proof (induction f p q arbitrary: p' q' rule: reduce_factor.induct)
  case (1 f p q)
  show ?case
  proof (cases "1 < f \<and> q \<noteq> 0 \<and> p mod f = 0 \<and> q mod f = 0")
    case True
    then have pq: "unat p = unat f * unat (p div f)" "unat q = unat f * unat (q div f)"
      by (simp_all add: unat_div word_mod_eq_0_iff mod_0_imp_dvd)
    then have "q div f \<noteq> 0" using "1.prems"(2) by (metis mult_0_right unat_0 unat_eq_zero)
    moreover have "reduce_factor f (p div f) (q div f) = (p', q')"
      using "1.prems"(1) True by (simp add: reduce_factor.simps [of f p q])
    ultimately obtain k where "q' \<noteq> 0" "0 < k" "unat (p div f) = k * unat p'"
        "unat (q div f) = k * unat q'"
      using "1.IH" [OF True] by blast
    moreover have "0 < unat f" using True by (simp add: word_less_nat_alt)
    ultimately show ?thesis using pq by (intro conjI exI [of _ "unat f * k"]) simp_all
  next
    case False
    then show ?thesis using "1.prems" by (auto simp: reduce_factor.simps [of f p q])
  qed
qed

lemma reduce_factor_done:
  assumes "reduce_factor f p q = (p', q')" "q \<noteq> 0" "1 < f"
  shows "\<not> (p' mod f = 0 \<and> q' mod f = 0)"
  using assms
proof (induction f p q arbitrary: p' q' rule: reduce_factor.induct)
  case (1 f p q)
  show ?case
  proof (cases "1 < f \<and> q \<noteq> 0 \<and> p mod f = 0 \<and> q mod f = 0")
    case True
    then have "unat q = unat f * unat (q div f)"
      by (simp add: unat_div word_mod_eq_0_iff mod_0_imp_dvd)
    then have "q div f \<noteq> 0" using "1.prems"(2) by (metis mult_0_right unat_0 unat_eq_zero)
    moreover have "reduce_factor f (p div f) (q div f) = (p', q')"
      using "1.prems"(1) True by (simp add: reduce_factor.simps [of f p q])
    ultimately show ?thesis using "1.IH" [OF True] True by simp
  next
    case False
    then have "p' = p" "q' = q"
      using "1.prems"(1) by (simp_all only: reduce_factor.simps [of f p q] if_False prod.inject)
    then show ?thesis using False "1.prems"(2,3) by argo
  qed
qed

text \<open>Dividing both parts of a fraction by a common factor.\<close>

definition scaled :: "'a duration_scheme \<Rightarrow> 'a duration_scheme \<Rightarrow> bool" where
  "scaled d e \<longleftrightarrow>
     whole e = whole d \<and> duration.more e = duration.more d \<and> division e \<noteq> 0 \<and>
     (\<exists>k>0. unat (position d) = k * unat (position e) \<and> unat (division d) = k * unat (division e))"

lemma scaled_trans: "scaled d e \<Longrightarrow> scaled e f \<Longrightarrow> scaled d f"
  unfolding scaled_def by (metis mult.assoc mult_pos_pos)

lemma scaled_refl: "division d \<noteq> 0 \<Longrightarrow> scaled d d"
  unfolding scaled_def by (metis mult_1 zero_less_one)

lemma scaled_dvalue: "scaled d e \<Longrightarrow> dvalue e = dvalue d"
  unfolding scaled_def dvalue_def by auto

lemma scaled_proper: "scaled d e \<Longrightarrow> proper d \<Longrightarrow> proper e"
  unfolding scaled_def proper_def word_less_nat_alt by auto

lemma scaled_dvd:
  assumes "scaled d e" "f dvd unat (position e)" "f dvd unat (division e)"
  shows "f dvd unat (position d) \<and> f dvd unat (division d)"
  using assms unfolding scaled_def by auto

lemma reduce_by_scaled: "division d \<noteq> 0 \<Longrightarrow> scaled d (reduce_by f d)"
  using reduce_factor_scale [of f "position d" "division d"]
  by (auto simp: reduce_by_def scaled_def Let_def split: prod.split)

lemma reduce_by_done:
  assumes "division d \<noteq> 0" "1 < f"
  shows "\<not> (unat f dvd unat (position (reduce_by f d)) \<and>
            unat f dvd unat (division (reduce_by f d)))"
  using reduce_factor_done [of f "position d" "division d"] assms
  by (auto simp: reduce_by_def Let_def word_mod_eq_0_iff mod_eq_0_iff_dvd split: prod.split)

lemma reduce_fold_scaled: "division d \<noteq> 0 \<Longrightarrow> scaled d (fold reduce_by fs d)"
proof (induction fs arbitrary: d)
  case Nil
  then show ?case by (simp add: scaled_refl)
next
  case (Cons f fs)
  then have s: "scaled d (reduce_by f d)" by (simp add: reduce_by_scaled)
  then have "division (reduce_by f d) \<noteq> 0" by (simp add: scaled_def)
  then show ?case using s Cons.IH scaled_trans by (metis fold_simps(2))
qed

lemma reduce_fold_done:
  assumes "division d \<noteq> 0" "f \<in> set fs" "1 < f"
  shows "\<not> (unat f dvd unat (position (fold reduce_by fs d)) \<and>
            unat f dvd unat (division (fold reduce_by fs d)))"
  using assms
proof (induction fs arbitrary: d)
  case (Cons g fs)
  have nz: "division (reduce_by g d) \<noteq> 0"
    using reduce_by_scaled [OF Cons.prems(1), of g] by (simp add: scaled_def)
  show ?case
  proof (cases "f = g")
    case True
    show ?thesis
      using reduce_by_done [OF Cons.prems(1,3)]
        scaled_dvd [OF reduce_fold_scaled [OF nz, of fs], of "unat g"]
      by (auto simp: True)
  next
    case False
    then show ?thesis using Cons.IH [OF nz] Cons.prems by simp
  qed
qed simp

section \<open>Normalising\<close>

text \<open>The carry into the whole bars fits in 32 bits.\<close>

definition carry_fits :: "'a duration_scheme \<Rightarrow> bool" where
  "carry_fits d \<longleftrightarrow> unat (whole d) + unat (position d) div unat (division d) < 2 ^ 32"

definition carry :: "'a duration_scheme \<Rightarrow> 'a duration_scheme" where
  "carry d = (if division d \<le> position d
              then d\<lparr>whole := whole d + position d div division d,
                     position := position d mod division d\<rparr>
              else d)"

lemma normalize_carry:
  "normalize_dur d = (if division d = 0 then Inl (Undefined ''integer division by zero'')
     else Inr (if MAX_DENOMINATOR < division (carry d)
               then fold reduce_by [7, 6, 5, 4, 3, 2] (carry d) else carry d))"
  by (simp add: normalize_dur_def carry_def Let_def)

lemma carry_division [simp]: "division (carry d) = division d"
  by (simp add: carry_def)

lemma carry_proper: "division d \<noteq> 0 \<Longrightarrow> proper (carry d)"
  by (auto simp: proper_def carry_def word_less_nat_alt word_le_nat_alt unat_mod unat_gt_0)

lemma carry_dvalue:
  assumes "division d \<noteq> 0" "carry_fits d"
  shows "dvalue (carry d) = dvalue d"
proof (cases "division d \<le> position d")
  case True
  define p q where "p = unat (position d)" and "q = unat (division d)"
  have q: "0 < q" using assms(1) by (simp add: q_def unat_gt_0)
  have "unat (whole d + position d div division d) = unat (whole d) + p div q"
    using assms(2) unfolding carry_fits_def p_def q_def
    by (subst unat_add_bounded) (simp_all add: unat_div)
  moreover have "unat (position d mod division d) = p mod q" by (simp add: unat_mod p_def q_def)
  moreover have "(of_nat (p div q) + of_nat (p mod q) / of_nat q :: rat) = of_nat p / of_nat q"
  proof -
    have "(of_nat p :: rat) = of_nat (p div q) * of_nat q + of_nat (p mod q)"
      by (metis div_mult_mod_eq of_nat_add of_nat_mult)
    then show ?thesis using q by (simp add: add_divide_distrib)
  qed
  ultimately show ?thesis using True by (simp add: dvalue_def carry_def p_def q_def)
qed (simp add: carry_def)

lemma normalize_scaled:
  assumes "normalize_dur d = Inr e"
  shows "division d \<noteq> 0 \<and> scaled (carry d) e"
proof -
  have "division d \<noteq> 0" using assms by (auto simp: normalize_carry)
  then show ?thesis
    using assms reduce_fold_scaled [of "carry d" "[7, 6, 5, 4, 3, 2]"] scaled_refl [of "carry d"]
    by (auto simp: normalize_carry split: if_splits)
qed

lemma normalize_ok: "division d \<noteq> 0 \<Longrightarrow> \<exists>e. normalize_dur d = Inr e"
  by (simp add: normalize_carry)

lemma normalize_proper: "normalize_dur d = Inr e \<Longrightarrow> proper e"
  using normalize_scaled carry_proper scaled_proper by blast

lemma normalize_dvalue: "normalize_dur d = Inr e \<Longrightarrow> carry_fits d \<Longrightarrow> dvalue e = dvalue d"
  using normalize_scaled carry_dvalue scaled_dvalue by metis

lemma normalize_more: "normalize_dur d = Inr e \<Longrightarrow> duration.more e = duration.more d"
  using normalize_scaled [of d e] by (auto simp: scaled_def carry_def split: if_splits)

lemma proper_carry_fits: "proper d \<Longrightarrow> carry_fits d"
  using unat_u32_less [of "whole d"] by (auto simp: carry_fits_def dest: proper_nat)

text \<open>
  Normalising a small proper fraction changes nothing: below the denominator limit the
  code never reduces.
\<close>

lemma normalize_id: "proper d \<Longrightarrow> division d \<le> MAX_DENOMINATOR \<Longrightarrow> normalize_dur d = Inr d"
  by (auto simp: normalize_carry carry_def proper_def)

section \<open>Comparing\<close>

text \<open>The cross products of the comparison fit in 32 bits.\<close>

definition cross_fits :: "'a duration_scheme \<Rightarrow> 'b duration_scheme \<Rightarrow> bool" where
  "cross_fits a b \<longleftrightarrow>
     unat (position a) * unat (division b) < 2 ^ 32 \<and>
     unat (position b) * unat (division a) < 2 ^ 32"

lemma cross_fits_small:
  assumes "proper a" "proper b" "unat (division a) * unat (division b) \<le> 2 ^ 32"
  shows "cross_fits a b"
proof -
  have "unat (position a) * unat (division b) < unat (division a) * unat (division b)"
    "unat (position b) * unat (division a) < unat (division b) * unat (division a)"
    using proper_nat [OF assms(1)] proper_nat [OF assms(2)] by simp_all
  moreover have "unat (division b) * unat (division a) \<le> 2 ^ 32"
    using assms(3) by (simp add: mult.commute)
  ultimately show ?thesis using assms(3) unfolding cross_fits_def by linarith
qed

lemma frac_lt_one: "proper d \<Longrightarrow> (of_nat (unat (position d)) / of_nat (unat (division d)) :: rat) < 1"
  by (drule proper_nat) simp

lemma whole_less_dvalue:
  assumes "proper a" "proper b" "unat (whole a) < unat (whole b)"
  shows "dvalue a < dvalue b"
proof -
  have "of_nat (unat (whole a) + 1) \<le> (of_nat (unat (whole b)) :: rat)"
    using assms(3) by (simp only: of_nat_le_iff)
  then have "of_nat (unat (whole a)) + 1 \<le> (of_nat (unat (whole b)) :: rat)" by simp
  moreover have "0 \<le> (of_nat (unat (position b)) / of_nat (unat (division b)) :: rat)" by simp
  ultimately show ?thesis using frac_lt_one [OF assms(1)] unfolding dvalue_def by linarith
qed

lemma cross_less:
  assumes "proper a" "proper b" "cross_fits a b"
  shows "position a * division b < position b * division a \<longleftrightarrow>
     (of_nat (unat (position a)) / of_nat (unat (division a)) :: rat)
       < of_nat (unat (position b)) / of_nat (unat (division b))"
    and "position a * division b \<le> position b * division a \<longleftrightarrow>
     (of_nat (unat (position a)) / of_nat (unat (division a)) :: rat)
       \<le> of_nat (unat (position b)) / of_nat (unat (division b))"
proof -
  have u: "unat (position a * division b) = unat (position a) * unat (division b)"
    "unat (position b * division a) = unat (position b) * unat (division a)"
    using assms(3) by (simp_all add: cross_fits_def unat_mult_bounded)
  have pos: "0 < unat (division a)" "0 < unat (division b)"
    using assms(1,2) proper_nat by blast+
  show "position a * division b < position b * division a \<longleftrightarrow>
     (of_nat (unat (position a)) / of_nat (unat (division a)) :: rat)
       < of_nat (unat (position b)) / of_nat (unat (division b))"
    using pos by (simp add: word_less_nat_alt u divide_less_eq less_divide_eq)
      (simp flip: of_nat_mult)
  show "position a * division b \<le> position b * division a \<longleftrightarrow>
     (of_nat (unat (position a)) / of_nat (unat (division a)) :: rat)
       \<le> of_nat (unat (position b)) / of_nat (unat (division b))"
    using pos by (simp add: word_le_nat_alt u divide_le_eq le_divide_eq)
      (simp flip: of_nat_mult)
qed

lemma dur_less_iff:
  assumes "proper a" "proper b" "cross_fits a b"
  shows "dur_less a b \<longleftrightarrow> dvalue a < dvalue b"
proof (cases "unat (whole a)" "unat (whole b)" rule: linorder_cases)
  case less
  then show ?thesis
    using whole_less_dvalue [OF assms(1,2)] by (simp add: dur_less_def word_less_nat_alt)
next
  case equal
  then have "whole a = whole b" by (simp only: word_unat_eq_iff)
  then show ?thesis using cross_less(1) [OF assms] by (simp add: dur_less_def dvalue_def)
next
  case greater
  then show ?thesis
    using whole_less_dvalue [OF assms(2,1)]
    by (auto simp: dur_less_def word_less_nat_alt)
qed

lemma dur_le_iff:
  assumes "proper a" "proper b" "cross_fits a b"
  shows "dur_le a b \<longleftrightarrow> dvalue a \<le> dvalue b"
proof (cases "unat (whole a)" "unat (whole b)" rule: linorder_cases)
  case less
  then show ?thesis
    using whole_less_dvalue [OF assms(1,2)] by (simp add: dur_le_def word_less_nat_alt)
next
  case equal
  then have "whole a = whole b" by (simp only: word_unat_eq_iff)
  then show ?thesis using cross_less(2) [OF assms] by (simp add: dur_le_def dvalue_def)
next
  case greater
  then show ?thesis
    using whole_less_dvalue [OF assms(2,1)]
    by (auto simp: dur_le_def word_less_nat_alt)
qed

section \<open>Adding and subtracting\<close>

text \<open>No 32-bit product or sum of \<open>operator+=\<close> wraps.\<close>

definition sum_fits :: "'a duration_scheme \<Rightarrow> 'b duration_scheme \<Rightarrow> bool" where
  "sum_fits p d \<longleftrightarrow>
     unat (whole p) + unat (whole d) + 1 < 2 ^ 32 \<and>
     (if division p = division d then unat (position p) + unat (position d) < 2 ^ 32
      else unat (position p) * unat (division d) + unat (position d) * unat (division p) < 2 ^ 32 \<and>
           unat (division p) * unat (division d) < 2 ^ 32)"

definition raw_sum :: "'a duration_scheme \<Rightarrow> 'b duration_scheme \<Rightarrow> 'a duration_scheme" where
  "raw_sum p d =
     (let p1 = p\<lparr>whole := whole p + whole d\<rparr> in
      if division p = division d then p1\<lparr>position := position p + position d\<rparr>
      else p1\<lparr>position := position p * division d + position d * division p,
              division := division p * division d\<rparr>)"

lemma pos_plus_raw: "pos_plus p d = normalize_dur (raw_sum p d)"
  by (simp add: pos_plus_def raw_sum_def)

lemma raw_sum_parts:
  assumes "proper p" "proper d" "sum_fits p d"
  shows "unat (whole (raw_sum p d)) = unat (whole p) + unat (whole d)"
    and "division (raw_sum p d) \<noteq> 0"
    and "(of_nat (unat (position (raw_sum p d))) / of_nat (unat (division (raw_sum p d))) :: rat)
         = of_nat (unat (position p)) / of_nat (unat (division p))
           + of_nat (unat (position d)) / of_nat (unat (division d))"
proof -
  note pn = proper_nat [OF assms(1)] proper_nat [OF assms(2)]
  have "unat (whole p + whole d) = unat (whole p) + unat (whole d)"
    using assms(3) by (intro unat_add_bounded) (simp add: sum_fits_def)
  then show "unat (whole (raw_sum p d)) = unat (whole p) + unat (whole d)"
    by (simp add: raw_sum_def Let_def)
  show "division (raw_sum p d) \<noteq> 0"
  proof (cases "division p = division d")
    case True
    then show ?thesis using assms(1) by (simp add: raw_sum_def Let_def proper_def)
  next
    case False
    then have "unat (division p * division d) = unat (division p) * unat (division d)"
      using assms(3) by (simp add: sum_fits_def unat_mult_bounded)
    then show ?thesis using False pn by (auto simp: raw_sum_def Let_def)
  qed
  show "(of_nat (unat (position (raw_sum p d))) / of_nat (unat (division (raw_sum p d))) :: rat)
         = of_nat (unat (position p)) / of_nat (unat (division p))
           + of_nat (unat (position d)) / of_nat (unat (division d))"
  proof (cases "division p = division d")
    case True
    then have "unat (position p + position d) = unat (position p) + unat (position d)"
      using assms(3) by (simp add: sum_fits_def unat_add_bounded)
    then show ?thesis using True by (simp add: raw_sum_def Let_def add_divide_distrib)
  next
    case False
    then have fits: "unat (position p) * unat (division d) + unat (position d) * unat (division p) < 2 ^ 32"
      "unat (division p) * unat (division d) < 2 ^ 32"
      using assms(3) by (simp_all add: sum_fits_def)
    have "unat (division p * division d) = unat (division p) * unat (division d)"
      "unat (position p * division d) = unat (position p) * unat (division d)"
      "unat (position d * division p) = unat (position d) * unat (division p)"
      using fits by (simp_all add: unat_mult_bounded)
    moreover from this(2,3) have "unat (position p * division d + position d * division p)
        = unat (position p) * unat (division d) + unat (position d) * unat (division p)"
      using fits(1) by (simp add: unat_add_bounded)
    ultimately show ?thesis using False pn by (simp add: raw_sum_def Let_def field_simps)
  qed
qed

lemma raw_sum_carry_fits:
  assumes "proper p" "proper d" "sum_fits p d"
  shows "carry_fits (raw_sum p d)"
proof -
  let ?s = "raw_sum p d"
  have q: "0 < unat (division ?s)" using raw_sum_parts(2) [OF assms] by (simp add: unat_gt_0)
  have "(of_nat (unat (position ?s)) / of_nat (unat (division ?s)) :: rat) < 2"
    using raw_sum_parts(3) [OF assms] frac_lt_one [OF assms(1)] frac_lt_one [OF assms(2)] by linarith
  then have "(of_nat (unat (position ?s)) :: rat) < of_nat (2 * unat (division ?s))"
    using q by (simp add: divide_less_eq)
  then have "unat (position ?s) < 2 * unat (division ?s)" by (simp only: of_nat_less_iff)
  then have "unat (position ?s) div unat (division ?s) \<le> 1"
    using less_mult_imp_div_less [of _ 2] by (simp add: less_Suc_eq_le [symmetric] numeral_2_eq_2)
  then show ?thesis
    using raw_sum_parts(1) [OF assms] assms(3) by (simp add: carry_fits_def sum_fits_def)
qed

lemma pos_plus_dvalue:
  assumes "proper p" "proper d" "sum_fits p d"
  shows "\<exists>r. pos_plus p d = Inr r \<and> proper r \<and> dvalue r = dvalue p + dvalue d \<and>
             duration.more r = duration.more p"
proof -
  obtain r where r: "normalize_dur (raw_sum p d) = Inr r"
    using normalize_ok raw_sum_parts(2) [OF assms] by blast
  have "dvalue r = dvalue (raw_sum p d)"
    using normalize_dvalue [OF r raw_sum_carry_fits [OF assms]] .
  also have "\<dots> = dvalue p + dvalue d"
    using raw_sum_parts(1,3) [OF assms] by (simp add: dvalue_def)
  finally show ?thesis
    using r normalize_proper [OF r] normalize_more [OF r]
    by (simp add: pos_plus_raw raw_sum_def Let_def)
qed

text \<open>The sum faults exactly when the product of two different denominators wraps to zero.\<close>

lemma pos_plus_fault:
  assumes "division p \<noteq> 0"
  shows "\<not> is_ok (pos_plus p d) \<longleftrightarrow>
     division p \<noteq> division d \<and> division p * division d = 0"
  using assms by (auto simp: pos_plus_raw normalize_carry raw_sum_def Let_def is_ok_iff)

lemma minus_loop_unat:
  assumes "unat p + (unat w - unat ow) * unat d < 2 ^ 32"
  shows "unat (minus_loop w ow p d) = unat p + (unat w - unat ow) * unat d"
  using assms
proof (induction w ow p d rule: minus_loop.induct)
  case (1 w ow p d)
  show ?case
  proof (cases "ow < w")
    case True
    then have "w \<noteq> 0" "unat ow < unat w" by (auto simp: word_less_nat_alt)
    then have w: "unat (w - 1) = unat w - 1" "unat ow < unat w"
      using unat_minus_one [of w] by simp_all
    obtain k where k: "unat w - unat ow = Suc k" "unat (w - 1) - unat ow = k"
      using w by (intro that [of "unat w - unat ow - 1"]) arith+
    then have "unat p + unat d < 2 ^ 32" using "1.prems" by simp
    then have pd: "unat (p + d) = unat p + unat d" by (simp add: unat_add_bounded)
    have "unat (minus_loop (w - 1) ow (p + d) d) = unat p + unat d + k * unat d"
      using "1.IH" [OF True] "1.prems" by (simp add: k pd)
    then show ?thesis
      using True by (simp add: minus_loop.simps [of w ow p d] k)
  next
    case False
    then show ?thesis by (simp add: minus_loop.simps [of w ow p d] word_less_nat_alt)
  qed
qed

lemma dur_minus_dvalue:
  assumes "division a = division b" "division a \<noteq> 0" "dvalue b \<le> dvalue a"
    "unat (whole b) \<le> unat (whole a)"
    "unat (position a) + (unat (whole a) - unat (whole b)) * unat (division a) < 2 ^ 32"
  shows "\<exists>r. dur_minus a b = Inr r \<and> whole r = 0 \<and> division r = division a \<and>
             dvalue r = dvalue a - dvalue b"
proof -
  define n where "n = unat (position a) + (unat (whole a) - unat (whole b)) * unat (division a)"
  define m where "m = minus_loop (whole a) (whole b) (position a) (division a)"
  have m: "unat m = n" using minus_loop_unat assms(5) by (simp add: m_def n_def)
  have q: "0 < unat (division a)" using assms(2) by (simp add: unat_gt_0)
  have nv: "(of_nat n :: rat) / of_nat (unat (division a)) = dvalue a - of_nat (unat (whole b))"
    using q assms(4) by (simp add: n_def dvalue_def field_simps of_nat_diff)
  have "(of_nat (unat (position b)) / of_nat (unat (division a)) :: rat)
      \<le> of_nat n / of_nat (unat (division a))"
    using assms(1,3) unfolding nv by (simp add: dvalue_def)
  then have "unat (position b) \<le> n" using q by (simp add: divide_le_cancel)
  then have s: "unat (m - position b) = n - unat (position b)"
    using m by (simp add: unat_sub word_le_nat_alt)
  have "dvalue (mk_dur 0 (m - position b) (division a)) = dvalue a - dvalue b"
    using \<open>unat (position b) \<le> n\<close> nv assms(1)
    by (simp add: dvalue_def s of_nat_diff diff_divide_distrib)
  then show ?thesis using assms(1) by (simp add: dur_minus_def m_def)
qed

lemma Duration_ok: "is_ok (Duration w p d) \<longleftrightarrow> d \<noteq> 0"
  by (simp add: Duration_def normalize_carry)

lemma Position_ok: "is_ok (Position b p d) \<longleftrightarrow> d \<noteq> 0 \<and> b \<noteq> 0"
  by (auto simp: Position_def bind_res_def Duration_def normalize_carry split: sum.splits)

lemma Position_fault_order:
  "Position b p 0 = Inl (Logic_error ''division cannot be zero!'')"
  "d \<noteq> 0 \<Longrightarrow> Position 0 p d = Inl (Logic_error ''there is no zero bar'')"
  by (simp_all add: Position_def Duration_def normalize_carry)

lemma Position_proper: "Position b p d = Inr r \<Longrightarrow> proper r"
  by (auto simp: Position_def bind_res_eq_Inr Duration_def split: if_splits dest: normalize_proper)

lemma Position_dvalue:
  assumes "Position b p d = Inr r" "unat b + unat p div unat d < 2 ^ 32"
  shows "dvalue r = of_nat (unat b) + of_nat (unat p) / of_nat (unat d)"
proof -
  have "normalize_dur (mk_dur b p d) = Inr r"
    using assms(1) by (auto simp: Position_def bind_res_eq_Inr Duration_def split: if_splits)
  then show ?thesis
    using assms(2) by (simp add: normalize_dvalue carry_fits_def) (simp add: dvalue_def)
qed

lemma Position_whole_pos:
  assumes "Position b p d = Inr r" "unat b + unat p div unat d < 2 ^ 32"
  shows "whole r \<noteq> 0"
proof
  assume "whole r = 0"
  then have "dvalue r < 1" using frac_lt_one [OF Position_proper [OF assms(1)]] by (simp add: dvalue_def)
  moreover have "b \<noteq> 0" using Position_ok [of b p d] assms(1) by simp
  then have "1 \<le> (of_nat (unat b) :: rat)" by (simp add: unat_gt_0 Suc_le_eq)
  moreover have "0 \<le> (of_nat (unat p) / of_nat (unat d) :: rat)" by simp
  ultimately show False using Position_dvalue [OF assms] by linarith
qed

section \<open>Frame offsets\<close>

text \<open>
  A transport position with a whole number of ticks per beat and of beats per bar, small
  enough that single precision holds the beats and double precision the ticks. The JACK
  timebase of this program uses 1920 ticks per beat.
\<close>

definition metre :: "int \<Rightarrow> int \<Rightarrow> jack_position \<Rightarrow> bool" where
  "metre T B pos \<longleftrightarrow>
     j_ticks_per_beat pos = of_int T \<and> j_beats_per_bar pos = of_int B \<and>
     0 < T \<and> 0 < B \<and> T * B < 2 ^ 21 \<and>
     0 \<le> j_beat pos \<and> j_beat pos < 2 ^ 22 \<and> \<bar>j_tick pos\<bar> < 2 ^ 31"

definition near :: "int \<Rightarrow> 'a duration_scheme \<Rightarrow> jack_position \<Rightarrow> bool" where
  "near B p pos \<longleftrightarrow> \<bar>int (unat (whole p)) - j_bar pos\<bar> * B < 2 ^ 22"

definition exact_tick :: "int \<Rightarrow> int \<Rightarrow> 'a duration_scheme \<Rightarrow> jack_position \<Rightarrow> int" where
  "exact_tick T B p pos =
     ((int (unat (whole p)) - j_bar pos) * B + 1 - j_beat pos) * T
     + (int (unat (position p)) * T * B) div int (unat (division p)) - j_tick pos"

lemma int_div_bound:
  fixes P D K :: int
  assumes "0 \<le> P" "P < D" "0 < K"
  shows "0 \<le> P * K div D \<and> P * K div D < K"
proof -
  have "P * K div D * D \<le> P * K"
    using div_mult_mod_eq [of "P * K" D] pos_mod_sign [of D "P * K"] assms by linarith
  also have "P * K < K * D" using mult_strict_right_mono [OF assms(2,3)] by (simp add: mult.commute)
  finally have "P * K div D < K" using assms by (simp add: mult_less_cancel_right)
  then show ?thesis using assms by (simp add: pos_imp_zdiv_nonneg_iff)
qed

lemma rnd_int_prod: "\<bar>a * b\<bar> < 2 ^ p \<Longrightarrow> rnd p (of_int a * of_int b) = of_int (a * b)"
  using rnd_of_int [of "a * b" p] by simp

lemma rnd_int_sum: "\<bar>a + b\<bar> < 2 ^ p \<Longrightarrow> rnd p (of_int a + of_int b) = of_int (a + b)"
  using rnd_of_int [of "a + b" p] by simp

lemma rnd_int_diff: "\<bar>a - b\<bar> < 2 ^ p \<Longrightarrow> rnd p (of_int a - of_int b) = of_int (a - b)"
  using rnd_of_int [of "a - b" p] by simp

lemma event_tick_exact:
  assumes m: "metre T B pos" and p: "proper p"
  shows "int (unat (event_tick p pos)) = (int (unat (position p)) * T * B) div int (unat (division p))"
proof -
  define P where "P = int (unat (position p))"
  define D where "D = int (unat (division p))"
  have PD: "0 \<le> P" "P < D" "P < 2 ^ 32"
    using proper_nat [OF p] unat_u32_less [of "position p"] by (simp_all add: P_def D_def)
  have TB: "0 < T" "0 < B" "T * B < 2 ^ 21" using m by (simp_all add: metre_def)
  have b: "0 \<le> P * (T * B)" "P * (T * B) < 2 ^ 53"
  proof -
    show "0 \<le> P * (T * B)" using PD TB by simp
    have "P * (T * B) \<le> 2 ^ 32 * (T * B)" using PD TB by (intro mult_right_mono) simp_all
    also have "\<dots> < 2 ^ 32 * 2 ^ 21" using TB by (intro mult_strict_left_mono) simp_all
    finally show "P * (T * B) < 2 ^ 53" by simp
  qed
  have b1: "0 \<le> P * T" "P * T < 2 ^ 53"
  proof -
    show "0 \<le> P * T" using PD TB by simp
    have "P * T * 1 \<le> P * T * B" using PD TB by (intro mult_left_mono) simp_all
    then show "P * T < 2 ^ 53" using b by (simp add: mult.assoc)
  qed
  have q: "0 \<le> P * (T * B) div D" "P * (T * B) div D < T * B"
    using int_div_bound [OF PD(1,2), of "T * B"] TB by simp_all
  have of_P: "(of_nat (unat (position p)) :: rat) = of_int P"
    and of_D: "(of_nat (unat (division p)) :: rat) = of_int D" by (simp_all add: P_def D_def)
  have s1: "rnd_double (of_int P * of_int T) = of_int (P * T)"
    using b1 by (intro rnd_int_prod) simp
  have s2: "rnd_double (of_int (P * T) * of_int B) = of_int (P * T * B)"
    using b by (intro rnd_int_prod) (simp add: mult.assoc)
  have s3: "\<lfloor>rnd_double (of_int (P * T * B) / of_int D)\<rfloor> = P * T * B div D"
  proof -
    have "\<lfloor>rnd_double (of_nat (nat (P * T * B)) / of_nat (nat D))\<rfloor> = int (nat (P * T * B) div nat D)"
      using b PD by (intro floor_rnd_div) (simp_all add: mult.assoc)
    then show ?thesis using b PD by (simp add: mult.assoc zdiv_int)
  qed
  have "0 \<le> rnd_double (of_int (P * T * B) / of_int D)"
    using b PD by (intro rnd_nonneg divide_nonneg_pos) (simp_all add: mult.assoc del: of_int_mult)
  then have "trunc (rnd_double (of_int (P * T * B) / of_int D)) = P * T * B div D"
    unfolding s3 [symmetric] by (rule trunc_floor)
  moreover have "j_ticks_per_beat pos = of_int T" "j_beats_per_bar pos = of_int B"
    using m by (simp_all add: metre_def)
  ultimately have "event_tick p pos = word_of_int (P * T * B div D)"
    by (simp only: event_tick_def of_P of_D s1 s2)
  moreover have "P * T * B div D < 2 ^ 32" using q TB by (simp add: mult.assoc)
  ultimately show ?thesis
    using q by (simp add: P_def D_def unat_u32_of_int mult.assoc)
qed

lemma bars_exact:
  assumes "\<bar>int (unat (w :: u32)) - b\<bar> < 2 ^ 31"
  shows "sint (w - word_of_int b) = int (unat w) - b"
proof -
  have "w - word_of_int b = word_of_int (int (unat w) - b)" by (simp add: of_nat_unat)
  then have "sint (w - word_of_int b) = signed_take_bit 31 (int (unat w) - b)"
    by (simp only: sint_sbintrunc') simp
  also have "\<dots> = int (unat w) - b"
    using assms by (intro signed_take_bit_int_eq_self) simp_all
  finally show ?thesis .
qed

lemma abs_mult_ge: "0 < (B::int) \<Longrightarrow> \<bar>n\<bar> \<le> \<bar>n\<bar> * B"
  using mult_left_mono [of 1 B "\<bar>n\<bar>"] by simp

lemma tick_offset_exact:
  assumes m: "metre T B pos" and p: "proper p" and nr: "near B p pos"
  shows "tick_offset p pos = exact_tick T B p pos"
proof -
  define n where "n = int (unat (whole p)) - j_bar pos"
  define k where "k = n * B + 1 - j_beat pos"
  define e where "e = int (unat (event_tick p pos))"
  have TB: "0 < T" "0 < B" "T * B < 2 ^ 21" "0 \<le> j_beat pos" "j_beat pos < 2 ^ 22"
    "\<bar>j_tick pos\<bar> < 2 ^ 31" using m by (simp_all add: metre_def)
  have nB: "\<bar>n * B\<bar> < 2 ^ 22" using nr TB(2) by (simp add: near_def n_def abs_mult)
  have n: "\<bar>n\<bar> < 2 ^ 22" using nr abs_mult_ge [OF TB(2), of n] by (simp add: near_def n_def)
  have "T * 1 \<le> T * B" using TB by (intro mult_left_mono) simp_all
  then have T: "T < 2 ^ 21" using TB(3) by linarith
  have k: "\<bar>k\<bar> < 2 ^ 24" using nB TB(4,5) by (simp add: k_def)
  have kT: "\<bar>k * T\<bar> < 2 ^ 45"
  proof -
    have "\<bar>k\<bar> * T \<le> 2 ^ 24 * T" using k TB(1) by (intro mult_right_mono) simp_all
    also have "\<dots> < 2 ^ 24 * 2 ^ 21" using T by simp
    finally show ?thesis using TB(1) by (simp add: abs_mult)
  qed
  have e: "0 \<le> e" "e < 2 ^ 32" using unat_u32_less [of "event_tick p pos"] by (simp_all add: e_def)
  have bars: "sint (whole p - word_of_int (j_bar pos)) = n"
    using n by (simp add: n_def bars_exact)
  have f1: "rnd_float (of_int n) = of_int n" using n by (intro rnd_of_int) simp
  have f2: "rnd_float (of_int n * of_int B) = of_int (n * B)" using nB by (intro rnd_int_prod) simp
  have f3: "rnd_float (of_int (n * B) + 1) = of_int (n * B + 1)"
    using rnd_of_int [of "n * B + 1" 24] nB by simp
  have f4: "rnd_float (of_int (j_beat pos)) = of_int (j_beat pos)"
    using TB(4,5) by (intro rnd_of_int) simp
  have f5: "rnd_float (of_int (n * B + 1) - of_int (j_beat pos)) = of_int k"
    using k unfolding k_def by (intro rnd_int_diff) simp
  have d1: "rnd_double (of_int k * of_int T) = of_int (k * T)" using kT by (intro rnd_int_prod) simp
  have d2: "rnd_double (of_int (k * T) + of_int e) = of_int (k * T + e)"
    using kT e by (intro rnd_int_sum) simp
  have d3: "rnd_double (of_int (k * T + e) - of_int (j_tick pos)) = of_int (k * T + e - j_tick pos)"
    using kT e TB(6) by (intro rnd_int_diff) simp
  have of_e: "(of_nat (unat (event_tick p pos)) :: rat) = of_int e" by (simp add: e_def)
  have jm: "j_ticks_per_beat pos = of_int T" "j_beats_per_bar pos = of_int B"
    using m by (simp_all add: metre_def)
  have "tick_offset p pos = k * T + e - j_tick pos"
    unfolding tick_offset_def Let_def bars jm f1 f2 f3 f4 f5 d1 of_e d2 d3 by (rule trunc_of_int)
  then show ?thesis
    using event_tick_exact [OF m p] by (simp add: exact_tick_def e_def k_def n_def)
qed

text \<open>The tick grows with the time the position denotes.\<close>

lemma exact_tick_mono:
  assumes m: "metre T B pos" and p: "proper p" and q: "proper q" and le: "dvalue p \<le> dvalue q"
  shows "exact_tick T B p pos \<le> exact_tick T B q pos"
proof -
  have TB: "0 < T" "0 < B" using m by (simp_all add: metre_def)
  define wp wq where "wp = int (unat (whole p))" and "wq = int (unat (whole q))"
  define tp tq where "tp = int (unat (position p)) * T * B div int (unat (division p))"
    and "tq = int (unat (position q)) * T * B div int (unat (division q))"
  have tb: "0 \<le> tp" "tp < T * B" "0 \<le> tq" "tq < T * B"
    using int_div_bound [of "int (unat (position p))" "int (unat (division p))" "T * B"]
      int_div_bound [of "int (unat (position q))" "int (unat (division q))" "T * B"]
      proper_nat [OF p] proper_nat [OF q] TB
    by (simp_all add: tp_def tq_def mult.assoc)
  have "unat (whole p) \<le> unat (whole q)"
    using whole_less_dvalue [OF q p] le by (meson leD not_le_imp_less)
  then have "wp \<le> wq" by (simp add: wp_def wq_def)
  have "wp * (B * T) + tp \<le> wq * (B * T) + tq"
  proof (cases "wp = wq")
    case True
    then have fr: "(of_nat (unat (position p)) / of_nat (unat (division p)) :: rat)
        \<le> of_nat (unat (position q)) / of_nat (unat (division q))"
      using le by (simp add: dvalue_def wp_def wq_def)
    have fl: "int x * T * B div int y = \<lfloor>(of_nat x / of_nat y :: rat) * of_int (T * B)\<rfloor>" for x y :: nat
      using floor_divide_of_int_eq [of "int x * T * B" "int y", where ?'a = rat]
      by (simp add: mult.assoc times_divide_eq_left)
    have "tp \<le> tq"
      unfolding tp_def tq_def fl using fr TB by (intro floor_mono mult_right_mono) simp_all
    then show ?thesis using True by simp
  next
    case False
    then have "(wp + 1) * (B * T) \<le> wq * (B * T)"
      using \<open>wp \<le> wq\<close> TB by (intro mult_right_mono) simp_all
    then show ?thesis using tb by (simp add: algebra_simps)
  qed
  then show ?thesis
    by (simp add: exact_tick_def wp_def wq_def tp_def tq_def algebra_simps)
qed

lemma frame_offset_tick_mono:
  assumes "tick_offset p pos \<le> tick_offset q pos" "0 \<le> j_ticks_per_beat pos * j_beats_per_minute pos"
  shows "calculateFrameOffset p pos \<le> calculateFrameOffset q pos"
proof -
  have "0 \<le> rnd_double (j_ticks_per_beat pos * j_beats_per_minute pos)"
    using assms(2) by (rule rnd_nonneg)
  moreover have "tick_offset p pos * int (unat (j_frame_rate pos)) * 60
      \<le> tick_offset q pos * int (unat (j_frame_rate pos)) * 60"
    using assms(1) by (intro mult_right_mono) simp_all
  ultimately show ?thesis
    unfolding calculateFrameOffset_def
    by (intro trunc_mono rnd_mono divide_right_mono) (simp_all del: of_int_mult)
qed

lemma frame_offset_zero: "tick_offset p pos = 0 \<Longrightarrow> calculateFrameOffset p pos = 0"
  by (simp add: calculateFrameOffset_def trunc_def)

lemma TimePosition_fields:
  assumes m: "metre T B pos" and v: "j_valid pos \<noteq> 0"
    and r: "1 \<le> j_beat pos" "j_beat pos \<le> B" "0 \<le> j_tick pos" "j_tick pos < T"
  shows "whole (TimePosition pos) = word_of_int (j_bar pos)"
    and "int (unat (position (TimePosition pos))) = j_tick pos + T * (j_beat pos - 1)"
    and "int (unat (division (TimePosition pos))) = T * B"
    and "j_tick pos + T * (j_beat pos - 1) < T * B"
proof -
  have TB: "0 < T" "0 < B" "T * B < 2 ^ 21" using m by (simp_all add: metre_def)
  have a: "0 \<le> T * (j_beat pos - 1)" using TB r by simp
  have "T * (j_beat pos - 1) \<le> T * (B - 1)" using TB r by (intro mult_left_mono) simp_all
  then have b: "j_tick pos + T * (j_beat pos - 1) < T * B"
    using r unfolding right_diff_distrib by linarith
  then show "j_tick pos + T * (j_beat pos - 1) < T * B" .
  have jm: "j_ticks_per_beat pos = of_int T" "j_beats_per_bar pos = of_int B"
    using m by (simp_all add: metre_def)
  have d1: "rnd_double (of_int T * of_int (j_beat pos - 1)) = of_int (T * (j_beat pos - 1))"
    using a b r TB by (intro rnd_int_prod) simp
  have d2: "rnd_double (of_int (j_tick pos) + of_int (T * (j_beat pos - 1)))
      = of_int (j_tick pos + T * (j_beat pos - 1))"
    using a b r TB by (intro rnd_int_sum) simp
  have d3: "rnd_double (of_int T * of_int B) = of_int (T * B)"
    using TB by (intro rnd_int_prod) simp
  show "whole (TimePosition pos) = word_of_int (j_bar pos)"
    using v by (simp add: TimePosition_def Let_def)
  show "int (unat (position (TimePosition pos))) = j_tick pos + T * (j_beat pos - 1)"
  proof -
    have "position (TimePosition pos) = word_of_int (j_tick pos + T * (j_beat pos - 1))"
      using v unfolding TimePosition_def Let_def jm d1 d2 trunc_of_int by simp
    moreover have "0 \<le> j_tick pos + T * (j_beat pos - 1)" using a r(3) by linarith
    moreover have "j_tick pos + T * (j_beat pos - 1) < 2 ^ 32" using b TB(3) by simp
    ultimately show ?thesis by (simp only: unat_u32_of_int)
  qed
  show "int (unat (division (TimePosition pos))) = T * B"
  proof -
    have "division (TimePosition pos) = word_of_int (T * B)"
      using v unfolding TimePosition_def Let_def jm d3 trunc_of_int by simp
    moreover have "0 \<le> T * B" "T * B < 2 ^ 32" using TB by simp_all
    ultimately show ?thesis by (simp only: unat_u32_of_int)
  qed
qed

text \<open>The position built from the transport is where the transport is.\<close>

lemma TimePosition_tick:
  assumes m: "metre T B pos" and v: "j_valid pos \<noteq> 0"
    and r: "1 \<le> j_beat pos" "j_beat pos \<le> B" "0 \<le> j_tick pos" "j_tick pos < T"
    and bar: "0 \<le> j_bar pos" "j_bar pos < 2 ^ 32"
  shows "proper (TimePosition pos)" and "tick_offset (TimePosition pos) pos = 0"
proof -
  note f = TimePosition_fields [OF m v r]
  have TB: "0 < T" "0 < B" using m by (simp_all add: metre_def)
  have "int (unat (position (TimePosition pos))) < int (unat (division (TimePosition pos)))"
    using f by simp
  moreover have "0 < int (unat (division (TimePosition pos)))" unfolding f(3) using TB by simp
  ultimately show p: "proper (TimePosition pos)"
    by (auto simp: proper_def word_less_nat_alt)
  have w: "int (unat (whole (TimePosition pos))) = j_bar pos"
    using bar by (simp add: f(1) unsigned_of_int take_bit_int_eq_self)
  then have "near B (TimePosition pos) pos" by (simp add: near_def)
  then have "tick_offset (TimePosition pos) pos = exact_tick T B (TimePosition pos) pos"
    using m p by (rule tick_offset_exact [rotated 2])
  also have "\<dots> = 0"
  proof -
    have "(j_tick pos + T * (j_beat pos - 1)) * T * B div (T * B) = j_tick pos + T * (j_beat pos - 1)"
      using TB by (simp add: mult.assoc)
    then show ?thesis by (simp add: exact_tick_def w f(2,3) algebra_simps)
  qed
  finally show "tick_offset (TimePosition pos) pos = 0" .
qed

text \<open>Later musical times get no earlier frame offsets.\<close>

lemma frame_offset_mono:
  assumes "metre T B pos" "0 \<le> j_beats_per_minute pos"
    and "proper p" "proper q" "near B p pos" "near B q pos"
    and "dvalue p \<le> dvalue q"
  shows "calculateFrameOffset p pos \<le> calculateFrameOffset q pos"
proof (rule frame_offset_tick_mono)
  show "tick_offset p pos \<le> tick_offset q pos"
    using assms exact_tick_mono [of T B pos p q]
    by (simp add: tick_offset_exact [of T B])
  show "0 \<le> j_ticks_per_beat pos * j_beats_per_minute pos"
    using assms(1,2) by (simp add: metre_def)
qed

section \<open>Properties\<close>


lemma reduce_factor_7_test: "reduce_factor 7 0 401408 = (0, 8192)"
  by (simp add: reduce_factor.simps)


text \<open>the two comparison operators decide the order of the denoted times, for proper
  fractions whose cross products fit in 32 bits.\<close>

theorem comparison_order:
  assumes "proper a" "proper b" "cross_fits a b"
  shows "(dur_less a b \<longleftrightarrow> dvalue a < dvalue b) \<and> (dur_le a b \<longleftrightarrow> dvalue a \<le> dvalue b)"
  using dur_less_iff [OF assms] dur_le_iff [OF assms] by simp

theorem comparison_order_witness:
  "(dur_less (mk_dur 2 1 4) (mk_dur 2 3 8) \<longleftrightarrow> dvalue (mk_dur 2 1 4) < dvalue (mk_dur 2 3 8)) \<and>
   dur_less (mk_dur 2 1 4) (mk_dur 2 3 8)"
proof -
  have "proper (mk_dur 2 1 4)" "proper (mk_dur 2 3 8)" "cross_fits (mk_dur 2 1 4) (mk_dur 2 3 8)"
    by (simp_all add: proper_def cross_fits_def)
  then show ?thesis
    using comparison_order [of "mk_dur 2 1 4" "mk_dur 2 3 8"] by (simp add: dur_less_def)
qed

text \<open>without that bound the comparison is wrong: two normalised fractions under the
  denominator limit whose cross products wrap around compare in the wrong order.\<close>

theorem comparison_wraps:
  "\<exists>(a :: duration) (b :: duration). normalize_dur a = Inr a \<and> normalize_dur b = Inr b \<and> dvalue a < dvalue b \<and>
     dur_less b a \<and> \<not> dur_less a b"
proof -
  let ?a = "mk_dur 1 1 300000" and ?b = "mk_dur 1 14317 300001"
  have "normalize_dur ?a = Inr ?a" "normalize_dur ?b = Inr ?b"
    by (simp_all add: normalize_id proper_def MAX_DENOMINATOR_def)
  moreover have "dvalue ?a < dvalue ?b" by (simp add: dvalue_def)
  moreover have "dur_less ?b ?a" "\<not> dur_less ?a ?b" by (simp_all add: dur_less_def)
  ultimately show ?thesis by (intro exI [of _ ?a] exI [of _ ?b] conjI)
qed

text \<open>C14: adding a duration to a position gives the sum of the denoted times as a proper
  fraction, when no 32-bit intermediate wraps, and keeps what the position carries besides.\<close>

theorem pos_plus_correct:
  assumes "proper p" "proper d" "sum_fits p d"
  shows "\<exists>r. pos_plus p d = Inr r \<and> proper r \<and> dvalue r = dvalue p + dvalue d \<and>
             duration.more r = duration.more p"
  using pos_plus_dvalue [OF assms] .

theorem pos_plus_correct_witness:
  "\<exists>r. pos_plus (mk_dur 1 3 4) (mk_dur 0 1 3) = Inr r \<and> proper r \<and>
       dvalue r = dvalue (mk_dur 1 3 4) + dvalue (mk_dur 0 1 3)"
proof -
  have "proper (mk_dur 1 3 4)" "proper (mk_dur 0 1 3)" "sum_fits (mk_dur 1 3 4) (mk_dur 0 1 3)"
    by (simp_all add: proper_def sum_fits_def)
  then show ?thesis using pos_plus_correct [of "mk_dur 1 3 4" "mk_dur 0 1 3"] by auto
qed

text \<open>C15: a position later in musical time never gets an earlier frame offset, and the position
  read off the transport itself has offset zero, through all the rounding of single and
  double precision.\<close>

theorem frame_offset_order:
  assumes "metre T B pos" "0 \<le> j_beats_per_minute pos"
    and "proper p" "proper q" "near B p pos" "near B q pos"
    and "dvalue p \<le> dvalue q"
  shows "calculateFrameOffset p pos \<le> calculateFrameOffset q pos"
  using frame_offset_mono [OF assms] .

definition example_pos :: jack_position where
  "example_pos = \<lparr>j_valid = 16, j_usecs = 0, j_frame = 0, j_frame_rate = 48000, j_bar = 2,
     j_beat = 3, j_tick = 480, j_bar_start_tick = 7680, j_beats_per_bar = 4, j_beat_type = 4,
     j_ticks_per_beat = 1920, j_beats_per_minute = 120\<rparr>"

lemma example_metre: "metre 1920 4 example_pos"
  by (simp add: metre_def example_pos_def)

theorem frame_offset_order_witness:
  "calculateFrameOffset (mk_dur 2 3 4) example_pos \<le> calculateFrameOffset (mk_dur 3 0 4) example_pos"
proof -
  have "proper (mk_dur 2 3 4)" "proper (mk_dur 3 0 4)"
    "near 4 (mk_dur 2 3 4) example_pos" "near 4 (mk_dur 3 0 4) example_pos"
    "dvalue (mk_dur 2 3 4) \<le> dvalue (mk_dur 3 0 4)" "0 \<le> j_beats_per_minute example_pos"
    by (simp_all add: proper_def near_def example_pos_def dvalue_def)
  then show ?thesis using frame_offset_order [OF example_metre] by blast
qed

text \<open>the position read off a valid transport has frame offset zero at that transport
  position.\<close>

theorem time_position_now:
  assumes "metre T B pos" "j_valid pos \<noteq> 0"
    and "1 \<le> j_beat pos" "j_beat pos \<le> B" "0 \<le> j_tick pos" "j_tick pos < T"
    and "0 \<le> j_bar pos" "j_bar pos < 2 ^ 32"
  shows "calculateFrameOffset (TimePosition pos) pos = 0"
  using TimePosition_tick(2) [OF assms] by (rule frame_offset_zero)

theorem time_position_now_witness:
  "calculateFrameOffset (TimePosition example_pos) example_pos = 0"
  by (rule time_position_now [OF example_metre]) (simp_all add: example_pos_def)

end
