(* ===== verification/Intrusive_Lists.thy ===== *)
theory Intrusive_Lists
  imports Musical_Time
begin

text \<open>
  The intrusive linked lists of \<open>src/listable.h\<close> and \<open>src/eventlist.h\<close>, at the level of their
  pointers: a heap maps the address of an object to its \<open>next\<close> pointer, and a list is the pair
  of pointers \<open>first\<close> and \<open>last\<close>. Dereferencing a null pointer is a fault; a walk along the
  pointers is a partial function, so a cyclic list is a walk that does not return. The lemmas
  show that the operations implement list operations on the sequence of addresses reachable
  from \<open>first\<close>, which the components above use from here on, and where they do not:
  appending an empty list spoils \<open>last\<close>.
\<close>

section \<open>Heap and lists\<close>

type_synonym addr = nat
type_synonym heap = "addr \<Rightarrow> addr option"

record plist =
  first :: "addr option"
  last_ptr :: "addr option"

text \<open>The constructor clears \<open>first\<close> only; \<open>last\<close> holds whatever was in memory.\<close>

definition new_list :: "addr option \<Rightarrow> plist" where
  "new_list garbage = \<lparr>first = None, last_ptr = garbage\<rparr>"

definition List_add :: "addr \<Rightarrow> heap \<times> plist \<Rightarrow> heap \<times> plist" where
  "List_add e hl =
     (let (h, l) = hl;
          l1 = (if first l = None then l\<lparr>last_ptr := Some e\<rparr> else l)
      in (h(e := first l), l1\<lparr>first := Some e\<rparr>))"

definition List_addAll :: "plist \<Rightarrow> heap \<times> plist \<Rightarrow> (heap \<times> plist) res" where
  "List_addAll src hl =
     (let (h, l) = hl in
      if first l = None then Inr (h, l\<lparr>first := first src, last_ptr := last_ptr src\<rparr>)
      else (case last_ptr l of
              None \<Rightarrow> Inl (Undefined ''null pointer'')
            | Some z \<Rightarrow> Inr (h(z := first src), l\<lparr>last_ptr := last_ptr src\<rparr>)))"

definition List_getFirst :: "heap \<times> plist \<Rightarrow> addr option" where
  "List_getFirst hl = first (snd hl)"

definition List_getNext :: "addr \<Rightarrow> heap \<times> plist \<Rightarrow> addr option" where
  "List_getNext e hl = fst hl e"

definition List_pop :: "heap \<times> plist \<Rightarrow> (heap \<times> plist) res" where
  "List_pop hl =
     (let (h, l) = hl in
      case first l of
        None \<Rightarrow> Inl (Undefined ''null pointer'')
      | Some a \<Rightarrow> Inr (h, l\<lparr>first := h a\<rparr>))"

definition List_clear :: "heap \<times> plist \<Rightarrow> heap \<times> plist" where
  "List_clear hl = (fst hl, (snd hl)\<lparr>first := None\<rparr>)"

text \<open>The search of \<open>remove\<close> for the node in front of \<open>elem\<close>.\<close>

partial_function (option) find_prev :: "heap \<Rightarrow> addr \<Rightarrow> addr option \<Rightarrow> addr res option" where
  "find_prev h e x =
     (case x of
        None \<Rightarrow> Some (Inl (Undefined ''null pointer''))
      | Some a \<Rightarrow> if h a = Some e then Some (Inr a) else find_prev h e (h a))"

definition List_remove :: "addr \<Rightarrow> heap \<times> plist \<Rightarrow> (heap \<times> plist) res option" where
  "List_remove e hl =
     (let (h, l) = hl in
      if first l = Some e then Some (Inr (h, l\<lparr>first := h e\<rparr>))
      else (case find_prev h e (first l) of
              None \<Rightarrow> None
            | Some (Inl f) \<Rightarrow> Some (Inl f)
            | Some (Inr p) \<Rightarrow> Some (Inr (h(p := h e), l))))"

section \<open>Ordered insertion\<close>

text \<open>
  \<open>EventList::insert\<close>, over the two comparison operators of the element type. The first branch
  and the branch that appends leave the \<open>next\<close> pointer of the new element alone.
\<close>

partial_function (option) insert_walk :: "(addr \<Rightarrow> addr \<Rightarrow> bool) \<Rightarrow> heap \<Rightarrow> addr \<Rightarrow> addr \<Rightarrow> addr res option" where
  "insert_walk le h elem e =
     (case h e of
        None \<Rightarrow> Some (Inl (Undefined ''null pointer''))
      | Some n \<Rightarrow> if le n elem then insert_walk le h elem n else Some (Inr e))"

definition EventList_insert ::
  "(addr \<Rightarrow> addr \<Rightarrow> bool) \<Rightarrow> (addr \<Rightarrow> addr \<Rightarrow> bool) \<Rightarrow> addr \<Rightarrow> heap \<times> plist \<Rightarrow> (heap \<times> plist) res option"
where
  "EventList_insert le lt elem hl =
     (let (h, l) = hl in
      case first l of
        None \<Rightarrow> Some (Inr (h, \<lparr>first = Some elem, last_ptr = Some elem\<rparr>))
      | Some f \<Rightarrow>
          (case last_ptr l of
             None \<Rightarrow> Some (Inl (Undefined ''null pointer''))
           | Some z \<Rightarrow>
               if le z elem then Some (Inr (h(z := Some elem), l\<lparr>last_ptr := Some elem\<rparr>))
               else if lt elem f then Some (Inr (h(elem := Some f), l\<lparr>first := Some elem\<rparr>))
               else (case insert_walk le h elem f of
                       None \<Rightarrow> None
                     | Some (Inl x) \<Rightarrow> Some (Inl x)
                     | Some (Inr e) \<Rightarrow> Some (Inr (h(elem := h e, e := Some elem), l)))))"

section \<open>The sequence a list holds\<close>

fun linked :: "heap \<Rightarrow> addr option \<Rightarrow> addr list \<Rightarrow> bool" where
  "linked h x [] \<longleftrightarrow> x = None"
| "linked h x (a # as) \<longleftrightarrow> x = Some a \<and> linked h (h a) as"

definition holds :: "heap \<times> plist \<Rightarrow> addr list \<Rightarrow> bool" where
  "holds hl xs \<longleftrightarrow>
     linked (fst hl) (first (snd hl)) xs \<and> distinct xs \<and>
     (xs \<noteq> [] \<longrightarrow> last_ptr (snd hl) = Some (last xs))"

lemma linked_upd [simp]: "a \<notin> set xs \<Longrightarrow> linked (h(a := y)) x xs = linked h x xs"
  by (induction xs arbitrary: x) auto

lemma linked_None [simp]: "linked h None xs \<longleftrightarrow> xs = []"
  by (cases xs) simp_all

lemma linked_unique: "linked h x xs \<Longrightarrow> linked h x ys \<Longrightarrow> xs = ys"
proof (induction xs arbitrary: x ys)
  case Nil
  then show ?case by (cases ys) simp_all
next
  case (Cons a xs)
  then show ?case by (cases ys) auto
qed

lemma linked_append:
  assumes "linked h x xs" "linked h y ys" "xs \<noteq> []" "distinct xs" "set xs \<inter> set ys = {}"
  shows "linked (h(last xs := y)) x (xs @ ys)"
  using assms
proof (induction xs arbitrary: x)
  case (Cons a xs)
  show ?case
  proof (cases "xs = []")
    case True
    have "linked (h(a := y)) y ys" using Cons.prems(2,5) by (subst linked_upd) simp_all
    then show ?thesis using Cons.prems(1) True by (simp add: fun_upd_def)
  next
    case False
    then have "a \<noteq> last xs" using Cons.prems(4) by auto
    then show ?thesis using Cons False by auto
  qed
qed simp

lemma linked_split:
  assumes "linked h x (xs @ a # ys)"
  shows "linked h (h a) ys"
  using assms by (induction xs arbitrary: x) auto

text \<open>Splicing an element in behind \<open>b\<close>.\<close>

lemma linked_splice:
  assumes "linked h x (xs @ b # ys)" "distinct (xs @ b # ys)" "e \<notin> set (xs @ b # ys)"
  shows "linked (h(e := h b, b := Some e)) x (xs @ b # e # ys)"
  using assms by (induction xs arbitrary: x) auto

text \<open>Unlinking the element behind \<open>b\<close>.\<close>

lemma linked_unlink:
  assumes "linked h x (xs @ b # e # ys)" "distinct (xs @ b # e # ys)"
  shows "linked (h(b := h e)) x (xs @ b # ys)"
  using assms by (induction xs arbitrary: x) auto

subsection \<open>The operations\<close>

lemma holds_new: "holds (h, new_list g) []"
  by (simp add: holds_def new_list_def)

lemma holds_getFirst: "holds hl xs \<Longrightarrow> List_getFirst hl = (case xs of [] \<Rightarrow> None | a # _ \<Rightarrow> Some a)"
  by (cases xs) (auto simp: holds_def List_getFirst_def)

lemma holds_getNext:
  assumes "holds hl (xs @ a # ys)"
  shows "List_getNext a hl = (case ys of [] \<Rightarrow> None | b # _ \<Rightarrow> Some b)"
  using linked_split [of "fst hl" "first (snd hl)" xs a ys] assms
  by (cases ys) (auto simp: holds_def List_getNext_def)

lemma holds_add:
  assumes "holds hl xs" "e \<notin> set xs"
  shows "holds (List_add e hl) (e # xs)"
  using assms by (cases hl) (auto simp: holds_def List_add_def Let_def)

lemma holds_addAll:
  assumes "holds (h, l) xs" "holds (h, src) ys" "set xs \<inter> set ys = {}" "xs = [] \<or> ys \<noteq> []"
  shows "\<exists>hl'. List_addAll src (h, l) = Inr hl' \<and> holds hl' (xs @ ys)"
proof (cases "xs = []")
  case True
  then show ?thesis using assms by (simp add: List_addAll_def holds_def)
next
  case False
  then have "first l \<noteq> None" using assms(1) by (cases xs) (auto simp: holds_def)
  then show ?thesis
    using False assms linked_append [of h "first l" xs "first src" ys]
    by (auto simp: List_addAll_def holds_def)
qed

lemma holds_pop:
  assumes "holds hl (a # xs)"
  shows "\<exists>hl'. List_pop hl = Inr hl' \<and> holds hl' xs \<and> List_getFirst hl' = List_getNext a hl"
  using assms by (cases hl) (auto simp: holds_def List_pop_def List_getFirst_def List_getNext_def)

lemma holds_clear: "holds hl xs \<Longrightarrow> holds (List_clear hl) []"
  by (simp add: holds_def List_clear_def)

lemma find_prev_found:
  assumes "linked h x (xs @ b # e # ys)" "distinct (xs @ b # e # ys)"
  shows "find_prev h e x = Some (Inr b)"
  using assms
proof (induction xs arbitrary: x)
  case Nil
  then show ?case by (subst find_prev.simps) simp
next
  case (Cons a xs)
  then have "h a \<noteq> Some e" by (cases xs) auto
  with Cons show ?case by (subst find_prev.simps) auto
qed

lemma find_prev_missing:
  assumes "linked h x xs" "e \<notin> set xs"
  shows "find_prev h e x = Some (Inl (Undefined ''null pointer''))"
  using assms
proof (induction xs arbitrary: x)
  case Nil
  then show ?case by (subst find_prev.simps) simp
next
  case (Cons a xs)
  then have "h a \<noteq> Some e" by (cases xs) auto
  with Cons show ?case by (subst find_prev.simps) auto
qed

text \<open>
  \<open>remove\<close> unlinks the element. It does not maintain \<open>last\<close>, so the list it leaves is well
  formed only if the element was not the last one.
\<close>

lemma remove_linked:
  assumes "holds (h, l) xs" "e \<in> set xs"
  shows "\<exists>h' l'. List_remove e (h, l) = Some (Inr (h', l')) \<and> linked h' (first l') (remove1 e xs) \<and>
           last_ptr l' = last_ptr l"
proof (cases xs)
  case Nil
  then show ?thesis using assms(2) by simp
next
  case (Cons a as)
  show ?thesis
  proof (cases "a = e")
    case True
    then show ?thesis using assms Cons by (auto simp: List_remove_def holds_def)
  next
    case False
    then obtain us ys where "as = us @ e # ys" using assms(2) Cons by (auto dest: split_list)
    then obtain vs b where vb: "a # us = vs @ [b]" and xs: "xs = vs @ b # e # ys"
      using Cons by (metis append_Cons append.assoc append_Nil rev_exhaust list.distinct(1))
    have d: "distinct xs" "linked h (first l) xs" using assms(1) by (simp_all add: holds_def)
    then have "find_prev h e (first l) = Some (Inr b)" using find_prev_found xs by blast
    moreover have "first l \<noteq> Some e" using d Cons False by auto
    moreover have "remove1 e xs = vs @ b # ys" using d(1) xs by (simp add: remove1_append)
    moreover have "linked (h(b := h e)) (first l) (vs @ b # ys)"
      using linked_unlink [of h "first l" vs b e ys] d xs by simp
    ultimately show ?thesis by (simp add: List_remove_def)
  qed
qed

subsection \<open>Ordered insertion\<close>

definition insert_seq :: "('a \<Rightarrow> 'a \<Rightarrow> bool) \<Rightarrow> ('a \<Rightarrow> 'a \<Rightarrow> bool) \<Rightarrow> 'a \<Rightarrow> 'a list \<Rightarrow> 'a list" where
  "insert_seq le lt e xs =
     (case xs of
        [] \<Rightarrow> [e]
      | f # r \<Rightarrow>
          if le (last xs) e then xs @ [e]
          else if lt e f then e # xs
          else f # takeWhile (\<lambda>x. le x e) r @ e # dropWhile (\<lambda>x. le x e) r)"

lemma insert_walk_stops:
  assumes "linked h (Some a) (a # ys)" "\<not> le (last (a # ys)) e" "ys \<noteq> []"
  shows "insert_walk le h e a = Some (Inr (last (a # takeWhile (\<lambda>x. le x e) ys)))"
  using assms
proof (induction ys arbitrary: a)
  case Nil
  then show ?case by simp
next
  case (Cons y ys)
  show ?case
  proof (cases "le y e")
    case True
    then have "ys \<noteq> []" using Cons.prems(2) by auto
    then show ?thesis using Cons.IH [of y] Cons.prems True
      by (subst insert_walk.simps) auto
  next
    case False
    then show ?thesis using Cons.prems by (subst insert_walk.simps) auto
  qed
qed

lemma EventList_insert_holds:
  assumes "holds hl xs" "e \<notin> set xs" "fst hl e = None" "\<And>x. lt e x \<longleftrightarrow> \<not> le x e"
  shows "\<exists>hl'. EventList_insert le lt e hl = Some (Inr hl') \<and> holds hl' (insert_seq le lt e xs)"
proof -
  obtain h l where hl: "hl = (h, l)" by fastforce
  show ?thesis
  proof (cases xs)
    case Nil
    then show ?thesis
      using assms by (simp add: hl EventList_insert_def holds_def insert_seq_def)
  next
    case (Cons f r)
    have H: "linked h (first l) (f # r)" "distinct (f # r)" "last_ptr l = Some (last (f # r))"
      using assms(1) Cons by (simp_all add: hl holds_def)
    show ?thesis
    proof (cases "le (last (f # r)) e")
      case True
      have "linked h None []" by simp
      then have "linked h (Some e) [e]" using assms(3) hl by simp
      then have "linked (h(last (f # r) := Some e)) (first l) ((f # r) @ [e])"
        using H(1,2) assms(2) Cons by (intro linked_append) auto
      then show ?thesis
        using True H assms(2) Cons
        by (simp add: hl EventList_insert_def holds_def insert_seq_def)
    next
      case nl: False
      show ?thesis
      proof (cases "lt e f")
        case True
        then show ?thesis
          using nl H assms(2) Cons
          by (auto simp: hl EventList_insert_def holds_def insert_seq_def)
      next
        case False
        then have "le f e" using assms(4) by blast
        then have "r \<noteq> []" using nl by auto
        define us where "us = takeWhile (\<lambda>x. le x e) r"
        define vs where "vs = dropWhile (\<lambda>x. le x e) r"
        define b where "b = last (f # us)"
        have ws: "f # us = butlast (f # us) @ [b]" by (simp add: b_def)
        define ws where "ws = butlast (f # us)"
        have ws: "f # us = ws @ [b]" using ws by (simp only: ws_def)
        have "f # r = (f # us) @ vs" by (simp add: us_def vs_def)
        then have r: "f # r = ws @ b # vs" unfolding ws by simp
        have "vs \<noteq> []"
        proof
          assume "vs = []"
          then have "last r \<in> set us" using \<open>r \<noteq> []\<close>
            by (metis append_Nil2 last_in_set takeWhile_dropWhile_id us_def vs_def)
          then have "le (last r) e" unfolding us_def by (auto dest: set_takeWhileD)
          then show False using nl \<open>r \<noteq> []\<close> by simp
        qed
        have "insert_walk le h e f = Some (Inr b)"
          using insert_walk_stops [of h f r le e] H(1) nl \<open>r \<noteq> []\<close> by (simp add: b_def us_def)
        then have run: "EventList_insert le lt e hl = Some (Inr (h(e := h b, b := Some e), l))"
          using False nl H by (simp add: hl EventList_insert_def)
        have "linked (h(e := h b, b := Some e)) (first l) (ws @ b # e # vs)"
          using H(1,2) assms(2) Cons unfolding r by (intro linked_splice) auto
        moreover have "distinct (ws @ b # e # vs)" using H(2) assms(2) Cons unfolding r by auto
        moreover have "last (ws @ b # e # vs) = last (f # r)" using \<open>vs \<noteq> []\<close> unfolding r by simp
        moreover have "insert_seq le lt e xs = ws @ b # e # vs"
          using nl False Cons ws by (simp add: insert_seq_def us_def [symmetric] vs_def [symmetric])
        ultimately show ?thesis using run H(3) by (simp add: holds_def)
      qed
    qed
  qed
qed

lemma mset_insert_seq: "mset (insert_seq le lt e xs) = add_mset e (mset xs)"
  by (cases xs) (auto simp: insert_seq_def takeWhile_mset)

lemma set_insert_seq: "set (insert_seq le lt e xs) = insert e (set xs)"
  by (metis mset_insert_seq set_mset_add_mset_insert set_mset_mset)

lemma sorted_insert_seq:
  assumes sorted: "sorted_wrt le xs"
    and trans: "\<And>x y z. x \<in> insert e (set xs) \<Longrightarrow> y \<in> insert e (set xs) \<Longrightarrow> z \<in> insert e (set xs) \<Longrightarrow>
                  le x y \<Longrightarrow> le y z \<Longrightarrow> le x z"
    and total: "\<And>x. x \<in> set xs \<Longrightarrow> le x e \<or> le e x"
    and lt: "\<And>x. x \<in> set xs \<Longrightarrow> lt e x \<longleftrightarrow> \<not> le x e"
  shows "sorted_wrt le (insert_seq le lt e xs)"
proof (cases xs)
  case Nil
  then show ?thesis by (simp add: insert_seq_def)
next
  case (Cons f r)
  have lst: "le x (last xs) \<or> x = last xs" if "x \<in> set xs" for x
    using sorted that Cons by (metis append_butlast_last_id in_set_butlastD list.distinct(1) list.set_intros(1)
        rotate1.simps(2) set_ConsD set_rotate1 sorted_wrt_append)
  show ?thesis
  proof (cases "le (last xs) e")
    case True
    have "le x e" if "x \<in> set xs" for x
      using lst [OF that] True trans [of x "last xs" e] that Cons by auto
    then show ?thesis using True sorted Cons by (simp add: insert_seq_def sorted_wrt_append)
  next
    case nl: False
    show ?thesis
    proof (cases "lt e f")
      case True
      then have ef: "le e f" using lt total Cons by auto
      have "le e x" if "x \<in> set xs" for x
        using that Cons sorted ef trans [of e f x] by auto
      then show ?thesis using nl True sorted Cons by (simp add: insert_seq_def)
    next
      case False
      define us where "us = takeWhile (\<lambda>x. le x e) r"
      define vs where "vs = dropWhile (\<lambda>x. le x e) r"
      have uv: "r = us @ vs" by (simp add: us_def vs_def)
      have "le f e" using False lt Cons by auto
      moreover have "le x e" if "x \<in> set us" for x using that by (auto simp: us_def dest: set_takeWhileD)
      moreover have "le e x" if x: "x \<in> set vs" for x
      proof -
        obtain v ws where v: "vs = v # ws" using x by (cases vs) auto
        then have "\<not> le v e" by (metis dropWhile_eq_Cons_conv vs_def)
        then have "le e v" using total [of v] Cons uv v by auto
        moreover have "le v x \<or> v = x" using sorted Cons uv v x by (auto simp: sorted_wrt_append)
        ultimately show ?thesis using trans [of e v x] Cons uv v x by auto
      qed
      ultimately have "sorted_wrt le ((f # us) @ e # vs)"
        using sorted Cons uv by (intro sorted_wrt_insert_between) auto
      then show ?thesis using nl False Cons by (simp add: insert_seq_def us_def vs_def)
    qed
  qed
qed

text \<open>
  Where an inserted element ends up: behind everything that is not later, in front of
  everything that is. Elements at the same time so keep the order they arrived in.
\<close>

lemma insert_seq_split:
  assumes sorted: "sorted_wrt le xs"
    and trans: "\<And>x y z. x \<in> insert e (set xs) \<Longrightarrow> y \<in> insert e (set xs) \<Longrightarrow> z \<in> insert e (set xs) \<Longrightarrow>
                  le x y \<Longrightarrow> le y z \<Longrightarrow> le x z"
    and lt: "\<And>x. x \<in> set xs \<Longrightarrow> lt e x \<longleftrightarrow> \<not> le x e"
    and refl: "\<And>x. x \<in> set xs \<Longrightarrow> le x x"
  shows "insert_seq le lt e xs = takeWhile (\<lambda>x. le x e) xs @ e # dropWhile (\<lambda>x. le x e) xs"
proof (cases xs)
  case Nil
  then show ?thesis by (simp add: insert_seq_def)
next
  case (Cons f r)
  show ?thesis
  proof (cases "le (last xs) e")
    case True
    have "le x e" if "x \<in> set xs" for x
    proof -
      obtain us z where xs: "xs = us @ [z]"
        using Cons that [of "butlast xs" "last xs"] by simp
      then have "x \<in> set us \<or> x = z" using that by auto
      then have "le x (last xs)" using sorted refl xs by (auto simp: sorted_wrt_append)
      then show ?thesis using True trans [of x "last xs" e] that Cons by auto
    qed
    then have "takeWhile (\<lambda>x. le x e) xs = xs" "dropWhile (\<lambda>x. le x e) xs = []" by simp_all
    then show ?thesis using True Cons by (simp add: insert_seq_def)
  next
    case False
    then show ?thesis using Cons lt by (auto simp: insert_seq_def)
  qed
qed

section \<open>The interface of the element type\<close>

text \<open>
  \<open>EventList<T>\<close> only asks of \<open>T\<close> its two comparison operators. That each is the converse
  complement of the other is enough for insertion never to run off the end of the list; that
  they order a set of values makes the list a sorted one.
\<close>

locale list_elements =
  fixes le lt :: "'a \<Rightarrow> 'a \<Rightarrow> bool"
  assumes lt_iff: "lt x y \<longleftrightarrow> \<not> le y x"
begin

lemma insert_refines:
  assumes "holds hl xs" "e \<notin> set xs" "fst hl e = None"
  shows "\<exists>hl'. EventList_insert (\<lambda>a b. le (ev a) (ev b)) (\<lambda>a b. lt (ev a) (ev b)) e hl = Some (Inr hl')
           \<and> holds hl' (insert_seq (\<lambda>a b. le (ev a) (ev b)) (\<lambda>a b. lt (ev a) (ev b)) e xs)"
  using assms by (rule EventList_insert_holds) (rule lt_iff)

end

locale ordered_elements = list_elements le lt for le lt :: "'a \<Rightarrow> 'a \<Rightarrow> bool" +
  fixes V :: "'a set"
  assumes le_trans: "x \<in> V \<Longrightarrow> y \<in> V \<Longrightarrow> z \<in> V \<Longrightarrow> le x y \<Longrightarrow> le y z \<Longrightarrow> le x z"
    and le_total: "x \<in> V \<Longrightarrow> y \<in> V \<Longrightarrow> le x y \<or> le y x"
begin

lemma insert_sorted:
  assumes "sorted_wrt le xs" "set xs \<subseteq> V" "e \<in> V"
  shows "sorted_wrt le (insert_seq le lt e xs)"
  using assms(1)
proof (rule sorted_insert_seq)
  show "le x z" if "x \<in> insert e (set xs)" "y \<in> insert e (set xs)" "z \<in> insert e (set xs)" "le x y" "le y z"
    for x y z using that assms(2,3) le_trans [of x y z] by auto
  show "le x e \<or> le e x" if "x \<in> set xs" for x using that assms(2,3) le_total by auto
  show "lt e x \<longleftrightarrow> \<not> le x e" if "x \<in> set xs" for x by (rule lt_iff)
qed

lemma insert_place:
  assumes "sorted_wrt le xs" "set xs \<subseteq> V" "e \<in> V"
  shows "insert_seq le lt e xs = takeWhile (\<lambda>x. le x e) xs @ e # dropWhile (\<lambda>x. le x e) xs"
  using assms(1)
proof (rule insert_seq_split)
  show "le x z" if "x \<in> insert e (set xs)" "y \<in> insert e (set xs)" "z \<in> insert e (set xs)" "le x y" "le y z"
    for x y z using that assms(2,3) le_trans [of x y z] by auto
  show "le x x" if "x \<in> set xs" for x using that assms(2) le_total [of x x] by auto
  show "lt e x \<longleftrightarrow> \<not> le x e" if "x \<in> set xs" for x by (rule lt_iff)
qed

end

text \<open>Proper times with a denominator of at most 16 bits, for which no comparison wraps.\<close>

definition small_times :: "'a duration_scheme set" where
  "small_times = {d. proper d \<and> unat (division d) \<le> 65536}"

lemma small_times_cross:
  assumes "a \<in> small_times" "b \<in> small_times"
  shows "proper a" "proper b" "cross_fits a b"
proof -
  show "proper a" "proper b" using assms by (simp_all add: small_times_def)
  have "unat (division a) * unat (division b) \<le> 65536 * 65536"
    using assms by (intro mult_le_mono) (simp_all add: small_times_def)
  then show "cross_fits a b" using \<open>proper a\<close> \<open>proper b\<close> by (intro cross_fits_small) simp_all
qed

lemma dur_less_not_le: "dur_less a b \<longleftrightarrow> \<not> dur_le b a"
  by (auto simp: dur_less_def dur_le_def)

lemma small_le: "a \<in> small_times \<Longrightarrow> b \<in> small_times \<Longrightarrow> dur_le a b \<longleftrightarrow> dvalue a \<le> dvalue b"
  using small_times_cross dur_le_iff by blast

interpretation times: list_elements "dur_le :: 'a duration_scheme \<Rightarrow> 'a duration_scheme \<Rightarrow> bool" dur_less
  by unfold_locales (rule dur_less_not_le)

interpretation small: ordered_elements "dur_le :: 'a duration_scheme \<Rightarrow> 'a duration_scheme \<Rightarrow> bool" dur_less small_times
proof unfold_locales
  fix x y z :: "'a duration_scheme"
  assume "x \<in> small_times" "y \<in> small_times"
  then show "dur_le x y \<or> dur_le y x" by (auto simp: small_le)
  assume "z \<in> small_times" "dur_le x y" "dur_le y z"
  with \<open>x \<in> _\<close> \<open>y \<in> _\<close> show "dur_le x z" by (simp add: small_le)
qed

section \<open>Properties\<close>

text \<open>C3: inserting a fresh event object into a well formed event list never dereferences a null
  pointer and always returns, whatever the events' times are; the pointers then hold exactly the
  old sequence with the new object placed by the code's comparisons, each object once.\<close>

theorem event_list_insert_refines:
  fixes ev :: "addr \<Rightarrow> duration"
  assumes "holds hl xs" "e \<notin> set xs" "fst hl e = None"
  shows "\<exists>hl' ys. EventList_insert (\<lambda>a b. dur_le (ev a) (ev b)) (\<lambda>a b. dur_less (ev a) (ev b)) e hl
             = Some (Inr hl') \<and> holds hl' ys \<and> mset ys = add_mset e (mset xs) \<and>
           ys = insert_seq (\<lambda>a b. dur_le (ev a) (ev b)) (\<lambda>a b. dur_less (ev a) (ev b)) e xs"
  using times.insert_refines [OF assms, of ev] by (auto simp: mset_insert_seq)

theorem event_list_insert_refines_witness:
  "\<exists>hl' ys. EventList_insert (\<lambda>a b. dur_le (mk_dur 1 (of_nat a) 8) (mk_dur 1 (of_nat b) 8))
       (\<lambda>a b. dur_less (mk_dur 1 (of_nat a) 8) (mk_dur 1 (of_nat b) 8)) 3
       ((\<lambda>_. None)(2 := Some 5), \<lparr>first = Some 2, last_ptr = Some 5\<rparr>) = Some (Inr hl') \<and>
     holds hl' ys \<and> ys = [2, 3, 5]"
proof -
  have "holds ((\<lambda>_. None)(2 := Some 5), \<lparr>first = Some 2, last_ptr = Some 5\<rparr>) [2, 5]"
    by (simp add: holds_def)
  moreover have "insert_seq (\<lambda>a b. dur_le (mk_dur 1 (of_nat a) 8) (mk_dur 1 (of_nat b) 8))
       (\<lambda>a b. dur_less (mk_dur 1 (of_nat a) 8) (mk_dur 1 (of_nat b) 8)) 3 [2, 5] = [2, 3, 5 :: addr]"
    by (simp add: insert_seq_def dur_le_def dur_less_def)
  ultimately show ?thesis
    using event_list_insert_refines
      [of "((\<lambda>_. None)(2 := Some 5), \<lparr>first = Some 2, last_ptr = Some 5\<rparr>)" "[2, 5]" 3
          "\<lambda>a. mk_dur 1 (of_nat a) 8"]
    by force
qed

text \<open>appending one intrusive list to another concatenates the sequences, unless the list
  appended is empty and the other is not; then \<open>last\<close> is taken from the empty list.\<close>

theorem list_addAll_refines:
  assumes "holds (h, l) xs" "holds (h, src) ys" "set xs \<inter> set ys = {}" "xs = [] \<or> ys \<noteq> []"
  shows "\<exists>hl'. List_addAll src (h, l) = Inr hl' \<and> holds hl' (xs @ ys)"
  using holds_addAll [OF assms] .

theorem list_addAll_refines_witness:
  "\<exists>hl'. List_addAll \<lparr>first = Some 7, last_ptr = Some 7\<rparr>
       (\<lambda>_. None, \<lparr>first = Some 2, last_ptr = Some 2\<rparr>) = Inr hl' \<and> holds hl' [2, 7]"
  using list_addAll_refines [of "\<lambda>_. None" "\<lparr>first = Some 2, last_ptr = Some 2\<rparr>" "[2]"
      "\<lparr>first = Some 7, last_ptr = Some 7\<rparr>" "[7]"]
  by (simp add: holds_def)

text \<open>appending an empty list to a nonempty one and then a list with one object loses that
  object: the pointers still hold the first list only.\<close>

theorem list_addAll_empty_loses:
  "\<exists>h l empty_list src hl1 hl2.
     holds (h, l) [2] \<and> holds (h, empty_list) [] \<and> holds (h, src) [7] \<and>
     List_addAll empty_list (h, l) = Inr hl1 \<and> List_addAll src hl1 = Inr hl2 \<and>
     linked (fst hl2) (first (snd hl2)) [2]"
proof -
  let ?h = "\<lambda>_ :: addr. None :: addr option"
  let ?l = "\<lparr>first = Some 2, last_ptr = Some 2\<rparr>" and ?e = "new_list (Some 9)"
    and ?s = "\<lparr>first = Some 7, last_ptr = Some 7\<rparr>"
  let ?hl1 = "(?h(2 := None), \<lparr>first = Some 2, last_ptr = Some 9\<rparr>)"
    and ?hl2 = "(?h(2 := None, 9 := Some 7), \<lparr>first = Some 2, last_ptr = Some 7\<rparr>)"
  have "List_addAll ?e (?h, ?l) = Inr ?hl1" "List_addAll ?s ?hl1 = Inr ?hl2"
    by (simp_all add: List_addAll_def new_list_def)
  moreover have "holds (?h, ?l) [2]" "holds (?h, ?e) []" "holds (?h, ?s) [7]"
    by (simp_all add: holds_def new_list_def)
  moreover have "linked (fst ?hl2) (first (snd ?hl2)) [2]" by simp
  ultimately show ?thesis by blast
qed

end
