(* ===== verification/Queues.thy ===== *)
theory Queues
  imports Intrusive_Lists
begin

text \<open>
  The lock-free queues the threads of the program talk through, the collector of
  \<open>src/objectcollector.cpp\<close> that carries discarded objects back to the thread that may free
  them, the method queue of \<open>src/methodqueue.cpp\<close>, and \<open>QueueList\<close> of \<open>src/listable.h\<close>.
  Boost's queues are not part of the repository: their two operations are arguments of every
  definition that uses them, and the laws of the locale \<open>fifo\<close> state what Boost documents.
\<close>

section \<open>Queue operations\<close>

text \<open>\<open>push\<close> fails (\<^const>\<open>None\<close>) when the queue is full, \<open>pop\<close> when it is empty.\<close>

record ('q, 'a) queue_ops =
  q_push :: "'a \<Rightarrow> 'q \<Rightarrow> 'q option"
  q_pop :: "'q \<Rightarrow> ('a \<times> 'q) option"

locale fifo =
  fixes Q :: "('q, 'a) queue_ops" and contents :: "'q \<Rightarrow> 'a list"
  assumes push: "q_push Q a q = Some q' \<Longrightarrow> contents q' = contents q @ [a]"
    and pop_empty: "q_pop Q q = None \<longleftrightarrow> contents q = []"
    and pop: "q_pop Q q = Some (a, q') \<Longrightarrow> contents q = a # contents q'"

text \<open>
  The reference queue: a list of at most \<open>n\<close> elements. It is what the witnesses put in for
  Boost's queues, whose capacities the code fixes at construction.
\<close>

definition list_queue :: "nat \<Rightarrow> ('a list, 'a) queue_ops" where
  "list_queue n =
     \<lparr>q_push = (\<lambda>a q. if length q < n then Some (q @ [a]) else None),
      q_pop = (\<lambda>q. case q of [] \<Rightarrow> None | a # r \<Rightarrow> Some (a, r))\<rparr>"

interpretation listq: fifo "list_queue n" "\<lambda>q. q"
  by unfold_locales (auto simp: list_queue_def split: if_splits list.splits)

text \<open>
  A loop \<open>while(queue.pop(x)) f(x)\<close>. Over an arbitrary queue it need not return.
\<close>

partial_function (option) drain ::
  "('q, 'a) queue_ops \<Rightarrow> ('a \<Rightarrow> 's \<Rightarrow> 's) \<Rightarrow> 'q \<Rightarrow> 's \<Rightarrow> ('q \<times> 's) option"
where
  "drain Q f q s =
     (case q_pop Q q of None \<Rightarrow> Some (q, s) | Some (a, q') \<Rightarrow> drain Q f q' (f a s))"

context fifo
begin

lemma drain_all:
  "\<exists>q'. drain Q f q s = Some (q', fold f (contents q) s) \<and> contents q' = []"
proof (induction "contents q" arbitrary: q s)
  case Nil
  then have "q_pop Q q = None" by (simp add: pop_empty)
  then show ?case using Nil by (subst drain.simps) simp
next
  case (Cons a xs)
  from Cons(2) have "contents q \<noteq> []" by (metis list.distinct(1))
  then have "q_pop Q q \<noteq> None" by (simp add: pop_empty)
  then obtain b q1 where p: "q_pop Q q = Some (b, q1)" by auto
  then have "b = a" "xs = contents q1" using pop [OF p] Cons(2) by simp_all
  then obtain q' where "drain Q f q1 (f a s) = Some (q', fold f xs (f a s))" "contents q' = []"
    using Cons(1) [of q1 "f a s"] by auto
  then show ?case using p \<open>b = a\<close> Cons(2) by (subst drain.simps) (simp flip: Cons(2))
qed

end

section \<open>The collector\<close>

text \<open>
  The list of objects the queue had no room for, at the level of its sequence. Whether its
  \<open>last\<close> pointer is the right one is part of the state, since appending an empty list spoils it
  and the next append then writes through it.
\<close>

record 'o waiting_list =
  w_items :: "'o list"
  w_last_ok :: bool

definition waiting_add :: "'o \<Rightarrow> 'o waiting_list \<Rightarrow> 'o waiting_list" where
  "waiting_add x w =
     \<lparr>w_items = x # w_items w, w_last_ok = (if w_items w = [] then True else w_last_ok w)\<rparr>"

definition waiting_addAll :: "'o list \<Rightarrow> 'o waiting_list \<Rightarrow> 'o waiting_list res" where
  "waiting_addAll ys w =
     (if w_items w = [] then Inr \<lparr>w_items = ys, w_last_ok = (ys \<noteq> [])\<rparr>
      else if w_last_ok w then Inr \<lparr>w_items = w_items w @ ys, w_last_ok = (ys \<noteq> [])\<rparr>
      else Inl (Undefined ''write through a stale last pointer''))"

text \<open>The pointer lists of \<open>Intrusive_Lists\<close> that a waiting list stands for.\<close>

definition waits :: "heap \<times> plist \<Rightarrow> addr waiting_list \<Rightarrow> bool" where
  "waits hl w \<longleftrightarrow>
     linked (fst hl) (first (snd hl)) (w_items w) \<and> distinct (w_items w) \<and>
     (w_items w \<noteq> [] \<longrightarrow> w_last_ok w \<longrightarrow> last_ptr (snd hl) = Some (last (w_items w)))"

lemma waits_add:
  assumes "waits hl w" "x \<notin> set (w_items w)"
  shows "waits (List_add x hl) (waiting_add x w)"
  using assms by (cases hl) (auto simp: waits_def waiting_add_def List_add_def Let_def)

lemma waits_addAll:
  assumes "waits (h, l) w" "holds (h, src) ys" "set (w_items w) \<inter> set ys = {}"
    and "waiting_addAll ys w = Inr w'"
  shows "\<exists>hl'. List_addAll src (h, l) = Inr hl' \<and> waits hl' w'"
proof (cases "w_items w = []")
  case True
  then show ?thesis using assms by (auto simp: waits_def holds_def waiting_addAll_def List_addAll_def)
next
  case ne: False
  then have ok: "w_last_ok w" using assms(4) by (auto simp: waiting_addAll_def split: if_splits)
  then have hw: "holds (h, l) (w_items w)" using assms(1) ne by (simp add: waits_def holds_def)
  show ?thesis
  proof (cases "ys = []")
    case True
    have "first l = Some (hd (w_items w))" using hw ne by (cases "w_items w") (auto simp: holds_def)
    moreover have "linked (h(last (w_items w) := None)) (first l) (w_items w)"
      using linked_append [of h "first l" "w_items w" None "[]"] hw ne by (simp add: holds_def)
    ultimately show ?thesis
      using True assms(2,4) hw ne ok
      by (auto simp: waits_def holds_def waiting_addAll_def List_addAll_def)
  next
    case False
    obtain hl' where "List_addAll src (h, l) = Inr hl'" "holds hl' (w_items w @ ys)"
      using holds_addAll [OF hw assms(2,3)] False by blast
    then show ?thesis
      using assms(4) ne ok False by (auto simp: waits_def holds_def waiting_addAll_def)
  qed
qed

record ('q, 'o) collector =
  objectQueue :: 'q
  waitingList :: "'o waiting_list"

definition recycle :: "('q, 'o) queue_ops \<Rightarrow> 'o \<Rightarrow> ('q, 'o) collector \<Rightarrow> ('q, 'o) collector" where
  "recycle C evt c =
     (case q_push C evt (objectQueue c) of
        Some q \<Rightarrow> c\<lparr>objectQueue := q\<rparr>
      | None \<Rightarrow> c\<lparr>waitingList := waiting_add evt (waitingList c)\<rparr>)"

text \<open>The loop that moves waiting objects to the queue until it is full.\<close>

fun push_waiting :: "('q, 'o) queue_ops \<Rightarrow> 'o list \<Rightarrow> 'q \<Rightarrow> 'q \<times> 'o list" where
  "push_waiting C [] q = (q, [])"
| "push_waiting C (w # ws) q =
     (case q_push C w q of None \<Rightarrow> (q, w # ws) | Some q' \<Rightarrow> push_waiting C ws q')"

definition collector_update :: "('q, 'o) queue_ops \<Rightarrow> ('q, 'o) collector \<Rightarrow> ('q, 'o) collector" where
  "collector_update C c =
     (let (q, ws) = push_waiting C (w_items (waitingList c)) (objectQueue c)
      in c\<lparr>objectQueue := q, waitingList := (waitingList c)\<lparr>w_items := ws\<rparr>\<rparr>)"

definition recycleAll ::
  "('q, 'o) queue_ops \<Rightarrow> 'o list \<Rightarrow> ('q, 'o) collector \<Rightarrow> ('q, 'o) collector res"
where
  "recycleAll C xs c =
     bind_res (waiting_addAll xs (waitingList c)) (\<lambda>w.
       Inr (collector_update C (c\<lparr>waitingList := w\<rparr>)))"

text \<open>\<open>free\<close> deletes every object in the queue; the objects deleted are the second result.\<close>

definition collector_free ::
  "('q, 'o) queue_ops \<Rightarrow> ('q, 'o) collector \<Rightarrow> (('q, 'o) collector \<times> 'o list) option"
where
  "collector_free C c =
     map_option (\<lambda>(q, dead). (c\<lparr>objectQueue := q\<rparr>, rev dead)) (drain C (#) (objectQueue c) [])"

text \<open>What a collector holds: queued objects, then waiting ones.\<close>

definition collected :: "('q \<Rightarrow> 'a list) \<Rightarrow> ('q, 'a) collector \<Rightarrow> 'a multiset" where
  "collected ct c = mset (ct (objectQueue c)) + mset (w_items (waitingList c))"

context fifo
begin

lemma collected_recycle: "collected contents (recycle Q x c) = add_mset x (collected contents c)"
  by (auto simp: collected_def recycle_def waiting_add_def push split: option.split)

lemma push_waiting_mset:
  "push_waiting Q ws q = (q', ws') \<Longrightarrow> mset (contents q') + mset ws' = mset (contents q) + mset ws"
  by (induction ws arbitrary: q) (auto simp: push split: option.splits)

lemma push_waiting_order:
  "push_waiting Q ws q = (q', ws') \<Longrightarrow> contents q' @ ws' = contents q @ ws"
  by (induction ws arbitrary: q) (auto simp: push split: option.splits)

lemma collected_update: "collected contents (collector_update Q c) = collected contents c"
  by (auto simp: collected_def collector_update_def Let_def split: prod.split dest: push_waiting_mset)

lemma collected_recycleAll:
  assumes "recycleAll Q xs c = Inr c'"
  shows "collected contents c' = collected contents c + mset xs"
proof -
  obtain w where w: "waiting_addAll xs (waitingList c) = Inr w"
    "c' = collector_update Q (c\<lparr>waitingList := w\<rparr>)"
    using assms by (auto simp: recycleAll_def bind_res_eq_Inr)
  then have "w_items w = w_items (waitingList c) @ xs"
    by (auto simp: waiting_addAll_def split: if_splits)
  then show ?thesis unfolding w(2) collected_update by (simp add: collected_def)
qed

lemma collected_fold_recycle:
  "collected contents (fold (\<lambda>x. recycle Q (f x)) xs c) = collected contents c + mset (map f xs)"
  by (induction xs arbitrary: c) (simp_all add: collected_recycle)

lemma collector_free_all:
  "\<exists>c'. collector_free Q c = Some (c', contents (objectQueue c)) \<and> contents (objectQueue c') = [] \<and>
        waitingList c' = waitingList c"
proof -
  obtain q where "drain Q (#) (objectQueue c) [] = Some (q, fold (#) (contents (objectQueue c)) [])"
    "contents q = []" using drain_all [of "(#)" "objectQueue c" "[]"] by auto
  then show ?thesis by (simp add: collector_free_def fold_Cons_rev)
qed

end

text \<open>
  The waiting list's \<open>last\<close> pointer is right whenever the list is nonempty. Every operation
  keeps this except \<open>recycleAll\<close> of an empty list.
\<close>

definition collector_ok :: "('q, 'o) collector \<Rightarrow> bool" where
  "collector_ok c \<longleftrightarrow> (w_items (waitingList c) \<noteq> [] \<longrightarrow> w_last_ok (waitingList c))"

lemma collector_ok_recycle: "collector_ok c \<Longrightarrow> collector_ok (recycle C x c)"
  by (auto simp: collector_ok_def recycle_def waiting_add_def split: option.split)

lemma push_waiting_suffix: "push_waiting C ws q = (q', ws') \<Longrightarrow> \<exists>us. ws = us @ ws'"
  by (induction ws arbitrary: q) (auto split: option.splits intro: exI [of _ "[]"], metis append_Cons)

lemma collector_ok_update: "collector_ok c \<Longrightarrow> collector_ok (collector_update C c)"
  by (auto simp: collector_ok_def collector_update_def split: prod.split dest!: push_waiting_suffix)

lemma recycleAll_returns:
  assumes "collector_ok c"
  shows "\<exists>c'. recycleAll C xs c = Inr c'"
  using assms by (auto simp: recycleAll_def waiting_addAll_def collector_ok_def)

lemma recycleAll_ok:
  assumes "collector_ok c" "xs \<noteq> [] \<or> w_items (waitingList c) = []" "recycleAll C xs c = Inr c'"
  shows "collector_ok c'"
proof -
  obtain w where w: "waiting_addAll xs (waitingList c) = Inr w"
    "c' = collector_update C (c\<lparr>waitingList := w\<rparr>)"
    using assms(3) by (auto simp: recycleAll_def bind_res_eq_Inr)
  then have "collector_ok (c\<lparr>waitingList := w\<rparr>)"
    using assms(1,2) by (auto simp: collector_ok_def waiting_addAll_def split: if_splits)
  then show ?thesis unfolding w(2) by (rule collector_ok_update)
qed

section \<open>The method queue\<close>

text \<open>
  \<open>dispatch\<close> spins until the push succeeds: as one step it is blocked while the queue is full.
\<close>

definition dispatch :: "('q, 'm) queue_ops \<Rightarrow> 'm \<Rightarrow> 'q \<Rightarrow> 'q option" where
  "dispatch M f q = q_push M f q"

definition next_method :: "('q, 'm) queue_ops \<Rightarrow> 'q \<Rightarrow> 'm option \<times> 'q" where
  "next_method M q = (case q_pop M q of None \<Rightarrow> (None, q) | Some (f, q') \<Rightarrow> (Some f, q'))"

section \<open>Queued lists\<close>

record ('q, 'a) queue_list =
  ql_list :: "'a list"
  ql_queue :: 'q

definition QueueList_add :: "('q, 'a) queue_ops \<Rightarrow> 'a \<Rightarrow> ('q, 'a) queue_list \<Rightarrow> ('q, 'a) queue_list option" where
  "QueueList_add Q e l = map_option (\<lambda>q. l\<lparr>ql_queue := q\<rparr>) (q_push Q e (ql_queue l))"

text \<open>
  \<open>getFirst\<close> first takes everything queued into the list, each element at the front; the list
  is then traversed with \<open>getNext\<close>, so the result is the sequence the caller iterates over.
\<close>

definition QueueList_getFirst :: "('q, 'a) queue_ops \<Rightarrow> ('q, 'a) queue_list \<Rightarrow> ('q, 'a) queue_list option" where
  "QueueList_getFirst Q l =
     map_option (\<lambda>(q, xs). l\<lparr>ql_queue := q, ql_list := xs\<rparr>) (drain Q (#) (ql_queue l) (ql_list l))"

definition QueueList_pop :: "('q, 'a) queue_list \<Rightarrow> ('q, 'a) queue_list res" where
  "QueueList_pop l =
     (case ql_list l of
        [] \<Rightarrow> Inl (Undefined ''null pointer'')
      | _ # r \<Rightarrow> Inr (l\<lparr>ql_list := r\<rparr>))"

definition QueueList_remove :: "'a \<Rightarrow> ('q, 'a) queue_list \<Rightarrow> ('q, 'a) queue_list res" where
  "QueueList_remove e l =
     (if e \<in> set (ql_list l) then Inr (l\<lparr>ql_list := remove1 e (ql_list l)\<rparr>)
      else Inl (Undefined ''null pointer''))"

definition QueueList_clear :: "('q, 'a) queue_ops \<Rightarrow> ('q, 'a) queue_list \<Rightarrow> ('q, 'a) queue_list option" where
  "QueueList_clear Q l =
     map_option (\<lambda>(q, _). l\<lparr>ql_queue := q, ql_list := []\<rparr>) (drain Q (\<lambda>_ s. s) (ql_queue l) ())"

definition ql_members :: "('q \<Rightarrow> 'a list) \<Rightarrow> ('q, 'a) queue_list \<Rightarrow> 'a list" where
  "ql_members ct l = rev (ct (ql_queue l)) @ ql_list l"

context fifo
begin

lemma ql_getFirst:
  "\<exists>l'. QueueList_getFirst Q l = Some l' \<and> ql_list l' = ql_members contents l \<and> contents (ql_queue l') = []"
  using drain_all [of "(#)" "ql_queue l" "ql_list l"]
  by (auto simp: QueueList_getFirst_def ql_members_def fold_Cons_rev)

lemma ql_add: "QueueList_add Q e l = Some l' \<Longrightarrow> ql_members contents l' = e # ql_members contents l"
  by (auto simp: QueueList_add_def ql_members_def push)

end

text \<open>
  The walk of \<open>QueueList::remove\<close> along the pointers does what \<^const>\<open>QueueList_remove\<close> does to
  the sequence, and faults on an element that is not there.
\<close>

lemma QueueList_remove_refines:
  assumes "holds (h, l) (ql_list m)"
  shows "(\<exists>m' h' l'. QueueList_remove e m = Inr m' \<and> List_remove e (h, l) = Some (Inr (h', l')) \<and>
            linked h' (first l') (ql_list m')) \<or>
         (e \<notin> set (ql_list m) \<and> List_remove e (h, l) = Some (Inl (Undefined ''null pointer'')))"
proof (cases "e \<in> set (ql_list m)")
  case True
  then obtain h' l' where "List_remove e (h, l) = Some (Inr (h', l'))"
    "linked h' (first l') (remove1 e (ql_list m))"
    using remove_linked [OF assms, of e] by auto
  then show ?thesis using True by (simp add: QueueList_remove_def)
next
  case False
  then have "first l \<noteq> Some e" using assms by (cases "ql_list m") (auto simp: holds_def)
  then show ?thesis
    using False find_prev_missing [of h "first l" "ql_list m" e] assms
    by (simp add: List_remove_def holds_def)
qed

section \<open>Properties\<close>


definition example_collector :: "(nat list, nat) collector" where
  "example_collector = \<lparr>objectQueue = [4], waitingList = \<lparr>w_items = [5], w_last_ok = True\<rparr>\<rparr>"


text \<open>recycling an empty list while objects wait spoils the waiting list's \<open>last\<close> pointer, and
  the next \<open>recycleAll\<close> writes through it.\<close>

theorem recycleAll_empty_spoils:
  "\<exists>c1. recycleAll (list_queue 1) [] example_collector = Inr c1 \<and>
        recycleAll (list_queue 1) [7] c1 = Inl (Undefined ''write through a stale last pointer'')"
  by (simp add: recycleAll_def waiting_addAll_def collector_update_def example_collector_def
      list_queue_def)

end
