(* ===== verification/Object_Cache.thy ===== *)
theory Object_Cache
  imports Queues
begin

text \<open>
  The caches that keep audio ports, plugins and mixers alive from one run of the script to the
  next (\<open>src/objectcache.h\<close>). An object that the last run asked for survives, any other is
  handed to the virtual \<open>removeObject\<close>. The map from keys to object pointers is a list in the
  order of the keys, as \<open>std::map\<close> iterates; the pointer stored under a key can be null.
\<close>

section \<open>Ordered maps\<close>

fun put :: "int \<Rightarrow> 'v \<Rightarrow> (int \<times> 'v) list \<Rightarrow> (int \<times> 'v) list" where
  "put k v [] = [(k, v)]"
| "put k v ((j, u) # m) =
     (if k < j then (k, v) # (j, u) # m else if k = j then (k, v) # m else (j, u) # put k v m)"

definition keys_sorted :: "(int \<times> 'v) list \<Rightarrow> bool" where
  "keys_sorted m \<longleftrightarrow> sorted_wrt (<) (map fst m)"

lemma put_keys: "set (map fst (put k v m)) = insert k (set (map fst m))"
  by (induction k v m rule: put.induct) (simp_all del: set_map add: insert_commute)

lemma set_put_keys: "fst ` set (put k v m) = insert k (fst ` set m)"
  using put_keys [of k v m] by simp

lemma keys_sorted_put: "keys_sorted m \<Longrightarrow> keys_sorted (put k v m)"
proof (induction m)
  case Nil
  then show ?case by (simp add: keys_sorted_def)
next
  case (Cons p m)
  obtain j u where p: "p = (j, u)" by fastforce
  have "keys_sorted (put k v m)" "\<forall>i \<in> fst ` set m. j < i"
    using Cons by (auto simp: keys_sorted_def p)
  then show ?case
    using Cons.prems set_put_keys [of k v m] by (auto simp: keys_sorted_def p)
qed

lemma map_of_put: "keys_sorted m \<Longrightarrow> map_of (put k v m) = (map_of m)(k \<mapsto> v)"
proof (induction m)
  case Nil
  then show ?case by simp
next
  case (Cons p m)
  obtain j u where p: "p = (j, u)" by fastforce
  have "\<forall>i \<in> fst ` set m. j < i" using Cons.prems by (auto simp: keys_sorted_def p)
  then have "k < j \<Longrightarrow> map_of m k = None" by (auto simp: map_of_eq_None_iff image_iff)
  then show ?case using Cons by (auto simp: p keys_sorted_def fun_eq_iff)
qed

lemma set_put: "keys_sorted m \<Longrightarrow> set (put k v m) = insert (k, v) {e \<in> set m. fst e \<noteq> k}"
proof (induction m)
  case (Cons p m)
  obtain j u where p: "p = (j, u)" by fastforce
  have lt: "\<forall>e \<in> set m. j < fst e" using Cons.prems by (auto simp: keys_sorted_def p)
  have "keys_sorted m" using Cons.prems by (simp add: keys_sorted_def)
  then show ?case using Cons.IH lt by (auto simp: p)
qed simp

section \<open>The cache\<close>

text \<open>
  The third component is whatever the virtual methods \<open>newObject\<close>, \<open>removeObject\<close> and
  \<open>scriptReset\<close> act on: for a processor cache the audio engine.
\<close>

record ('o, 'e) cache =
  instanceMap :: "(int \<times> 'o option) list"
  activeScriptObjects :: "'o set"
  environment :: 'e

text \<open>\<open>instanceMap[key]\<close> of \<open>std::map\<close>: a missing key is entered with a null pointer.\<close>

definition at_key :: "int \<Rightarrow> (int \<times> 'o option) list \<Rightarrow> 'o option \<times> (int \<times> 'o option) list" where
  "at_key k m = (case map_of m k of None \<Rightarrow> (None, put k None m) | Some p \<Rightarrow> (p, m))"

definition findObject :: "int \<Rightarrow> ('o, 'e) cache \<Rightarrow> 'o option \<times> ('o, 'e) cache" where
  "findObject k c =
     (let (p, m) = at_key k (instanceMap c); c1 = c\<lparr>instanceMap := m\<rparr>
      in case p of
           None \<Rightarrow> (None, c1)
         | Some ob \<Rightarrow> (Some ob, c1\<lparr>activeScriptObjects := insert ob (activeScriptObjects c1)\<rparr>))"

definition registerObject :: "('o \<Rightarrow> 'e \<Rightarrow> 'e) \<Rightarrow> int \<Rightarrow> 'o \<Rightarrow> ('o, 'e) cache \<Rightarrow> ('o, 'e) cache" where
  "registerObject newObject k ob c =
     c\<lparr>instanceMap := put k (Some ob) (instanceMap c),
       activeScriptObjects := insert ob (activeScriptObjects c),
       environment := newObject ob (environment c)\<rparr>"

definition is_active :: "'o option \<Rightarrow> 'o set \<Rightarrow> bool" where
  "is_active p A = (case p of None \<Rightarrow> False | Some ob \<Rightarrow> ob \<in> A)"

definition drop_active :: "'o option \<Rightarrow> 'o set \<Rightarrow> 'o set" where
  "drop_active p A = (case p of None \<Rightarrow> A | Some ob \<Rightarrow> A - {ob})"

fun remove_loop ::
  "('o option \<Rightarrow> 'e \<Rightarrow> 'e) \<Rightarrow> (int \<times> 'o option) list \<Rightarrow> 'o set \<Rightarrow> 'e \<Rightarrow> 'o set \<times> 'e"
where
  "remove_loop removeObject [] A e = (A, e)"
| "remove_loop removeObject ((k, p) # m) A e =
     remove_loop removeObject m (drop_active p A) (removeObject p e)"

definition removeAll :: "('o option \<Rightarrow> 'e \<Rightarrow> 'e) \<Rightarrow> ('o, 'e) cache \<Rightarrow> ('o, 'e) cache" where
  "removeAll removeObject c =
     (let (A, e) = remove_loop removeObject (instanceMap c) (activeScriptObjects c) (environment c)
      in c\<lparr>instanceMap := [], activeScriptObjects := A, environment := e\<rparr>)"

text \<open>The loop of \<open>scriptComplete\<close>: the entries it keeps, and whether any object was used.\<close>

fun complete_loop ::
  "('o option \<Rightarrow> 'e \<Rightarrow> 'e) \<Rightarrow> (int \<times> 'o option) list \<Rightarrow> 'o set \<Rightarrow> 'e \<Rightarrow>
     (int \<times> 'o option) list \<times> 'o set \<times> 'e \<times> bool"
where
  "complete_loop removeObject [] A e = ([], A, e, False)"
| "complete_loop removeObject ((k, p) # m) A e =
     (if is_active p A
      then (let (m', A', e', _) = complete_loop removeObject m (drop_active p A) e
            in ((k, p) # m', A', e', True))
      else complete_loop removeObject m A (removeObject p e))"

definition scriptComplete ::
  "('o option \<Rightarrow> 'e \<Rightarrow> 'e) \<Rightarrow> ('e \<Rightarrow> 'e) \<Rightarrow> ('o, 'e) cache \<Rightarrow> bool \<times> ('o, 'e) cache"
where
  "scriptComplete removeObject scriptReset c =
     (let (m, A, e, active) =
        complete_loop removeObject (instanceMap c) (activeScriptObjects c) (environment c)
      in (active, c\<lparr>instanceMap := m, activeScriptObjects := A, environment := scriptReset e\<rparr>))"

section \<open>The invariant\<close>

text \<open>
  Keys are in order, no object is stored under two keys, and whatever the script has used is
  stored.
\<close>

definition objects :: "(int \<times> 'o option) list \<Rightarrow> 'o list" where
  "objects m = List.map_filter snd m"

definition cache_ok :: "('o, 'e) cache \<Rightarrow> bool" where
  "cache_ok c \<longleftrightarrow> keys_sorted (instanceMap c) \<and> distinct (objects (instanceMap c)) \<and>
     activeScriptObjects c \<subseteq> set (objects (instanceMap c))"

lemma objects_simps [simp]:
  "objects [] = []" "objects ((k, None) # m) = objects m"
  "objects ((k, Some ob) # m) = ob # objects m"
  by (simp_all add: objects_def map_filter_simps)

lemma set_objects: "set (objects m) = {ob. \<exists>k. (k, Some ob) \<in> set m}"
proof (induction m)
  case (Cons p m)
  obtain k q where "p = (k, q)" by fastforce
  then show ?case using Cons by (cases q) auto
qed simp

lemma objects_put_null: "map_of m k = None \<Longrightarrow> objects (put k None m) = objects m"
proof (induction m)
  case (Cons p m)
  obtain j q where "p = (j, q)" by fastforce
  then show ?case using Cons by (cases q) (auto split: if_splits)
qed simp

lemma objects_put:
  assumes "map_of m k = None \<or> map_of m k = Some None" "keys_sorted m"
  shows "mset (objects (put k (Some ob) m)) = add_mset ob (mset (objects m))"
  using assms
proof (induction m)
  case (Cons p m)
  obtain j q where "p = (j, q)" by fastforce
  moreover have "keys_sorted m" using Cons.prems by (simp add: keys_sorted_def)
  ultimately show ?case using Cons by (cases q) (auto split: if_splits)
qed simp

lemma active_simps [simp]:
  "\<not> is_active None A" "is_active (Some ob) A \<longleftrightarrow> ob \<in> A"
  "drop_active None A = A" "drop_active (Some ob) A = A - {ob}"
  by (simp_all add: is_active_def drop_active_def)

text \<open>The loop over the map, for a map in which no object is stored twice.\<close>

lemma complete_loop_result:
  assumes "distinct (objects m)"
  shows "complete_loop removeObject m A e =
     (filter (\<lambda>(k, p). is_active p A) m, A - set (objects m),
      fold removeObject (map snd (filter (\<lambda>(k, p). \<not> is_active p A) m)) e,
      A \<inter> set (objects m) \<noteq> {})"
  using assms
proof (induction m arbitrary: A e)
  case Nil
  then show ?case by simp
next
  case (Cons q m)
  obtain k p where q: "q = (k, p)" by fastforce
  show ?case
  proof (cases p)
    case None
    then show ?thesis using Cons by (simp add: q)
  next
    case (Some ob)
    then have d: "distinct (objects m)" "ob \<notin> set (objects m)" using Cons.prems q by simp_all
    show ?thesis
    proof (cases "ob \<in> A")
      case True
      have "is_active r (A - {ob}) = is_active r A" if "(j, r) \<in> set m" for j r
        using d(2) that by (cases r) (auto simp: set_objects)
      then have f: "filter (\<lambda>(k, p). is_active p (A - {ob})) m = filter (\<lambda>(k, p). is_active p A) m"
        "filter (\<lambda>(k, p). \<not> is_active p (A - {ob})) m = filter (\<lambda>(k, p). \<not> is_active p A) m"
        by (auto intro: filter_cong)
      show ?thesis
        using Cons.IH [OF d(1), of "A - {ob}" e] True d(2)
        by (auto simp: q Some f)
    next
      case False
      then show ?thesis
        using Cons.IH [OF d(1), of A "removeObject p e"] Some by (auto simp: q)
    qed
  qed
qed

lemma keys_sorted_filter: "keys_sorted m \<Longrightarrow> keys_sorted (filter P m)"
  unfolding keys_sorted_def by (induction m) auto

lemma map_of_filter_value:
  assumes "keys_sorted m"
  shows "map_of (filter (\<lambda>(k, p). P p) m) k =
     (case map_of m k of None \<Rightarrow> None | Some p \<Rightarrow> if P p then Some p else None)"
  using assms
proof (induction m)
  case (Cons q m)
  obtain j p where q: "q = (j, p)" by fastforce
  have "\<forall>i \<in> fst ` set m. j < i" "keys_sorted m" using Cons.prems by (auto simp: keys_sorted_def q)
  then have "map_of m j = None" by (auto simp: map_of_eq_None_iff)
  then show ?case using Cons.IH [OF \<open>keys_sorted m\<close>] by (auto simp: q split: option.splits)
qed simp

lemma objects_filter:
  "objects (filter (\<lambda>(k, p). is_active p A) m) = filter (\<lambda>ob. ob \<in> A) (objects m)"
proof (induction m)
  case (Cons q m)
  obtain k p where "q = (k, p)" by fastforce
  then show ?case using Cons by (cases p) auto
qed simp

lemma findObject_ok:
  assumes "cache_ok c" "findObject k c = (p, c')"
  shows "cache_ok c'"
proof -
  obtain m where m: "at_key k (instanceMap c) = (p, m)"
    using assms(2) by (auto simp: findObject_def Let_def split: prod.splits option.splits)
  have s: "keys_sorted m" "objects m = objects (instanceMap c)"
    using m assms(1) objects_put_null [of "instanceMap c" k]
    by (auto simp: at_key_def cache_ok_def keys_sorted_put split: option.splits)
  have "ob \<in> set (objects m)" if "p = Some ob" for ob
    using m that by (auto simp: at_key_def set_objects split: option.splits dest: map_of_SomeD)
  then show ?thesis
    using assms m s by (auto simp: findObject_def cache_ok_def Let_def split: option.splits)
qed

lemma findObject_used:
  assumes "findObject k c = (Some ob, c')"
  shows "map_of (instanceMap c') k = Some (Some ob)" "ob \<in> activeScriptObjects c'"
  using assms by (auto simp: findObject_def at_key_def Let_def split: option.splits prod.splits)

lemma registerObject_ok:
  assumes "cache_ok c" "ob \<notin> set (objects (instanceMap c))"
    and "map_of (instanceMap c) k = None \<or> map_of (instanceMap c) k = Some None"
  shows "cache_ok (registerObject newObject k ob c)"
proof -
  have s: "keys_sorted (instanceMap c)" using assms(1) by (simp add: cache_ok_def)
  have m: "mset (objects (put k (Some ob) (instanceMap c))) = add_mset ob (mset (objects (instanceMap c)))"
    by (rule objects_put [OF assms(3) s])
  then have "distinct (objects (put k (Some ob) (instanceMap c)))"
    using assms(1,2) by (metis cache_ok_def distinct.simps(2) mset.simps(2) mset_eq_imp_distinct_iff)
  moreover have "set (objects (put k (Some ob) (instanceMap c))) = insert ob (set (objects (instanceMap c)))"
    using arg_cong [OF m, of set_mset] by simp
  ultimately show ?thesis
    using assms(1) keys_sorted_put [OF s] by (auto simp: registerObject_def cache_ok_def)
qed

lemma scriptComplete_result:
  assumes "cache_ok c"
  shows "scriptComplete removeObject scriptReset c =
     (activeScriptObjects c \<noteq> {},
      c\<lparr>instanceMap := filter (\<lambda>(k, p). is_active p (activeScriptObjects c)) (instanceMap c),
        activeScriptObjects := {},
        environment := scriptReset (fold removeObject
           (map snd (filter (\<lambda>(k, p). \<not> is_active p (activeScriptObjects c)) (instanceMap c)))
           (environment c))\<rparr>)"
proof -
  have "activeScriptObjects c - set (objects (instanceMap c)) = {}"
    "activeScriptObjects c \<inter> set (objects (instanceMap c)) = activeScriptObjects c"
    using assms by (auto simp: cache_ok_def)
  then show ?thesis
    using complete_loop_result [of "instanceMap c" removeObject "activeScriptObjects c" "environment c"] assms
    by (simp add: scriptComplete_def cache_ok_def)
qed

lemma scriptComplete_ok:
  assumes "cache_ok c" "scriptComplete removeObject scriptReset c = (b, c')"
  shows "cache_ok c'"
proof -
  have "c' = snd (scriptComplete removeObject scriptReset c)" using assms(2) by simp
  then show ?thesis
    using assms(1) by (simp add: scriptComplete_result cache_ok_def keys_sorted_filter objects_filter)
qed

section \<open>What the cache needs of its environment\<close>

text \<open>
  The objects the environment has been told about and not yet told to drop. Operations may
  block; \<open>runs\<close> says that they did not. A new object is one the environment does not know.
\<close>

locale object_registry =
  fixes newObject :: "'o \<Rightarrow> 'e \<Rightarrow> 'e" and removeObject :: "'o option \<Rightarrow> 'e \<Rightarrow> 'e"
    and runs :: "'e \<Rightarrow> bool" and live :: "'e \<Rightarrow> 'o set" and known :: "'e \<Rightarrow> 'o set"
  assumes new_live: "runs (newObject ob e) \<Longrightarrow> ob \<notin> known e \<Longrightarrow> live (newObject ob e) = insert ob (live e)"
    and new_runs: "runs (newObject ob e) \<Longrightarrow> runs e"
    and remove_live: "runs (removeObject (Some ob) e) \<Longrightarrow> live (removeObject (Some ob) e) = live e - {ob}"
    and remove_null: "runs (removeObject None e) \<Longrightarrow> live (removeObject None e) = live e"
    and remove_runs: "runs (removeObject p e) \<Longrightarrow> runs e"
begin

definition in_step :: "('o, 'e) cache \<Rightarrow> bool" where
  "in_step c \<longleftrightarrow> cache_ok c \<and> live (environment c) = set (objects (instanceMap c))"

lemma removal_live:
  "runs (fold removeObject ps e) \<Longrightarrow>
     runs e \<and> live (fold removeObject ps e) = live e - {ob. Some ob \<in> set ps}"
proof (induction ps arbitrary: e)
  case (Cons p ps)
  then have "runs (removeObject p e)"
    "live (fold removeObject ps (removeObject p e)) = live (removeObject p e) - {ob. Some ob \<in> set ps}"
    by auto
  then show ?case using remove_live remove_null remove_runs by (cases p) auto
qed simp

lemma register_in_step:
  assumes "in_step c" "ob \<notin> known (environment c)" "ob \<notin> set (objects (instanceMap c))"
    and "map_of (instanceMap c) k = None \<or> map_of (instanceMap c) k = Some None"
    and "runs (environment (registerObject newObject k ob c))"
  shows "in_step (registerObject newObject k ob c)"
proof -
  have s: "keys_sorted (instanceMap c)" using assms(1) by (simp add: in_step_def cache_ok_def)
  have "set (objects (put k (Some ob) (instanceMap c))) = insert ob (set (objects (instanceMap c)))"
    using arg_cong [OF objects_put [OF assms(4) s], of set_mset ob] by simp
  then show ?thesis
    using assms registerObject_ok [OF _ assms(3,4)] new_live
    by (auto simp: in_step_def registerObject_def)
qed

lemma find_in_step: "in_step c \<Longrightarrow> findObject k c = (p, c') \<Longrightarrow> in_step c'"
  using findObject_ok [of c k p c'] objects_put_null [of "instanceMap c" k]
  by (auto simp: in_step_def findObject_def at_key_def Let_def split: option.splits prod.splits)

lemma complete_in_step:
  assumes "in_step c" "scriptComplete removeObject id c = (b, c')" "runs (environment c')"
  shows "in_step c'"
proof -
  have ok: "cache_ok c" "live (environment c) = set (objects (instanceMap c))"
    using assms(1) by (simp_all add: in_step_def)
  define gone where "gone = map snd (filter (\<lambda>(k, p). \<not> is_active p (activeScriptObjects c)) (instanceMap c))"
  have c': "environment c' = fold removeObject gone (environment c)"
    "objects (instanceMap c') = filter (\<lambda>ob. ob \<in> activeScriptObjects c) (objects (instanceMap c))"
    using assms(2) by (auto simp: scriptComplete_result [OF ok(1)] gone_def objects_filter)
  have "{ob. Some ob \<in> set gone} = set (objects (instanceMap c)) - activeScriptObjects c"
    by (force simp: gone_def set_objects)
  then have "live (environment c') = set (objects (instanceMap c'))"
    using removal_live [of gone "environment c"] assms(3) c' ok(2) by auto
  then show ?thesis using scriptComplete_ok [OF ok(1) assms(2)] by (simp add: in_step_def)
qed

end

section \<open>Properties\<close>

text \<open>C20: completing a script run keeps exactly the entries whose object the run used, passes every
  other entry once to \<open>removeObject\<close> in key order, forgets what was used, says whether anything
  was used, and keeps the cache's invariant.\<close>

theorem script_complete_lifecycle:
  assumes "cache_ok c" "scriptComplete removeObject scriptReset c = (b, c')"
  shows "cache_ok c' \<and> activeScriptObjects c' = {} \<and> (b \<longleftrightarrow> activeScriptObjects c \<noteq> {}) \<and>
     map_of (instanceMap c') k =
       (case map_of (instanceMap c) k of None \<Rightarrow> None
        | Some p \<Rightarrow> if is_active p (activeScriptObjects c) then Some p else None) \<and>
     environment c' = scriptReset (fold removeObject
       (map snd (filter (\<lambda>(k, p). \<not> is_active p (activeScriptObjects c)) (instanceMap c)))
       (environment c))"
proof -
  have "(b, c') = scriptComplete removeObject scriptReset c" using assms(2) by simp
  then show ?thesis
    using scriptComplete_ok [OF assms] assms(1) map_of_filter_value [of "instanceMap c"]
    unfolding scriptComplete_result [OF assms(1)] by (simp add: cache_ok_def)
qed

definition example_cache :: "(nat, nat option list) cache" where
  "example_cache = \<lparr>instanceMap = [(3, Some 10), (8, Some 11)], activeScriptObjects = {},
     environment = []\<rparr>"

theorem script_complete_lifecycle_witness:
  "\<exists>c' b. scriptComplete (\<lambda>p e. e @ [p]) id (snd (findObject 8 example_cache)) = (b, c') \<and> b \<and>
     map_of (instanceMap c') 8 = Some (Some 11) \<and> map_of (instanceMap c') 3 = None \<and>
     environment c' = [Some 10]"
proof -
  let ?c = "snd (findObject 8 example_cache)"
  obtain b c' where r: "scriptComplete (\<lambda>p e. e @ [p]) id ?c = (b, c')" by fastforce
  have c: "instanceMap ?c = [(3, Some 10), (8, Some 11)]" "activeScriptObjects ?c = {11}"
    "environment ?c = []"
    by (simp_all add: findObject_def at_key_def example_cache_def Let_def)
  then have "cache_ok ?c" by (simp add: cache_ok_def keys_sorted_def)
  from script_complete_lifecycle [OF this r, of 3] script_complete_lifecycle [OF this r, of 8]
  show ?thesis using r c by auto
qed

text \<open>looking an absent key up enters a null pointer, and if no object is then registered under
  that key, completing the script passes the null pointer to \<open>removeObject\<close>.\<close>

theorem cache_miss_removes_null:
  "fst (findObject 5 example_cache) = None \<and>
   environment (snd (scriptComplete (\<lambda>p e. e @ [p]) id (snd (findObject 5 example_cache)))) =
     [Some 10, None, Some 11]"
  by (simp add: findObject_def at_key_def example_cache_def Let_def scriptComplete_def)

end
