(* ===== verification/Engine.thy ===== *)
theory Engine
  imports Object_Cache Musical_Time
begin

text \<open>
  The audio engine (\<open>src/audioengine.h\<close>, \<open>src/audioengine.cpp\<close>): the list of active processors
  the script thread adds to and removes from through two queues, the process callback that runs
  them, and the sync callback that repositions them when the transport jumps back. What the
  virtual methods of the processors do is a parameter: a function on a world that the engine
  only passes on. JACK is asked for the transport state and the frame time: its answers are
  arguments.
\<close>

section \<open>State and processors\<close>

record ('p, 'w) processor_ops =
  pr_process :: "'p \<Rightarrow> bool \<Rightarrow> jack_position \<Rightarrow> u32 \<Rightarrow> u32 \<Rightarrow> 'w \<Rightarrow> 'w"
  pr_reposition :: "'p \<Rightarrow> 'w \<Rightarrow> 'w"
  pr_complete :: "'p \<Rightarrow> 'w \<Rightarrow> bool"

record ('a, 'd, 'c, 'f, 'p, 'o, 'w) engine =
  runningFrame :: u32
  multiplePeriodRestart :: u32
  activeProcessors :: "('a, 'p) queue_list"
  deletedProcessors :: 'd
  scriptCollector :: "('c, 'p) collector"
  processCollector :: "('f, 'o) collector"
  host_running :: bool
  host_restart :: bool
  world :: 'w

text \<open>The two operations of the script thread; both spin while their queue is full.\<close>

definition addProcessor ::
  "('a, 'p) queue_ops \<Rightarrow> 'p \<Rightarrow> ('a, 'd, 'c, 'f, 'p, 'o, 'w) engine \<Rightarrow>
     ('a, 'd, 'c, 'f, 'p, 'o, 'w) engine option"
where
  "addProcessor A p e =
     map_option (\<lambda>l. e\<lparr>activeProcessors := l\<rparr>) (QueueList_add A p (activeProcessors e))"

definition removeProcessor ::
  "('d, 'p option) queue_ops \<Rightarrow> 'p option \<Rightarrow> ('a, 'd, 'c, 'f, 'p, 'o, 'w) engine \<Rightarrow>
     ('a, 'd, 'c, 'f, 'p, 'o, 'w) engine option"
where
  "removeProcessor D p e = map_option (\<lambda>d. e\<lparr>deletedProcessors := d\<rparr>) (q_push D p (deletedProcessors e))"

text \<open>
  The loop that takes deleted processors off the active list. Removing a null pointer, like
  removing a pointer that is not in the list, runs into a null pointer.
\<close>

partial_function (option) remove_deleted ::
  "('d, 'p option) queue_ops \<Rightarrow> ('c, 'p) queue_ops \<Rightarrow> ('a, 'd, 'c, 'f, 'p, 'o, 'w) engine \<Rightarrow>
     ('a, 'd, 'c, 'f, 'p, 'o, 'w) engine res option"
where
  "remove_deleted D C e =
     (case q_pop D (deletedProcessors e) of
        None \<Rightarrow> Some (Inr e)
      | Some (None, d) \<Rightarrow> Some (Inl (Undefined ''null pointer''))
      | Some (Some p, d) \<Rightarrow>
          (case QueueList_remove p (activeProcessors e) of
             Inl f \<Rightarrow> Some (Inl f)
           | Inr l \<Rightarrow> remove_deleted D C (e\<lparr>deletedProcessors := d, activeProcessors := l,
                scriptCollector := recycle C p (scriptCollector e)\<rparr>)))"

text \<open>The walk over the active processors, which first takes in those just added.\<close>

definition take_active ::
  "('a, 'p) queue_ops \<Rightarrow> ('a, 'd, 'c, 'f, 'p, 'o, 'w) engine \<Rightarrow>
     ('a, 'd, 'c, 'f, 'p, 'o, 'w) engine option"
where
  "take_active A e = map_option (\<lambda>l. e\<lparr>activeProcessors := l\<rparr>) (QueueList_getFirst A (activeProcessors e))"

definition bind_run :: "'a res option \<Rightarrow> ('a \<Rightarrow> 'b res option) \<Rightarrow> 'b res option" where
  "bind_run m f = Option.bind m (\<lambda>r. case r of Inl x \<Rightarrow> Some (Inl x) | Inr a \<Rightarrow> f a)"

lemma bind_run_simps [simp]:
  "bind_run None f = None" "bind_run (Some (Inl x)) f = Some (Inl x)" "bind_run (Some (Inr a)) f = f a"
  by (simp_all add: bind_run_def)

section \<open>The callbacks\<close>

definition engine_reposition ::
  "('a, 'p) queue_ops \<Rightarrow> ('d, 'p option) queue_ops \<Rightarrow> ('c, 'p) queue_ops \<Rightarrow> ('p, 'w) processor_ops \<Rightarrow>
     u16 \<Rightarrow> ('a, 'd, 'c, 'f, 'p, 'o, 'w) engine \<Rightarrow> (bool \<times> ('a, 'd, 'c, 'f, 'p, 'o, 'w) engine) res option"
where
  "engine_reposition A D C P attempt e =
     bind_run (remove_deleted D C e) (\<lambda>e1.
     bind_run (if attempt = 0
               then map_option (\<lambda>e'. Inr (e'\<lparr>world :=
                      fold (pr_reposition P) (ql_list (activeProcessors e')) (world e')\<rparr>))
                      (take_active A e1)
               else Some (Inr e1)) (\<lambda>e2.
     if host_running e2 then Some (Inr (False, e2))
     else Option.bind (take_active A e2) (\<lambda>e3.
       if \<not> (\<forall>p \<in> set (ql_list (activeProcessors e3)). pr_complete P p (world e3))
       then Some (Inr (False, e3))
       else Some (Inr (True, e3\<lparr>host_restart := True\<rparr>)))))"

text \<open>
  \<open>sync\<close> answers 1 when the engine is ready to roll. The number of attempts is an \<open>unsigned int\<close>
  that \<open>reposition\<close> takes as 16 bits.
\<close>

definition sync ::
  "('a, 'p) queue_ops \<Rightarrow> ('d, 'p option) queue_ops \<Rightarrow> ('c, 'p) queue_ops \<Rightarrow> ('p, 'w) processor_ops \<Rightarrow>
     u32 \<Rightarrow> ('a, 'd, 'c, 'f, 'p, 'o, 'w) engine \<Rightarrow> (int \<times> ('a, 'd, 'c, 'f, 'p, 'o, 'w) engine) res option"
where
  "sync A D C P frame e =
     (if multiplePeriodRestart e \<noteq> 0
      then bind_run (engine_reposition A D C P (ucast (multiplePeriodRestart e)) e) (\<lambda>(ok, e').
             Some (Inr (if ok then (1, e'\<lparr>multiplePeriodRestart := 0, runningFrame := 0\<rparr>)
                   else (0, e'\<lparr>multiplePeriodRestart := multiplePeriodRestart e' + 1\<rparr>))))
      else if frame < runningFrame e
      then bind_run (engine_reposition A D C P 0 e) (\<lambda>(ok, e').
             Some (Inr (if ok then (1, e'\<lparr>runningFrame := 0\<rparr>)
                   else (0, e'\<lparr>multiplePeriodRestart := 1\<rparr>))))
      else Some (Inr (1, e)))"

definition engine_process ::
  "('a, 'p) queue_ops \<Rightarrow> ('d, 'p option) queue_ops \<Rightarrow> ('c, 'p) queue_ops \<Rightarrow> ('f, 'o) queue_ops \<Rightarrow>
     ('p, 'w) processor_ops \<Rightarrow> bool \<Rightarrow> jack_position \<Rightarrow> u32 \<Rightarrow> u32 \<Rightarrow>
     ('a, 'd, 'c, 'f, 'p, 'o, 'w) engine \<Rightarrow> (int \<times> ('a, 'd, 'c, 'f, 'p, 'o, 'w) engine) res option"
where
  "engine_process A D C F P rolling pos time nframes e0 =
     (let e = (if rolling then e0\<lparr>runningFrame := j_frame pos\<rparr> else e0)
      in bind_run (remove_deleted D C e) (\<lambda>e1.
         Option.bind (take_active A e1) (\<lambda>e2.
         let e3 = e2\<lparr>world := fold (\<lambda>p. pr_process P p rolling pos nframes time)
                                (ql_list (activeProcessors e2)) (world e2)\<rparr>;
             e4 = e3\<lparr>scriptCollector := collector_update C (scriptCollector e3)\<rparr>
         in Option.bind (collector_free F (processCollector e4)) (\<lambda>(pc, _).
              Some (Inr (0, e4\<lparr>processCollector := pc\<rparr>))))))"

text \<open>The time signature the transport is at, read off the position JACK answers.\<close>

definition getTimeSignature :: "jack_position \<Rightarrow> time_signature" where
  "getTimeSignature pos =
     \<lparr>ts_valid = (j_valid pos AND 0x10 \<noteq> 0), ts_numerator = word_of_int (trunc (j_beats_per_bar pos)),
      ts_denominator = word_of_int (trunc (j_beat_type pos))\<rparr>"

text \<open>
  \<open>activate\<close> answers 1 when no JACK client could be opened or it could not be activated. What it
  asks of JACK: the client if it could be opened, its sample rate and the status of activation.
\<close>

definition activate :: "'j option \<Rightarrow> u32 \<Rightarrow> int \<Rightarrow> int" where
  "activate client sampleRate activation =
     (case client of None \<Rightarrow> 1 | Some _ \<Rightarrow> if activation \<noteq> 0 then 1 else 0)"

section \<open>The callbacks over queues that obey the queue laws\<close>

text \<open>The processors in the engine's hands that the script has not removed.\<close>

definition members :: "('a \<Rightarrow> 'p list) \<Rightarrow> ('a, 'd, 'c, 'f, 'p, 'o, 'w) engine \<Rightarrow> 'p list" where
  "members ca e = ql_members ca (activeProcessors e)"

definition live ::
  "('a \<Rightarrow> 'p list) \<Rightarrow> ('d \<Rightarrow> 'p option list) \<Rightarrow> ('a, 'd, 'c, 'f, 'p, 'o, 'w) engine \<Rightarrow> 'p list"
where
  "live ca cd e = filter (\<lambda>p. Some p \<notin> set (cd (deletedProcessors e))) (members ca e)"

text \<open>
  What the callbacks rely on: no processor is there twice, and whatever is to be removed is not
  null, is removed once, and has been taken into the list by an earlier callback.
\<close>

definition removable ::
  "('a \<Rightarrow> 'p list) \<Rightarrow> ('d \<Rightarrow> 'p option list) \<Rightarrow> ('a, 'd, 'c, 'f, 'p, 'o, 'w) engine \<Rightarrow> bool"
where
  "removable ca cd e \<longleftrightarrow>
     distinct (members ca e) \<and> distinct (cd (deletedProcessors e)) \<and>
     set (cd (deletedProcessors e)) \<subseteq> Some ` set (ql_list (activeProcessors e))"

locale engine_queues = adds: fifo A ca + dels: fifo D cd + coll: fifo C cc + frees: fifo F cf
  for A :: "('a, 'p) queue_ops" and ca :: "'a \<Rightarrow> 'p list"
    and D :: "('d, 'p option) queue_ops" and cd :: "'d \<Rightarrow> 'p option list"
    and C :: "('c, 'p) queue_ops" and cc :: "'c \<Rightarrow> 'p list"
    and F :: "('f, 'o) queue_ops" and cf :: "'f \<Rightarrow> 'o list"
begin

lemma remove_deleted_all:
  assumes "removable ca cd e"
  shows "\<exists>d c. remove_deleted D C e = Some (Inr (e\<lparr>deletedProcessors := d,
       activeProcessors := (activeProcessors e)\<lparr>ql_list :=
         filter (\<lambda>p. Some p \<notin> set (cd (deletedProcessors e))) (ql_list (activeProcessors e))\<rparr>,
       scriptCollector := c\<rparr>)) \<and> cd d = [] \<and>
     image_mset Some (collected cc c) = image_mset Some (collected cc (scriptCollector e)) +
       mset (cd (deletedProcessors e))"
  using assms
proof (induction "cd (deletedProcessors e)" arbitrary: e)
  case Nil
  then have n: "cd (deletedProcessors e) = []" by (metis)
  then have "q_pop D (deletedProcessors e) = None" by (simp add: dels.pop_empty)
  then have "remove_deleted D C e = Some (Inr e)" by (subst remove_deleted.simps) simp
  then show ?case
    using n by (intro exI [of _ "deletedProcessors e"] exI [of _ "scriptCollector e"]) simp
next
  case (Cons q qs)
  have cdq: "cd (deletedProcessors e) = q # qs" using Cons(2) by (rule sym)
  have "q_pop D (deletedProcessors e) \<noteq> None" using dels.pop_empty [of "deletedProcessors e"] cdq by simp
  then obtain q' d where "q_pop D (deletedProcessors e) = Some (q', d)" by auto
  then have d: "q_pop D (deletedProcessors e) = Some (q, d)" "cd d = qs"
    using dels.pop [of "deletedProcessors e" q' d] cdq by simp_all
  obtain p where p: "q = Some p" "p \<in> set (ql_list (activeProcessors e))"
    using Cons.prems by (auto simp: removable_def cdq)
  define e1 where "e1 = e\<lparr>deletedProcessors := d,
     activeProcessors := (activeProcessors e)\<lparr>ql_list := remove1 p (ql_list (activeProcessors e))\<rparr>,
     scriptCollector := recycle C p (scriptCollector e)\<rparr>"
  have dist: "distinct (ql_list (activeProcessors e))" "distinct (q # qs)"
    using Cons.prems by (simp_all add: removable_def members_def ql_members_def cdq)
  have rem: "remove1 p (ql_list (activeProcessors e)) = filter (\<lambda>x. x \<noteq> p) (ql_list (activeProcessors e))"
    using dist(1) by (simp add: distinct_remove1_removeAll removeAll_filter_not_eq neq_commute [of p])
  have "removable ca cd e1"
    using Cons.prems p dist d
    by (auto simp: removable_def members_def ql_members_def e1_def rem cdq)
  moreover have "qs = cd (deletedProcessors e1)" by (simp add: e1_def d)
  ultimately obtain d' c where ih:
    "remove_deleted D C e1 = Some (Inr (e1\<lparr>deletedProcessors := d',
       activeProcessors := (activeProcessors e1)\<lparr>ql_list :=
         filter (\<lambda>p. Some p \<notin> set qs) (ql_list (activeProcessors e1))\<rparr>,
       scriptCollector := c\<rparr>))" "cd d' = []"
    "image_mset Some (collected cc c) = image_mset Some (collected cc (scriptCollector e1)) + mset qs"
    using Cons(1) [of e1] by metis
  have "remove_deleted D C e = remove_deleted D C e1"
    using d p by (subst remove_deleted.simps) (simp add: e1_def QueueList_remove_def)
  moreover have "filter (\<lambda>p. Some p \<notin> set qs) (ql_list (activeProcessors e1)) =
      filter (\<lambda>p. Some p \<notin> set (q # qs)) (ql_list (activeProcessors e))"
    by (auto simp: e1_def rem p intro: filter_cong)
  ultimately show ?case
    using ih p coll.collected_recycle
    by (intro exI [of _ d'] exI [of _ c]) (simp add: e1_def cdq)
qed

lemma take_active_all:
  "\<exists>q. take_active A e = Some (e\<lparr>activeProcessors := \<lparr>ql_list = members ca e, ql_queue = q\<rparr>\<rparr>) \<and>
     ca q = []"
proof -
  obtain l where l: "QueueList_getFirst A (activeProcessors e) = Some l"
    "ql_list l = ql_members ca (activeProcessors e)" "ca (ql_queue l) = []"
    using adds.ql_getFirst by blast
  then have "l = \<lparr>ql_list = members ca e, ql_queue = ql_queue l\<rparr>" by (simp add: members_def)
  then show ?thesis using l by (simp add: take_active_def) metis
qed

text \<open>
  What the two callbacks have in common: the deleted processors are gone, the rest is walked.
\<close>

lemma clean_up:
  assumes "removable ca cd e"
  shows "\<exists>e1. remove_deleted D C e = Some (Inr e1) \<and> members ca e1 = live ca cd e \<and>
     cd (deletedProcessors e1) = [] \<and> world e1 = world e \<and> host_running e1 = host_running e \<and>
     host_restart e1 = host_restart e \<and> runningFrame e1 = runningFrame e \<and>
     multiplePeriodRestart e1 = multiplePeriodRestart e \<and> processCollector e1 = processCollector e \<and>
     image_mset Some (collected cc (scriptCollector e1)) =
       image_mset Some (collected cc (scriptCollector e)) + mset (cd (deletedProcessors e))"
proof -
  obtain d c where r: "remove_deleted D C e = Some (Inr (e\<lparr>deletedProcessors := d,
       activeProcessors := (activeProcessors e)\<lparr>ql_list :=
         filter (\<lambda>p. Some p \<notin> set (cd (deletedProcessors e))) (ql_list (activeProcessors e))\<rparr>,
       scriptCollector := c\<rparr>))" (is "_ = Some (Inr ?e1)") "cd d = []"
    "image_mset Some (collected cc c) = image_mset Some (collected cc (scriptCollector e)) +
       mset (cd (deletedProcessors e))"
    using remove_deleted_all [OF assms] by blast
  have "Some p \<notin> set (cd (deletedProcessors e))" if "p \<in> set (ca (ql_queue (activeProcessors e)))" for p
    using assms that by (auto simp: removable_def members_def ql_members_def)
  then have "filter (\<lambda>p. Some p \<notin> set (cd (deletedProcessors e))) (rev (ca (ql_queue (activeProcessors e)))) =
      rev (ca (ql_queue (activeProcessors e)))"
    by (intro filter_True) simp
  then have "members ca ?e1 = live ca cd e"
    by (simp add: members_def live_def ql_members_def)
  then show ?thesis using r by (intro exI [of _ ?e1]) simp
qed

lemma engine_process_runs:
  assumes "removable ca cd e"
  shows "\<exists>e'. engine_process A D C F P rolling pos time nframes e = Some (Inr (0, e')) \<and>
     world e' = fold (\<lambda>p. pr_process P p rolling pos nframes time) (live ca cd e) (world e) \<and>
     members ca e' = live ca cd e \<and> ql_list (activeProcessors e') = live ca cd e \<and>
     cd (deletedProcessors e') = [] \<and>
     runningFrame e' = (if rolling then j_frame pos else runningFrame e) \<and>
     image_mset Some (collected cc (scriptCollector e')) =
       image_mset Some (collected cc (scriptCollector e)) + mset (cd (deletedProcessors e)) \<and>
     cf (objectQueue (processCollector e')) = []"
proof -
  define e0 where "e0 = (if rolling then e\<lparr>runningFrame := j_frame pos\<rparr> else e)"
  have e0: "removable ca cd e0" "live ca cd e0 = live ca cd e" "world e0 = world e"
    "scriptCollector e0 = scriptCollector e" "deletedProcessors e0 = deletedProcessors e"
    "runningFrame e0 = (if rolling then j_frame pos else runningFrame e)"
    using assms by (simp_all add: e0_def removable_def live_def members_def)
  obtain e1 where e1: "remove_deleted D C e0 = Some (Inr e1)" "members ca e1 = live ca cd e"
    "cd (deletedProcessors e1) = []" "world e1 = world e" "runningFrame e1 = runningFrame e0"
    "image_mset Some (collected cc (scriptCollector e1)) =
       image_mset Some (collected cc (scriptCollector e)) + mset (cd (deletedProcessors e))"
    using clean_up [OF e0(1)] e0 by auto
  obtain q where q: "take_active A e1 =
      Some (e1\<lparr>activeProcessors := \<lparr>ql_list = members ca e1, ql_queue = q\<rparr>\<rparr>)" "ca q = []"
    using take_active_all by blast
  obtain pc where pc: "collector_free F (processCollector e1) = Some (pc, cf (objectQueue (processCollector e1)))"
    "cf (objectQueue pc) = []"
    using frees.collector_free_all [of "processCollector e1"] by blast
  show ?thesis
    unfolding engine_process_def e0_def [symmetric] Let_def
    using e1 q pc coll.collected_update e0(6)
    by (simp add: members_def ql_members_def)
qed

lemma engine_reposition_runs:
  fixes attempt :: u16 and P :: "('p, 'w) processor_ops"
    and e :: "('a, 'd, 'c, 'f, 'p, 'o, 'w) engine"
  assumes "removable ca cd e"
  defines "w \<equiv> if attempt = 0 then fold (pr_reposition P) (live ca cd e) (world e) else world e"
  defines "ok \<equiv> \<not> host_running e \<and> (\<forall>p \<in> set (live ca cd e). pr_complete P p w)"
  shows "\<exists>e'. engine_reposition A D C P attempt e = Some (Inr (ok, e')) \<and> world e' = w \<and>
     members ca e' = live ca cd e \<and> cd (deletedProcessors e') = [] \<and>
     host_running e' = host_running e \<and> host_restart e' = (host_restart e \<or> ok) \<and>
     runningFrame e' = runningFrame e \<and> multiplePeriodRestart e' = multiplePeriodRestart e"
proof -
  obtain e1 where e1: "remove_deleted D C e = Some (Inr e1)" "members ca e1 = live ca cd e"
    "cd (deletedProcessors e1) = []" "world e1 = world e" "host_running e1 = host_running e"
    "host_restart e1 = host_restart e" "runningFrame e1 = runningFrame e"
    "multiplePeriodRestart e1 = multiplePeriodRestart e"
    using clean_up [OF assms(1)] by blast
  define e2 where "e2 = (if attempt = 0
      then (the (take_active A e1))\<lparr>world := fold (pr_reposition P) (members ca e1) (world e1)\<rparr> else e1)"
  obtain q where q: "take_active A e1 =
      Some (e1\<lparr>activeProcessors := \<lparr>ql_list = members ca e1, ql_queue = q\<rparr>\<rparr>)" "ca q = []"
    using take_active_all by blast
  have e2: "members ca e2 = live ca cd e" "world e2 = w" "cd (deletedProcessors e2) = []"
    "host_running e2 = host_running e" "host_restart e2 = host_restart e"
    "runningFrame e2 = runningFrame e" "multiplePeriodRestart e2 = multiplePeriodRestart e"
    using q e1 by (simp_all add: e2_def members_def ql_members_def w_def)
  have run: "engine_reposition A D C P attempt e = bind_run (Some (Inr e2)) (\<lambda>e2.
     if host_running e2 then Some (Inr (False, e2))
     else Option.bind (take_active A e2) (\<lambda>e3.
       if \<not> (\<forall>p \<in> set (ql_list (activeProcessors e3)). pr_complete P p (world e3))
       then Some (Inr (False, e3))
       else Some (Inr (True, e3\<lparr>host_restart := True\<rparr>))))"
    using e1(1) q by (simp add: engine_reposition_def e2_def members_def)
  obtain r where r: "take_active A e2 =
      Some (e2\<lparr>activeProcessors := \<lparr>ql_list = members ca e2, ql_queue = r\<rparr>\<rparr>)" "ca r = []"
    using take_active_all by blast
  show ?thesis
  proof (cases "host_running e")
    case True
    then show ?thesis using run e2 by (intro exI [of _ e2]) (simp add: ok_def)
  next
    case False
    define e3 where "e3 = e2\<lparr>activeProcessors := \<lparr>ql_list = live ca cd e, ql_queue = r\<rparr>\<rparr>"
    have e3: "members ca e3 = live ca cd e" "ql_list (activeProcessors e3) = live ca cd e"
      "world e3 = w" "cd (deletedProcessors e3) = []" "host_running e3 = host_running e"
      "host_restart e3 = host_restart e" "runningFrame e3 = runningFrame e"
      "multiplePeriodRestart e3 = multiplePeriodRestart e"
      using e2 r(2) by (simp_all add: e3_def members_def ql_members_def)
    have t: "take_active A e2 = Some e3" using r(1) e2(1) by (simp add: e3_def)
    have h: "\<not> host_running e2" using False e2(4) by simp
    have "engine_reposition A D C P attempt e =
        (if ok then Some (Inr (True, e3\<lparr>host_restart := True\<rparr>)) else Some (Inr (False, e3)))"
      unfolding run bind_run_simps t using h False e3(2,3) by (simp add: ok_def)
    then show ?thesis
      using e3 by (cases ok) (simp_all add: members_def)
  qed
qed

end

interpretation list_engine: engine_queues "list_queue n" "\<lambda>q. q" "list_queue k" "\<lambda>q. q"
    "list_queue j" "\<lambda>q. q" "list_queue i" "\<lambda>q. q"
  by unfold_locales

section \<open>The engine as the environment of the processor caches\<close>

definition cache_add :: "('a, 'p) queue_ops \<Rightarrow> 'p \<Rightarrow> ('a, 'd, 'c, 'f, 'p, 'o, 'w) engine option \<Rightarrow>
    ('a, 'd, 'c, 'f, 'p, 'o, 'w) engine option" where
  "cache_add A p e = Option.bind e (addProcessor A p)"

definition cache_remove :: "('d, 'p option) queue_ops \<Rightarrow> 'p option \<Rightarrow>
    ('a, 'd, 'c, 'f, 'p, 'o, 'w) engine option \<Rightarrow> ('a, 'd, 'c, 'f, 'p, 'o, 'w) engine option" where
  "cache_remove D p e = Option.bind e (removeProcessor D p)"

definition live_set :: "('a \<Rightarrow> 'p list) \<Rightarrow> ('d \<Rightarrow> 'p option list) \<Rightarrow>
    ('a, 'd, 'c, 'f, 'p, 'o, 'w) engine option \<Rightarrow> 'p set" where
  "live_set ca cd e = (case e of None \<Rightarrow> {} | Some e \<Rightarrow> set (live ca cd e))"

definition known_set :: "('a \<Rightarrow> 'p list) \<Rightarrow> ('d \<Rightarrow> 'p option list) \<Rightarrow>
    ('a, 'd, 'c, 'f, 'p, 'o, 'w) engine option \<Rightarrow> 'p set" where
  "known_set ca cd e = (case e of None \<Rightarrow> {} | Some e \<Rightarrow>
     set (members ca e) \<union> {p. Some p \<in> set (cd (deletedProcessors e))})"

text \<open>
  The caches see the engine through two operations that keep their contract whenever they do
  not block.
\<close>

lemma engine_registry:
  fixes A :: "('a, 'p) queue_ops" and D :: "('d, 'p option) queue_ops"
  assumes "fifo A ca" "fifo D cd"
  shows "object_registry (cache_add A) (cache_remove D) (\<lambda>e. e \<noteq> None) 
    (live_set ca cd :: ('a, 'd, 'c, 'f, 'p, 'o, 'w) engine option \<Rightarrow> 'p set) (known_set ca cd)"
proof unfold_locales
  fix ob and e :: "('a, 'd, 'c, 'f, 'p, 'o, 'w) engine option" and p
  show "live_set ca cd (cache_add A ob e) = insert ob (live_set ca cd e)"
    if "cache_add A ob e \<noteq> None" "ob \<notin> known_set ca cd e"
    using that fifo.ql_add [OF assms(1)]
    by (auto simp: cache_add_def addProcessor_def live_set_def known_set_def live_def members_def
        split: bind_splits option.splits)
  show "live_set ca cd (cache_remove D (Some ob) e) = live_set ca cd e - {ob}"
    if "cache_remove D (Some ob) e \<noteq> None"
    using that fifo.push [OF assms(2)]
    by (auto simp: cache_remove_def removeProcessor_def live_set_def live_def members_def
        split: bind_splits option.splits)
  show "live_set ca cd (cache_remove D None e) = live_set ca cd e" if "cache_remove D None e \<noteq> None"
    using that fifo.push [OF assms(2)]
    by (auto simp: cache_remove_def removeProcessor_def live_set_def live_def members_def
        split: bind_splits option.splits)
  show "e \<noteq> None" if "cache_add A ob e \<noteq> None" using that by (cases e) (auto simp: cache_add_def)
  show "e \<noteq> None" if "cache_remove D p e \<noteq> None" using that by (cases e) (auto simp: cache_remove_def)
qed

interpretation list_registry: object_registry "cache_add (list_queue n)" "cache_remove (list_queue m)"
    "\<lambda>e. e \<noteq> None" "live_set (\<lambda>q. q) (\<lambda>q. q)" "known_set (\<lambda>q. q) (\<lambda>q. q)"
  by (rule engine_registry [OF listq.fifo_axioms listq.fifo_axioms])

section \<open>Properties\<close>

text \<open>C17: one process callback runs every live processor exactly once, in list order, takes all
  removed processors off the list and hands each to the collector, frees what the process
  thread's collector holds, and cannot fault while every processor to be removed has been taken
  in by an earlier callback.\<close>

theorem engine_process_correct:
  assumes "fifo A ca" "fifo D cd" "fifo C cc" "fifo F cf" "removable ca cd e"
  shows "\<exists>e'. engine_process A D C F P rolling pos time nframes e = Some (Inr (0, e')) \<and>
     world e' = fold (\<lambda>p. pr_process P p rolling pos nframes time) (live ca cd e) (world e) \<and>
     members ca e' = live ca cd e \<and> ql_list (activeProcessors e') = live ca cd e \<and>
     cd (deletedProcessors e') = [] \<and>
     runningFrame e' = (if rolling then j_frame pos else runningFrame e) \<and>
     image_mset Some (collected cc (scriptCollector e')) =
       image_mset Some (collected cc (scriptCollector e)) + mset (cd (deletedProcessors e)) \<and>
     cf (objectQueue (processCollector e')) = []"
  by (rule engine_queues.engine_process_runs [OF engine_queues.intro [OF assms(1-4)] assms(5)])

definition example_ops :: "(nat, nat list) processor_ops" where
  "example_ops = \<lparr>pr_process = (\<lambda>p _ _ _ _ w. w @ [p]), pr_reposition = (\<lambda>p w. w @ [100 + p]),
     pr_complete = (\<lambda>p w. p < 10)\<rparr>"

definition example_engine ::
  "(nat list, nat option list, nat list, unit list, nat, unit, nat list) engine"
where
  "example_engine = \<lparr>runningFrame = 1000, multiplePeriodRestart = 0,
     activeProcessors = \<lparr>ql_list = [4, 2], ql_queue = [3]\<rparr>, deletedProcessors = [Some 2],
     scriptCollector = \<lparr>objectQueue = [], waitingList = \<lparr>w_items = [], w_last_ok = False\<rparr>\<rparr>, processCollector = \<lparr>objectQueue = [], waitingList = \<lparr>w_items = [], w_last_ok = False\<rparr>\<rparr>,
     host_running = False, host_restart = False, world = []\<rparr>"

lemma example_removable: "removable (\<lambda>q. q) (\<lambda>q. q) example_engine"
  by (simp add: removable_def members_def ql_members_def example_engine_def)

lemma example_live: "live (\<lambda>q. q) (\<lambda>q. q) example_engine = [3, 4]"
  by (simp add: live_def members_def ql_members_def example_engine_def)

theorem engine_process_correct_witness:
  "\<exists>e'. engine_process (list_queue 8) (list_queue 8) (list_queue 8) (list_queue 8) example_ops True
       example_pos 512 64 example_engine = Some (Inr (0, e')) \<and> world e' = [3, 4] \<and>
     deletedProcessors e' = []"
proof -
  have "fold (\<lambda>p. pr_process example_ops p True example_pos 64 512) [3, 4] (world example_engine) = [3, 4]"
    by (simp add: example_ops_def example_engine_def)
  then show ?thesis
    using engine_process_correct [OF listq.fifo_axioms listq.fifo_axioms listq.fifo_axioms
        listq.fifo_axioms example_removable, of 8 8 8 8 example_ops True example_pos 512 64]
    unfolding example_live by auto
qed

text \<open>C18: the sync protocol. Without a backward jump and outside a restart the engine is ready at once
  and nothing changes. Otherwise it is ready exactly when the script is waiting and every live
  processor has completed its reposition, and only then asks for a restart; every live processor
  is told to reposition once, in the first attempt, and not again while attempts are counted
  below 65536.\<close>

theorem sync_protocol:
  fixes e :: "('a, 'd, 'c, 'f, 'p, 'o, 'w) engine" and P :: "('p, 'w) processor_ops"
    and F :: "('f, 'o) queue_ops"
  assumes "fifo A ca" "fifo D cd" "fifo C cc" "fifo F cf"
    and "removable ca cd e"
    and "unat (multiplePeriodRestart e) < 65536"
  defines "again \<equiv> multiplePeriodRestart e \<noteq> 0"
  defines "w \<equiv> if again then world e else fold (pr_reposition P) (live ca cd e) (world e)"
  defines "ok \<equiv> \<not> host_running e \<and> (\<forall>p \<in> set (live ca cd e). pr_complete P p w)"
  shows "\<exists>v e'. sync A D C P frame e = Some (Inr (v, e')) \<and>
     (if \<not> again \<and> runningFrame e \<le> frame then v = 1 \<and> e' = e
      else world e' = w \<and> members ca e' = live ca cd e \<and>
        v = (if ok then 1 else 0) \<and> host_restart e' = (host_restart e \<or> ok) \<and>
        multiplePeriodRestart e' = (if ok then 0 else multiplePeriodRestart e + 1) \<and>
        runningFrame e' = (if ok then 0 else runningFrame e))"
proof -
  have intro: "engine_queues A ca D cd C cc F cf" by (rule engine_queues.intro [OF assms(1-4)])
  have narrow: "(ucast (multiplePeriodRestart e) :: u16) \<noteq> 0" if again
  proof -
    have "unat (ucast (multiplePeriodRestart e) :: u16) = unat (multiplePeriodRestart e)"
      using assms(6) by (simp add: unsigned_ucast_eq take_bit_eq_mod)
    then show ?thesis using that by (metis again_def unat_eq_zero unsigned_0)
  qed
  show ?thesis
  proof (cases again)
    case True
    obtain e' where "engine_reposition A D C P (ucast (multiplePeriodRestart e)) e = Some (Inr (ok, e'))"
      "world e' = w" "members ca e' = live ca cd e" "host_restart e' = (host_restart e \<or> ok)"
      "runningFrame e' = runningFrame e" "multiplePeriodRestart e' = multiplePeriodRestart e"
      using engine_queues.engine_reposition_runs [OF intro assms(5), where attempt = "ucast (multiplePeriodRestart e)" and P = P]
        narrow [OF True] True by (auto simp: ok_def w_def)
    then show ?thesis using True by (cases ok) (simp_all add: sync_def again_def [symmetric] members_def)
  next
    case False
    then have z: "multiplePeriodRestart e = 0" by (simp add: again_def)
    obtain e' where "engine_reposition A D C P 0 e = Some (Inr (ok, e'))"
      "world e' = w" "members ca e' = live ca cd e" "host_restart e' = (host_restart e \<or> ok)"
      "runningFrame e' = runningFrame e" "multiplePeriodRestart e' = multiplePeriodRestart e"
      using engine_queues.engine_reposition_runs [OF intro assms(5), where attempt = 0 and P = P] False
      by (auto simp: ok_def w_def)
    then show ?thesis using False z
      by (cases ok) (auto simp: sync_def members_def not_less)
  qed
qed

theorem sync_protocol_witness:
  "\<exists>e'. sync (list_queue 8) (list_queue 8) (list_queue 8) example_ops 0 example_engine = Some (Inr (1, e')) \<and>
     world e' = [103, 104] \<and> host_restart e' \<and> runningFrame e' = 0"
proof -
  have f: "fold (pr_reposition example_ops) [3, 4] (world example_engine) = [103, 104]"
    "multiplePeriodRestart example_engine = 0" "runningFrame example_engine = 1000"
    "\<not> host_running example_engine" "\<forall>p \<in> {3, 4}. pr_complete example_ops p [103, 104]"
    by (simp_all add: example_ops_def example_engine_def)
  show ?thesis
    using sync_protocol [OF listq.fifo_axioms listq.fifo_axioms listq.fifo_axioms
        listq.fifo_axioms [where n = 8] example_removable, of 8 8 8 example_ops 0] f
    unfolding example_live by auto
qed

text \<open>a processor that is removed before any callback has taken it in brings the process callback
  down, and so does the null pointer a cache removes after a failed lookup.\<close>

theorem early_removal_faults:
  "Option.bind (removeProcessor (list_queue 8) (Some 3) example_engine)
       (engine_process (list_queue 8) (list_queue 8) (list_queue 8) (list_queue 8) example_ops rolling pos time n) =
     Some (Inl (Undefined ''null pointer'')) \<and>
   Option.bind (removeProcessor (list_queue 8) None example_engine)
       (engine_process (list_queue 8) (list_queue 8) (list_queue 8) (list_queue 8) example_ops rolling pos time n) =
     Some (Inl (Undefined ''null pointer''))"
proof -
  have "remove_deleted (list_queue 8) (list_queue 8)
      (example_engine\<lparr>deletedProcessors := [Some 2, q], runningFrame := f\<rparr>) =
      Some (Inl (Undefined ''null pointer''))" if "q = Some 3 \<or> q = None" for f q
  proof -
    have last: "remove_deleted (list_queue 8) (list_queue 8) e = Some (Inl (Undefined ''null pointer''))"
      if "deletedProcessors e = [q]" "ql_list (activeProcessors e) = [4]"
      for e :: "(nat list, nat option list, nat list, unit list, nat, unit, nat list) engine"
      using that \<open>q = Some 3 \<or> q = None\<close>
      by (subst remove_deleted.simps) (auto simp: list_queue_def QueueList_remove_def)
    show ?thesis
      by (subst remove_deleted.simps)
         (simp add: list_queue_def QueueList_remove_def example_engine_def last [unfolded list_queue_def])
  qed
  then show ?thesis
    by (cases rolling)
      (simp_all add: engine_process_def removeProcessor_def list_queue_def example_engine_def Let_def)
qed



end
