(* ===== verification/Routing.thy ===== *)
theory Routing
  imports Prelude
begin

text \<open>
  How processors pull on each other (\<open>src/processor.h\<close>, \<open>src/source.h\<close>,
  \<open>src/audioconnection.h\<close> and the \<open>MidiConnector\<close> of \<open>src/midiconnection.h\<close>). The network is a
  function from a source to the sources it is connected to, in the order in which its
  \<open>doProcess\<close> and its \<open>connectsTo\<close> visit them: none for the system ports, the sources of the
  connected inputs for mixers and plugins.
\<close>

section \<open>Processing\<close>

text \<open>
  \<open>Processor::process\<close> for a list of processors, one after the other: the ones a mixer pulls, or
  all the engine runs. The state is \<open>processedUntil\<close> of every processor and the order in which
  \<open>doProcess\<close> calls have finished. A processor is marked only after its \<open>doProcess\<close>, which first
  processes its sources.
\<close>

partial_function (option) process_all ::
  "('p \<Rightarrow> 'p list) \<Rightarrow> u32 \<Rightarrow> 'p list \<Rightarrow> ('p \<Rightarrow> u32) \<times> 'p list \<Rightarrow> (('p \<Rightarrow> u32) \<times> 'p list) option"
where
  "process_all G time ps s =
     (case ps of
        [] \<Rightarrow> Some s
      | q # qs \<Rightarrow>
          if time \<le> fst s q then process_all G time qs s
          else Option.bind (process_all G time (G q) s) (\<lambda>s'.
                 process_all G time qs ((fst s')(q := time), snd s' @ [q])))"

definition process :: "('p \<Rightarrow> 'p list) \<Rightarrow> u32 \<Rightarrow> 'p \<Rightarrow> ('p \<Rightarrow> u32) \<times> 'p list \<Rightarrow>
    (('p \<Rightarrow> u32) \<times> 'p list) option" where
  "process G time q s = process_all G time [q] s"

section \<open>The loop check\<close>

text \<open>
  \<open>connectsTo\<close> of the listed sources: true if one of them is connected to the target. A system
  port answers false, a mixer or plugin asks the sources it is connected to; nothing compares a
  source with the target.
\<close>

partial_function (option) any_connects :: "('p \<Rightarrow> 'p list) \<Rightarrow> 'p \<Rightarrow> 'p list \<Rightarrow> bool option" where
  "any_connects G target ps =
     (case ps of
        [] \<Rightarrow> Some False
      | q # qs \<Rightarrow>
          Option.bind (any_connects G target (G q)) (\<lambda>b.
            if b then Some True else any_connects G target qs))"

definition connectsTo :: "('p \<Rightarrow> 'p list) \<Rightarrow> 'p \<Rightarrow> 'p \<Rightarrow> bool option" where
  "connectsTo G source target = any_connects G target (G source)"

text \<open>
  \<open>setConnection\<close> of an audio or MIDI connector: \<open>connSource\<close> is the source of the connection to
  be stored, \<open>source\<close> the processor the connector belongs to.
\<close>

definition setConnection ::
  "('p \<Rightarrow> 'p list) \<Rightarrow> 'p \<Rightarrow> 'p \<Rightarrow> 'c \<Rightarrow> 'c option \<Rightarrow> 'c option res option"
where
  "setConnection G connSource source conn slot =
     (if connSource = source then Some (Inl (Logic_error ''Cannot connect infinite loop''))
      else map_option (\<lambda>b. if b then Inl (Logic_error ''Cannot connect infinite loop'')
                           else Inr (Some conn)) (connectsTo G connSource source))"

section \<open>Acyclic networks\<close>

definition ranked :: "('p \<Rightarrow> nat) \<Rightarrow> ('p \<Rightarrow> 'p list) \<Rightarrow> bool" where
  "ranked r G \<longleftrightarrow> (\<forall>p. \<forall>q \<in> set (G p). r q < r p)"

text \<open>
  Every processor is worked after the sources it pulls: each element of the work list is
  preceded by its sources, except those done before.
\<close>

fun in_order :: "('p \<Rightarrow> 'p list) \<Rightarrow> 'p set \<Rightarrow> 'p list \<Rightarrow> bool" where
  "in_order G A [] = True"
| "in_order G A (q # qs) \<longleftrightarrow> set (G q) \<subseteq> A \<and> in_order G (insert q A) qs"

lemma in_order_append:
  "in_order G A (xs @ ys) \<longleftrightarrow> in_order G A xs \<and> in_order G (A \<union> set xs) ys"
  by (induction xs arbitrary: A) auto

definition fresh :: "u32 \<Rightarrow> ('p \<Rightarrow> u32) \<Rightarrow> 'p set" where
  "fresh time u = {q. time \<le> u q}"

text \<open>
  Processing an acyclic network ends. The processors worked are new and distinct, worked in
  order, and with them everything asked for is done.
\<close>

lemma process_all_returns:
  assumes "ranked r G" "\<forall>p \<in> set ps. r p < n"
  shows "\<exists>u' ws. process_all G time ps (u, lg) = Some (u', lg @ ws) \<and>
     u' = (\<lambda>q. if q \<in> set ws then time else u q) \<and> distinct ws \<and> set ws \<inter> fresh time u = {} \<and>
     in_order G (fresh time u) ws \<and> set ps \<subseteq> fresh time u' \<and> (\<forall>q \<in> set ws. r q < n)"
  using assms(2)
proof (induction n arbitrary: ps u lg rule: less_induct)
  case (less n)
  from less.prems show ?case
  proof (induction ps arbitrary: u lg)
    case Nil
    show ?case by (subst process_all.simps) (simp add: fresh_def)
  next
    case (Cons q qs)
    then have qn: "r q < n" and qsn: "\<forall>p \<in> set qs. r p < n" by simp_all
    show ?case
    proof (cases "time \<le> u q")
      case True
      from Cons.IH [OF qsn, of u lg] obtain u' ws where w:
        "process_all G time qs (u, lg) = Some (u', lg @ ws)"
        "u' = (\<lambda>q. if q \<in> set ws then time else u q)" "distinct ws" "set ws \<inter> fresh time u = {}"
        "in_order G (fresh time u) ws" "set qs \<subseteq> fresh time u'" "\<forall>q \<in> set ws. r q < n"
        by blast
      have "process_all G time (q # qs) (u, lg) = Some (u', lg @ ws)"
        using True w(1) by (subst process_all.simps) simp
      moreover have "q \<in> fresh time u'" using True w(2) by (simp add: fresh_def)
      ultimately show ?thesis using w by auto
    next
      case False
      have "\<forall>p \<in> set (G q). r p < r q" using assms(1) by (simp add: ranked_def)
      from less.IH [OF qn this, of u lg] obtain u1 vs where v:
        "process_all G time (G q) (u, lg) = Some (u1, lg @ vs)"
        "u1 = (\<lambda>q. if q \<in> set vs then time else u q)" "distinct vs" "set vs \<inter> fresh time u = {}"
        "in_order G (fresh time u) vs" "set (G q) \<subseteq> fresh time u1" "\<forall>p \<in> set vs. r p < r q"
        by blast
      define u2 where "u2 = u1(q := time)"
      have qv: "q \<notin> set vs" using v(7) by auto
      have f1: "fresh time u1 = fresh time u \<union> set vs" using v(2) by (auto simp: fresh_def)
      have f2: "fresh time u2 = fresh time u \<union> set (vs @ [q])"
        using f1 by (auto simp: fresh_def u2_def)
      from Cons.IH [OF qsn, of u2 "lg @ vs @ [q]"] obtain u' ws where w:
        "process_all G time qs (u2, lg @ vs @ [q]) = Some (u', (lg @ vs @ [q]) @ ws)"
        "u' = (\<lambda>q. if q \<in> set ws then time else u2 q)" "distinct ws" "set ws \<inter> fresh time u2 = {}"
        "in_order G (fresh time u2) ws" "set qs \<subseteq> fresh time u'" "\<forall>q \<in> set ws. r q < n"
        by blast
      show ?thesis
      proof (intro exI conjI)
        show "process_all G time (q # qs) (u, lg) = Some (u', lg @ (vs @ q # ws))"
          using False v(1) w(1) by (subst process_all.simps) (simp add: u2_def)
        show "u' = (\<lambda>p. if p \<in> set (vs @ q # ws) then time else u p)"
          using w(2) v(2) by (auto simp: u2_def)
        show "distinct (vs @ q # ws)" using v(3) qv w(3,4) f2 by auto
        show "set (vs @ q # ws) \<inter> fresh time u = {}"
          using v(4) False w(4) f2 by (auto simp: fresh_def)
        show "in_order G (fresh time u) (vs @ q # ws)"
          using v(5,6) w(5) f1 f2 by (simp add: in_order_append Un_commute insert_commute)
        show "set (q # qs) \<subseteq> fresh time u'" using w(2,6) f2 by (auto simp: fresh_def u2_def)
        show "\<forall>p \<in> set (vs @ q # ws). r p < n" using v(7) qn w(7) by auto
      qed
    qed
  qed
qed

lemma any_connects_false:
  assumes "any_connects G target ps = Some b"
  shows "\<not> b"
proof (rule any_connects.raw_induct [where P = "\<lambda>G target ps b. \<not> b", OF _ assms])
  fix f :: "('a \<Rightarrow> 'a list) \<Rightarrow> 'a \<Rightarrow> 'a list \<Rightarrow> bool option" and G target ps b
  assume "\<And>G target ps b. f G target ps = Some b \<Longrightarrow> \<not> b"
    "(case ps of [] \<Rightarrow> Some False
      | q # qs \<Rightarrow> Option.bind (f G target (G q)) (\<lambda>b. if b then Some True else f G target qs)) = Some b"
  then show "\<not> b" by (auto split: list.splits bind_splits if_splits)
qed

text \<open>A loop of two is never worked off: no result is a fixed point of its processing.\<close>

lemma two_loop_diverges:
  assumes "G a = [b]" "G b = [a]" "a \<noteq> b" "ps = [a] \<or> ps = [b]" "fst s a < time" "fst s b < time"
  shows "process_all G time ps s = None"
proof -
  have "\<not> (G a = [b] \<and> G b = [a] \<and> (ps = [a] \<or> ps = [b]) \<and> fst s a < time \<and> fst s b < time)"
    if "process_all G time ps s = Some s'" for G :: "'a \<Rightarrow> 'a list" and time ps s s'
  proof (rule process_all.raw_induct [where P = "\<lambda>G time ps s s'.
      \<not> (G a = [b] \<and> G b = [a] \<and> (ps = [a] \<or> ps = [b]) \<and> fst s a < time \<and> fst s b < time)", OF _ that],
      goal_cases)
    case (1 f G time ps s s')
    show ?case
    proof
      assume A: "G a = [b] \<and> G b = [a] \<and> (ps = [a] \<or> ps = [b]) \<and> fst s a < time \<and> fst s b < time"
      with 1(2) have "\<exists>c s1. (c = a \<or> c = b) \<and> f G time [c] s = Some s1"
        by (auto split: list.splits bind_splits if_splits)
      with 1(1) A show False by blast
    qed
  qed
  then show ?thesis using assms by (cases "process_all G time ps s") blast+
qed

lemma any_connects_returns:
  assumes "ranked r G" "\<forall>p \<in> set ps. r p < n"
  shows "any_connects G target ps = Some False"
  using assms(2)
proof (induction n arbitrary: ps rule: less_induct)
  case (less n)
  from less.prems show ?case
  proof (induction ps)
    case Nil
    show ?case by (subst any_connects.simps) simp
  next
    case (Cons q qs)
    have "\<forall>p \<in> set (G q). r p < r q" using assms(1) by (simp add: ranked_def)
    then have "any_connects G target (G q) = Some False" using less.IH [of "r q"] Cons.prems by auto
    then show ?case using Cons by (subst any_connects.simps) simp
  qed
qed

section \<open>Properties\<close>

text \<open>C21: processing a network without cycles always ends. Each processor is worked at most once per
  cycle however many others pull it, after all of its sources, and everything asked for is done
  up to the cycle's time.\<close>

theorem process_acyclic:
  assumes "ranked r G"
  shows "\<exists>u' ws. process_all G time ps (u, lg) = Some (u', lg @ ws) \<and>
     u' = (\<lambda>q. if q \<in> set ws then time else u q) \<and> distinct ws \<and> set ws \<inter> fresh time u = {} \<and>
     in_order G (fresh time u) ws \<and> set ps \<subseteq> fresh time u'"
proof -
  have "\<forall>p \<in> set ps. r p < Suc (sum_list (map r ps))"
    by (auto simp: less_Suc_eq_le intro: member_le_sum_list)
  from process_all_returns [OF assms this] show ?thesis by blast
qed

definition example_net :: "nat \<Rightarrow> nat list" where
  "example_net p = (if p = 2 then [0, 1] else if p = 3 then [2, 0] else [])"

theorem process_acyclic_witness:
  "\<exists>u' ws. process_all example_net 512 [3, 2] (\<lambda>_. 256, []) = Some (u', ws) \<and> distinct ws \<and>
     in_order example_net {} ws \<and> u' 3 = 512"
proof -
  have "ranked id example_net" by (auto simp: ranked_def example_net_def)
  moreover have e: "fresh 512 (\<lambda>_ :: nat. 256) = {}" by (simp add: fresh_def)
  ultimately obtain u' ws where
    "process_all example_net 512 [3, 2] (\<lambda>_. 256, []) = Some (u', [] @ ws)"
    "u' = (\<lambda>q. if q \<in> set ws then 512 else 256)" "distinct ws" "in_order example_net {} ws"
    "set [3, 2] \<subseteq> fresh 512 u'"
    using process_acyclic [of id example_net 512 "[3, 2]" "\<lambda>_. 256" "[]"] unfolding e by blast
  moreover from this have "3 \<in> set ws" by (auto simp: fresh_def split: if_splits)
  ultimately show ?thesis by auto
qed

text \<open>the loop check finds nothing but a direct connection of a processor to itself: whenever
  \<open>connectsTo\<close> returns it returns false, and on an acyclic network it always returns, so a
  connection between two different processors is always accepted.\<close>

theorem loop_check_vacuous:
  "connectsTo G source target \<noteq> Some True \<and>
   setConnection G source source conn slot = Some (Inl (Logic_error ''Cannot connect infinite loop'')) \<and>
   (ranked r G \<longrightarrow> connSource \<noteq> source \<longrightarrow> setConnection G connSource source conn slot = Some (Inr (Some conn)))"
proof -
  have "connectsTo G connSource source = Some False" if "ranked r G"
    unfolding connectsTo_def
    by (rule any_connects_returns [OF that, of _ "Suc (sum_list (map r (G connSource)))"])
      (auto simp: less_Suc_eq_le intro: member_le_sum_list)
  then show ?thesis
    using any_connects_false [of G target "G source" True]
    by (auto simp: connectsTo_def setConnection_def)
qed

theorem loop_check_vacuous_witness:
  "setConnection example_net 3 2 (7 :: nat) None = Some (Inr (Some 7)) \<and> 2 \<in> set (example_net 3)"
proof -
  have "ranked id example_net" by (auto simp: ranked_def example_net_def)
  then show ?thesis
    using loop_check_vacuous [of example_net 2 2 "7 :: nat" None id 3] by (simp add: example_net_def)
qed

text \<open>two processors connected to each other, which the check accepts, make processing run
  forever.\<close>

theorem accepted_loop_diverges:
  assumes "a \<noteq> b" "G a = []" "G b = []" "fst s a < time" "fst s b < time"
  defines "G1 \<equiv> G(b := [a])"
  shows "setConnection G a b c1 x = Some (Inr (Some c1)) \<and>
     setConnection G1 b a c2 y = Some (Inr (Some c2)) \<and>
     process (G1(a := [b])) time a s = None"
proof -
  have 1: "any_connects G b [] = Some False" by (subst any_connects.simps) simp
  have "any_connects G1 a [] = Some False" by (subst any_connects.simps) simp
  then have 2: "any_connects G1 a [a] = Some False"
    using assms(1,2) by (subst any_connects.simps) (simp add: G1_def)
  have 3: "process_all (G1(a := [b])) time [a] s = None"
    by (rule two_loop_diverges [of _ a b]) (use assms in simp_all)
  have "connectsTo G a b = Some False" using 1 assms(2) by (simp add: connectsTo_def)
  moreover have "connectsTo G1 b a = Some False" using 2 by (simp add: connectsTo_def G1_def)
  ultimately show ?thesis using assms(1) 3 by (simp add: setConnection_def process_def)
qed

theorem accepted_loop_diverges_witness:
  "process ((\<lambda>_ :: nat. [] :: nat list)(6 := [5], 5 := [6])) 512 5 (\<lambda>_. 256, []) = None"
  using accepted_loop_diverges [of "5 :: nat" 6 "\<lambda>_. []" "(\<lambda>_. 256, [])" 512 "()" None "()" None] by simp

text \<open>the process time is a 32-bit frame counter: after it wraps around, no processor is worked
  again before it has come back to where it was.\<close>

theorem process_after_wrap:
  "process_all G (4294967040 + 512) ps ((\<lambda>_. 4294967040), lg) = Some ((\<lambda>_. 4294967040), lg)"
proof (induction ps)
  case Nil
  show ?case by (subst process_all.simps) simp
next
  case (Cons p ps)
  then show ?case by (subst process_all.simps) simp
qed

end
