(* ===== verification/Script_Host.thy ===== *)
theory Script_Host
  imports Object_Cache
begin

text \<open>
  The script thread: the host that runs the script, completes the caches and waits for the
  engine to ask for another run (\<open>src/scripthost.h\<close>, \<open>src/scripthost.cpp\<close>), the extensions
  (\<open>src/extension.h\<close>, \<open>src/extension.cpp\<close>), the main program (\<open>src/main.cpp\<close>) and the small
  system modules (\<open>src/systempackage.h\<close>, \<open>src/random.h\<close>, \<open>src/io.h\<close>, \<open>src/io.cpp\<close>). The Squirrel
  interpreter, the dynamic loader, the file system and JACK are parameters. What the process
  thread does between two looks of the script thread at the shared state is a parameter too.
\<close>

section \<open>Waiting for a restart\<close>

record ('m, 'q, 'o, 'v) host =
  restartFlag :: bool
  runningFlag :: bool
  dispatchQueue :: 'm
  collectable :: "('q, 'o) collector"
  vm :: 'v

text \<open>
  One pass over the object caches: every cache completes, whether or not an earlier one was
  active.
\<close>

fun complete_caches :: "('v \<Rightarrow> bool \<times> 'v) list \<Rightarrow> 'v \<Rightarrow> bool \<times> 'v" where
  "complete_caches [] v = (False, v)"
| "complete_caches (c # cs) v =
     (let (a, v1) = c v; (b, v2) = complete_caches cs v1 in (a \<or> b, v2))"

definition extensions_complete :: bool where
  "extensions_complete = False"

text \<open>
  The wait loop. Before the \<open>k\<close>-th look at the flag the process thread has done \<open>env k\<close>; closures
  are executed in the order they were dispatched.
\<close>

partial_function (option) wait_loop ::
  "('m, 'f) queue_ops \<Rightarrow> ('q, 'o) queue_ops \<Rightarrow> ('f \<Rightarrow> 'v \<Rightarrow> 'v) \<Rightarrow>
     (nat \<Rightarrow> ('m, 'q, 'o, 'v) host \<Rightarrow> ('m, 'q, 'o, 'v) host) \<Rightarrow> nat \<Rightarrow> ('m, 'q, 'o, 'v) host \<Rightarrow>
     ('m, 'q, 'o, 'v) host option"
where
  "wait_loop M C exec env k s0 =
     (let s = env k s0
      in if restartFlag s then Some (s\<lparr>restartFlag := False, runningFlag := True\<rparr>)
         else Option.bind (drain M exec (dispatchQueue s) (vm s)) (\<lambda>(q, v).
              Option.bind (collector_free C (collectable s)) (\<lambda>(c, _).
              wait_loop M C exec env (k + 1) (s\<lparr>dispatchQueue := q, vm := v, collectable := c\<rparr>))))"

definition waitForRestart ::
  "('m, 'f) queue_ops \<Rightarrow> ('q, 'o) queue_ops \<Rightarrow> ('f \<Rightarrow> 'v \<Rightarrow> 'v) \<Rightarrow>
     (nat \<Rightarrow> ('m, 'q, 'o, 'v) host \<Rightarrow> ('m, 'q, 'o, 'v) host) \<Rightarrow> ('v \<Rightarrow> bool \<times> 'v) list \<Rightarrow>
     ('m, 'q, 'o, 'v) host \<Rightarrow> (bool \<times> ('m, 'q, 'o, 'v) host) option"
where
  "waitForRestart M C exec env caches s =
     (let (active, v) = complete_caches caches (vm s);
          s1 = s\<lparr>runningFlag := False, vm := v\<rparr>
      in if \<not> (active \<or> extensions_complete) then Some (False, s1)
         else map_option (\<lambda>s2. (True, s2)) (wait_loop M C exec env 0 s1))"

text \<open>
  The loop of \<open>run\<close>: \<open>dofile\<close> runs the script and says whether it succeeded. The result is the
  exit status and how many runs there were. The environment may differ from run to run.
\<close>

partial_function (option) run_loop ::
  "('m, 'f) queue_ops \<Rightarrow> ('q, 'o) queue_ops \<Rightarrow> ('f \<Rightarrow> 'v \<Rightarrow> 'v) \<Rightarrow>
     (nat \<Rightarrow> nat \<Rightarrow> ('m, 'q, 'o, 'v) host \<Rightarrow> ('m, 'q, 'o, 'v) host) \<Rightarrow> ('v \<Rightarrow> bool \<times> 'v) list \<Rightarrow>
     ('v \<Rightarrow> bool \<times> 'v) \<Rightarrow> nat \<Rightarrow> ('m, 'q, 'o, 'v) host \<Rightarrow>
     (int \<times> nat \<times> ('m, 'q, 'o, 'v) host) option"
where
  "run_loop M C exec env caches dofile n s =
     (let (ok, v) = dofile (vm s); s1 = s\<lparr>vm := v\<rparr>
      in if \<not> ok then Some (1, n + 1, s1)
         else Option.bind (waitForRestart M C exec (env n) caches s1) (\<lambda>(again, s2).
              if again then run_loop M C exec env caches dofile (n + 1) s2
              else Some (0, n + 1, s2)))"

section \<open>Extensions\<close>

text \<open>The loader: \<open>dlopen\<close>, and what the two symbols of an extension do.\<close>

record ('h, 'v) loader =
  dl_open :: "string \<Rightarrow> 'h option"
  dl_bind :: "'h \<Rightarrow> ('v \<Rightarrow> 'v) option"
  dl_shutdown :: "'h \<Rightarrow> ('v \<Rightarrow> 'v) option"

definition Extension :: "('h, 'v) loader \<Rightarrow> string \<Rightarrow> 'h res" where
  "Extension L path =
     (case dl_open L path of None \<Rightarrow> Inl (Logic_error ''dlerror'') | Some h \<Rightarrow> Inr h)"

definition extension_bind :: "('h, 'v) loader \<Rightarrow> 'h \<Rightarrow> ('v, unit) act" where
  "extension_bind L h =
     (case dl_bind L h of None \<Rightarrow> throw (Logic_error ''dlerror'') | Some f \<Rightarrow> modify f)"

definition extension_shutdown :: "('h, 'v) loader \<Rightarrow> 'h \<Rightarrow> ('v, unit) act" where
  "extension_shutdown L h =
     (case dl_shutdown L h of None \<Rightarrow> throw (Logic_error ''dlerror'') | Some f \<Rightarrow> modify f)"

text \<open>The manager opens every file of the extension folder that is not a folder itself.\<close>

fun ExtensionManager :: "('h, 'v) loader \<Rightarrow> (string \<times> bool) list \<Rightarrow> 'h list res" where
  "ExtensionManager L [] = Inr []"
| "ExtensionManager L ((path, is_dir) # es) =
     (if is_dir then ExtensionManager L es
      else bind_res (Extension L path) (\<lambda>h.
           bind_res (ExtensionManager L es) (\<lambda>hs. Inr (h # hs))))"

definition extensions_bindAll :: "('h, 'v) loader \<Rightarrow> 'h list \<Rightarrow> ('v, unit) act" where
  "extensions_bindAll L hs = do_each (extension_bind L) hs"

definition extensions_shutdown :: "('h, 'v) loader \<Rightarrow> 'h list \<Rightarrow> ('v, unit) act" where
  "extensions_shutdown L hs = do_each (extension_shutdown L) hs"

text \<open>
  \<open>ScriptHost::run\<close>: extensions are bound first, and a failure to bind them is only a warning;
  they are shut down when the script ends without an error.
\<close>

definition host_run ::
  "('h, 'v) loader \<Rightarrow> 'h list \<Rightarrow> ('v \<Rightarrow> 'v) \<Rightarrow>
     ('m, 'f) queue_ops \<Rightarrow> ('q, 'o) queue_ops \<Rightarrow> ('f \<Rightarrow> 'v \<Rightarrow> 'v) \<Rightarrow>
     (nat \<Rightarrow> nat \<Rightarrow> ('m, 'q, 'o, 'v) host \<Rightarrow> ('m, 'q, 'o, 'v) host) \<Rightarrow> ('v \<Rightarrow> bool \<times> 'v) list \<Rightarrow>
     ('v \<Rightarrow> bool \<times> 'v) \<Rightarrow> ('m, 'q, 'o, 'v) host \<Rightarrow> (int \<times> nat \<times> ('m, 'q, 'o, 'v) host) res option"
where
  "host_run L hs bindModules M C exec env caches dofile s =
     (let v = bindModules (snd (extensions_bindAll L hs (vm s)))
      in map_option (\<lambda>(status, n, s1).
           if status = 0
           then (case extensions_shutdown L hs (vm s1) of
                   (Inl f, v1) \<Rightarrow> Inl f
                 | (Inr _, v1) \<Rightarrow> Inr (0, n, s1\<lparr>vm := v1\<rparr>))
           else Inr (status, n, s1))
         (run_loop M C exec env caches dofile 0 (s\<lparr>vm := v\<rparr>)))"

section \<open>The main program\<close>

datatype file_kind = Missing | Folder | Plain_file

text \<open>
  The checks of \<open>main\<close> before the script runs: the exit status, or None to go on. The last
  argument is the status of the engine's activation.
\<close>

definition main_checks :: "nat \<Rightarrow> file_kind \<Rightarrow> int \<Rightarrow> int option" where
  "main_checks argc file engine_status =
     (if argc < 2 then Some 1
      else if file = Missing \<or> file = Folder then Some 2
      else if engine_status \<noteq> 0 then Some 1
      else None)"

text \<open>\<open>main\<close> shuts the extensions down after the host has returned.\<close>

definition main_exit ::
  "('h, 'v) loader \<Rightarrow> 'h list \<Rightarrow> (int \<times> nat \<times> ('m, 'q, 'o, 'v) host) res \<Rightarrow> (int \<times> 'v) res"
where
  "main_exit L hs r =
     bind_res r (\<lambda>(status, n, s).
       (case extensions_shutdown L hs (vm s) of (Inl f, _) \<Rightarrow> Inl f | (Inr _, v) \<Rightarrow> Inr (status, v)))"

section \<open>System modules\<close>

text \<open>
  Only indices past the end are checked: a negative one reads in front of the argument vector.
\<close>

definition getArgument :: "string list \<Rightarrow> int \<Rightarrow> string option res" where
  "getArgument argv i =
     (if int (length argv) \<le> i then Inr None
      else if i < 0 then Inl (Undefined ''index outside an array'')
      else Inr (Some (argv ! nat i)))"

text \<open>\<open>rand() % max\<close>: the number is an argument, nonnegative as the standard library documents.\<close>

definition random_integer :: "u32 \<Rightarrow> u32 \<Rightarrow> int res" where
  "random_integer rand m =
     (if m < 1 then Inl (Logic_error ''max cannot be less than one'')
      else Inr (sint (rand mod m)))"

definition readAll :: "(string \<Rightarrow> string option) \<Rightarrow> string \<Rightarrow> string res" where
  "readAll fs name =
     (case fs name of None \<Rightarrow> Inl (Logic_error (''could not read file '' @ name)) | Some s \<Rightarrow> Inr s)"

section \<open>The two threads\<close>

text \<open>
  The handshake between the script thread and the engine, one atomic access at a time. The script
  thread stores \<open>runningFlag\<close>, completes the caches, looks at \<open>restartFlag\<close> until it is set,
  releases the run table, clears \<open>restartFlag\<close> and sets \<open>runningFlag\<close>. The engine sets
  \<open>restartFlag\<close> whenever a reposition finds the script not running.
\<close>

datatype script_pc = Running_script | Completing | Waiting | Releasing | Cleared

record handshake =
  pc :: script_pc
  h_restart :: bool
  h_running :: bool
  script_runs :: nat
  grants :: nat

definition handshake_start :: handshake where
  "handshake_start =
     \<lparr>pc = Running_script, h_restart = False, h_running = True, script_runs = 1, grants = 0\<rparr>"

inductive host_step :: "handshake \<Rightarrow> handshake \<Rightarrow> bool" where
  finish: "pc h = Running_script \<Longrightarrow> host_step h (h\<lparr>pc := Completing, h_running := False\<rparr>)"
| complete: "pc h = Completing \<Longrightarrow> host_step h (h\<lparr>pc := Waiting\<rparr>)"
| look: "pc h = Waiting \<Longrightarrow> h_restart h \<Longrightarrow> host_step h (h\<lparr>pc := Releasing\<rparr>)"
| clear: "pc h = Releasing \<Longrightarrow> host_step h (h\<lparr>pc := Cleared, h_restart := False\<rparr>)"
| rerun: "pc h = Cleared \<Longrightarrow>
    host_step h (h\<lparr>pc := Running_script, h_running := True, script_runs := script_runs h + 1\<rparr>)"
| grant: "\<not> h_running h \<Longrightarrow> host_step h (h\<lparr>h_restart := True, grants := grants h + 1\<rparr>)"

inductive_cases host_stepE: "host_step h h'"

definition in_hand :: "handshake \<Rightarrow> bool" where
  "in_hand h \<longleftrightarrow>
     (h_running h \<longleftrightarrow> pc h = Running_script) \<and> (pc h = Releasing \<longrightarrow> h_restart h) \<and>
     script_runs h + (if h_restart h then 1 else 0) + (if pc h = Cleared then 1 else 0) \<le> grants h + 1"

lemma in_hand_step: "host_step h h' \<Longrightarrow> in_hand h \<Longrightarrow> in_hand h'"
  by (erule host_stepE) (auto simp: in_hand_def split: if_splits)

lemma in_hand_reachable: "host_step\<^sup>*\<^sup>* handshake_start h \<Longrightarrow> in_hand h"
proof (induction rule: rtranclp_induct)
  case base
  then show ?case by (simp add: in_hand_def handshake_start_def)
next
  case (step h h')
  then show ?case using in_hand_step by blast
qed

section \<open>How the loops end\<close>

lemma wait_loop_unfold:
  assumes "fifo M mc" "fifo C cc" "\<not> restartFlag (env k s)"
  shows "\<exists>s'. wait_loop M C exec env k s = wait_loop M C exec env (k + 1) s' \<and>
     vm s' = fold exec (mc (dispatchQueue (env k s))) (vm (env k s)) \<and> mc (dispatchQueue s') = [] \<and>
     cc (objectQueue (collectable s')) = []"
proof -
  obtain q where q: "drain M exec (dispatchQueue (env k s)) (vm (env k s)) =
      Some (q, fold exec (mc (dispatchQueue (env k s))) (vm (env k s)))" "mc q = []"
    using fifo.drain_all [OF assms(1), of exec "dispatchQueue (env k s)" "vm (env k s)"] by blast
  obtain c where c: "collector_free C (collectable (env k s)) = Some (c, cc (objectQueue (collectable (env k s))))"
    "cc (objectQueue c) = []"
    using fifo.collector_free_all [OF assms(2), of "collectable (env k s)"] by blast
  show ?thesis
    using q c assms(3)
    by (subst wait_loop.simps)
       (auto simp: Let_def intro!: exI [of _ "env k s\<lparr>dispatchQueue := q,
          vm := fold exec (mc (dispatchQueue (env k s))) (vm (env k s)), collectable := c\<rparr>"])
qed

lemma wait_loop_returns:
  assumes "fifo M mc" "fifo C cc" "\<forall>s. restartFlag (env n s)" "k \<le> n"
  shows "\<exists>s'. wait_loop M C exec env k s = Some s' \<and> \<not> restartFlag s' \<and> runningFlag s'"
  using assms(4)
proof (induction "n - k" arbitrary: k s)
  case 0
  then have "k = n" by simp
  then show ?case using assms(3) by (subst wait_loop.simps) (simp add: Let_def)
next
  case (Suc m)
  show ?case
  proof (cases "restartFlag (env k s)")
    case True
    then show ?thesis by (subst wait_loop.simps) (simp add: Let_def)
  next
    case False
    then obtain s' where s': "wait_loop M C exec env k s = wait_loop M C exec env (k + 1) s'"
      using wait_loop_unfold [OF assms(1,2)] by metis
    have "m = n - (k + 1)" "k + 1 \<le> n" using Suc.hyps(2) by simp_all
    then show ?thesis using Suc.hyps(1) [of "k + 1" s'] s' by simp
  qed
qed

lemma complete_caches_none: "\<forall>c \<in> set cs. \<forall>v. \<not> fst (c v) \<Longrightarrow> \<not> fst (complete_caches cs v)"
proof (induction cs arbitrary: v)
  case (Cons c cs)
  then have "\<not> fst (c v)" "\<not> fst (complete_caches cs (snd (c v)))" by simp_all
  then show ?case by (cases "c v") (auto split: prod.split)
qed simp

section \<open>Properties\<close>


definition after_restart :: handshake where
  "after_restart = \<lparr>pc = Running_script, h_restart = False, h_running = True, script_runs = 2, grants = 1\<rparr>"

lemma after_restart_reachable: "host_step\<^sup>*\<^sup>* handshake_start after_restart"
proof -
  let ?h = "\<lambda>p r s n g. \<lparr>pc = p, h_restart = r, h_running = s, script_runs = n, grants = g\<rparr>"
  have "host_step (?h Running_script False True 1 0) (?h Completing False False 1 0)"
    using finish [of "?h Running_script False True 1 0"] by simp
  moreover have "host_step (?h Completing False False 1 0) (?h Waiting False False 1 0)"
    using complete [of "?h Completing False False 1 0"] by simp
  moreover have "host_step (?h Waiting False False 1 0) (?h Waiting True False 1 1)"
    using grant [of "?h Waiting False False 1 0"] by simp
  moreover have "host_step (?h Waiting True False 1 1) (?h Releasing True False 1 1)"
    using look [of "?h Waiting True False 1 1"] by simp
  moreover have "host_step (?h Releasing True False 1 1) (?h Cleared False False 1 1)"
    using clear [of "?h Releasing True False 1 1"] by simp
  moreover have "host_step (?h Cleared False False 1 1) (?h Running_script False True 2 1)"
    using rerun [of "?h Cleared False False 1 1"] by (simp add: numeral_2_eq_2)
  ultimately show ?thesis
    unfolding handshake_start_def after_restart_def
    by (meson converse_rtranclp_into_rtranclp rtranclp.rtrancl_refl)
qed


text \<open>the two stores at the end of the wait are not one step: a reposition that falls between
  them is granted against the run that is about to start, and leaves the flag set while the
  script runs, so that it runs again when it has finished.\<close>

theorem stale_restart_reachable:
  "\<exists>h. host_step\<^sup>*\<^sup>* handshake_start h \<and> pc h = Running_script \<and> h_running h \<and> h_restart h"
proof -
  let ?h = "\<lambda>p r s n g. \<lparr>pc = p, h_restart = r, h_running = s, script_runs = n, grants = g\<rparr>"
  have "host_step after_restart (?h Completing False False 2 1)"
    using finish [of after_restart] by (simp add: after_restart_def)
  moreover have "host_step (?h Completing False False 2 1) (?h Waiting False False 2 1)"
    using complete [of "?h Completing False False 2 1"] by simp
  moreover have "host_step (?h Waiting False False 2 1) (?h Waiting True False 2 2)"
    using grant [of "?h Waiting False False 2 1"] by (simp add: numeral_2_eq_2)
  moreover have "host_step (?h Waiting True False 2 2) (?h Releasing True False 2 2)"
    using look [of "?h Waiting True False 2 2"] by simp
  moreover have "host_step (?h Releasing True False 2 2) (?h Cleared False False 2 2)"
    using clear [of "?h Releasing True False 2 2"] by simp
  moreover have "host_step (?h Cleared False False 2 2) (?h Cleared True False 2 3)"
    using grant [of "?h Cleared False False 2 2"] by (simp add: numeral_eq_Suc)
  moreover have "host_step (?h Cleared True False 2 3) (?h Running_script True True 3 3)"
    using rerun [of "?h Cleared True False 2 3"] by (simp add: numeral_eq_Suc)
  ultimately have "host_step\<^sup>*\<^sup>* after_restart (?h Running_script True True 3 3)"
    by (meson converse_rtranclp_into_rtranclp rtranclp.rtrancl_refl)
  with after_restart_reachable have "host_step\<^sup>*\<^sup>* handshake_start (?h Running_script True True 3 3)"
    by (rule rtranclp_trans)
  then show ?thesis by fastforce
qed

text \<open>the wait for a restart ends as soon as the engine has set the flag, whenever that is,
  with the flag cleared and the script marked as running.\<close>

theorem wait_ends_at_restart:
  assumes "fifo M mc" "fifo C cc" "\<forall>s. restartFlag (env n s)"
  shows "\<exists>s'. wait_loop M C exec env 0 s = Some s' \<and> \<not> restartFlag s' \<and> runningFlag s'"
  using wait_loop_returns [where env = env and n = n and k = 0, OF assms] by simp

definition example_host :: "(nat list, nat list, nat, nat list) host" where
  "example_host = \<lparr>restartFlag = False, runningFlag = False, dispatchQueue = [1, 2],
     collectable = \<lparr>objectQueue = [], waitingList = \<lparr>w_items = [], w_last_ok = False\<rparr>\<rparr>, vm = []\<rparr>"

theorem wait_ends_at_restart_witness:
  "\<exists>s'. wait_loop (list_queue 8) (list_queue 8) (\<lambda>f v. v @ [f])
       (\<lambda>k s. if k = 3 then s\<lparr>restartFlag := True\<rparr> else s) 0 example_host = Some s' \<and> runningFlag s'"
  using wait_ends_at_restart [OF listq.fifo_axioms listq.fifo_axioms,
      of "\<lambda>k s. if k = 3 then s\<lparr>restartFlag := True\<rparr> else s" 3 8 8 "\<lambda>f v. v @ [f]" example_host]
  by auto

text \<open>the script host gives up after one run with status 1 if the script fails, and with
  status 0 if it succeeds and no cache is active any more.\<close>

theorem run_ends:
  assumes "\<forall>c \<in> set caches. \<forall>v. \<not> fst (c v)"
  shows "\<exists>s'. run_loop M C exec env caches dofile n s =
     Some (if fst (dofile (vm s)) then 0 else 1, n + 1, s')"
  using complete_caches_none [OF assms, of "snd (dofile (vm s))"]
  by (subst run_loop.simps)
     (auto simp: waitForRestart_def extensions_complete_def Let_def split: prod.split)

theorem run_ends_witness:
  "\<exists>s'. run_loop (list_queue 8) (list_queue 8) (\<lambda>(f :: nat) v. v @ [f]) (\<lambda>_ _ s. s) [\<lambda>v. (False, v)]
     (\<lambda>v. (True, v)) 0 example_host = Some (0, 1, s')"
  using run_ends [of "[\<lambda>v. (False, v)]" "list_queue 8" "list_queue 8" "\<lambda>(f :: nat) v. v @ [f]"
      "\<lambda>_ _ s. s" "\<lambda>v. (True, v)" 0 example_host] by simp

text \<open>A script that ends without an error has its extensions shut down twice.\<close>

lemma extensions_shut_down_twice:
  "main_exit \<lparr>dl_open = Some, dl_bind = (\<lambda>h. Some id), dl_shutdown = (\<lambda>h. Some (\<lambda>v. v @ [(1 :: nat)]))\<rparr> [''ext.so'']
     (case extensions_shutdown \<lparr>dl_open = Some, dl_bind = (\<lambda>h. Some id),
         dl_shutdown = (\<lambda>h. Some (\<lambda>v. v @ [(1 :: nat)]))\<rparr> [''ext.so''] (vm example_host) of
        (Inl f, v) \<Rightarrow> Inl f | (Inr _, v) \<Rightarrow> Inr (0, 1, example_host\<lparr>vm := v\<rparr>)) = Inr (0, [1, 1])"
  by (simp add: main_exit_def extensions_shutdown_def extension_shutdown_def example_host_def)

end
