(* ===== verification/Event_Buffer.thy ===== *)
theory Event_Buffer
  imports Queues
begin

text \<open>
  Scheduled events (\<open>src/event.h\<close>) and the buffer that carries them from the script thread to
  the process thread (\<open>src/eventbuffer.h\<close>): a bounded queue filled by the script and a sorted
  list private to the process thread. The buffer is generic in the event type, as the template
  is: any extension of the record \<open>event\<close>. Events are values; the pointer structure of the
  sorted list is treated in \<open>Intrusive_Lists\<close>, of which the sequence operations here are the
  abstraction.
\<close>

section \<open>Events\<close>

record event = duration +
  frameOffset :: int

definition Event :: "u32 \<Rightarrow> u32 \<Rightarrow> u32 \<Rightarrow> int \<Rightarrow> event res" where
  "Event b p d uninit =
     bind_res (Position b p d) (\<lambda>q. Inr (duration.extend q \<lparr>frameOffset = uninit\<rparr>))"

definition Event_at :: "'a duration_scheme \<Rightarrow> int \<Rightarrow> event" where
  "Event_at pos uninit = duration.extend (duration.truncate pos) \<lparr>frameOffset = uninit\<rparr>"

definition updateFrameOffset :: "jack_position \<Rightarrow> 'x event_scheme \<Rightarrow> 'x event_scheme" where
  "updateFrameOffset pos e = e\<lparr>frameOffset := calculateFrameOffset e pos\<rparr>"

section \<open>The buffer\<close>

record ('q, 'e) event_buffer =
  eventQueue :: 'q
  sortedEvents :: "'e list"

definition UPDATE_MAX_EVENTS :: nat where "UPDATE_MAX_EVENTS = 32"

text \<open>\<open>addEvent\<close> spins until there is room: as one step it is blocked while the queue is full.\<close>

definition addEvent ::
  "('q, 'e) queue_ops \<Rightarrow> 'e \<Rightarrow> ('q, 'e) event_buffer \<Rightarrow> ('q, 'e) event_buffer option"
where
  "addEvent Q e b = map_option (\<lambda>q. b\<lparr>eventQueue := q\<rparr>) (q_push Q e (eventQueue b))"

text \<open>The loop of \<open>update\<close>; its first argument counts down the events it may still take.\<close>

fun update_loop ::
  "nat \<Rightarrow> ('q, 'x event_scheme) queue_ops \<Rightarrow> ('q, 'x event_scheme) event_buffer \<Rightarrow>
     ('q, 'x event_scheme) event_buffer"
where
  "update_loop 0 Q b = b"
| "update_loop (Suc n) Q b =
     (case q_pop Q (eventQueue b) of
        None \<Rightarrow> b
      | Some (fresh, q) \<Rightarrow>
          update_loop n Q
            \<lparr>eventQueue = q, sortedEvents = insert_seq dur_le dur_less fresh (sortedEvents b)\<rparr>)"

definition buffer_update ::
  "('q, 'x event_scheme) queue_ops \<Rightarrow> ('q, 'x event_scheme) event_buffer \<Rightarrow>
     ('q, 'x event_scheme) event_buffer"
where
  "buffer_update Q b = update_loop UPDATE_MAX_EVENTS Q b"

text \<open>
  The loop that drops events that have passed. Every event it looks at gets its frame offset
  updated, the first one it keeps too.
\<close>

fun drop_late ::
  "('c, 'o) queue_ops \<Rightarrow> ('x event_scheme \<Rightarrow> 'o) \<Rightarrow> jack_position \<Rightarrow> 'x event_scheme list \<Rightarrow>
     ('c, 'o) collector \<Rightarrow> 'x event_scheme list \<times> ('c, 'o) collector"
where
  "drop_late C up pos [] c = ([], c)"
| "drop_late C up pos (e # es) c =
     (let e' = updateFrameOffset pos e
      in if frameOffset e' < -256 then drop_late C up pos es (recycle C (up e') c)
         else (e' # es, c))"

definition getNextEvent ::
  "('q, 'x event_scheme) queue_ops \<Rightarrow> ('c, 'o) queue_ops \<Rightarrow> ('x event_scheme \<Rightarrow> 'o) \<Rightarrow> bool \<Rightarrow>
     jack_position \<Rightarrow> u32 \<Rightarrow> ('q, 'x event_scheme) event_buffer \<Rightarrow> ('c, 'o) collector \<Rightarrow>
     'x event_scheme option \<times> ('q, 'x event_scheme) event_buffer \<times> ('c, 'o) collector"
where
  "getNextEvent Q C up rolling pos nframes b0 c =
     (let b = buffer_update Q b0
      in if sortedEvents b \<noteq> [] \<and> whole (hd (sortedEvents b)) = 0
         then (Some (hd (sortedEvents b)), b\<lparr>sortedEvents := tl (sortedEvents b)\<rparr>, c)
         else if rolling
         then (let (es, c') = drop_late C up pos (sortedEvents b) c
               in if es \<noteq> [] \<and> frameOffset (hd es) < int (unat nframes)
                  then (Some (hd es), b\<lparr>sortedEvents := tl es\<rparr>, c')
                  else (None, b\<lparr>sortedEvents := es\<rparr>, c'))
         else (None, b, c))"

definition recycleRemaining ::
  "('q, 'x event_scheme) queue_ops \<Rightarrow> ('c, 'o) queue_ops \<Rightarrow> ('x event_scheme \<Rightarrow> 'o) \<Rightarrow>
     ('q, 'x event_scheme) event_buffer \<Rightarrow> ('c, 'o) collector \<Rightarrow>
     (('q, 'x event_scheme) event_buffer \<times> ('c, 'o) collector) res option"
where
  "recycleRemaining Q C up b c =
     map_option (\<lambda>(q, c1).
         bind_res (recycleAll C (map up (sortedEvents b)) c1) (\<lambda>c2.
           Inr (\<lparr>eventQueue = q, sortedEvents = []\<rparr>, c2)))
       (drain Q (\<lambda>e. recycle C (up e)) (eventQueue b) c)"

text \<open>
  The loop in which every client of the buffer takes its events in a process cycle:
  \<open>while((e = getNextEvent(...))) handle(e)\<close>. The handler may recycle the event.
\<close>

partial_function (option) event_loop ::
  "('q, 'x event_scheme) queue_ops \<Rightarrow> ('c, 'o) queue_ops \<Rightarrow> ('x event_scheme \<Rightarrow> 'o) \<Rightarrow> bool \<Rightarrow>
     jack_position \<Rightarrow> u32 \<Rightarrow>
     ('x event_scheme \<Rightarrow> ('c, 'o) collector \<times> 's \<Rightarrow> ('c, 'o) collector \<times> 's) \<Rightarrow>
     ('q, 'x event_scheme) event_buffer \<Rightarrow> ('c, 'o) collector \<times> 's \<Rightarrow>
     (('q, 'x event_scheme) event_buffer \<times> ('c, 'o) collector \<times> 's) option"
where
  "event_loop Q C up rolling pos nframes handle b cs =
     (case getNextEvent Q C up rolling pos nframes b (fst cs) of
        (None, b', c') \<Rightarrow> Some (b', c', snd cs)
      | (Some e, b', c') \<Rightarrow>
          event_loop Q C up rolling pos nframes handle b' (handle e (c', snd cs)))"

section \<open>What the buffer holds\<close>

text \<open>An event without the offset the process thread writes into it.\<close>

definition ident :: "'x event_scheme \<Rightarrow> 'x event_scheme" where
  "ident e = e\<lparr>frameOffset := 0\<rparr>"

definition pending :: "('q \<Rightarrow> 'x event_scheme list) \<Rightarrow> ('q, 'x event_scheme) event_buffer \<Rightarrow>
    'x event_scheme multiset" where
  "pending ct b = image_mset ident (mset (ct (eventQueue b)) + mset (sortedEvents b))"

definition buffered :: "('q \<Rightarrow> 'x event_scheme list) \<Rightarrow> ('q, 'x event_scheme) event_buffer \<Rightarrow> nat" where
  "buffered ct b = length (ct (eventQueue b)) + length (sortedEvents b)"

lemma updateFrameOffset_simps [simp]:
  "whole (updateFrameOffset pos e) = whole e"
  "position (updateFrameOffset pos e) = position e"
  "division (updateFrameOffset pos e) = division e"
  "frameOffset (updateFrameOffset pos e) = calculateFrameOffset e pos"
  "ident (updateFrameOffset pos e) = ident e"
  by (simp_all add: updateFrameOffset_def ident_def)

lemma frame_offset_cong:
  "whole e = whole f \<Longrightarrow> position e = position f \<Longrightarrow> division e = division f \<Longrightarrow>
     calculateFrameOffset e pos = calculateFrameOffset f pos"
  by (simp add: calculateFrameOffset_def tick_offset_def event_tick_def)

lemma updated_offset [simp]:
  "calculateFrameOffset (updateFrameOffset pos e) p = calculateFrameOffset e p"
  by (rule frame_offset_cong) simp_all

lemma updated_order [simp]:
  "dur_le (updateFrameOffset pos e) f = dur_le e f"
  "updateFrameOffset pos e \<in> small_times \<longleftrightarrow> e \<in> small_times"
  by (simp_all add: dur_le_def small_times_def proper_def)

text \<open>What dropping does: a prefix of late events goes, the rest stays in order.\<close>

lemma drop_late_split:
  assumes "drop_late C up pos es c = (fs, c')"
  shows "\<exists>ds rs. es = ds @ rs \<and> (\<forall>d \<in> set ds. calculateFrameOffset d pos < -256) \<and>
     (case rs of [] \<Rightarrow> fs = []
      | r # rt \<Rightarrow> fs = updateFrameOffset pos r # rt \<and> -256 \<le> calculateFrameOffset r pos) \<and>
     c' = fold (\<lambda>d. recycle C (up (updateFrameOffset pos d))) ds c"
  using assms
proof (induction es arbitrary: c)
  case Nil
  then show ?case by simp
next
  case (Cons e es)
  show ?case
  proof (cases "calculateFrameOffset e pos < -256")
    case True
    then have "drop_late C up pos es (recycle C (up (updateFrameOffset pos e)) c) = (fs, c')"
      using Cons.prems by (simp add: Let_def)
    from Cons.IH [OF this] obtain ds rs where "es = ds @ rs"
      "\<forall>d \<in> set ds. calculateFrameOffset d pos < -256"
      "case rs of [] \<Rightarrow> fs = []
        | r # rt \<Rightarrow> fs = updateFrameOffset pos r # rt \<and> -256 \<le> calculateFrameOffset r pos"
      "c' = fold (\<lambda>d. recycle C (up (updateFrameOffset pos d))) ds
              (recycle C (up (updateFrameOffset pos e)) c)"
      by blast
    then show ?thesis using True by (intro exI [of _ "e # ds"] exI [of _ rs]) simp
  next
    case False
    then show ?thesis using Cons.prems by (intro exI [of _ "[]"] exI [of _ "e # es"]) (auto simp: Let_def)
  qed
qed

section \<open>The buffer over queues that obey the queue laws\<close>

definition ordered_buffer ::
  "('q \<Rightarrow> 'x event_scheme list) \<Rightarrow> ('q, 'x event_scheme) event_buffer \<Rightarrow> bool"
where
  "ordered_buffer ct b \<longleftrightarrow>
     set (ct (eventQueue b)) \<union> set (sortedEvents b) \<subseteq> small_times \<and>
     sorted_wrt dur_le (sortedEvents b)"

locale event_queues = queue: fifo Q ct + coll: fifo C cc
  for Q :: "('q, 'x event_scheme) queue_ops" and ct :: "'q \<Rightarrow> 'x event_scheme list"
    and C :: "('c, 'o) queue_ops" and cc :: "'c \<Rightarrow> 'o list"
begin

lemma update_loop_pending: "pending ct (update_loop n Q b) = pending ct b"
proof (induction n arbitrary: b)
  case 0
  then show ?case by simp
next
  case (Suc n)
  then show ?case
    by (auto simp: pending_def mset_insert_seq queue.pop split: option.split)
qed

lemma update_loop_buffered: "buffered ct (update_loop n Q b) = buffered ct b"
  using arg_cong [OF update_loop_pending [of n b], of size] by (simp add: pending_def buffered_def)

lemma update_loop_ordered: "ordered_buffer ct b \<Longrightarrow> ordered_buffer ct (update_loop n Q b)"
proof (induction n arbitrary: b)
  case 0
  then show ?case by simp
next
  case (Suc n)
  show ?case
  proof (cases "q_pop Q (eventQueue b)")
    case None
    then show ?thesis using Suc.prems by simp
  next
    case (Some r)
    obtain e q where r: "r = (e, q)" by fastforce
    have ct: "ct (eventQueue b) = e # ct q" using queue.pop Some r by simp
    then have V: "e \<in> small_times" "set (sortedEvents b) \<subseteq> small_times" "set (ct q) \<subseteq> small_times"
      "sorted_wrt dur_le (sortedEvents b)"
      using Suc.prems by (auto simp: ordered_buffer_def)
    then have "ordered_buffer ct
        \<lparr>eventQueue = q, sortedEvents = insert_seq dur_le dur_less e (sortedEvents b)\<rparr>"
      using small.insert_sorted [of "sortedEvents b" e]
      by (auto simp: ordered_buffer_def set_insert_seq)
    then show ?thesis using Suc.IH Some r by simp
  qed
qed

lemma update_loop_queue: "ct (eventQueue (update_loop n Q b)) = drop n (ct (eventQueue b))"
proof (induction n arbitrary: b)
  case 0
  then show ?case by simp
next
  case (Suc n)
  show ?case
  proof (cases "q_pop Q (eventQueue b)")
    case None
    then have "ct (eventQueue b) = []" using queue.pop_empty by blast
    then show ?thesis using None by simp
  next
    case (Some r)
    then show ?thesis using Suc queue.pop by (cases r) simp
  qed
qed

lemmas update_facts = update_loop_pending [of UPDATE_MAX_EVENTS] update_loop_buffered [of UPDATE_MAX_EVENTS]
  update_loop_ordered [of _ UPDATE_MAX_EVENTS] update_loop_queue [of UPDATE_MAX_EVENTS]

text \<open>The outcomes of \<open>getNextEvent\<close>, with what was dropped on the way.\<close>

lemma getNextEvent_outcome:
  assumes "getNextEvent Q C up rolling pos n b c = (r, b', c')"
  obtains ds where
    "pending ct b = image_mset ident (mset ds) + image_mset ident (mset (case r of None \<Rightarrow> [] | Some e \<Rightarrow> [e]))
       + pending ct b'"
    "collected cc c' = collected cc c + mset (map (\<lambda>d. up (updateFrameOffset pos d)) ds)"
    "\<forall>d \<in> set ds. rolling \<and> calculateFrameOffset d pos < -256"
    "\<forall>e. r = Some e \<longrightarrow> whole e = 0 \<or>
       rolling \<and> frameOffset e = calculateFrameOffset e pos \<and> -256 \<le> frameOffset e \<and>
       frameOffset e < int (unat n)"
    "r = None \<longrightarrow> rolling \<longrightarrow> sortedEvents b' \<noteq> [] \<longrightarrow>
       int (unat n) \<le> calculateFrameOffset (hd (sortedEvents b')) pos"
    "ordered_buffer ct b \<Longrightarrow> ordered_buffer ct b'"
    "eventQueue b' = eventQueue (buffer_update Q b)"
proof -
  define u where "u = buffer_update Q b"
  have pu: "pending ct b = pending ct u" by (simp add: u_def buffer_update_def update_facts)
  have ou: "ordered_buffer ct b \<Longrightarrow> ordered_buffer ct u" by (simp add: u_def buffer_update_def update_facts)
  consider (zero) h t where "sortedEvents u = h # t" "whole h = 0"
    | (still) "\<not> rolling" "sortedEvents u = [] \<or> whole (hd (sortedEvents u)) \<noteq> 0"
    | (rolls) "rolling" "sortedEvents u = [] \<or> whole (hd (sortedEvents u)) \<noteq> 0"
    by (cases "sortedEvents u") auto
  then show ?thesis
  proof cases
    case zero
    then have r: "r = Some h" "b' = u\<lparr>sortedEvents := t\<rparr>" "c' = c"
      using assms by (simp_all add: getNextEvent_def u_def [symmetric])
    show ?thesis
    proof (rule that [of "[]"])
      show "ordered_buffer ct b \<Longrightarrow> ordered_buffer ct b'"
        using ou zero r by (auto simp: ordered_buffer_def)
    qed (use pu zero r in \<open>simp_all add: pending_def u_def\<close>)
  next
    case still
    then have r: "r = None" "b' = u" "c' = c"
      using assms by (auto simp: getNextEvent_def u_def [symmetric] Let_def)
    show ?thesis by (rule that [of "[]"]) (use pu ou r still in \<open>simp_all add: u_def\<close>)
  next
    case rolls
    obtain es c1 where d: "drop_late C up pos (sortedEvents u) c = (es, c1)" by fastforce
    from drop_late_split [OF d] obtain ds rs where ds: "sortedEvents u = ds @ rs"
      "\<forall>d \<in> set ds. calculateFrameOffset d pos < -256"
      "case rs of [] \<Rightarrow> es = []
        | r # rt \<Rightarrow> es = updateFrameOffset pos r # rt \<and> -256 \<le> calculateFrameOffset r pos"
      "c1 = fold (\<lambda>d. recycle C (up (updateFrameOffset pos d))) ds c"
      by blast
    have col: "collected cc c1 = collected cc c + mset (map (\<lambda>d. up (updateFrameOffset pos d)) ds)"
      using coll.collected_fold_recycle ds(4) by simp
    have ids: "image_mset ident (mset rs) = image_mset ident (mset es)"
      using ds(3) by (cases rs) auto
    have ord: "ordered_buffer ct b \<Longrightarrow> ordered_buffer ct (u\<lparr>sortedEvents := es\<rparr>)"
      using ou ds(1,3) by (cases rs) (auto simp: ordered_buffer_def sorted_wrt_append)
    show ?thesis
    proof (cases "es \<noteq> [] \<and> frameOffset (hd es) < int (unat n)")
      case True
      then have r: "r = Some (hd es)" "b' = u\<lparr>sortedEvents := tl es\<rparr>" "c' = c1"
        using assms rolls d by (auto simp: getNextEvent_def u_def [symmetric] Let_def)
      obtain h t where es: "es = h # t" using True by (cases es) auto
      have h: "frameOffset h = calculateFrameOffset h pos" "-256 \<le> frameOffset h"
        using ds(3) es by (auto split: list.splits)
      show ?thesis
      proof (rule that [of ds])
        show "pending ct b = image_mset ident (mset ds) +
            image_mset ident (mset (case r of None \<Rightarrow> [] | Some e \<Rightarrow> [e])) + pending ct b'"
          using pu ds(1) ids r es by (simp add: pending_def)
        show "ordered_buffer ct b \<Longrightarrow> ordered_buffer ct b'"
          using ord r es by (auto simp: ordered_buffer_def)
      qed (use col ds(2) rolls True h r es in \<open>simp_all add: u_def\<close>)
    next
      case False
      then have r: "r = None" "b' = u\<lparr>sortedEvents := es\<rparr>" "c' = c1"
        using assms rolls d by (auto simp: getNextEvent_def u_def [symmetric] Let_def)
      have h: "frameOffset (hd es) = calculateFrameOffset (hd es) pos" if "es \<noteq> []"
        using ds(3) that by (auto split: list.splits)
      show ?thesis
      proof (rule that [of ds])
        show "pending ct b = image_mset ident (mset ds) +
            image_mset ident (mset (case r of None \<Rightarrow> [] | Some e \<Rightarrow> [e])) + pending ct b'"
          using pu ds(1) ids r by (simp add: pending_def)
        show "ordered_buffer ct b \<Longrightarrow> ordered_buffer ct b'" using ord r by simp
      qed (use col ds(2) rolls False h r in \<open>auto simp: u_def\<close>)
    qed
  qed
qed

lemma getNextEvent_shrinks:
  assumes "getNextEvent Q C up rolling pos n b c = (Some e, b', c')"
  shows "buffered ct b' < buffered ct b"
proof -
  have sz: "size (pending ct x) = buffered ct x" for x by (simp add: pending_def buffered_def)
  from getNextEvent_outcome [OF assms] obtain ds where
    "pending ct b = image_mset ident (mset ds) + image_mset ident (mset [e]) + pending ct b'"
    by (metis (no_types, lifting) option.simps(5))
  from arg_cong [OF this, of size] show ?thesis by (simp add: sz)
qed

lemma event_loop_rule:
  assumes "I b cs"
    and "\<And>b cs e b' c'. I b cs \<Longrightarrow> getNextEvent Q C up rolling pos n b (fst cs) = (Some e, b', c') \<Longrightarrow>
           I b' (handle e (c', snd cs))"
    and "\<And>b cs b' c'. I b cs \<Longrightarrow> getNextEvent Q C up rolling pos n b (fst cs) = (None, b', c') \<Longrightarrow>
           R b' c' (snd cs)"
  shows "\<exists>b' c' s'. event_loop Q C up rolling pos n handle b cs = Some (b', c', s') \<and> R b' c' s'"
  using assms(1)
proof (induction "buffered ct b" arbitrary: b cs rule: less_induct)
  case less
  obtain r b1 c1 where g: "getNextEvent Q C up rolling pos n b (fst cs) = (r, b1, c1)"
    by (metis surj_pair)
  show ?case
  proof (cases r)
    case None
    then show ?thesis using g assms(3) [OF less.prems] by (subst event_loop.simps) simp
  next
    case (Some e)
    then have "buffered ct b1 < buffered ct b" using g getNextEvent_shrinks by blast
    moreover have "I b1 (handle e (c1, snd cs))" using assms(2) [OF less.prems] g Some by blast
    ultimately show ?thesis using less.hyps g Some by (subst event_loop.simps) simp
  qed
qed

lemma recycleRemaining_all:
  assumes "collector_ok c"
  shows "\<exists>b' c'. recycleRemaining Q C up b c = Some (Inr (b', c')) \<and> sortedEvents b' = [] \<and>
     ct (eventQueue b') = [] \<and>
     collected cc c' = collected cc c + mset (map up (ct (eventQueue b) @ sortedEvents b))"
proof -
  let ?c1 = "fold (\<lambda>e. recycle C (up e)) (ct (eventQueue b)) c"
  obtain q where q: "drain Q (\<lambda>e. recycle C (up e)) (eventQueue b) c = Some (q, ?c1)" "ct q = []"
    using queue.drain_all [of "\<lambda>e. recycle C (up e)"] by blast
  have "collector_ok ?c1" using assms
    by (induction "ct (eventQueue b)" arbitrary: c rule: rev_induct)
       (auto simp: collector_ok_recycle intro: fold_invariant [where P = collector_ok and Q = "\<lambda>_. True"])
  then obtain c2 where c2: "recycleAll C (map up (sortedEvents b)) ?c1 = Inr c2"
    using recycleAll_returns by blast
  then show ?thesis
    using q coll.collected_recycleAll [OF c2] coll.collected_fold_recycle [of up "ct (eventQueue b)" c]
    by (simp add: recycleRemaining_def)
qed

end

interpretation list_events: event_queues "list_queue n" "\<lambda>q. q" "list_queue m" "\<lambda>q. q"
  by unfold_locales

text \<open>Events that are kept in order are due in order.\<close>

lemma ordered_head_first:
  assumes "ordered_buffer ct b" "metre T B pos" "0 \<le> j_beats_per_minute pos"
    and "\<forall>e \<in> set (sortedEvents b). near B e pos" "e \<in> set (sortedEvents b)"
  shows "calculateFrameOffset (hd (sortedEvents b)) pos \<le> calculateFrameOffset e pos"
proof (cases "e = hd (sortedEvents b)")
  case False
  then obtain h t where ht: "sortedEvents b = h # t" "e \<in> set t" using assms(5) by (cases "sortedEvents b") auto
  then have "dur_le h e" "h \<in> small_times" "e \<in> small_times"
    using assms(1) by (auto simp: ordered_buffer_def)
  then have "dvalue h \<le> dvalue e" "proper h" "proper e"
    by (simp_all add: small_le small_times_def)
  moreover have "near B h pos" "near B e pos" using assms(4,5) ht by simp_all
  ultimately show ?thesis using frame_offset_mono [OF assms(2,3), of h e] ht by simp
qed simp

lemma near_ident [simp]: "near B (ident e) pos = near B e pos" "whole (ident e) = whole e"
  by (simp_all add: near_def ident_def)

context event_queues
begin

lemma event_loop_leaves_nothing_due:
  assumes "ordered_buffer ct b" "metre T B pos" "0 \<le> j_beats_per_minute pos"
    and "\<forall>e \<in># pending ct b. near B e pos"
  shows "\<exists>b' c' s'. event_loop Q C up rolling pos n handle b cs = Some (b', c', s') \<and>
     ordered_buffer ct b' \<and>
     (rolling \<longrightarrow> (\<forall>e \<in> set (sortedEvents b'). int (unat n) \<le> calculateFrameOffset e pos))"
proof -
  define I where "I b = (ordered_buffer ct b \<and> (\<forall>e \<in># pending ct b. near B e pos))" for b
  have step: "I b'" if "I b" "getNextEvent Q C up rolling pos n b c = (r, b', c')" for b c r b' c'
  proof (rule getNextEvent_outcome [OF that(2)])
    fix ds
    assume "pending ct b = image_mset ident (mset ds) +
        image_mset ident (mset (case r of None \<Rightarrow> [] | Some e \<Rightarrow> [e])) + pending ct b'"
      "ordered_buffer ct b \<Longrightarrow> ordered_buffer ct b'"
    then show ?thesis using that(1) by (auto simp: I_def)
  qed
  have fin: "ordered_buffer ct b' \<and>
     (rolling \<longrightarrow> (\<forall>e \<in> set (sortedEvents b'). int (unat n) \<le> calculateFrameOffset e pos))"
    if "I b" "getNextEvent Q C up rolling pos n b c = (None, b', c')" for b c b' c'
  proof -
    have I: "I b'" using step [OF that] .
    then have "\<forall>e \<in> ident ` set (sortedEvents b'). near B e pos"
      by (simp add: I_def pending_def)
    then have "\<forall>e \<in> set (sortedEvents b'). near B (ident e) pos" by (rule ball_imageD)
    then have "\<forall>e \<in> set (sortedEvents b'). near B e pos" by simp
    then have "calculateFrameOffset (hd (sortedEvents b')) pos \<le> calculateFrameOffset e pos"
      if "e \<in> set (sortedEvents b')" for e
      using ordered_head_first I assms(2,3) that by (auto simp: I_def)
    moreover have "int (unat n) \<le> calculateFrameOffset (hd (sortedEvents b')) pos"
      if "rolling" "sortedEvents b' \<noteq> []"
      using getNextEvent_outcome [OF \<open>getNextEvent Q C up rolling pos n b c = (None, b', c')\<close>] that
      by metis
    ultimately show ?thesis using I by (fastforce simp: I_def)
  qed
  have "I b" using assms(1,4) by (simp add: I_def)
  then show ?thesis by (rule event_loop_rule [where I = "\<lambda>b _. I b"]) (use step fin in blast)+
qed

end

section \<open>Properties\<close>

text \<open>C2: taking the next event loses nothing: what was pending is the events dropped, the event
  returned and what is still pending; the dropped ones, and only they, went to the collector, the
  transport was rolling and each was more than 256 frames late; a returned event either has the
  pass-through bar zero or is due in this very cycle.\<close>

theorem next_event_accounts:
  assumes "fifo Q ct" "fifo C cc"
    and "getNextEvent Q C up rolling pos n b c = (r, b', c')"
  shows "\<exists>ds. pending ct b = image_mset ident (mset ds) +
             image_mset ident (mset (case r of None \<Rightarrow> [] | Some e \<Rightarrow> [e])) + pending ct b' \<and>
     collected cc c' = collected cc c + mset (map (\<lambda>d. up (updateFrameOffset pos d)) ds) \<and>
     (\<forall>d \<in> set ds. rolling \<and> calculateFrameOffset d pos < -256) \<and>
     (\<forall>e. r = Some e \<longrightarrow> whole e = 0 \<or>
        rolling \<and> frameOffset e = calculateFrameOffset e pos \<and>
        -256 \<le> frameOffset e \<and> frameOffset e < int (unat n))"
  using event_queues.getNextEvent_outcome [OF event_queues.intro [OF assms(1,2)] assms(3)]
  by (metis (no_types, lifting))

definition example_event :: "u32 \<Rightarrow> u32 \<Rightarrow> event" where
  "example_event bar beat = Event_at (mk_dur bar beat 4) 0"

definition example_buffer :: "(event list, event) event_buffer" where
  "example_buffer = \<lparr>eventQueue = [example_event 2 3, example_event 1 0],
     sortedEvents = [example_event 2 0]\<rparr>"

definition empty_collector :: "('o list, 'o) collector" where
  "empty_collector = \<lparr>objectQueue = [], waitingList = \<lparr>w_items = [], w_last_ok = False\<rparr>\<rparr>"

theorem next_event_accounts_witness:
  "\<exists>r b' c' ds. getNextEvent (list_queue 8) (list_queue 8) id True example_pos 512 example_buffer
       empty_collector = (r, b', c') \<and>
     pending (\<lambda>q. q) example_buffer = image_mset ident (mset ds) +
       image_mset ident (mset (case r of None \<Rightarrow> [] | Some e \<Rightarrow> [e])) + pending (\<lambda>q. q) b'"
proof -
  obtain r b' c' where g: "getNextEvent (list_queue 8) (list_queue 8) id True example_pos 512
      example_buffer empty_collector = (r, b', c')" by (metis surj_pair)
  show ?thesis using next_event_accounts [OF listq.fifo_axioms listq.fifo_axioms g] g by blast
qed

text \<open>C1: the loop in which a cycle takes its events always ends, whatever the handler does to
  its own state; the list stays sorted, and when the transport rolls no event that was due
  before the end of the cycle is left in it.\<close>

theorem event_loop_complete:
  assumes "fifo Q ct" "fifo C cc" "ordered_buffer ct b"
    and "metre T B pos" "0 \<le> j_beats_per_minute pos"
    and "\<forall>e \<in># pending ct b. near B e pos"
  shows "\<exists>b' c' s'. event_loop Q C up rolling pos n handle b (c, s) = Some (b', c', s') \<and>
     ordered_buffer ct b' \<and>
     (rolling \<longrightarrow> (\<forall>e \<in> set (sortedEvents b'). int (unat n) \<le> calculateFrameOffset e pos))"
  using event_queues.event_loop_leaves_nothing_due [OF event_queues.intro [OF assms(1,2)] assms(3-6)] .

theorem event_loop_complete_witness:
  "\<exists>b' c' s'. event_loop (list_queue 8) (list_queue 8) id True example_pos 512
       (\<lambda>e (c, s). (c, s @ [position e])) example_buffer (empty_collector, []) = Some (b', c', s') \<and>
     ordered_buffer (\<lambda>q. q) b' \<and> (\<forall>e \<in> set (sortedEvents b'). 512 \<le> calculateFrameOffset e example_pos)"
proof -
  have "ordered_buffer (\<lambda>q. q) example_buffer"
    by (simp add: ordered_buffer_def example_buffer_def example_event_def Event_at_def
        small_times_def proper_def duration.defs)
  moreover have "\<forall>e \<in># pending (\<lambda>q. q) example_buffer. near 4 e example_pos"
    by (simp add: pending_def example_buffer_def example_event_def Event_at_def near_def
        duration.defs example_pos_def ident_def)
  moreover have "0 \<le> j_beats_per_minute example_pos" by (simp add: example_pos_def)
  ultimately show ?thesis
    using event_loop_complete [OF listq.fifo_axioms listq.fifo_axioms _ example_metre, where up = id and rolling = True and n = 512
        and b = example_buffer and handle = "\<lambda>e (c, s). (c, s @ [position e])"
        and c = empty_collector and s = "[]"] by fastforce
qed

text \<open>when the transport is repositioned everything buffered goes to the collector and the
  buffer is empty; the operation returns and cannot fault while the collector's waiting list is
  well formed.\<close>

theorem recycle_remaining_complete:
  assumes "fifo Q ct" "fifo C cc" "collector_ok c"
  shows "\<exists>b' c'. recycleRemaining Q C up b c = Some (Inr (b', c')) \<and> pending ct b' = {#} \<and>
     collected cc c' = collected cc c + mset (map up (ct (eventQueue b) @ sortedEvents b))"
proof -
  obtain b' c' where "recycleRemaining Q C up b c = Some (Inr (b', c'))" "sortedEvents b' = []"
    "ct (eventQueue b') = []"
    "collected cc c' = collected cc c + mset (map up (ct (eventQueue b) @ sortedEvents b))"
    using event_queues.recycleRemaining_all [OF event_queues.intro [OF assms(1,2)] assms(3)] by blast
  then show ?thesis by (simp add: pending_def)
qed

theorem recycle_remaining_complete_witness:
  "\<exists>b' c'. recycleRemaining (list_queue 8) (list_queue 2) id example_buffer empty_collector =
       Some (Inr (b', c')) \<and> pending (\<lambda>q. q) b' = {#} \<and>
     collected (\<lambda>q. q) c' = {#example_event 2 3, example_event 1 0, example_event 2 0#}"
proof -
  have "collector_ok empty_collector" by (simp add: collector_ok_def empty_collector_def)
  from recycle_remaining_complete [OF listq.fifo_axioms listq.fifo_axioms this,
      where up = id and b = example_buffer]
  show ?thesis by (simp add: collected_def empty_collector_def example_buffer_def)
qed

end
