(* ===== verification/Script_Values.thy ===== *)
theory Script_Values
  imports Event_Buffer
begin

text \<open>
  Values and functions that cross between the script and the program (\<open>src/scripttypes.h\<close>,
  \<open>src/scripttypes.cpp\<close>, \<open>src/eventclosure.h\<close>). The objects on the interpreter's stack are a
  datatype with the types its API tells apart; of the interpreter's stack itself only the depth
  is modelled, which is what the calls here have to leave as they found it.
\<close>

section \<open>Values\<close>

datatype sq_object =
    Sq_null
  | Sq_integer int
  | Sq_float rat
  | Sq_string string
  | Sq_bool bool
  | Sq_array "sq_object list"
  | Sq_table
  | Sq_other

datatype script_value =
    NullValue
  | BoolValue int
  | IntValue int
  | FloatValue rat
  | StringValue string
  | ArrayValue "sq_object list"

fun setValue :: "sq_object \<Rightarrow> script_value res" where
  "setValue Sq_null = Inr NullValue"
| "setValue (Sq_integer i) = Inr (IntValue i)"
| "setValue (Sq_float f) = Inr (FloatValue f)"
| "setValue (Sq_string s) = Inr (StringValue s)"
| "setValue (Sq_array xs) = Inr (ArrayValue xs)"
| "setValue Sq_table = Inl (Logic_error ''Table not supported here'')"
| "setValue (Sq_bool _) = Inl (Logic_error ''Unknown type not supported here'')"
| "setValue Sq_other = Inl (Logic_error ''Unknown type not supported here'')"

fun pushValue :: "script_value \<Rightarrow> sq_object res" where
  "pushValue (BoolValue b) = Inr (Sq_bool (b \<noteq> 0))"
| "pushValue NullValue = Inr Sq_null"
| "pushValue (IntValue i) = Inr (Sq_integer i)"
| "pushValue (FloatValue f) = Inr (Sq_float f)"
| "pushValue (StringValue s) = Inr (Sq_string s)"
| "pushValue (ArrayValue _) = Inl (Logic_error ''Array not supported here'')"

text \<open>
  An array read by index. A failing \<open>sq_get\<close> is not noticed: what lies on top of the stack is
  then read as the element, and one object too many is popped.
\<close>

definition array_size :: "sq_object list \<Rightarrow> u32" where
  "array_size xs = of_nat (length xs)"

definition array_at :: "sq_object list \<Rightarrow> int \<Rightarrow> script_value res" where
  "array_at xs i =
     (if 0 \<le> i \<and> i < int (length xs) then setValue (xs ! nat i)
      else Inl (Undefined ''unbalanced interpreter stack''))"

text \<open>The pairs of a hash in the order the interpreter iterates over it.\<close>

definition hash_hasNext :: "(sq_object \<times> sq_object) list \<Rightarrow> bool" where
  "hash_hasNext h \<longleftrightarrow> h \<noteq> []"

definition hash_next ::
  "(sq_object \<times> sq_object) list \<Rightarrow> ((script_value \<times> script_value) \<times> (sq_object \<times> sq_object) list) res"
where
  "hash_next h =
     (case h of
        [] \<Rightarrow> Inl (Undefined ''no pair on the interpreter stack'')
      | (k, v) # r \<Rightarrow>
          bind_res (setValue v) (\<lambda>value. bind_res (setValue k) (\<lambda>key. Inr ((key, value), r))))"

section \<open>Functions and closures\<close>

record 'f script_function =
  sq_function :: 'f
  numargs :: u32

text \<open>
  A call pushes the function, the context and the parameters, lets \<open>sq_call\<close> pop as many objects
  as the function has arguments, and pops the function. This is the depth of the stack
  afterwards.
\<close>

definition execute_depth :: "'f script_function \<Rightarrow> nat \<Rightarrow> int \<Rightarrow> int" where
  "execute_depth f params depth = depth + 1 + 1 + int params - int (unat (numargs f)) - 1"

text \<open>
  The closures, with what each adds as parameters: the asynchronous closure of the transport
  takes them off its position, as many as the function asks for but at most three.
\<close>

definition async_parameters :: "'f script_function \<Rightarrow> 'x event_scheme \<Rightarrow> sq_object list" where
  "async_parameters f e =
     (if 1 < unat (numargs f) then [Sq_integer (sint (whole e))] else []) @
     (if 2 < unat (numargs f) then [Sq_integer (sint (position e))] else []) @
     (if 3 < unat (numargs f) then [Sq_integer (sint (division e))] else [])"

text \<open>
  Storing a handler: every handler has a fixed number of parameters, and the function's argument
  count includes the context.
\<close>

definition store_handler ::
  "u32 \<Rightarrow> string \<Rightarrow> 'f script_function \<Rightarrow> 'f script_function option \<Rightarrow> 'f script_function option res"
where
  "store_handler n message f old =
     (if numargs f \<noteq> n then Inl (Logic_error message) else Inr (Some f))"

lemma store_handler_balanced:
  assumes "store_handler n message f old = Inr (Some g)" "unat n = Suc params"
  shows "execute_depth g params depth = depth"
  using assms by (auto simp: store_handler_def execute_depth_def split: if_splits)

section \<open>Properties\<close>

text \<open>what a script passes in comes back out unchanged, for null, numbers and strings; arrays
  come in but never go out, and booleans, which go out, never come in.\<close>

theorem script_value_roundtrip:
  "bind_res (setValue x) pushValue =
     (case x of
        Sq_null \<Rightarrow> Inr x | Sq_integer _ \<Rightarrow> Inr x | Sq_float _ \<Rightarrow> Inr x | Sq_string _ \<Rightarrow> Inr x
      | Sq_array _ \<Rightarrow> Inl (Logic_error ''Array not supported here'')
      | Sq_table \<Rightarrow> Inl (Logic_error ''Table not supported here'')
      | Sq_bool _ \<Rightarrow> Inl (Logic_error ''Unknown type not supported here'')
      | Sq_other \<Rightarrow> Inl (Logic_error ''Unknown type not supported here''))"
  by (cases x) simp_all

text \<open>running the asynchronous closure of a scheduled function leaves the interpreter's stack as
  it was exactly when the function takes at most three parameters.\<close>

theorem async_closure_balanced:
  assumes "numargs f \<noteq> 0"
  shows "execute_depth f (length (async_parameters f e)) depth = depth \<longleftrightarrow> unat (numargs f) \<le> 4"
proof -
  have "unat (numargs f) \<noteq> 0" using assms by (simp add: unat_eq_zero)
  then show ?thesis by (auto simp: execute_depth_def async_parameters_def)
qed

theorem async_closure_balanced_witness:
  "execute_depth \<lparr>sq_function = (), numargs = 5\<rparr>
     (length (async_parameters \<lparr>sq_function = (), numargs = 5\<rparr> (example_event 2 1))) 10 \<noteq> 10"
  using async_closure_balanced [of "\<lparr>sq_function = (), numargs = 5\<rparr>" "example_event 2 1" 10] by simp

end
