(* ===== verification/Midi_Data.thy ===== *)
theory Midi_Data
  imports Event_Buffer
begin

text \<open>
  The MIDI data of the program: events as the process thread packs them into JACK's buffers
  (\<open>src/midievent.h\<close>, \<open>src/midievent.cpp\<close>), the messages a script builds
  (\<open>src/midimessage.h\<close>), notes (\<open>src/module_midi.h\<close>), patterns (\<open>src/midipattern.h\<close>,
  \<open>src/midipattern.cpp\<close>) and tunes (\<open>src/miditune.h\<close>, \<open>src/miditune.cpp\<close>). A C++ \<open>char\<close> is a
  byte here: its sign extension to \<open>int\<close> is undone by the truncation to \<open>unsigned char\<close> that
  follows at every use.
\<close>

section \<open>Events\<close>

record midi_event = event +
  ev_type :: u8
  databyte1 :: u8
  databyte2 :: u8
  ev_channel :: u8

definition TYPE_NOTE_OFF :: u8 where "TYPE_NOTE_OFF = 0x80"
definition TYPE_NOTE_ON :: u8 where "TYPE_NOTE_ON = 0x90"
definition TYPE_CONTROL :: u8 where "TYPE_CONTROL = 0xB0"
definition TYPE_PITCH_BEND :: u8 where "TYPE_PITCH_BEND = 0xE0"

text \<open>
  The constructors. The base class leaves the frame offset uninitialised: what it then holds is
  the argument \<open>junk\<close>. The three \<open>int\<close> arguments are truncated to bytes.
\<close>

definition Midi_Event :: "int \<Rightarrow> 'a duration_scheme \<Rightarrow> int \<Rightarrow> int \<Rightarrow> int \<Rightarrow> u8 \<Rightarrow> midi_event" where
  "Midi_Event junk pos n v t ch =
     event.extend (Event_at pos junk)
       \<lparr>ev_type = word_of_int t, databyte1 = word_of_int n, databyte2 = word_of_int v,
        ev_channel = ch\<rparr>"

definition copy_event :: "int \<Rightarrow> midi_event \<Rightarrow> midi_event" where
  "copy_event junk e = e\<lparr>frameOffset := junk\<rparr>"

text \<open>
  \<open>setPosition\<close> constructs a temporary of the base class and drops it: it can throw, but it never
  sets anything.
\<close>

definition setPosition :: "int \<Rightarrow> int \<Rightarrow> int \<Rightarrow> midi_event \<Rightarrow> midi_event res" where
  "setPosition b p d e =
     bind_res (Position (word_of_int b) (word_of_int p) (word_of_int d)) (\<lambda>_. Inr e)"

definition setChannel :: "u8 \<Rightarrow> midi_event \<Rightarrow> midi_event" where
  "setChannel ch e = e\<lparr>ev_channel := ch\<rparr>"

definition setDatabyte1 :: "u8 \<Rightarrow> midi_event \<Rightarrow> midi_event" where
  "setDatabyte1 b e = e\<lparr>databyte1 := b\<rparr>"

definition dataSize :: "midi_event \<Rightarrow> nat" where
  "dataSize e = (if ev_type e = 0xC0 then 1 else 2)"

text \<open>The bytes \<open>pack\<close> writes, from the start of the buffer on.\<close>

definition pack :: "midi_event \<Rightarrow> u8 list" where
  "pack e = [ev_type e + ev_channel e, databyte1 e] @ (if dataSize e = 2 then [databyte2 e] else [])"

definition unpack :: "u8 list \<Rightarrow> midi_event \<Rightarrow> midi_event res" where
  "unpack buf e =
     (if buf = [] then Inl (Undefined ''read past the buffer'')
      else
        let e1 = e\<lparr>ev_type := buf ! 0 AND 0xf0, ev_channel := buf ! 0 AND 0x0f\<rparr>;
            e2 = (if 1 < length buf then e1\<lparr>databyte1 := buf ! 1\<rparr> else e1)
        in Inr (if 2 < length buf then e2\<lparr>databyte2 := buf ! 2\<rparr> else e2))"

definition matches_type :: "int \<Rightarrow> midi_event \<Rightarrow> bool" where
  "matches_type t e \<longleftrightarrow> t = int (unat (ev_type e))"

definition matches_data :: "int \<Rightarrow> int \<Rightarrow> int \<Rightarrow> int \<Rightarrow> midi_event \<Rightarrow> bool" where
  "matches_data t note low high e \<longleftrightarrow> t = int (unat (ev_type e)) \<and> note = int (unat (databyte1 e))"

lemma Midi_Event_simps [simp]:
  "whole (Midi_Event u pos n v t ch) = whole pos"
  "position (Midi_Event u pos n v t ch) = position pos"
  "division (Midi_Event u pos n v t ch) = division pos"
  "dvalue (Midi_Event u pos n v t ch) = dvalue pos"
  "frameOffset (Midi_Event u pos n v t ch) = u"
  "ev_type (Midi_Event u pos n v t ch) = word_of_int t"
  "databyte1 (Midi_Event u pos n v t ch) = word_of_int n"
  "databyte2 (Midi_Event u pos n v t ch) = word_of_int v"
  "ev_channel (Midi_Event u pos n v t ch) = ch"
  by (simp_all add: Midi_Event_def Event_at_def duration.defs event.defs dvalue_def)

section \<open>Messages\<close>

datatype midi_message =
    Control u8 u8
  | NoteOn u8 u8
  | NoteOff u8 u8
  | PitchBend u32
  | ProgramChange u8

definition mk_Control :: "int \<Rightarrow> int \<Rightarrow> midi_message" where
  "mk_Control c v = Control (word_of_int c) (word_of_int v)"

definition mk_NoteOn :: "int \<Rightarrow> int \<Rightarrow> midi_message" where
  "mk_NoteOn p v = NoteOn (word_of_int p) (word_of_int v)"

definition mk_NoteOff :: "int \<Rightarrow> int \<Rightarrow> midi_message" where
  "mk_NoteOff p v = NoteOff (word_of_int p) (word_of_int v)"

fun message_type :: "midi_message \<Rightarrow> u8" where
  "message_type (Control _ _) = 0xB0"
| "message_type (NoteOn _ _) = 0x90"
| "message_type (NoteOff _ _) = 0x80"
| "message_type (PitchBend _) = 0xE0"
| "message_type (ProgramChange _) = 0xC0"

fun message_byte :: "midi_message \<Rightarrow> u8 \<Rightarrow> u8" where
  "message_byte (Control c v) i = (if i = 0 then c else v)"
| "message_byte (NoteOn p v) i = (if i = 0 then p else v)"
| "message_byte (NoteOff p v) i = (if i = 0 then p else v)"
| "message_byte (PitchBend v) i = (if i = 0 then ucast (v AND 0x7F) else ucast (drop_bit 7 v))"
| "message_byte (ProgramChange p) i = p"

text \<open>The event \<open>Sink::schedule\<close> makes of a message: a \<open>char\<close> goes to \<open>int\<close> and back to a byte.\<close>

definition message_event :: "int \<Rightarrow> midi_message \<Rightarrow> 'a duration_scheme \<Rightarrow> u8 \<Rightarrow> midi_event" where
  "message_event junk m pos channel =
     Midi_Event junk pos (sint (message_byte m 0)) (sint (message_byte m 1)) (sint (message_type m))
       (channel - 1)"

section \<open>Notes\<close>

record midi_note =
  vel :: u8
  note_value :: int
  note_duration :: duration
  note_channel :: int

definition Note :: "int \<Rightarrow> u8 \<Rightarrow> int \<Rightarrow> int \<Rightarrow> midi_note res" where
  "Note p v dur d =
     bind_res (Duration 0 (word_of_int dur) (word_of_int d)) (\<lambda>q.
       Inr \<lparr>vel = v, note_value = p, note_duration = q, note_channel = 0\<rparr>)"

definition Note_lasting :: "int \<Rightarrow> u8 \<Rightarrow> duration \<Rightarrow> midi_note" where
  "Note_lasting p v d = \<lparr>vel = v, note_value = p, note_duration = d, note_channel = 0\<rparr>"

definition Note_on_channel :: "int \<Rightarrow> u8 \<Rightarrow> int \<Rightarrow> midi_note" where
  "Note_on_channel p v ch = \<lparr>vel = v, note_value = p, note_duration = mk_dur 0 0 1, note_channel = ch\<rparr>"

definition pitch :: "midi_note \<Rightarrow> u32" where
  "pitch n = word_of_int (note_value n)"

definition note_transpose :: "int \<Rightarrow> midi_note \<Rightarrow> midi_note res" where
  "note_transpose amount n =
     (let newval = note_value n + amount
      in if newval < 0 then Inl (Logic_error ''Cannot transpose this note that low'')
         else if 127 < newval then Inl (Logic_error ''Cannot transpose this note that high'')
         else Inr (n\<lparr>note_value := newval\<rparr>))"

definition set_velocity :: "u8 \<Rightarrow> midi_note \<Rightarrow> midi_note res" where
  "set_velocity v n =
     (if 127 < v then Inl (Logic_error ''Velocity value cannot be greater than 127'')
      else Inr (n\<lparr>vel := v\<rparr>))"

definition setDuration :: "duration \<Rightarrow> midi_note \<Rightarrow> midi_note" where
  "setDuration d n = n\<lparr>note_duration := d\<rparr>"

section \<open>Patterns\<close>

record pattern_note =
  pn_note :: midi_note
  pn_position :: position

type_synonym pattern = "pattern_note list"

definition addNote :: "midi_note \<Rightarrow> int \<Rightarrow> int \<Rightarrow> int \<Rightarrow> pattern \<Rightarrow> pattern res" where
  "addNote n b p d ns =
     bind_res (Position (word_of_int b) (word_of_int p) (word_of_int d)) (\<lambda>start.
       Inr (ns @ [\<lparr>pn_note = n, pn_position = start\<rparr>]))"

definition addNote_at :: "midi_note \<Rightarrow> position \<Rightarrow> pattern \<Rightarrow> pattern" where
  "addNote_at n pos ns = ns @ [\<lparr>pn_note = n, pn_position = pos\<rparr>]"

definition pattern_size :: "pattern \<Rightarrow> u32" where
  "pattern_size ns = of_nat (length ns)"

text \<open>\<open>getNote\<close> reports the index it was given where it means to report the number of notes.\<close>

definition getNote :: "u32 \<Rightarrow> pattern \<Rightarrow> midi_note res" where
  "getNote i ns =
     (if length ns \<le> unat i
      then Inl (Logic_error (''pattern has '' @ decimal (unat i) @ '' notes''))
      else Inr (pn_note (ns ! unat i)))"

definition get_note :: "u32 \<Rightarrow> pattern \<Rightarrow> pattern_note res" where
  "get_note i ns =
     (if unat i < length ns then Inr (ns ! unat i) else Inl (Undefined ''index outside a deque''))"

fun transpose_loop :: "int \<Rightarrow> pattern_note list \<Rightarrow> unit res \<times> pattern_note list" where
  "transpose_loop amount [] = (Inr (), [])"
| "transpose_loop amount (n # ns) =
     (case note_transpose amount (pn_note n) of
        Inl e \<Rightarrow> (Inl e, n # ns)
      | Inr m \<Rightarrow> (let (r, ms) = transpose_loop amount ns in (r, n\<lparr>pn_note := m\<rparr> # ms)))"

definition pattern_transpose :: "int \<Rightarrow> (pattern, unit) act" where
  "pattern_transpose amount ns = transpose_loop amount ns"

definition show_duration :: "'a duration_scheme \<Rightarrow> string" where
  "show_duration d = ''d'' @ decimal (unat (whole d)) @ ''+'' @ decimal (unat (position d)) @ ''/'' @
     decimal (unat (division d))"

definition show_position :: "'a duration_scheme \<Rightarrow> string" where
  "show_position d = ''@'' @ decimal (unat (whole d)) @ ''+'' @ decimal (unat (position d)) @ ''/'' @
     decimal (unat (division d))"

definition newline :: string where "newline = [char_of (10 :: nat)]"

definition print_pattern :: "pattern \<Rightarrow> string" where
  "print_pattern ns =
     decimal (length ns) @ '' events'' @ newline @
     concat (map (\<lambda>n. ''N'' @ decimal (unat (pitch (pn_note n))) @ '' duration '' @
       show_duration (note_duration (pn_note n)) @ '' '' @ show_position (pn_position n) @ newline) ns)"

section \<open>Tunes\<close>

record tune =
  title :: string
  tracks :: "pattern list"
  numTracks :: u32
  timeSignature :: time_signature

definition Tune :: "u32 \<Rightarrow> tune" where
  "Tune n = \<lparr>title = [], tracks = replicate (unat n) [], numTracks = n,
     timeSignature = no_time_signature\<rparr>"

definition addMidiNote :: "u32 \<Rightarrow> midi_note \<Rightarrow> position \<Rightarrow> tune \<Rightarrow> tune res" where
  "addMidiNote k n pos t =
     (if unat k < length (tracks t)
      then Inr (t\<lparr>tracks := (tracks t)[unat k := addNote_at n pos (tracks t ! unat k)]\<rparr>)
      else Inl (Undefined ''index outside an array''))"

definition track :: "u32 \<Rightarrow> tune \<Rightarrow> pattern res" where
  "track k t =
     (if k = 0 then Inl (Logic_error ''there is no track zero'')
      else if numTracks t < k then Inl (Logic_error ''track number too high'')
      else if unat (k - 1) < length (tracks t) then Inr (tracks t ! unat (k - 1))
      else Inl (Undefined ''index outside an array''))"

definition setTimeSignature :: "rat \<Rightarrow> rat \<Rightarrow> tune \<Rightarrow> tune" where
  "setTimeSignature num denom t =
     t\<lparr>timeSignature := \<lparr>ts_valid = True, ts_numerator = word_of_int (trunc num),
        ts_denominator = word_of_int (trunc denom)\<rparr>\<rparr>"

section \<open>Status bytes\<close>

text \<open>A type nibble and a channel below 16 share no bit, so adding them is combining them.\<close>

lemma low_nibble:
  fixes c :: u8
  assumes "c < 16"
  shows "c AND 0x0F = c" "c AND 0xF0 = 0"
proof -
  have "c AND mask 4 = c" using assms less_mask_eq [of c 4] by simp
  then show a: "c AND 0x0F = c" by (simp add: mask_eq_exp_minus_1)
  have "c AND 0xF0 = (c AND 0x0F) AND 0xF0" using a by simp
  also have "\<dots> = c AND (0x0F AND 0xF0)" by (simp only: and.assoc)
  finally show "c AND 0xF0 = 0" by simp
qed

lemma nibble_split:
  fixes t :: u8
  assumes "t AND 0x0F = 0"
  shows "t AND 0xF0 = t"
proof -
  have "(0xF0 OR 0x0F :: u8) = -1" by simp
  then have "t = t AND (0xF0 OR 0x0F)" by (metis and.right_neutral)
  also have "\<dots> = (t AND 0xF0) OR (t AND 0x0F)" by (rule bit.conj_disj_distrib)
  finally show ?thesis using assms by simp
qed

lemma status_byte:
  fixes t c :: u8
  assumes "t AND 0x0F = 0" "c < 16"
  shows "(t + c) AND 0xF0 = t" "(t + c) AND 0x0F = c"
proof -
  have "t AND c = (t AND 0x0F) AND c" using low_nibble(1) [OF assms(2)] by (metis and.assoc and.commute)
  then have "t AND c = 0" using assms(1) by simp
  then have tc: "t + c = t OR c"
    by (intro disjunctive_add) (metis bit_0_eq bit_and_iff bot_apply bot_bool_def)
  show "(t + c) AND 0xF0 = t" "(t + c) AND 0x0F = c"
    using low_nibble [OF assms(2)] nibble_split [OF assms(1)] assms(1)
    by (simp_all add: tc bit.conj_disj_distrib2)
qed

lemma message_type_nibble: "message_type m AND 0x0F = 0"
  by (cases m) simp_all

lemma word_of_sint_u8 [simp]: "(word_of_int (sint (b :: u8)) :: u8) = b"
  by simp

section \<open>Properties\<close>

text \<open>packing an event and unpacking the bytes gives its type, channel and first data byte
  back, and the second data byte too unless the event is a program change, which has none.\<close>

theorem midi_pack_roundtrip:
  assumes "ev_type e AND 0x0F = 0" "ev_channel e < 16"
  shows "\<exists>r. unpack (pack e) e0 = Inr r \<and> ev_type r = ev_type e \<and> ev_channel r = ev_channel e \<and>
     databyte1 r = databyte1 e \<and> length (pack e) = dataSize e + 1 \<and>
     databyte2 r = (if dataSize e = 2 then databyte2 e else databyte2 e0) \<and>
     duration.truncate r = duration.truncate e0"
  using status_byte [OF assms]
  by (simp add: unpack_def pack_def dataSize_def duration.defs)

theorem midi_pack_roundtrip_witness:
  "\<exists>r. unpack (pack (Midi_Event 0 (mk_dur 1 0 4) 60 100 0x90 15)) (Midi_Event 0 (mk_dur 1 0 1) 0 0 0 0) = Inr r \<and>
     ev_type r = 0x90 \<and> ev_channel r = 15 \<and> databyte1 r = 60 \<and> databyte2 r = 100"
  using midi_pack_roundtrip [of "Midi_Event 0 (mk_dur 1 0 4) 60 100 0x90 15"
      "Midi_Event 0 (mk_dur 1 0 1) 0 0 0 0"]
  by (auto simp: dataSize_def)

text \<open>a message scheduled on a channel between 1 and 16 goes out as its status byte, with the
  channel counted from zero, and its data bytes; a pitch bend below 16384 goes out as two
  7-bit bytes that give its value back.\<close>

theorem midi_message_wire:
  assumes "1 \<le> channel" "channel \<le> 16"
  shows "pack (message_event junk m pos channel) =
       [message_type m + (channel - 1), message_byte m 0] @
         (if message_type m = 0xC0 then [] else [message_byte m 1]) \<and>
     (message_type m + (channel - 1)) AND 0xF0 = message_type m \<and>
     (message_type m + (channel - 1)) AND 0x0F = channel - 1 \<and>
     (\<forall>v. m = PitchBend v \<longrightarrow> v < 16384 \<longrightarrow>
        message_byte m 0 < 128 \<and> message_byte m 1 < 128 \<and>
        unat v = unat (message_byte m 1) * 128 + unat (message_byte m 0))"
proof -
  have c: "channel - 1 < 16"
    using assms by unat_arith
  have bend: "unat (ucast (v AND 0x7F) :: u8) = unat v mod 128 \<and> unat (ucast (drop_bit 7 v) :: u8) = unat v div 128"
    if "v < 16384" for v :: u32
  proof -
    have v: "unat v < 16384" using that by (simp add: word_less_nat_alt)
    have "v AND 0x7F = take_bit 7 v" by (simp only: take_bit_eq_mask mask_eq_exp_minus_1) simp
    then have "unat (v AND 0x7F) = take_bit 7 (unat v)" by (simp only: unsigned_take_bit_eq)
    then have a: "unat (v AND 0x7F) = unat v mod 128" by (simp add: take_bit_eq_mod)
    have b: "unat (drop_bit 7 v) = unat v div 128"
      by (simp add: drop_bit_eq_div unat_div)
    show ?thesis using v by (simp add: unsigned_ucast_eq take_bit_eq_mod a b)
  qed
  show ?thesis
    using status_byte [OF message_type_nibble c, of m] bend
    by (auto simp: pack_def dataSize_def message_event_def word_less_nat_alt)
qed

theorem midi_message_wire_witness:
  "pack (message_event 0 (PitchBend 8192) (mk_dur 1 0 4) 16) = [0xEF, 0, 64]"
  using midi_message_wire [of 16 0 "PitchBend 8192" "mk_dur 1 0 4"] by simp

text \<open>\<open>Event::setPosition\<close> never moves an event: it either throws or leaves it as it was.\<close>

theorem setPosition_no_effect:
  "setPosition b p d e =
     (if (word_of_int d :: u32) = 0 then Inl (Logic_error ''division cannot be zero!'')
      else if (word_of_int b :: u32) = 0 then Inl (Logic_error ''there is no zero bar'')
      else Inr e)"
proof -
  have "is_ok (Position (word_of_int b) (word_of_int p) (word_of_int d))"
    if "(word_of_int d :: u32) \<noteq> 0" "(word_of_int b :: u32) \<noteq> 0"
    using that by (simp add: Position_ok)
  then show ?thesis
    by (auto simp: setPosition_def Position_fault_order is_ok_iff)
qed

text \<open>transposing a pattern succeeds exactly when every note stays between 0 and 127, and then
  moves every note by the amount and nothing else; otherwise it throws with exactly the notes in
  front of the first offender moved.\<close>

definition in_range :: "int \<Rightarrow> pattern_note \<Rightarrow> bool" where
  "in_range amount n \<longleftrightarrow> 0 \<le> note_value (pn_note n) + amount \<and> note_value (pn_note n) + amount \<le> 127"

definition moved :: "int \<Rightarrow> pattern_note \<Rightarrow> pattern_note" where
  "moved amount n =
     n\<lparr>pn_note := (pn_note n)\<lparr>note_value := note_value (pn_note n) + amount\<rparr>\<rparr>"

theorem pattern_transpose_correct:
  "(\<forall>n \<in> set ns. in_range amount n) \<and>
     pattern_transpose amount ns = (Inr (), map (moved amount) ns) \<or>
   (\<exists>us v ws e. ns = us @ v # ws \<and> (\<forall>n \<in> set us. in_range amount n) \<and> \<not> in_range amount v \<and>
     pattern_transpose amount ns = (Inl (Logic_error e), map (moved amount) us @ v # ws))"
proof (induction ns)
  case Nil
  then show ?case by (simp add: pattern_transpose_def)
next
  case (Cons n ns)
  show ?case
  proof (cases "in_range amount n")
    case True
    then have "note_transpose amount (pn_note n) =
        Inr ((pn_note n)\<lparr>note_value := note_value (pn_note n) + amount\<rparr>)"
      by (simp add: note_transpose_def in_range_def Let_def)
    then have run: "pattern_transpose amount (n # ns) =
        (let (r, ms) = pattern_transpose amount ns in (r, moved amount n # ms))"
      by (simp add: pattern_transpose_def moved_def)
    from Cons.IH show ?thesis
    proof (elim disjE exE conjE)
      fix us v ws e
      assume "ns = us @ v # ws" "\<forall>n \<in> set us. in_range amount n" "\<not> in_range amount v"
        "pattern_transpose amount ns = (Inl (Logic_error e), map (moved amount) us @ v # ws)"
      then show ?thesis using run True
        by (intro disjI2 exI [of _ "n # us"] exI [of _ v] exI [of _ ws] exI [of _ e]) simp
    qed (use run True in simp)
  next
    case False
    then obtain e where "note_transpose amount (pn_note n) = Inl (Logic_error e)"
      by (auto simp: note_transpose_def in_range_def Let_def)
    then show ?thesis using False
      by (intro disjI2 exI [of _ "[]"] exI [of _ n] exI [of _ ns] exI [of _ e])
        (simp add: pattern_transpose_def)
  qed
qed

definition example_note :: "u32 \<Rightarrow> int \<Rightarrow> pattern_note" where
  "example_note bar v =
     \<lparr>pn_note = Note_lasting v 100 (mk_dur 0 1 4), pn_position = mk_dur bar 0 1\<rparr>"

theorem pattern_transpose_correct_witness:
  "pattern_transpose 7 [example_note 1 60, example_note 2 120] =
     (Inr (), [example_note 1 67, example_note 2 127])"
proof -
  let ?ns = "[example_note 1 60, example_note 2 120]"
  have ok: "\<forall>n \<in> set ?ns. in_range 7 n"
    by (simp add: in_range_def example_note_def Note_lasting_def)
  have "pattern_transpose 7 ?ns = (Inr (), map (moved 7) ?ns)"
    using pattern_transpose_correct [of ?ns 7]
  proof (elim disjE exE conjE)
    fix us v ws
    assume "?ns = us @ v # ws" "\<not> in_range 7 v"
    then have "v \<in> set ?ns" by (metis in_set_conv_decomp)
    then show ?thesis using ok \<open>\<not> in_range 7 v\<close> by blast
  qed
  then show ?thesis by (simp add: moved_def example_note_def Note_lasting_def)
qed

definition tune_ok :: "tune \<Rightarrow> bool" where
  "tune_ok t \<longleftrightarrow> length (tracks t) = unat (numTracks t)"

text \<open>a tune keeps as many tracks as it was made with, adding a note to a track that exists
  grows that track alone, and exactly the track numbers from 1 to that count can be read.\<close>

theorem tune_tracks:
  assumes "tune_ok t" "unat k < unat (numTracks t)"
  shows "tune_ok (Tune n) \<and>
     (\<exists>t'. addMidiNote k note pos t = Inr t' \<and> tune_ok t' \<and> numTracks t' = numTracks t \<and>
        tracks t' ! unat k = tracks t ! unat k @ [\<lparr>pn_note = note, pn_position = pos\<rparr>] \<and>
        (\<forall>j. j \<noteq> unat k \<longrightarrow> tracks t' ! j = tracks t ! j)) \<and>
     (is_ok (track j t) \<longleftrightarrow> 1 \<le> unat j \<and> unat j \<le> unat (numTracks t))"
proof -
  have "is_ok (track j t) \<longleftrightarrow> 1 \<le> unat j \<and> unat j \<le> unat (numTracks t)"
  proof (cases "j = 0")
    case False
    then have "unat (j - 1) = unat j - 1" "0 < unat j" by (simp_all add: unat_minus_one unat_gt_0)
    then show ?thesis
      using assms(1) False by (simp add: track_def tune_ok_def word_less_nat_alt) linarith
  qed (simp add: track_def)
  then show ?thesis
    using assms by (simp add: tune_ok_def Tune_def addMidiNote_def addNote_at_def)
qed

theorem tune_tracks_witness:
  "\<exists>t'. addMidiNote 1 (pn_note (example_note 1 60)) (mk_dur 1 0 1) (Tune 2) = Inr t' \<and> tune_ok t' \<and>
     \<not> is_ok (track 0 (Tune 2)) \<and> \<not> is_ok (track 3 (Tune 2))"
  using tune_tracks [of "Tune 2" 1 2 "pn_note (example_note 1 60)" "mk_dur 1 0 1" 0]
    tune_tracks [of "Tune 2" 1 2 "pn_note (example_note 1 60)" "mk_dur 1 0 1" 3]
  by (simp add: tune_ok_def Tune_def) blast

end
