(* ===== verification/Midi_Handlers.thy ===== *)
theory Midi_Handlers
  imports Script_Values Midi_Data
begin

text \<open>
  MIDI connections and the script's handlers for the events that arrive on them
  (\<open>src/midiconnection.h\<close>). Events are the ones the connection answers for the period, in order.
\<close>

section \<open>Connections and handlers\<close>

record 'f midi_connection =
  handlerDefined :: bool
  onControlHandler :: "'f script_function option"
  onNoteOnHandler :: "'f script_function option"
  onNoteOffHandler :: "'f script_function option"

definition MidiConnection :: "'f midi_connection" where
  "MidiConnection = \<lparr>handlerDefined = False, onControlHandler = None, onNoteOnHandler = None,
     onNoteOffHandler = None\<rparr>"

definition onControl :: "'f script_function \<Rightarrow> 'f midi_connection \<Rightarrow> 'f midi_connection res" where
  "onControl f c =
     bind_res (store_handler 3 ''onControl handler should take two arguments'' f (onControlHandler c))
       (\<lambda>h. Inr (c\<lparr>onControlHandler := h, handlerDefined := True\<rparr>))"

definition onNoteOn :: "'f script_function \<Rightarrow> 'f midi_connection \<Rightarrow> 'f midi_connection res" where
  "onNoteOn f c =
     bind_res (store_handler 3 ''onNoteOn handler should take two arguments'' f (onNoteOnHandler c))
       (\<lambda>h. Inr (c\<lparr>onNoteOnHandler := h, handlerDefined := True\<rparr>))"

definition onNoteOff :: "'f script_function \<Rightarrow> 'f midi_connection \<Rightarrow> 'f midi_connection res" where
  "onNoteOff f c =
     bind_res (store_handler 3 ''onNoteOff handler should take two arguments'' f (onNoteOffHandler c))
       (\<lambda>h. Inr (c\<lparr>onNoteOffHandler := h, handlerDefined := True\<rparr>))"

text \<open>The closures a connection dispatches: handler, message and position.\<close>

datatype 'f midi_closure =
    Control_closure "'f script_function" midi_message time_position
  | NoteOn_closure "'f script_function" midi_message time_position
  | NoteOff_closure "'f script_function" midi_message time_position

definition event_closure ::
  "'f midi_connection \<Rightarrow> jack_position \<Rightarrow> midi_event \<Rightarrow> 'f midi_closure option"
where
  "event_closure c pos e =
     (let b1 = int (unat (databyte1 e)); b2 = int (unat (databyte2 e));
          tp = TimePosition_at pos (frameOffset e)
      in if ev_type e = TYPE_CONTROL \<and> onControlHandler c \<noteq> None
         then Some (Control_closure (the (onControlHandler c)) (mk_Control b1 b2) tp)
         else if ev_type e = TYPE_NOTE_ON \<and> onNoteOnHandler c \<noteq> None
         then Some (NoteOn_closure (the (onNoteOnHandler c)) (mk_NoteOn b1 b2) tp)
         else if ev_type e = TYPE_NOTE_OFF \<and> onNoteOffHandler c \<noteq> None
         then Some (NoteOff_closure (the (onNoteOffHandler c)) (mk_NoteOff b1 b2) tp)
         else None)"

text \<open>Dispatching spins while the method queue is full: as one step it is then blocked.\<close>

fun fire_loop ::
  "('m, 'f midi_closure) queue_ops \<Rightarrow> 'f midi_connection \<Rightarrow> jack_position \<Rightarrow> midi_event list \<Rightarrow> 'm \<Rightarrow> 'm option"
where
  "fire_loop M c pos [] q = Some q"
| "fire_loop M c pos (e # es) q =
     (case event_closure c pos e of
        None \<Rightarrow> fire_loop M c pos es q
      | Some k \<Rightarrow> Option.bind (dispatch M k q) (fire_loop M c pos es))"

definition fireEvents ::
  "('m, 'f midi_closure) queue_ops \<Rightarrow> 'f midi_connection \<Rightarrow> jack_position \<Rightarrow> midi_event list \<Rightarrow> 'm \<Rightarrow> 'm option"
where
  "fireEvents M c pos es q = (if handlerDefined c then fire_loop M c pos es q else Some q)"

text \<open>A source hands a handler to each of its connections, and fires the events of each.\<close>

fun on_all ::
  "('f midi_connection \<Rightarrow> 'f midi_connection res) \<Rightarrow> 'f midi_connection list \<Rightarrow>
     unit res \<times> 'f midi_connection list"
where
  "on_all h [] = (Inr (), [])"
| "on_all h (c # cs) =
     (case h c of
        Inl f \<Rightarrow> (Inl f, c # cs)
      | Inr c' \<Rightarrow> (let (r, cs') = on_all h cs in (r, c' # cs')))"

definition source_onControl where "source_onControl f cs = on_all (onControl f) cs"
definition source_onNoteOn where "source_onNoteOn f cs = on_all (onNoteOn f) cs"
definition source_onNoteOff where "source_onNoteOff f cs = on_all (onNoteOff f) cs"

fun fireMidiEvents ::
  "('m, 'f midi_closure) queue_ops \<Rightarrow> jack_position \<Rightarrow> ('f midi_connection \<times> midi_event list) list \<Rightarrow>
     'm \<Rightarrow> 'm option"
where
  "fireMidiEvents M pos [] q = Some q"
| "fireMidiEvents M pos ((c, es) # cs) q =
     Option.bind (fireEvents M c pos es q) (fireMidiEvents M pos cs)"

section \<open>What is dispatched\<close>

definition handlers_ok :: "'f midi_connection \<Rightarrow> bool" where
  "handlers_ok c \<longleftrightarrow>
     (handlerDefined c \<longleftrightarrow> onControlHandler c \<noteq> None \<or> onNoteOnHandler c \<noteq> None \<or> onNoteOffHandler c \<noteq> None) \<and>
     (\<forall>f. f \<in> set_option (onControlHandler c) \<union> set_option (onNoteOnHandler c) \<union>
       set_option (onNoteOffHandler c) \<longrightarrow> numargs f = 3)"

lemma handlers_ok_kept:
  "handlers_ok (MidiConnection :: 'f midi_connection)"
  "handlers_ok c \<Longrightarrow> onControl f c = Inr c' \<Longrightarrow> handlers_ok c'"
  "handlers_ok c \<Longrightarrow> onNoteOn f c = Inr c' \<Longrightarrow> handlers_ok c'"
  "handlers_ok c \<Longrightarrow> onNoteOff f c = Inr c' \<Longrightarrow> handlers_ok c'"
  by (auto simp: handlers_ok_def MidiConnection_def onControl_def onNoteOn_def onNoteOff_def
      store_handler_def split: if_splits)

lemma no_handler_no_closure: "handlers_ok c \<Longrightarrow> \<not> handlerDefined c \<Longrightarrow> event_closure c pos e = None"
  by (auto simp: handlers_ok_def event_closure_def Let_def split: if_splits)

lemma fire_loop_appends:
  assumes "fifo M mc"
  shows "fire_loop M c pos es q = Some q' \<Longrightarrow>
     mc q' = mc q @ List.map_filter (event_closure c pos) es"
proof (induction es arbitrary: q)
  case Nil
  then show ?case by (simp add: map_filter_simps)
next
  case (Cons e es)
  show ?case
  proof (cases "event_closure c pos e")
    case None
    then show ?thesis using Cons by (simp add: map_filter_simps)
  next
    case (Some k)
    then obtain q1 where "dispatch M k q = Some q1" "fire_loop M c pos es q1 = Some q'"
      using Cons.prems by (auto split: bind_splits)
    then show ?thesis
      using Cons.IH Some fifo.push [OF assms] by (simp add: dispatch_def map_filter_simps)
  qed
qed

section \<open>Properties\<close>


definition cc_handler :: "string script_function" where
  "cc_handler = \<lparr>sq_function = ''onControl'', numargs = 3\<rparr>"


end
