(* ===== verification/Transport.thy ===== *)
theory Transport
  imports Script_Values
begin

text \<open>
  The transport: script functions scheduled at a position (\<open>src/transport.h\<close>,
  \<open>src/transport.cpp\<close>) and the master that tells JACK where in musical time the transport is
  (\<open>src/transportmaster.h\<close>, \<open>src/transportmaster.cpp\<close>), with its cache. The floating point
  arithmetic of \<open>setTime\<close> is rounded operation by operation, in the precision C++ gives it.
\<close>

section \<open>Scheduled functions\<close>

record 'f async_closure = event +
  ac_function :: "'f script_function"

text \<open>The closure made for a schedule; constructing its position may throw.\<close>

definition AsyncClosure ::
  "int \<Rightarrow> 'f script_function \<Rightarrow> u32 \<Rightarrow> u32 \<Rightarrow> u32 \<Rightarrow> 'f async_closure res"
where
  "AsyncClosure junk f b p d =
     bind_res (Event b p d junk) (\<lambda>e. Inr (event.extend e \<lparr>ac_function = f\<rparr>))"

definition transport_schedule ::
  "('q, 'f async_closure) queue_ops \<Rightarrow> int \<Rightarrow> 'f script_function \<Rightarrow> u32 \<Rightarrow> u32 \<Rightarrow> u32 \<Rightarrow>
     ('q, 'f async_closure) event_buffer \<Rightarrow> ('q, 'f async_closure) event_buffer res option"
where
  "transport_schedule Q junk f b p d buf =
     (case AsyncClosure junk f b p d of
        Inl e \<Rightarrow> Some (Inl e)
      | Inr k \<Rightarrow> map_option Inr (addEvent Q k buf))"

definition transport_schedule_beat where
  "transport_schedule_beat Q junk f b p buf = transport_schedule Q junk f b p 4 buf"

definition transport_schedule_bar where
  "transport_schedule_bar Q junk f b buf = transport_schedule_beat Q junk f b 0 buf"

text \<open>
  In the process thread every closure due is dispatched to the method queue; when that is full
  the process thread itself spins, which is the state None of the queue.
\<close>

definition transport_doProcess ::
  "('q, 'f async_closure) queue_ops \<Rightarrow> ('c, 'o) queue_ops \<Rightarrow> ('m, 'f async_closure) queue_ops \<Rightarrow>
     ('f async_closure \<Rightarrow> 'o) \<Rightarrow> bool \<Rightarrow> jack_position \<Rightarrow> u32 \<Rightarrow>
     ('q, 'f async_closure) event_buffer \<Rightarrow> ('c, 'o) collector \<Rightarrow> 'm \<Rightarrow>
     (('q, 'f async_closure) event_buffer \<times> ('c, 'o) collector \<times> 'm option) option"
where
  "transport_doProcess Q C M up rolling pos nframes b c m =
     event_loop Q C up rolling pos nframes (\<lambda>e (c, s). (c, Option.bind s (dispatch M e))) b (c, Some m)"

definition transport_reposition where
  "transport_reposition Q C up b c = recycleRemaining Q C up b c"

section \<open>The transport master\<close>

record master =
  lastTick :: rat
  beatsPerBar :: rat
  beatUnit :: rat
  ticksPerBeat :: rat
  bpm :: rat
  doForceBeat :: bool

text \<open>The constructor leaves \<open>lastTick\<close> uninitialised.\<close>

definition Master :: "rat \<Rightarrow> rat \<Rightarrow> rat \<Rightarrow> rat \<Rightarrow> master" where
  "Master junk b beats unt = \<lparr>lastTick = junk, beatsPerBar = beats, beatUnit = unt,
     ticksPerBeat = 1920, bpm = b, doForceBeat = False\<rparr>"

definition setBpm :: "rat \<Rightarrow> master \<Rightarrow> master" where
  "setBpm b m = m\<lparr>bpm := b\<rparr>"

definition forceBeat :: "rat \<Rightarrow> master \<Rightarrow> master" where
  "forceBeat b m = m\<lparr>bpm := b, doForceBeat := True\<rparr>"

definition master_setTimeSignature :: "u32 \<Rightarrow> u32 \<Rightarrow> master \<Rightarrow> master" where
  "master_setTimeSignature num denom m =
     m\<lparr>beatsPerBar := rnd_float (of_nat (unat num)), beatUnit := rnd_float (of_nat (unat denom))\<rparr>"

definition master_setTimeSignature_of :: "time_signature \<Rightarrow> master \<Rightarrow> master" where
  "master_setTimeSignature_of ts m = master_setTimeSignature (ts_numerator ts) (ts_denominator ts) m"

text \<open>\<open>std::lround\<close>: to the nearest integer, halves away from zero.\<close>

definition lround :: "rat \<Rightarrow> int" where
  "lround x = (if 0 \<le> x then \<lfloor>x + 1 / 2\<rfloor> else - \<lfloor>- x + 1 / 2\<rfloor>)"

text \<open>One beat forward, into the next bar when the bar is full.\<close>

definition next_beat :: "master \<Rightarrow> jack_position \<Rightarrow> jack_position" where
  "next_beat m pos =
     (let beat = j_beat pos + 1
      in if beatsPerBar m < rnd_float (of_int beat)
         then pos\<lparr>j_beat := 1, j_bar := j_bar pos + 1,
           j_bar_start_tick := rnd_double (j_bar_start_tick pos + rnd_double (beatsPerBar m * ticksPerBeat m))\<rparr>
         else pos\<lparr>j_beat := beat\<rparr>)"

partial_function (option) carry_ticks :: "master \<Rightarrow> jack_position \<Rightarrow> (master \<times> jack_position) option" where
  "carry_ticks m pos =
     (if ticksPerBeat m \<le> of_int (j_tick pos)
      then carry_ticks (m\<lparr>lastTick := rnd_double (lastTick m - ticksPerBeat m)\<rparr>)
             (next_beat m (pos\<lparr>j_tick := trunc (rnd_double (of_int (j_tick pos) - ticksPerBeat m))\<rparr>))
      else Some (m, pos))"

definition locate :: "master \<Rightarrow> jack_position \<Rightarrow> master \<times> jack_position" where
  "locate m pos =
     (let rate = rnd_double (of_nat (unat (j_frame_rate pos)) * 60);
          tick = trunc (rnd_double (rnd_double (rnd_double (ticksPerBeat m * bpm m)
                   * of_nat (unat (j_frame pos))) / rate));
          beat = trunc (rnd_double (rnd_double (of_int tick) / ticksPerBeat m));
          bar = trunc (rnd_float (rnd_float (of_int beat) / beatsPerBar m));
          pos1 = pos\<lparr>j_bar := bar,
            j_beat := trunc (rnd_float (rnd_float (rnd_float (of_int beat)
                        - rnd_float (rnd_float (of_int bar) * beatsPerBar m)) + 1)),
            j_tick := trunc (rnd_double (rnd_double (of_int tick)
                        - rnd_double (rnd_double (of_int beat) * ticksPerBeat m))),
            j_bar_start_tick := rnd_double (rnd_float (rnd_float (of_int bar) * beatsPerBar m) * ticksPerBeat m)\<rparr>
      in (m\<lparr>lastTick := of_int (j_tick pos1)\<rparr>, pos1\<lparr>j_bar := j_bar pos1 + 1\<rparr>))"

definition advance :: "u32 \<Rightarrow> master \<Rightarrow> jack_position \<Rightarrow> (master \<times> jack_position) option" where
  "advance nframes m pos =
     (let rate = rnd_double (of_nat (unat (j_frame_rate pos)) * 60);
          inc = rnd_double (rnd_double (rnd_double (ticksPerBeat m * bpm m) * of_nat (unat nframes)) / rate);
          last = rnd_double (lastTick m + inc)
      in carry_ticks (m\<lparr>lastTick := last\<rparr>) (pos\<lparr>j_tick := lround last\<rparr>))"

definition force :: "master \<Rightarrow> jack_position \<Rightarrow> master \<times> jack_position" where
  "force m pos =
     (if doForceBeat m
      then (if rnd_double (ticksPerBeat m / 2) < of_int (j_tick pos)
            then (m\<lparr>lastTick := 0, doForceBeat := False\<rparr>, (next_beat m pos)\<lparr>j_tick := 0\<rparr>)
            else (m\<lparr>doForceBeat := False\<rparr>, pos))
      else (m, pos))"

definition setTime :: "u32 \<Rightarrow> bool \<Rightarrow> master \<Rightarrow> jack_position \<Rightarrow> (master \<times> jack_position) option" where
  "setTime nframes new_pos m pos =
     (let pos0 = pos\<lparr>j_valid := 0x10, j_beats_per_bar := beatsPerBar m, j_beat_type := beatUnit m,
            j_ticks_per_beat := ticksPerBeat m, j_beats_per_minute := bpm m\<rparr>
      in map_option (\<lambda>(m, pos). force m pos)
           (if new_pos then Some (locate m pos0) else advance nframes m pos0))"

section \<open>The master's cache\<close>

text \<open>
  The engine's part: it makes a master unless it has one, and throws when JACK refuses the
  callback; the master it then keeps is not registered with JACK.
\<close>

definition engine_getTransportMaster ::
  "int \<Rightarrow> rat \<Rightarrow> rat \<Rightarrow> rat \<Rightarrow> rat \<Rightarrow> (master option, master) act"
where
  "engine_getTransportMaster jack_error junk b beats unt s =
     (case s of
        Some m \<Rightarrow> (Inr m, Some m)
      | None \<Rightarrow>
          (let m = Master junk b beats unt
           in if jack_error \<noteq> 0 then (Inl (Logic_error ''Cannot create transport master''), Some m)
              else (Inr m, Some m)))"

record master_cache =
  mc_active :: bool
  cachedMaster :: "master option"
  engineMaster :: "master option"

text \<open>
  The cached master and the engine's are the same object whenever there is a cached one, so a
  change of one is a change of both.
\<close>

definition getTransportMaster ::
  "int \<Rightarrow> rat \<Rightarrow> rat \<Rightarrow> rat \<Rightarrow> rat \<Rightarrow> (master_cache, master) act"
where
  "getTransportMaster jack_error junk b beats unt s =
     (case cachedMaster s of
        Some m \<Rightarrow>
          (let m' = setBpm b m
           in (Inr m', s\<lparr>cachedMaster := Some m', engineMaster := Some m', mc_active := True\<rparr>))
      | None \<Rightarrow>
          (case engine_getTransportMaster jack_error junk b beats unt (engineMaster s) of
             (Inl f, e) \<Rightarrow> (Inl f, s\<lparr>engineMaster := e\<rparr>)
           | (Inr m, e) \<Rightarrow> (Inr m, s\<lparr>engineMaster := e, cachedMaster := Some m, mc_active := True\<rparr>)))"

text \<open>Deleting the master releases JACK's timebase and the engine's pointer.\<close>

definition master_scriptComplete :: "master_cache \<Rightarrow> bool \<times> master_cache" where
  "master_scriptComplete s =
     (let s1 = (if cachedMaster s \<noteq> None \<and> \<not> mc_active s
                then s\<lparr>cachedMaster := None, engineMaster := None\<rparr> else s)
      in (False, s1\<lparr>mc_active := False\<rparr>))"

section \<open>Where the transport is\<close>

text \<open>
  A position in a metre of \<open>B\<close> beats per bar: beat and tick in range, the bar counted from one,
  and the fractional tick the master keeps rounds to the tick JACK was told.
\<close>

definition on_grid :: "int \<Rightarrow> master \<Rightarrow> jack_position \<Rightarrow> bool" where
  "on_grid B m pos \<longleftrightarrow>
     ticksPerBeat m = 1920 \<and> beatsPerBar m = of_int B \<and> 0 < B \<and> B < 2 ^ 20 \<and>
     1 \<le> j_beat pos \<and> j_beat pos \<le> B \<and> 1 \<le> j_bar pos \<and>
     \<bar>lastTick m - of_int (j_tick pos)\<bar> \<le> 1 / 2"

definition in_beat :: "jack_position \<Rightarrow> bool" where
  "in_beat pos \<longleftrightarrow> 0 \<le> j_tick pos \<and> j_tick pos < 1920"

definition elapsed :: "int \<Rightarrow> jack_position \<Rightarrow> int" where
  "elapsed B pos = ((j_bar pos - 1) * B + (j_beat pos - 1)) * 1920 + j_tick pos"

lemma rnd_near_int:
  assumes "\<bar>x - of_int k\<bar> \<le> 1 / 2" "\<bar>k\<bar> < 2 ^ 50"
  shows "\<bar>rnd_double x - of_int k\<bar> \<le> 1 / 2"
proof -
  have half: "rnd_double (of_int n / 2) = of_int n / 2" if "\<bar>n\<bar> < 2 ^ 53" for n
    using rnd_dyadic [OF that, of 1] by simp
  have "\<bar>2 * k - 1\<bar> < 2 ^ 53" "\<bar>2 * k + 1\<bar> < 2 ^ 53" using assms(2) by simp_all
  then have e: "rnd_double (of_int (2 * k - 1) / 2) = of_int (2 * k - 1) / 2"
    "rnd_double (of_int (2 * k + 1) / 2) = of_int (2 * k + 1) / 2"
    using half by blast+
  have "x - of_int k \<le> 1 / 2" "- (x - of_int k) \<le> 1 / 2" using assms(1) unfolding abs_le_iff by blast+
  then have "of_int (2 * k - 1) / 2 \<le> x" "x \<le> of_int (2 * k + 1) / 2" by (simp_all add: field_simps)
  then have "of_int (2 * k - 1) / 2 \<le> rnd_double x" "rnd_double x \<le> of_int (2 * k + 1) / 2"
    using rnd_mono [of "of_int (2 * k - 1) / 2" x 53] rnd_mono [of x "of_int (2 * k + 1) / 2" 53] e
    by simp_all
  then have "rnd_double x - of_int k \<le> 1 / 2" "- (rnd_double x - of_int k) \<le> 1 / 2"
    by (simp_all add: field_simps)
  then show ?thesis unfolding abs_le_iff by blast
qed

lemma lround_close: "\<bar>x - of_int (lround x)\<bar> \<le> 1 / 2"
proof (cases "0 \<le> x")
  case True
  have "of_int \<lfloor>x + 1 / 2\<rfloor> \<le> x + 1 / 2" "x + 1 / 2 < of_int \<lfloor>x + 1 / 2\<rfloor> + 1"
    using floor_correct [of "x + 1 / 2"] unfolding of_int_add of_int_1 by blast+
  then have "x - of_int \<lfloor>x + 1 / 2\<rfloor> \<le> 1 / 2 \<and> - (x - of_int \<lfloor>x + 1 / 2\<rfloor>) \<le> 1 / 2" by linarith
  then show ?thesis unfolding abs_le_iff lround_def if_P [OF True] .
next
  case False
  have "of_int \<lfloor>- x + 1 / 2\<rfloor> \<le> - x + 1 / 2" "- x + 1 / 2 < of_int \<lfloor>- x + 1 / 2\<rfloor> + 1"
    using floor_correct [of "- x + 1 / 2"] unfolding of_int_add of_int_1 by blast+
  then have "x + of_int \<lfloor>- x + 1 / 2\<rfloor> \<le> 1 / 2 \<and> - (x + of_int \<lfloor>- x + 1 / 2\<rfloor>) \<le> 1 / 2" by linarith
  then show ?thesis unfolding abs_le_iff lround_def if_not_P [OF False] by simp
qed

lemma lround_pos: "0 \<le> x \<Longrightarrow> 0 \<le> lround x"
  by (simp add: lround_def)

lemma lround_less: "x < of_int n \<Longrightarrow> lround x \<le> n"
  unfolding lround_def by (auto simp: floor_le_iff) linarith+

lemma next_beat_elapsed:
  assumes "beatsPerBar m = of_int B" "0 < B" "B < 2 ^ 20" "1 \<le> j_beat pos" "j_beat pos \<le> B"
  shows "1 \<le> j_beat (next_beat m pos)" "j_beat (next_beat m pos) \<le> B"
    "j_bar pos \<le> j_bar (next_beat m pos)" "j_tick (next_beat m pos) = j_tick pos"
    "elapsed B (next_beat m pos) = elapsed B pos + 1920"
proof -
  have "rnd_float (of_int (j_beat pos + 1)) = of_int (j_beat pos + 1)"
    using assms by (intro rnd_of_int) simp
  then have "next_beat m pos =
     (if B < j_beat pos + 1
      then pos\<lparr>j_beat := 1, j_bar := j_bar pos + 1,
        j_bar_start_tick := rnd_double (j_bar_start_tick pos + rnd_double (beatsPerBar m * ticksPerBeat m))\<rparr>
      else pos\<lparr>j_beat := j_beat pos + 1\<rparr>)"
    unfolding next_beat_def Let_def assms(1) by (simp only: of_int_less_iff)
  then show "1 \<le> j_beat (next_beat m pos)" "j_beat (next_beat m pos) \<le> B"
    "j_bar pos \<le> j_bar (next_beat m pos)" "j_tick (next_beat m pos) = j_tick pos"
    "elapsed B (next_beat m pos) = elapsed B pos + 1920"
    using assms by (auto simp: elapsed_def algebra_simps)
qed

lemma carry_ticks_result:
  assumes "on_grid B m pos" "0 \<le> j_tick pos" "j_tick pos < 2 ^ 31"
  shows "\<exists>m' pos'. carry_ticks m pos = Some (m', pos') \<and> on_grid B m' pos' \<and> in_beat pos' \<and>
     elapsed B pos' = elapsed B pos \<and> doForceBeat m' = doForceBeat m"
  using assms
proof (induction "nat (j_tick pos)" arbitrary: m pos rule: less_induct)
  case less
  show ?case
  proof (cases "1920 \<le> j_tick pos")
    case False
    then have "carry_ticks m pos = Some (m, pos)"
      using less.prems by (subst carry_ticks.simps) (simp add: on_grid_def)
    then show ?thesis using False less.prems by (simp add: in_beat_def)
  next
    case True
    define m1 where "m1 = m\<lparr>lastTick := rnd_double (lastTick m - ticksPerBeat m)\<rparr>"
    define p1 where "p1 = pos\<lparr>j_tick := trunc (rnd_double (of_int (j_tick pos) - ticksPerBeat m))\<rparr>"
    define p2 where "p2 = next_beat m p1"
    have g: "ticksPerBeat m = 1920" "beatsPerBar m = of_int B" "0 < B" "B < 2 ^ 20"
      "1 \<le> j_beat pos" "j_beat pos \<le> B" "1 \<le> j_bar pos" "\<bar>lastTick m - of_int (j_tick pos)\<bar> \<le> 1 / 2"
      using less.prems(1) by (simp_all add: on_grid_def)
    have "rnd_double (of_int (j_tick pos) - 1920) = of_int (j_tick pos - 1920)"
      using rnd_of_int [of "j_tick pos - 1920" 53] True less.prems(3) by simp
    then have t: "j_tick p1 = j_tick pos - 1920" by (simp add: p1_def g del: of_int_diff)
    have p1: "j_beat p1 = j_beat pos" "j_bar p1 = j_bar pos" by (simp_all add: p1_def)
    have "(lastTick m - 1920) - of_int (j_tick pos - 1920) = lastTick m - of_int (j_tick pos)" by simp
    then have "\<bar>(lastTick m - 1920) - of_int (j_tick pos - 1920)\<bar> \<le> 1 / 2" using g(8) by (simp only:)
    moreover have "\<bar>j_tick pos - 1920\<bar> < 2 ^ 50" using True less.prems(3) by simp
    ultimately have "\<bar>rnd_double (lastTick m - 1920) - of_int (j_tick pos - 1920)\<bar> \<le> 1 / 2"
      by (rule rnd_near_int)
    moreover have "lastTick m1 = rnd_double (lastTick m - 1920)" by (simp add: m1_def g(1))
    ultimately have l: "\<bar>lastTick m1 - of_int (j_tick pos - 1920)\<bar> \<le> 1 / 2" by (simp only:)
    have n: "1 \<le> j_beat p2" "j_beat p2 \<le> B" "j_bar pos \<le> j_bar p2" "j_tick p2 = j_tick pos - 1920"
      "elapsed B p2 = elapsed B p1 + 1920"
      using next_beat_elapsed [of m B p1] g p1 t by (simp_all add: p2_def)
    have step: "carry_ticks m pos = carry_ticks m1 p2"
      using True g(1) by (subst carry_ticks.simps) (simp add: m1_def p1_def p2_def)
    have "on_grid B m1 p2" using g n l by (simp add: on_grid_def m1_def)
    moreover have "nat (j_tick p2) < nat (j_tick pos)" "0 \<le> j_tick p2" "j_tick p2 < 2 ^ 31"
      using n(4) True less.prems(3) by simp_all
    ultimately obtain m' pos' where "carry_ticks m1 p2 = Some (m', pos')" "on_grid B m' pos'"
      "in_beat pos'" "elapsed B pos' = elapsed B p2" "doForceBeat m' = doForceBeat m1"
      using less.hyps [of p2 m1] by blast
    moreover have "elapsed B p2 = elapsed B pos" using n(5) t p1 by (simp add: elapsed_def)
    ultimately show ?thesis using step by (auto simp: m1_def)
  qed
qed

text \<open>A forced beat moves on to the next beat from the second half of one.\<close>

lemma force_on_grid:
  assumes "on_grid B m pos" "in_beat pos" "force m pos = (m', pos')"
  shows "on_grid B m' pos' \<and> in_beat pos' \<and> \<not> doForceBeat m' \<and> elapsed B pos \<le> elapsed B pos' \<and>
     (doForceBeat m \<longrightarrow> j_tick pos' \<le> 960) \<and> (\<not> doForceBeat m \<longrightarrow> pos' = pos)"
proof -
  have g: "ticksPerBeat m = 1920" "beatsPerBar m = of_int B" "0 < B" "B < 2 ^ 20"
      "1 \<le> j_beat pos" "j_beat pos \<le> B" "1 \<le> j_bar pos"
    using assms(1) by (simp_all add: on_grid_def)
  have "rnd_double (1920 / 2) = 960" using rnd_of_int [of 960 53] by simp
  then have h: "rnd_double (ticksPerBeat m / 2) < of_int (j_tick pos) \<longleftrightarrow> 960 < j_tick pos"
    by (simp add: g)
  have e: "elapsed B ((next_beat m pos)\<lparr>j_tick := 0\<rparr>) = elapsed B pos + 1920 - j_tick pos"
    using next_beat_elapsed(4,5) [OF g(2-6)] by (simp add: elapsed_def)
  show ?thesis
    using assms next_beat_elapsed [OF g(2-6)] g h e
    by (auto simp: force_def on_grid_def in_beat_def split: if_splits)
qed

text \<open>How far the ticks move in a period, and where a frame lies in ticks.\<close>

definition tick_increment :: "u32 \<Rightarrow> master \<Rightarrow> jack_position \<Rightarrow> rat" where
  "tick_increment nframes m pos =
     rnd_double (rnd_double (rnd_double (ticksPerBeat m * bpm m) * of_nat (unat nframes))
       / rnd_double (of_nat (unat (j_frame_rate pos)) * 60))"

definition frame_tick :: "master \<Rightarrow> jack_position \<Rightarrow> int" where
  "frame_tick m pos =
     trunc (rnd_double (rnd_double (rnd_double (ticksPerBeat m * bpm m) * of_nat (unat (j_frame pos)))
       / rnd_double (of_nat (unat (j_frame_rate pos)) * 60)))"

lemma advance_result:
  assumes g: "on_grid B m pos" and "in_beat pos"
    and inc: "1 \<le> tick_increment nframes m pos" "tick_increment nframes m pos \<le> 2 ^ 30"
  shows "\<exists>m' pos'. advance nframes m pos = Some (m', pos') \<and> on_grid B m' pos' \<and> in_beat pos' \<and>
     elapsed B pos' = elapsed B pos - j_tick pos + lround (rnd_double (lastTick m + tick_increment nframes m pos)) \<and>
     doForceBeat m' = doForceBeat m"
proof -
  define x where "x = rnd_double (lastTick m + tick_increment nframes m pos)"
  have "\<bar>lastTick m - of_int (j_tick pos)\<bar> \<le> 1 / 2" using g by (simp only: on_grid_def)
  then have "lastTick m - of_int (j_tick pos) \<le> 1 / 2" "- (lastTick m - of_int (j_tick pos)) \<le> 1 / 2"
    unfolding abs_le_iff by blast+
  moreover have "0 \<le> (of_int (j_tick pos) :: rat)" "(of_int (j_tick pos) :: rat) \<le> 1920"
    using assms(2) by (simp_all add: in_beat_def)
  ultimately have s: "0 \<le> lastTick m + tick_increment nframes m pos"
    "lastTick m + tick_increment nframes m pos \<le> of_int (2 ^ 30 + 1921)"
    using inc by simp_all
  have x0: "0 \<le> x" unfolding x_def using s(1) by (rule rnd_nonneg)
  have "x \<le> rnd_double (of_int (2 ^ 30 + 1921))" unfolding x_def using s(2) by (rule rnd_mono) simp
  also have "\<dots> = of_int (2 ^ 30 + 1921)" by (rule rnd_of_int) simp
  finally have "x < of_int (2 ^ 30 + 1922)" by simp
  then have l: "0 \<le> lround x" "lround x < 2 ^ 31"
    using lround_pos [OF x0] lround_less [of x "2 ^ 30 + 1922"] by simp_all
  have "on_grid B (m\<lparr>lastTick := x\<rparr>) (pos\<lparr>j_tick := lround x\<rparr>)"
    using g lround_close [of x] by (simp add: on_grid_def)
  from carry_ticks_result [OF this] l obtain m' pos' where
    "carry_ticks (m\<lparr>lastTick := x\<rparr>) (pos\<lparr>j_tick := lround x\<rparr>) = Some (m', pos')"
    "on_grid B m' pos'" "in_beat pos'" "elapsed B pos' = elapsed B (pos\<lparr>j_tick := lround x\<rparr>)"
    "doForceBeat m' = doForceBeat m"
    by auto
  moreover have "elapsed B (pos\<lparr>j_tick := lround x\<rparr>) = elapsed B pos - j_tick pos + lround x"
    by (simp add: elapsed_def)
  ultimately show ?thesis
    unfolding advance_def tick_increment_def [symmetric] Let_def x_def by auto
qed

lemma trunc_quotient:
  assumes "0 \<le> a" "a < 2 ^ p" "0 < b"
  shows "trunc (rnd p (of_int a / of_int b)) = a div b"
proof -
  have "rnd p (of_nat (nat a) / of_nat (nat b)) \<ge> 0" by (intro rnd_nonneg) simp
  then have "trunc (rnd p (of_nat (nat a) / of_nat (nat b))) = int (nat a div nat b)"
    using floor_rnd_div [of "nat b" "nat a" p] assms by (simp add: trunc_floor nat_less_iff)
  then show ?thesis using assms by (simp add: of_nat_nat nat_div_distrib [symmetric] pos_imp_zdiv_nonneg_iff)
qed

lemma locate_result:
  assumes "ticksPerBeat m = 1920" "beatsPerBar m = of_int B" "0 < B" "B < 2 ^ 20"
    and t: "0 \<le> frame_tick m pos" "frame_tick m pos < 2 ^ 31"
  shows "\<exists>m' pos'. locate m pos = (m', pos') \<and> on_grid B m' pos' \<and> in_beat pos' \<and>
     elapsed B pos' = frame_tick m pos \<and> doForceBeat m' = doForceBeat m"
proof -
  define T where "T = frame_tick m pos"
  define b where "b = T div 1920"
  define r where "r = b div B"
  have T: "0 \<le> T" "T < 2 ^ 31" using t by (simp_all add: T_def)
  have b: "0 \<le> b" "b < 2 ^ 22" "b * 1920 \<le> T" "T < b * 1920 + 1920"
    using T by (simp_all add: b_def pos_imp_zdiv_nonneg_iff)
  have "r * B + b mod B = b" unfolding r_def by (rule div_mult_mod_eq)
  moreover have "0 \<le> b mod B" "b mod B < B" using assms(3) by simp_all
  ultimately have r: "r * B \<le> b" "b < r * B + B" by linarith+
  have r0: "0 \<le> r" using b(1) assms(3) by (simp add: r_def pos_imp_zdiv_nonneg_iff)
  have "r * 1 \<le> r * B" using r0 assms(3) by (intro mult_left_mono) simp_all
  then have "r \<le> b" using r(1) by simp
  then have r22: "r < 2 ^ 22" using b(2) by simp
  have f24: "rnd_float (of_int k) = of_int k" if "0 \<le> k" "k < 2 ^ 23" for k
    using that by (intro rnd_of_int) simp
  have f53: "rnd_double (of_int k) = of_int k" if "0 \<le> k" "k < 2 ^ 40" for k
    using that by (intro rnd_of_int) simp
  have 1: "trunc (rnd_double (rnd_double (of_int T) / 1920)) = b"
    using trunc_quotient [of T 53 1920] T f53 [of T] by (simp add: b_def)
  have 2: "trunc (rnd_float (rnd_float (of_int b) / of_int B)) = r"
    using trunc_quotient [of b 24 B] b assms(3) f24 [of b] by (simp add: r_def)
  have rb: "rnd_float (rnd_float (of_int r) * of_int B) = of_int (r * B)"
    using f24 [of r] f24 [of "r * B"] r(1) r0 b(2) r22 assms(3) by simp
  have "0 \<le> r * B" using r0 assms(3) by simp
  then have d: "0 \<le> b - r * B" "b - r * B < 2 ^ 22" using r b by simp_all
  have "rnd_float (rnd_float (of_int b) - of_int (r * B)) = of_int (b - r * B)"
    using f24 [of b] f24 [of "b - r * B"] d b by simp
  moreover have "rnd_float (of_int (b - r * B) + 1) = of_int (b - r * B + 1)"
    using f24 [of "b - r * B + 1"] d by simp
  ultimately have 3: "trunc (rnd_float (rnd_float (rnd_float (of_int b) - of_int (r * B)) + 1)) = b - r * B + 1"
    by (metis trunc_of_int)
  have "rnd_double (rnd_double (of_int b) * 1920) = of_int (b * 1920)"
    using f53 [of b] f53 [of "b * 1920"] b T by simp
  moreover have "rnd_double (of_int T - of_int (b * 1920)) = of_int (T - b * 1920)"
    using f53 [of "T - b * 1920"] b by simp
  ultimately have 4: "trunc (rnd_double (rnd_double (of_int T)
      - rnd_double (rnd_double (of_int b) * 1920))) = T - b * 1920"
  proof -
    assume e: "rnd_double (rnd_double (of_int b) * 1920) = of_int (b * 1920)"
      "rnd_double (of_int T - of_int (b * 1920)) = of_int (T - b * 1920)"
    have "rnd_double (of_int T) = of_int T" using f53 [of T] T by simp
    then show ?thesis by (simp only: e trunc_of_int)
  qed
  obtain m' pos' where l: "locate m pos = (m', pos')" by fastforce
  have tick: "trunc (rnd_double (rnd_double (rnd_double (1920 * bpm m)
                   * of_nat (unat (j_frame pos))) / rnd_double (of_nat (unat (j_frame_rate pos)) * 60))) = T"
    by (simp add: T_def frame_tick_def assms(1))
  have f: "j_bar pos' = r + 1" "j_beat pos' = b - r * B + 1" "j_tick pos' = T - b * 1920"
    "m' = m\<lparr>lastTick := of_int (T - b * 1920)\<rparr>"
    using l unfolding locate_def Let_def tick assms(1,2) 1 2 rb 3 4 by auto
  have "(r * B + (b - r * B)) * 1920 + (T - b * 1920) = T" by simp
  then show ?thesis
    using l f assms(1-4) r r0 b by (auto simp: on_grid_def in_beat_def elapsed_def T_def [symmetric])
qed

section \<open>Properties\<close>

text \<open>What every call of \<open>setTime\<close> writes first, which no quantity above depends on.\<close>

definition stamp :: "master \<Rightarrow> jack_position \<Rightarrow> jack_position" where
  "stamp m pos = pos\<lparr>j_valid := 0x10, j_beats_per_bar := beatsPerBar m, j_beat_type := beatUnit m,
     j_ticks_per_beat := ticksPerBeat m, j_beats_per_minute := bpm m\<rparr>"

lemma stamp_keeps [simp]:
  "on_grid B m' (stamp m pos) = on_grid B m' pos" "in_beat (stamp m pos) = in_beat pos"
  "elapsed B (stamp m pos) = elapsed B pos" "j_tick (stamp m pos) = j_tick pos"
  "tick_increment n m' (stamp m pos) = tick_increment n m' pos"
  "frame_tick m' (stamp m pos) = frame_tick m' pos"
  by (simp_all add: stamp_def on_grid_def in_beat_def elapsed_def tick_increment_def frame_tick_def)

lemma setTime_stamp:
  "setTime nframes new_pos m pos =
     map_option (\<lambda>(m, pos). force m pos)
       (if new_pos then Some (locate m (stamp m pos)) else advance nframes m (stamp m pos))"
  by (simp add: setTime_def stamp_def)

text \<open>C25: in a period the master moves the transport by the period's length in ticks, rounded and
  without drifting away from the fraction it keeps, carries ticks into beats and beats into bars,
  and returns; a forced beat only moves it further, and is done with afterwards.\<close>

theorem set_time_advances:
  assumes "on_grid B m pos" "in_beat pos"
    "1 \<le> tick_increment nframes m pos" "tick_increment nframes m pos \<le> 2 ^ 30"
  shows "\<exists>m' pos'. setTime nframes False m pos = Some (m', pos') \<and> on_grid B m' pos' \<and> in_beat pos' \<and>
     \<not> doForceBeat m' \<and>
     (let now = elapsed B pos - j_tick pos + lround (rnd_double (lastTick m + tick_increment nframes m pos))
      in now \<le> elapsed B pos' \<and> (doForceBeat m \<or> elapsed B pos' = now))"
proof -
  obtain m1 p1 where 1: "advance nframes m (stamp m pos) = Some (m1, p1)" "on_grid B m1 p1" "in_beat p1"
    "elapsed B p1 = elapsed B pos - j_tick pos + lround (rnd_double (lastTick m + tick_increment nframes m pos))"
    "doForceBeat m1 = doForceBeat m"
    using advance_result [of B m "stamp m pos" nframes] assms by auto
  obtain m2 p2 where 2: "force m1 p1 = (m2, p2)" by fastforce
  from force_on_grid [OF 1(2,3) 2] show ?thesis
    using 1 2 by (auto simp: setTime_stamp Let_def)
qed

text \<open>when JACK asks for the time of a new position the master answers with the bar, beat and
  tick of the frame, in range, for every frame less than \<open>2 ^ 31\<close> ticks from the start.\<close>

theorem set_time_locates:
  assumes "ticksPerBeat m = 1920" "beatsPerBar m = of_int B" "0 < B" "B < 2 ^ 20" "\<not> doForceBeat m"
    "0 \<le> frame_tick m pos" "frame_tick m pos < 2 ^ 31"
  shows "\<exists>m' pos'. setTime nframes True m pos = Some (m', pos') \<and> on_grid B m' pos' \<and> in_beat pos' \<and>
     elapsed B pos' = frame_tick m pos"
proof -
  obtain m1 p1 where 1: "locate m (stamp m pos) = (m1, p1)" "on_grid B m1 p1" "in_beat p1"
    "elapsed B p1 = frame_tick m pos" "doForceBeat m1 = doForceBeat m"
    using locate_result [of m B "stamp m pos"] assms by auto
  obtain m2 p2 where 2: "force m1 p1 = (m2, p2)" by fastforce
  from force_on_grid [OF 1(2,3) 2] show ?thesis
    using 1 2 assms(5) by (auto simp: setTime_stamp)
qed

text \<open>when JACK refuses the timebase callback the factory throws, but the engine keeps the
  master: the next call hands it out without asking JACK again, whatever JACK would say.\<close>

theorem refused_master_kept:
  assumes "refused \<noteq> 0"
  shows "\<exists>s. getTransportMaster refused junk b beats unt \<lparr>mc_active = False, cachedMaster = None, engineMaster = None\<rparr>
       = (Inl (Logic_error ''Cannot create transport master''), s) \<and>
     (\<forall>answer junk' b' beats' unt'.
        fst (getTransportMaster answer junk' b' beats' unt' s) = Inr (Master junk b beats unt))"
  using assms by (simp add: getTransportMaster_def engine_getTransportMaster_def Let_def)

definition example_position :: jack_position where
  "example_position = \<lparr>j_valid = 0, j_usecs = 0, j_frame = 24000, j_frame_rate = 48000, j_bar = 1,
     j_beat = 4, j_tick = 1900, j_bar_start_tick = 0, j_beats_per_bar = 4, j_beat_type = 4,
     j_ticks_per_beat = 1920, j_beats_per_minute = 120\<rparr>"

definition example_master :: master where
  "example_master = (Master 0 120 4 4)\<lparr>lastTick := 1900\<rparr>"

lemma example_rounds:
  "rnd_double 230400 = 230400" "rnd_double 230400000 = 230400000" "rnd_double 5529600000 = 5529600000"
  "rnd_double 2880000 = 2880000" "rnd_double 80 = 80" "rnd_double 1980 = 1980" "rnd_double 1920 = 1920"
  using rnd_of_int [of 230400 53] rnd_of_int [of 230400000 53] rnd_of_int [of 5529600000 53]
    rnd_of_int [of 2880000 53] rnd_of_int [of 80 53] rnd_of_int [of 1980 53] rnd_of_int [of 1920 53]
  by simp_all

lemma lround_1980: "lround 1980 = 1980"
  by (simp add: lround_def floor_eq_iff)

lemma example_ticks:
  "on_grid 4 example_master example_position" "in_beat example_position"
  "tick_increment 1000 example_master example_position = 80"
  "frame_tick example_master example_position = 1920"
  by (simp_all add: on_grid_def in_beat_def tick_increment_def frame_tick_def example_master_def
      example_position_def Master_def example_rounds)

theorem set_time_advances_witness:
  "\<exists>m' pos'. setTime 1000 False example_master example_position = Some (m', pos') \<and>
     elapsed 4 pos' = 4 * 1920 + 60 \<and> in_beat pos'"
  using set_time_advances [of 4 example_master example_position 1000] example_ticks
  by (auto simp: Let_def elapsed_def example_master_def example_position_def Master_def example_rounds
      lround_1980)

theorem set_time_locates_witness:
  "\<exists>m' pos'. setTime 0 True example_master example_position = Some (m', pos') \<and>
     elapsed 4 pos' = 1920 \<and> in_beat pos'"
  using set_time_locates [of example_master 4 example_position 0] example_ticks
  by (auto simp: example_master_def Master_def)

theorem refused_master_kept_witness:
  "\<exists>s. fst (getTransportMaster 0 0 90 3 4 s) = Inr (Master 0 120 4 4)"
  using refused_master_kept [of 1 0 120 4 4] by (metis zero_neq_one)

end
