(* ===== verification/Midi_Sink.thy ===== *)
theory Midi_Sink
  imports Midi_Data
begin

text \<open>
  What a script schedules on a MIDI sink (\<open>src/midisink.h\<close>, \<open>src/midisink.cpp\<close>). The sink hands
  every event to the virtual \<open>addMidiEvent\<close> of the port or plugin it is; the state of the
  actions below is the sequence of events handed over so far, which stands also when a later
  step of the same call throws.
\<close>

section \<open>Operations\<close>

record sink =
  defaultChannel :: u8

definition Sink :: sink where "Sink = \<lparr>defaultChannel = 1\<rparr>"

definition midiChannel :: "sink \<Rightarrow> u8" where "midiChannel s = defaultChannel s"

definition set_midiChannel :: "u8 \<Rightarrow> sink \<Rightarrow> u8 \<times> sink" where
  "set_midiChannel c s = (c, s\<lparr>defaultChannel := c\<rparr>)"

type_synonym 'a scheduling = "(midi_event list, 'a) act"

definition addMidiEvent :: "midi_event \<Rightarrow> unit scheduling" where
  "addMidiEvent e = modify (\<lambda>es. es @ [e])"

definition scheduleNote :: "int \<Rightarrow> midi_note \<Rightarrow> position \<Rightarrow> u8 \<Rightarrow> unit scheduling" where
  "scheduleNote junk note pos channel =
     then_do (addMidiEvent
         (Midi_Event junk pos (sint (pitch note)) (uint (vel note)) 0x90 (channel - 1))) (\<lambda>_.
     then_do (lift_res (pos_plus pos (note_duration note))) (\<lambda>endPosition.
     addMidiEvent (Midi_Event junk endPosition (sint (pitch note)) 0 0x80 (channel - 1))))"

definition schedule_note_at :: "int \<Rightarrow> midi_note \<Rightarrow> position \<Rightarrow> u8 \<Rightarrow> unit scheduling" where
  "schedule_note_at junk note pos channel =
     (if channel < 1 \<or> 16 < channel
      then throw (Logic_error ''MIDI channel must be between 1 and 16'')
      else scheduleNote junk note pos channel)"

definition schedule_note ::
  "int \<Rightarrow> midi_note \<Rightarrow> u32 \<Rightarrow> u32 \<Rightarrow> u32 \<Rightarrow> u8 \<Rightarrow> unit scheduling"
where
  "schedule_note junk note b p d channel =
     then_do (lift_res (Position b p d)) (\<lambda>pos. schedule_note_at junk note pos channel)"

definition schedule_note_default :: "sink \<Rightarrow> int \<Rightarrow> midi_note \<Rightarrow> u32 \<Rightarrow> u32 \<Rightarrow> u32 \<Rightarrow> unit scheduling" where
  "schedule_note_default s junk note b p d = schedule_note junk note b p d (defaultChannel s)"

definition schedule_note_beat :: "sink \<Rightarrow> int \<Rightarrow> midi_note \<Rightarrow> u32 \<Rightarrow> u32 \<Rightarrow> unit scheduling" where
  "schedule_note_beat s junk note b p = schedule_note_default s junk note b p 4"

definition schedule_note_bar :: "sink \<Rightarrow> int \<Rightarrow> midi_note \<Rightarrow> u32 \<Rightarrow> unit scheduling" where
  "schedule_note_bar s junk note b = schedule_note_beat s junk note b 0"

text \<open>One note of a pattern: bars in a pattern count from one.\<close>

definition schedule_pattern_note :: "int \<Rightarrow> position \<Rightarrow> u8 \<Rightarrow> pattern_note \<Rightarrow> unit scheduling" where
  "schedule_pattern_note junk pos channel n =
     then_do (lift_res (pos_plus pos (pn_position n))) (\<lambda>newPosition.
       scheduleNote junk (pn_note n) (newPosition\<lparr>whole := whole newPosition - 1\<rparr>) channel)"

definition schedule_pattern_at :: "int \<Rightarrow> pattern \<Rightarrow> position \<Rightarrow> u8 \<Rightarrow> unit scheduling" where
  "schedule_pattern_at junk ns pos channel =
     (if channel < 1 \<or> 16 < channel
      then throw (Logic_error ''MIDI channel must be between 1 and 16'')
      else do_each (schedule_pattern_note junk pos channel) ns)"

definition schedule_pattern ::
  "int \<Rightarrow> pattern \<Rightarrow> u32 \<Rightarrow> u32 \<Rightarrow> u32 \<Rightarrow> u8 \<Rightarrow> unit scheduling"
where
  "schedule_pattern junk ns b p d channel =
     then_do (lift_res (Position b p d)) (\<lambda>pos. schedule_pattern_at junk ns pos channel)"

definition schedule_pattern_default :: "sink \<Rightarrow> int \<Rightarrow> pattern \<Rightarrow> u32 \<Rightarrow> u32 \<Rightarrow> u32 \<Rightarrow> unit scheduling" where
  "schedule_pattern_default s junk ns b p d = schedule_pattern junk ns b p d (defaultChannel s)"

definition schedule_pattern_beat :: "sink \<Rightarrow> int \<Rightarrow> pattern \<Rightarrow> u32 \<Rightarrow> u32 \<Rightarrow> unit scheduling" where
  "schedule_pattern_beat s junk ns b p = schedule_pattern_default s junk ns b p 4"

definition schedule_pattern_bar :: "sink \<Rightarrow> int \<Rightarrow> pattern \<Rightarrow> u32 \<Rightarrow> unit scheduling" where
  "schedule_pattern_bar s junk ns b = schedule_pattern_beat s junk ns b 0"

definition schedule_message_at :: "int \<Rightarrow> midi_message \<Rightarrow> position \<Rightarrow> u8 \<Rightarrow> unit scheduling" where
  "schedule_message_at junk m pos channel =
     (if channel < 1 \<or> 16 < channel
      then throw (Logic_error ''MIDI channel must be between 1 and 16'')
      else addMidiEvent (message_event junk m pos channel))"

definition schedule_message ::
  "int \<Rightarrow> midi_message \<Rightarrow> u32 \<Rightarrow> u32 \<Rightarrow> u32 \<Rightarrow> u8 \<Rightarrow> unit scheduling"
where
  "schedule_message junk m b p d channel =
     then_do (lift_res (Position b p d)) (\<lambda>pos. schedule_message_at junk m pos channel)"

definition schedule_message_default ::
  "sink \<Rightarrow> int \<Rightarrow> midi_message \<Rightarrow> u32 \<Rightarrow> u32 \<Rightarrow> u32 \<Rightarrow> unit scheduling"
where
  "schedule_message_default s junk m b p d = schedule_message junk m b p d (defaultChannel s)"

definition schedule_message_beat :: "sink \<Rightarrow> int \<Rightarrow> midi_message \<Rightarrow> u32 \<Rightarrow> u32 \<Rightarrow> unit scheduling" where
  "schedule_message_beat s junk m b p = schedule_message_default s junk m b p 4"

definition schedule_message_bar :: "sink \<Rightarrow> int \<Rightarrow> midi_message \<Rightarrow> u32 \<Rightarrow> unit scheduling" where
  "schedule_message_bar s junk m b = schedule_message_beat s junk m b 0"

section \<open>What a note becomes\<close>

definition is_note_on :: "u8 \<Rightarrow> midi_note \<Rightarrow> rat \<Rightarrow> midi_event \<Rightarrow> bool" where
  "is_note_on channel n t e \<longleftrightarrow>
     ev_type e = 0x90 \<and> databyte1 e = word_of_int (note_value n) \<and> databyte2 e = vel n \<and>
     ev_channel e = channel - 1 \<and> dvalue e = t"

definition is_note_off :: "u8 \<Rightarrow> midi_note \<Rightarrow> rat \<Rightarrow> midi_event \<Rightarrow> bool" where
  "is_note_off channel n t e \<longleftrightarrow>
     ev_type e = 0x80 \<and> databyte1 e = word_of_int (note_value n) \<and> databyte2 e = 0 \<and>
     ev_channel e = channel - 1 \<and> dvalue e = t"

lemma pitch_byte [simp]:
  "(word_of_int (sint (word_of_int v :: u32)) :: u8) = word_of_int v"
  "(scast (word_of_int v :: u32) :: u8) = word_of_int v"
  by (rule bit_word_eqI, simp add: bit_simps)+

lemma vel_byte [simp]: "(word_of_int (uint v) :: u8) = v"
  by simp

text \<open>A position whose whole bars are decremented is one bar earlier.\<close>

lemma one_bar_earlier:
  assumes "whole r \<noteq> 0"
  shows "dvalue (r\<lparr>whole := whole r - 1\<rparr>) = dvalue r - 1"
    and "proper r \<Longrightarrow> proper (r\<lparr>whole := whole r - 1\<rparr>)"
proof -
  have "unat (whole r) = unat (whole r - 1) + 1" using assms by (simp add: unat_minus_one unat_gt_0)
  then have "of_nat (unat (whole r)) = (of_nat (unat (whole r - 1)) + 1 :: rat)" by simp
  then show "dvalue (r\<lparr>whole := whole r - 1\<rparr>) = dvalue r - 1" by (simp add: dvalue_def)
  show "proper r \<Longrightarrow> proper (r\<lparr>whole := whole r - 1\<rparr>)" by (simp add: proper_def)
qed

lemma late_is_whole:
  assumes "proper r" "1 \<le> dvalue r"
  shows "whole r \<noteq> 0"
  using frac_lt_one [OF assms(1)] assms(2) by (auto simp: dvalue_def)

lemma scheduleNote_run:
  assumes "proper pos" "proper (note_duration n)" "sum_fits pos (note_duration n)"
  shows "\<exists>on off. scheduleNote junk n pos channel es = (Inr (), es @ [on, off]) \<and>
     is_note_on channel n (dvalue pos) on \<and>
     is_note_off channel n (dvalue pos + dvalue (note_duration n)) off"
proof -
  obtain r where "pos_plus pos (note_duration n) = Inr r" "dvalue r = dvalue pos + dvalue (note_duration n)"
    using pos_plus_dvalue [OF assms] by blast
  then show ?thesis
    by (simp add: scheduleNote_def addMidiEvent_def is_note_on_def is_note_off_def pitch_def)
qed

text \<open>That nothing wraps when a pattern's note is placed relative to a position.\<close>

definition note_fits :: "position \<Rightarrow> pattern_note \<Rightarrow> bool" where
  "note_fits pos n \<longleftrightarrow>
     proper (pn_position n) \<and> whole (pn_position n) \<noteq> 0 \<and> sum_fits pos (pn_position n) \<and>
     proper (note_duration (pn_note n)) \<and>
     (case pos_plus pos (pn_position n) of
        Inl _ \<Rightarrow> False
      | Inr r \<Rightarrow> sum_fits (r\<lparr>whole := whole r - 1\<rparr>) (note_duration (pn_note n)))"

lemma schedule_pattern_note_run:
  assumes "proper pos" "note_fits pos n"
  defines "t \<equiv> dvalue pos + dvalue (pn_position n) - 1"
  shows "\<exists>on off. schedule_pattern_note junk pos channel n es = (Inr (), es @ [on, off]) \<and>
     is_note_on channel (pn_note n) t on \<and>
     is_note_off channel (pn_note n) (t + dvalue (note_duration (pn_note n))) off"
proof -
  have n: "proper (pn_position n)" "sum_fits pos (pn_position n)" "proper (note_duration (pn_note n))"
    using assms(2) by (simp_all add: note_fits_def)
  obtain r where r: "pos_plus pos (pn_position n) = Inr r" "proper r"
    "dvalue r = dvalue pos + dvalue (pn_position n)"
    using pos_plus_dvalue [OF assms(1) n(1,2)] by blast
  have "0 < unat (whole (pn_position n))" using assms(2) by (simp add: note_fits_def unat_gt_0)
  then have "1 \<le> dvalue (pn_position n)" by (simp add: dvalue_def add_increasing2)
  moreover have "0 \<le> dvalue pos" by (simp add: dvalue_def)
  ultimately have "1 \<le> dvalue r" using r(3) by simp
  then have w: "whole r \<noteq> 0" using late_is_whole [OF r(2)] by blast
  let ?r = "r\<lparr>whole := whole r - 1\<rparr>"
  have "sum_fits ?r (note_duration (pn_note n))" using assms(2) r by (simp add: note_fits_def)
  from scheduleNote_run [OF one_bar_earlier(2) [OF w r(2)] n(3) this, of junk channel es]
  show ?thesis using r one_bar_earlier(1) [OF w] by (simp add: schedule_pattern_note_def t_def)
qed

lemma schedule_notes_run:
  assumes "proper pos" "\<forall>n \<in> set ns. note_fits pos n"
  shows "\<exists>evs. do_each (schedule_pattern_note junk pos channel) ns es = (Inr (), es @ concat evs) \<and>
     list_all2 (\<lambda>n ev. \<exists>on off. ev = [on, off] \<and>
       is_note_on channel (pn_note n) (dvalue pos + dvalue (pn_position n) - 1) on \<and>
       is_note_off channel (pn_note n)
         (dvalue pos + dvalue (pn_position n) - 1 + dvalue (note_duration (pn_note n))) off) ns evs"
  using assms(2)
proof (induction ns arbitrary: es)
  case Nil
  then show ?case by simp
next
  case (Cons n ns)
  obtain on off where on: "schedule_pattern_note junk pos channel n es = (Inr (), es @ [on, off])"
     "is_note_on channel (pn_note n) (dvalue pos + dvalue (pn_position n) - 1) on"
     "is_note_off channel (pn_note n)
        (dvalue pos + dvalue (pn_position n) - 1 + dvalue (note_duration (pn_note n))) off"
    using schedule_pattern_note_run [OF assms(1), of n junk channel es] Cons.prems by auto
  from Cons.IH [of "es @ [on, off]"] Cons.prems obtain evs where
    "do_each (schedule_pattern_note junk pos channel) ns (es @ [on, off]) =
       (Inr (), (es @ [on, off]) @ concat evs)"
    "list_all2 (\<lambda>n ev. \<exists>on off. ev = [on, off] \<and>
       is_note_on channel (pn_note n) (dvalue pos + dvalue (pn_position n) - 1) on \<and>
       is_note_off channel (pn_note n)
         (dvalue pos + dvalue (pn_position n) - 1 + dvalue (note_duration (pn_note n))) off) ns evs"
    by auto
  then show ?case using on by (intro exI [of _ "[on, off] # evs"]) simp
qed

section \<open>Properties\<close>

text \<open>C16: scheduling a pattern hands over exactly one note-on and one note-off for every note, in
  order, on the channel counted from zero: the note-on at the schedule position plus the note's
  own position less one bar, the note-off one duration later with the same pitch.\<close>

theorem schedule_pattern_correct:
  assumes "1 \<le> channel" "channel \<le> 16" "proper pos" "\<forall>n \<in> set ns. note_fits pos n"
  shows "\<exists>evs. schedule_pattern_at junk ns pos channel es = (Inr (), es @ concat evs) \<and>
     list_all2 (\<lambda>n ev. \<exists>on off. ev = [on, off] \<and>
       is_note_on channel (pn_note n) (dvalue pos + dvalue (pn_position n) - 1) on \<and>
       is_note_off channel (pn_note n)
         (dvalue pos + dvalue (pn_position n) - 1 + dvalue (note_duration (pn_note n))) off) ns evs"
  using schedule_notes_run [OF assms(3,4), of junk channel es] assms(1,2)
  by (auto simp: schedule_pattern_at_def)

theorem schedule_pattern_correct_witness:
  "\<exists>evs. schedule_pattern_at 0 [example_note 1 60, example_note 2 64] (mk_dur 5 1 4) 10 [] =
      (Inr (), concat evs) \<and> length evs = 2"
proof -
  have "note_fits (mk_dur 5 1 4) (example_note b v)" if "b = 1 \<or> b = 2" for b v
    using that by (auto simp: note_fits_def example_note_def Note_lasting_def proper_def sum_fits_def
      pos_plus_def normalize_dur_def MAX_DENOMINATOR_def mk_dur_def Let_def)
  then have "\<forall>n \<in> set [example_note 1 60, example_note 2 64]. note_fits (mk_dur 5 1 4) n" by simp
  moreover have "proper (mk_dur 5 1 4)" by (simp add: proper_def)
  ultimately show ?thesis
    using schedule_pattern_correct [of 10 "mk_dur 5 1 4" "[example_note 1 60, example_note 2 64]" 0 "[]"]
    by (fastforce dest: list_all2_lengthD)
qed

text \<open>a channel outside 1 to 16 is refused for notes, patterns and messages alike before any
  event is handed over.\<close>

theorem schedule_channel_checked:
  assumes "channel < 1 \<or> 16 < channel"
  shows "schedule_note_at junk n pos channel es =
       (Inl (Logic_error ''MIDI channel must be between 1 and 16''), es) \<and>
     schedule_pattern_at junk ns pos channel es =
       (Inl (Logic_error ''MIDI channel must be between 1 and 16''), es) \<and>
     schedule_message_at junk m pos channel es =
       (Inl (Logic_error ''MIDI channel must be between 1 and 16''), es)"
  using assms by (simp add: schedule_note_at_def schedule_pattern_at_def schedule_message_at_def)

theorem schedule_channel_checked_witness:
  "schedule_message_at 0 (PitchBend 0) (mk_dur 1 0 4) 17 [] =
     (Inl (Logic_error ''MIDI channel must be between 1 and 16''), [])"
  using schedule_channel_checked [of 17 0 undefined "mk_dur 1 0 4" "[]" "[]" "PitchBend 0"] by simp

end
