(* ===== verification/Ports.thy ===== *)
theory Ports
  imports Midi_Sink Object_Cache
begin

text \<open>
  The audio and MIDI ports of the system (\<open>src/audioport.h\<close>, \<open>src/audioport.cpp\<close>,
  \<open>src/midiport.h\<close>, \<open>src/midiport.cpp\<close>, \<open>src/audioconnection.h\<close>). JACK's port registry and its
  MIDI buffers are parameters. Audio buffers are lists of samples; the samples are rational
  numbers, which no operation here computes with.
\<close>

section \<open>Audio connections\<close>

record audio_connection =
  conn_buffer :: "rat list"

definition AudioConnection :: "rat list \<Rightarrow> audio_connection" where
  "AudioConnection junk = \<lparr>conn_buffer = junk\<rparr>"

definition setBuffer :: "rat list \<Rightarrow> audio_connection \<Rightarrow> audio_connection" where
  "setBuffer b c = c\<lparr>conn_buffer := b\<rparr>"

text \<open>\<open>memset\<close> of a whole number of samples.\<close>

definition zero_samples :: "nat \<Rightarrow> rat list \<Rightarrow> rat list res" where
  "zero_samples n b =
     (if n \<le> length b then Inr (replicate n 0 @ drop n b) else Inl (Undefined ''write past the buffer''))"

definition connection_clear :: "u32 \<Rightarrow> audio_connection \<Rightarrow> audio_connection res" where
  "connection_clear bufferSize c =
     bind_res (zero_samples (unat bufferSize) (conn_buffer c)) (\<lambda>b. Inr (c\<lparr>conn_buffer := b\<rparr>))"

section \<open>The system's ports\<close>

datatype jack_call =
    Connect_port string
  | Disconnect_port string

record output_port =
  connected :: string

text \<open>
  \<open>systemConnect\<close> of an output port: reconnects only when the name differs from the one last
  given. The state is the port and the calls made on JACK.
\<close>

definition systemConnect :: "string \<Rightarrow> output_port \<times> jack_call list \<Rightarrow> output_port \<times> jack_call list" where
  "systemConnect name s =
     (let (p, calls) = s
      in if connected p \<noteq> name
         then (p\<lparr>connected := name\<rparr>,
               (if connected p \<noteq> [] then calls @ [Disconnect_port (connected p)] else calls)
                 @ [Connect_port name])
         else (p, calls))"

definition input_systemConnect :: "string \<Rightarrow> jack_call list \<Rightarrow> jack_call list" where
  "input_systemConnect name calls = calls @ [Connect_port name]"

text \<open>
  The factories. A port is looked up under the hash of its name, narrowed to an \<open>int\<close>; if there
  is none JACK is asked for a port, and the object \<open>alloc\<close> makes of it is registered. Then the
  port is connected when a connection was named; \<open>connect\<close> is the method of the port.
\<close>

definition port_key :: "(string \<Rightarrow> u64) \<Rightarrow> string \<Rightarrow> int" where
  "port_key hash name = sint (ucast (hash name) :: u32)"

definition get_port ::
  "(string \<Rightarrow> u64) \<Rightarrow> (string \<Rightarrow> 'j option) \<Rightarrow> ('j \<Rightarrow> 'o) \<Rightarrow> ('o \<Rightarrow> 'e \<Rightarrow> 'e) \<Rightarrow>
     ('o \<Rightarrow> string \<Rightarrow> 'e \<Rightarrow> 'e) \<Rightarrow> (string \<Rightarrow> fault) \<Rightarrow> string \<Rightarrow> string option \<Rightarrow>
     (('o, 'e) cache, 'o) act"
where
  "get_port hash register alloc newObject connect failure name connection c =
     (let key = port_key hash name; (found, c1) = findObject key c;
          got = (case found of
              Some port \<Rightarrow> (Inr port, c1)
            | None \<Rightarrow>
                (case register name of
                   None \<Rightarrow> (Inl (failure name), c1)
                 | Some j \<Rightarrow> (Inr (alloc j), registerObject newObject key (alloc j) c1)))
      in case got of
           (Inl f, c2) \<Rightarrow> (Inl f, c2)
         | (Inr port, c2) \<Rightarrow>
             (Inr port, case connection of
                None \<Rightarrow> c2
              | Some n \<Rightarrow> c2\<lparr>environment := connect port n (environment c2)\<rparr>))"

definition getAudioInputPort where
  "getAudioInputPort hash register alloc newObject connect =
     get_port hash register alloc newObject connect (\<lambda>name. Thrown_string ''Failed to register port '')"

definition getAudioOutputPort where
  "getAudioOutputPort hash register alloc newObject connect =
     get_port hash register alloc newObject connect
       (\<lambda>name. Logic_error (''Failed to register port '' @ name))"

definition getMidiInputPort where
  "getMidiInputPort hash register alloc newObject connect =
     get_port hash register alloc newObject connect
       (\<lambda>name. Thrown_string (''Failed to register midi input port: '' @ name))"

definition getMidiOutputPort where
  "getMidiOutputPort hash register alloc newObject connect =
     get_port hash register alloc newObject connect
       (\<lambda>name. Logic_error (''Failed to register port '' @ name))"

section \<open>Stereo ports\<close>

text \<open>The two ports a stereo output is made of, with the connection each is fed from.\<close>

record 'k stereo_output =
  portLeft :: "'k option"
  portRight :: "'k option"

definition stereo_connect :: "nat \<Rightarrow> (nat \<Rightarrow> 'k res) \<Rightarrow> ('k stereo_output, unit) act" where
  "stereo_connect outputCount getAudioConnection =
     (if outputCount = 1
      then then_do (lift_res (getAudioConnection 0)) (\<lambda>l.
           then_do (modify (\<lambda>s. s\<lparr>portLeft := Some l\<rparr>)) (\<lambda>_.
           then_do (lift_res (getAudioConnection 0)) (\<lambda>r. modify (\<lambda>s. s\<lparr>portRight := Some r\<rparr>))))
      else then_do (lift_res (getAudioConnection 0)) (\<lambda>l.
           then_do (modify (\<lambda>s. s\<lparr>portLeft := Some l\<rparr>)) (\<lambda>_.
           then_do (lift_res (getAudioConnection 1)) (\<lambda>r. modify (\<lambda>s. s\<lparr>portRight := Some r\<rparr>)))))"

definition stereo_connect_one :: "'k \<Rightarrow> 'k stereo_output \<Rightarrow> 'k stereo_output" where
  "stereo_connect_one k s = s\<lparr>portLeft := Some k\<rparr>"

definition stereo_getAudioConnection :: "'k \<Rightarrow> 'k \<Rightarrow> nat \<Rightarrow> 'k res" where
  "stereo_getAudioConnection left right index =
     (if index = 0 then Inr left
      else if index = 1 then Inr right
      else Inl (Logic_error ''stereo port has only two connections''))"

text \<open>The names under which a stereo port asks for its two mono ports.\<close>

definition stereo_reset ::
  "(string \<Rightarrow> string option \<Rightarrow> ('s, 'o) act) \<Rightarrow> string \<Rightarrow> string option \<Rightarrow> string option \<Rightarrow>
     ('s, 'o \<times> 'o) act"
where
  "stereo_reset getPort name connectLeft connectRight =
     then_do (getPort (name @ ''L'') connectLeft) (\<lambda>l.
     then_do (getPort (name @ ''R'') connectRight) (\<lambda>r. ret (l, r)))"

section \<open>The audio output port in the process thread\<close>

text \<open>
  The output port copies the audio of the connection it is fed from, once that connection's
  source has been processed, or zeros its buffer.
\<close>

definition audio_output_doProcess ::
  "('k \<Rightarrow> 'w \<Rightarrow> 'w) \<Rightarrow> ('k \<Rightarrow> 'w \<Rightarrow> rat list) \<Rightarrow> 'k option \<Rightarrow> nat \<Rightarrow> rat list \<Rightarrow> 'w \<Rightarrow> rat list res \<times> 'w"
where
  "audio_output_doProcess processSource audio input nframes buffer w =
     (case input of
        Some k \<Rightarrow>
          (let w' = processSource k w; a = audio k w'
           in (if nframes \<le> length a \<and> nframes \<le> length buffer
               then Inr (take nframes a @ drop nframes buffer)
               else Inl (Undefined ''copy past the buffer''), w'))
      | None \<Rightarrow> (zero_samples nframes buffer, w))"

section \<open>MIDI buffers\<close>

text \<open>
  JACK's MIDI buffer of one period: \<open>mb_clear\<close> empties it, \<open>mb_write\<close> reserves room for an event
  at a frame and fills it with the given bytes, or finds no room.
\<close>

record 'b midi_buffer_ops =
  mb_clear :: "'b \<Rightarrow> 'b"
  mb_write :: "nat \<Rightarrow> u8 list \<Rightarrow> 'b \<Rightarrow> 'b option"

locale midi_buffer =
  fixes B :: "'b midi_buffer_ops" and written :: "'b \<Rightarrow> (nat \<times> u8 list) list"
  assumes clear_empty: "written (mb_clear B b) = []"
    and write_appends: "mb_write B t bytes b = Some b' \<Longrightarrow> written b' = written b @ [(t, bytes)]"

definition list_midi_buffer :: "nat \<Rightarrow> (nat \<times> u8 list) list midi_buffer_ops" where
  "list_midi_buffer room =
     \<lparr>mb_clear = (\<lambda>_. []), mb_write = (\<lambda>t bs b. if length b < room then Some (b @ [(t, bs)]) else None)\<rparr>"

interpretation list_buffer: midi_buffer "list_midi_buffer room" "\<lambda>b. b"
  by unfold_locales (auto simp: list_midi_buffer_def split: if_splits)

text \<open>The handler of the output port's event loop: nothing checks that there was room.\<close>

definition write_event ::
  "'b midi_buffer_ops \<Rightarrow> ('c, 'o) queue_ops \<Rightarrow> (midi_event \<Rightarrow> 'o) \<Rightarrow> midi_event \<Rightarrow>
     ('c, 'o) collector \<times> 'b res \<Rightarrow> ('c, 'o) collector \<times> 'b res"
where
  "write_event B C up e s =
     (recycle C (up e) (fst s),
      bind_res (snd s) (\<lambda>b.
        case mb_write B (nat (if 0 \<le> frameOffset e then frameOffset e else 0)) (pack e) b of
          None \<Rightarrow> Inl (Undefined ''write through a null pointer'')
        | Some b' \<Rightarrow> Inr b'))"

definition midi_output_doProcess ::
  "'b midi_buffer_ops \<Rightarrow> ('q, midi_event) queue_ops \<Rightarrow> ('c, 'o) queue_ops \<Rightarrow> (midi_event \<Rightarrow> 'o) \<Rightarrow>
     bool \<Rightarrow> jack_position \<Rightarrow> u32 \<Rightarrow> 'b \<Rightarrow> ('q, midi_event) event_buffer \<Rightarrow> ('c, 'o) collector \<Rightarrow>
     (('q, midi_event) event_buffer \<times> ('c, 'o) collector \<times> 'b res) option"
where
  "midi_output_doProcess B Q C up rolling pos nframes port_buf buf c =
     event_loop Q C up rolling pos nframes (write_event B C up) buf (c, Inr (mb_clear B port_buf))"

text \<open>The input port's connection: the events of the period, and the one event object it unpacks into.\<close>

record midi_input =
  jack_events :: "(u32 \<times> u8 list) list"
  lastEvent :: midi_event

definition input_getEventCount :: "midi_input \<Rightarrow> u32" where
  "input_getEventCount c = of_nat (length (jack_events c))"

definition input_getEvent :: "u32 \<Rightarrow> midi_input \<Rightarrow> (midi_event \<times> midi_input) res" where
  "input_getEvent i c =
     (if unat i < length (jack_events c)
      then (let (t, bytes) = jack_events c ! unat i
            in bind_res (unpack bytes (lastEvent c)) (\<lambda>e.
                 let e' = e\<lparr>frameOffset := int (unat t)\<rparr> in Inr (e', c\<lparr>lastEvent := e'\<rparr>)))
      else Inl (Undefined ''uninitialised event''))"

section \<open>What goes out of a MIDI port\<close>

definition wire :: "midi_event \<Rightarrow> nat \<times> u8 list" where
  "wire e = (nat (if 0 \<le> frameOffset e then frameOffset e else 0), pack e)"

definition is_due :: "bool \<Rightarrow> jack_position \<Rightarrow> u32 \<Rightarrow> midi_event \<Rightarrow> bool" where
  "is_due rolling pos n e \<longleftrightarrow> whole e = 0 \<or>
     rolling \<and> frameOffset e = calculateFrameOffset e pos \<and> -256 \<le> frameOffset e \<and>
     frameOffset e < int (unat n)"

text \<open>
  The account of one period: events written, events dropped as too late, events still pending,
  and the collector's share.
\<close>

definition account ::
  "('q \<Rightarrow> midi_event list) \<Rightarrow> ('c \<Rightarrow> 'o list) \<Rightarrow> ('b \<Rightarrow> (nat \<times> u8 list) list) \<Rightarrow> (midi_event \<Rightarrow> 'o) \<Rightarrow>
     bool \<Rightarrow> jack_position \<Rightarrow> u32 \<Rightarrow> midi_event multiset \<Rightarrow> 'o multiset \<Rightarrow>
     ('q, midi_event) event_buffer \<Rightarrow> ('c, 'o) collector \<Rightarrow> 'b res \<Rightarrow> bool"
where
  "account ct cc wr up rolling pos n pend0 coll0 b c r \<longleftrightarrow>
     (\<exists>evs ds. (\<forall>w. r = Inr w \<longrightarrow> wr w = map wire evs) \<and>
        pend0 = image_mset ident (mset evs) + image_mset ident (mset ds) + pending ct b \<and>
        collected cc c = coll0 + mset (map up evs) + mset (map (\<lambda>d. up (updateFrameOffset pos d)) ds) \<and>
        (\<forall>e \<in> set evs. is_due rolling pos n e) \<and>
        (\<forall>d \<in> set ds. rolling \<and> calculateFrameOffset d pos < -256))"

locale midi_port = event_queues Q ct C cc + midi_buffer B wr
  for Q :: "('q, midi_event) queue_ops" and ct and C :: "('c, 'o) queue_ops" and cc
    and B :: "'b midi_buffer_ops" and wr
begin

lemma account_next:
  assumes "account ct cc wr up rolling pos n pend0 coll0 b (fst cs) (snd cs)"
    and "getNextEvent Q C up rolling pos n b (fst cs) = (r, b', c')"
  obtains "r = None" "account ct cc wr up rolling pos n pend0 coll0 b' c' (snd cs)"
  | e where "r = Some e"
      "account ct cc wr up rolling pos n pend0 coll0 b' (fst (write_event B C up e (c', snd cs)))
         (snd (write_event B C up e (c', snd cs)))"
proof -
  obtain evs ds where a: "\<forall>w. snd cs = Inr w \<longrightarrow> wr w = map wire evs"
    "pend0 = image_mset ident (mset evs) + image_mset ident (mset ds) + pending ct b"
    "collected cc (fst cs) = coll0 + mset (map up evs) + mset (map (\<lambda>d. up (updateFrameOffset pos d)) ds)"
    "\<forall>e \<in> set evs. is_due rolling pos n e" "\<forall>d \<in> set ds. rolling \<and> calculateFrameOffset d pos < -256"
    using assms(1) unfolding account_def by blast
  obtain ds' where g: "pending ct b = image_mset ident (mset ds') +
      image_mset ident (mset (case r of None \<Rightarrow> [] | Some e \<Rightarrow> [e])) + pending ct b'"
    "collected cc c' = collected cc (fst cs) + mset (map (\<lambda>d. up (updateFrameOffset pos d)) ds')"
    "\<forall>d \<in> set ds'. rolling \<and> calculateFrameOffset d pos < -256"
    "\<forall>e. r = Some e \<longrightarrow> is_due rolling pos n e"
    using getNextEvent_outcome [OF assms(2)] unfolding is_due_def by metis
  show thesis
  proof (cases r)
    case None
    have "account ct cc wr up rolling pos n pend0 coll0 b' c' (snd cs)"
      unfolding account_def
      by (rule exI [of _ evs], rule exI [of _ "ds @ ds'"]) (use a g None in auto)
    then show thesis using None that(1) by blast
  next
    case (Some e)
    have "wr w = map wire (evs @ [e])" if w: "snd (write_event B C up e (c', snd cs)) = Inr w" for w
    proof -
      obtain w0 where "snd cs = Inr w0" "mb_write B (fst (wire e)) (pack e) w0 = Some w"
        using w by (auto simp: write_event_def wire_def bind_res_eq_Inr split: option.splits)
      then show ?thesis using a(1) write_appends by (simp add: wire_def)
    qed
    then have "account ct cc wr up rolling pos n pend0 coll0 b' (fst (write_event B C up e (c', snd cs)))
        (snd (write_event B C up e (c', snd cs)))"
      unfolding account_def
      by (intro exI [of _ "evs @ [e]"] exI [of _ "ds @ ds'"])
        (use a g Some coll.collected_recycle in \<open>auto simp: write_event_def\<close>)
    then show thesis using Some that(2) by blast
  qed
qed

lemma midi_output_accounts:
  "\<exists>b' c' r. midi_output_doProcess B Q C up rolling pos n port_buf b c = Some (b', c', r) \<and>
     account ct cc wr up rolling pos n (pending ct b) (collected cc c) b' c' r"
  unfolding midi_output_doProcess_def
proof (rule event_loop_rule [where
      I = "\<lambda>b cs. account ct cc wr up rolling pos n (pending ct b0) (collected cc c0) b (fst cs) (snd cs)"
      for b0 c0])
  show "account ct cc wr up rolling pos n (pending ct b) (collected cc c) b (fst (c, Inr (mb_clear B port_buf)))
      (snd (c, Inr (mb_clear B port_buf)))"
    unfolding account_def
    by (rule exI [of _ "[]"], rule exI [of _ "[]"]) (simp add: clear_empty)
qed (metis account_next option.distinct(1) option.inject)+

end

interpretation list_midi_port: midi_port "list_queue n" "\<lambda>q. q" "list_queue m" "\<lambda>q. q"
    "list_midi_buffer room" "\<lambda>b. b"
  by unfold_locales

lemma get_port_found:
  assumes "map_of (instanceMap c) (port_key hash name) = Some (Some p)"
  shows "get_port hash register alloc newObject connect failure name None c =
     (Inr p, c\<lparr>activeScriptObjects := insert p (activeScriptObjects c)\<rparr>)"
  using assms by (simp add: get_port_def findObject_def at_key_def Let_def)

lemma get_port_stored:
  assumes "keys_sorted (instanceMap c)"
    and "get_port hash register alloc newObject connect failure name connection c = (Inr p, c')"
  shows "map_of (instanceMap c') (port_key hash name) = Some (Some p)"
proof -
  obtain found c1 where f: "findObject (port_key hash name) c = (found, c1)" by fastforce
  have s: "keys_sorted (instanceMap c1)"
    using f assms(1) by (auto simp: findObject_def at_key_def Let_def keys_sorted_put split: option.splits)
  show ?thesis
  proof (cases found)
    case (Some q)
    then show ?thesis
      using assms(2) f findObject_used(1) [of "port_key hash name" c q c1]
      by (auto simp: get_port_def Let_def split: option.splits)
  next
    case None
    then show ?thesis
      using assms(2) f map_of_put [OF s]
      by (auto simp: get_port_def Let_def registerObject_def split: option.splits)
  qed
qed

section \<open>Properties\<close>


definition example_midi :: "u32 \<Rightarrow> u32 \<Rightarrow> midi_event" where
  "example_midi bar beat = Midi_Event 0 (mk_dur bar beat 4) 60 100 0x90 0"


text \<open>asking twice for a port of the same name gives the same object, without asking JACK again
  and without telling the engine again, but so does asking for any other name whose hash agrees
  in its low 32 bits.\<close>

theorem port_factory_idempotent:
  assumes "keys_sorted (instanceMap c)"
    and "get_port hash register alloc newObject connect failure name connection c = (Inr p, c')"
    and "port_key hash name' = port_key hash name"
  shows "\<exists>c''. get_port hash register' alloc' newObject connect failure name' None c' = (Inr p, c'') \<and>
     environment c'' = environment c' \<and> instanceMap c'' = instanceMap c'"
proof -
  have "map_of (instanceMap c') (port_key hash name') = Some (Some p)"
    using get_port_stored [OF assms(1,2)] assms(3) by simp
  then show ?thesis by (simp add: get_port_found)
qed

definition length_hash :: "string \<Rightarrow> u64" where
  "length_hash s = of_nat (length s)"

theorem port_factory_idempotent_witness:
  "\<exists>c' c''. get_port length_hash (\<lambda>n. Some n) (\<lambda>j. j) (\<lambda>p e. p # e) (\<lambda>p n e. n # e)
       (\<lambda>n. Logic_error n) ''out'' (Some ''system'') \<lparr>instanceMap = [], activeScriptObjects = {}, environment = []\<rparr> =
       (Inr ''out'', c') \<and>
     get_port length_hash (\<lambda>n. None) (\<lambda>j. j) (\<lambda>p e. p # e) (\<lambda>p n e. n # e)
       (\<lambda>n. Logic_error n) ''two'' None c' = (Inr ''out'', c'')"
proof -
  let ?c = "\<lparr>instanceMap = [], activeScriptObjects = {}, environment = []\<rparr> :: (string, string list) cache"
  have s: "keys_sorted (instanceMap ?c)" by (simp add: keys_sorted_def)
  obtain c' where g: "get_port length_hash (\<lambda>n. Some n) (\<lambda>j. j) (\<lambda>p e. p # e) (\<lambda>p n e. n # e)
       (\<lambda>n. Logic_error n) ''out'' (Some ''system'') ?c = (Inr ''out'', c')"
    by (simp add: get_port_def findObject_def at_key_def Let_def)
  have k: "port_key length_hash ''two'' = port_key length_hash ''out''"
    by (simp add: port_key_def length_hash_def)
  show ?thesis
    using port_factory_idempotent [OF s g k, where register' = "\<lambda>n. None" and alloc' = "\<lambda>j. j"] g by blast
qed

end
