(* ===== verification/Mixer.thy ===== *)
theory Mixer
  imports Ports Script_Values
begin

text \<open>
  The mixer (\<open>src/mixer.h\<close>, \<open>src/mixer.cpp\<close>): connecting sources, gain controllers, scheduled
  gain changes, the loop over the frames of a period, and the factory. Audio buffers are lists of
  samples; a sample operation is rounded as \<open>float\<close> arithmetic rounds it. The audio and control
  sources are arguments: a step on the state \<open>'w\<close> of the rest of the network, and what their
  connections then hold.
\<close>

section \<open>Data\<close>

record control_mapping =
  cm_connection :: nat
  cm_cc :: u32
  cm_input :: u32
  cm_output :: u32

record 'm control_connection =
  cc_connection :: 'm
  cc_mappings :: "control_mapping list"
  eventCount :: u32
  eventIndex :: u32

record gain_event = event +
  ge_input :: u32
  ge_output :: u32
  ge_value :: rat

text \<open>
  The control connections are objects the map, the mappings and the list of connections share:
  they live in \<open>control_heap\<close> and are referred to by their place there.
\<close>

record ('k, 'm, 'u, 'v, 'q) mixer =
  gain :: "rat list list"
  connectedInputs :: u32
  audioInputCount :: u32
  audioInput :: "'k option list"
  audioOutputCount :: u32
  audioOutput :: "rat list list"
  control_heap :: "'m control_connection list"
  controlConnectionMap :: "'m \<Rightarrow> nat option"
  newControlMappingsQueue :: 'u
  controlConnections :: "('v, nat) queue_list"
  gainEventBuffer :: "('q, gain_event) event_buffer"

definition Mixer ::
  "u32 \<Rightarrow> 'u \<Rightarrow> 'v \<Rightarrow> 'q \<Rightarrow> u32 \<Rightarrow> u32 \<Rightarrow> ('k, 'm, 'u, 'v, 'q) mixer"
where
  "Mixer bufferSize u v q inputs outputs =
     \<lparr>gain = replicate (unat inputs) (replicate (unat outputs) 0),
      connectedInputs = 0, audioInputCount = inputs, audioInput = replicate (unat inputs) None,
      audioOutputCount = outputs,
      audioOutput = replicate (unat outputs) (replicate (unat bufferSize) 0),
      control_heap = [], controlConnectionMap = (\<lambda>_. None), newControlMappingsQueue = u,
      controlConnections = \<lparr>ql_list = [], ql_queue = v\<rparr>,
      gainEventBuffer = \<lparr>eventQueue = q, sortedEvents = []\<rparr>\<rparr>"

section \<open>The gain matrix\<close>

definition set_gain :: "u32 \<Rightarrow> u32 \<Rightarrow> rat \<Rightarrow> rat list list \<Rightarrow> rat list list res" where
  "set_gain i j v g =
     (if unat i < length g \<and> unat j < length (g ! unat i)
      then Inr (g[unat i := (g ! unat i)[unat j := v]])
      else Inl (Undefined ''index outside the gain matrix''))"

definition write_gain :: "u32 \<Rightarrow> u32 \<Rightarrow> rat \<Rightarrow> (('k, 'm, 'u, 'v, 'q) mixer, unit) act" where
  "write_gain i j v m =
     (case set_gain i j v (gain m) of Inl f \<Rightarrow> (Inl f, m) | Inr g \<Rightarrow> (Inr (), m\<lparr>gain := g\<rparr>))"

section \<open>Connecting audio sources\<close>

text \<open>
  One input: the counter is increased before the connector checks the connection. \<open>link\<close> is
  \<open>setConnection\<close> of the connectors of this mixer, of which the theory \<open>Routing\<close> has the model.
\<close>

definition connect_input ::
  "('k \<Rightarrow> 'k option \<Rightarrow> 'k option res) \<Rightarrow> (nat \<Rightarrow> 'k res) \<Rightarrow> nat \<Rightarrow> (('k, 'm, 'u, 'v, 'q) mixer, unit) act"
where
  "connect_input link getAudioConnection i m =
     (let c = unat (connectedInputs m); m1 = m\<lparr>connectedInputs := connectedInputs m + 1\<rparr>
      in case getAudioConnection i of
           Inl f \<Rightarrow> (Inl f, m1)
         | Inr k \<Rightarrow>
             (if c < length (audioInput m)
              then (case link k (audioInput m ! c) of
                      Inl f \<Rightarrow> (Inl f, m1)
                    | Inr s \<Rightarrow> (Inr (), m1\<lparr>audioInput := (audioInput m)[c := s]\<rparr>))
              else (Inl (Undefined ''index outside the inputs''), m1)))"

definition connect_inputs where
  "connect_inputs link getAudioConnection n = do_each (connect_input link getAudioConnection) [0..<n]"

definition script_gain :: "script_value \<Rightarrow> rat option" where
  "script_gain v =
     (case v of IntValue i \<Rightarrow> Some (rnd_float (of_int i)) | FloatValue f \<Rightarrow> Some f | _ \<Rightarrow> None)"

text \<open>One entry of the gains array: a number for all outputs, or an array with one per output.\<close>

definition gain_entry :: "sq_object list \<Rightarrow> nat \<Rightarrow> (('k, 'm, 'u, 'v, 'q) mixer, unit) act" where
  "gain_entry gains i =
     then_do (lift_res (array_at gains (int i))) (\<lambda>val.
     then_do (gets (\<lambda>m. (connectedInputs m + of_nat i, audioOutputCount m))) (\<lambda>(input, outs).
       case val of
         ArrayValue xs \<Rightarrow>
           (if array_size xs \<noteq> outs
            then throw (Logic_error (''gain subarray should be length '' @ decimal (unat outs)))
            else do_each (\<lambda>j. then_do (lift_res (array_at xs (int j))) (\<lambda>v.
                     case script_gain v of
                       Some g \<Rightarrow> write_gain input (of_nat j) g
                     | None \<Rightarrow> throw (Logic_error ''gain value should be a number'')))
                   [0..<unat outs])
       | _ \<Rightarrow>
           (case script_gain val of
              Some g \<Rightarrow> do_each (\<lambda>j. write_gain input (of_nat j) g) [0..<unat outs]
            | None \<Rightarrow> throw (Logic_error ''each gain array entry should be a number or subarray''))))"

definition connect_gains ::
  "('k \<Rightarrow> 'k option \<Rightarrow> 'k option res) \<Rightarrow> u32 \<Rightarrow> (nat \<Rightarrow> 'k res) \<Rightarrow> sq_object list \<Rightarrow>
     (('k, 'm, 'u, 'v, 'q) mixer, unit) act"
where
  "connect_gains link sourceOutputs getAudioConnection gains =
     (if array_size gains \<noteq> sourceOutputs
      then throw (Logic_error ''gains array has different length than input count'')
      else then_do (do_each (gain_entry gains) [0..<unat sourceOutputs]) (\<lambda>_.
             connect_inputs link getAudioConnection (unat sourceOutputs)))"

text \<open>
  The gain given for a whole source is spread over the outputs: the loop runs until both its
  counters are past their end, so the smaller side is gone through more than once. Without
  outputs its remainder is a division by zero.
\<close>

definition spread_gain :: "u32 \<Rightarrow> rat \<Rightarrow> nat \<Rightarrow> (('k, 'm, 'u, 'v, 'q) mixer, unit) act" where
  "spread_gain n g t =
     then_do (gets (\<lambda>m. (connectedInputs m, audioOutputCount m))) (\<lambda>(c, outs).
       if outs = 0 then throw (Undefined ''division by zero'')
       else write_gain (c + of_nat t mod n) (of_nat t mod outs) g)"

definition connect_gain ::
  "('k \<Rightarrow> 'k option \<Rightarrow> 'k option res) \<Rightarrow> u32 \<Rightarrow> (nat \<Rightarrow> 'k res) \<Rightarrow> rat \<Rightarrow>
     (('k, 'm, 'u, 'v, 'q) mixer, unit) act"
where
  "connect_gain link n getAudioConnection g =
     (if n = 0 then throw (Logic_error ''input has no audio outputs'')
      else then_do (gets (\<lambda>m. audioInputCount m < connectedInputs m + n)) (\<lambda>full.
        if full then throw (Logic_error ''not enough inputs available'')
        else then_do (gets audioOutputCount) (\<lambda>outs.
             then_do (do_each (spread_gain n g) [0..<max (unat n) (unat outs)]) (\<lambda>_.
               connect_inputs link getAudioConnection (unat n)))))"

definition connect_source where
  "connect_source link n getAudioConnection = connect_gain link n getAudioConnection 1"

text \<open>A null connection of a counted input is read through.\<close>

fun inputs_connectTo :: "('k \<Rightarrow> bool option) \<Rightarrow> 'k option list \<Rightarrow> bool res option" where
  "inputs_connectTo connects [] = Some (Inr False)"
| "inputs_connectTo connects (None # ks) = Some (Inl (Undefined ''null pointer''))"
| "inputs_connectTo connects (Some k # ks) =
     Option.bind (connects k) (\<lambda>b. if b then Some (Inr True) else inputs_connectTo connects ks)"

definition mixer_connectsTo where
  "mixer_connectsTo connects m =
     inputs_connectTo connects (take (unat (connectedInputs m)) (audioInput m))"

section \<open>Gain changes\<close>

definition validateInputChannel :: "u32 \<Rightarrow> ('k, 'm, 'u, 'v, 'q) mixer \<Rightarrow> unit res" where
  "validateInputChannel input m =
     (if input = 0 then Inl (Logic_error ''There is no input channel zero'')
      else if audioInputCount m < input then Inl (Logic_error ''No such input on this mixer'')
      else Inr ())"

definition validateOutputChannel :: "u32 \<Rightarrow> ('k, 'm, 'u, 'v, 'q) mixer \<Rightarrow> unit res" where
  "validateOutputChannel output m =
     (if output = 0 then Inl (Logic_error ''There is no output channel zero'')
      else if audioOutputCount m < output then Inl (Logic_error ''No such output on this mixer'')
      else Inr ())"

text \<open>
  A new control connection starts without values for its counters. Both queues are spun on when
  they are full; then there is no result. The list of connections is pushed to first.
\<close>

definition MixerControlConnection :: "u32 \<Rightarrow> u32 \<Rightarrow> 'm \<Rightarrow> 'm control_connection" where
  "MixerControlConnection junk1 junk2 k =
     \<lparr>cc_connection = k, cc_mappings = [], eventCount = junk1, eventIndex = junk2\<rparr>"

definition control_connection_for ::
  "('v, nat) queue_ops \<Rightarrow> u32 \<Rightarrow> u32 \<Rightarrow> 'm \<Rightarrow> ('k, 'm, 'u, 'v, 'q) mixer \<Rightarrow>
     (nat \<times> ('k, 'm, 'u, 'v, 'q) mixer) option"
where
  "control_connection_for V junk1 junk2 k m =
     (case controlConnectionMap m k of
        Some a \<Rightarrow> Some (a, m)
      | None \<Rightarrow>
          (let a = length (control_heap m)
           in map_option (\<lambda>l. (a, m\<lparr>control_heap := control_heap m @ [MixerControlConnection junk1 junk2 k],
                  controlConnectionMap := (controlConnectionMap m)(k \<mapsto> a), controlConnections := l\<rparr>))
                (QueueList_add V a (controlConnections m))))"

definition addGainController ::
  "('u, control_mapping) queue_ops \<Rightarrow> ('v, nat) queue_ops \<Rightarrow> u32 \<Rightarrow> u32 \<Rightarrow> (nat \<Rightarrow> 'm res) \<Rightarrow>
     u32 \<Rightarrow> u32 \<Rightarrow> u32 \<Rightarrow> ('k, 'm, 'u, 'v, 'q) mixer \<Rightarrow>
     (unit res \<times> ('k, 'm, 'u, 'v, 'q) mixer) option"
where
  "addGainController U V junk1 junk2 getMidiConnection cc input output m =
     (if cc = 0 then Some (Inl (Logic_error ''There is no MIDI control number zero''), m)
      else if 127 < cc
      then Some (Inl (Logic_error ''MIDI control number cannot be greater than 127''), m)
      else case bind_res (validateInputChannel input m) (\<lambda>_.
                bind_res (validateOutputChannel output m) (\<lambda>_. getMidiConnection 0)) of
             Inl f \<Rightarrow> Some (Inl f, m)
           | Inr k \<Rightarrow>
               Option.bind (control_connection_for V junk1 junk2 k m) (\<lambda>(a, m1).
                 map_option (\<lambda>u. (Inr (), m1\<lparr>newControlMappingsQueue := u\<rparr>))
                   (q_push U \<lparr>cm_connection = a, cm_cc = cc, cm_input = input - 1, cm_output = output - 1\<rparr>
                      (newControlMappingsQueue m1))))"

definition MixerGainEvent :: "int \<Rightarrow> u32 \<Rightarrow> u32 \<Rightarrow> rat \<Rightarrow> u32 \<Rightarrow> u32 \<Rightarrow> u32 \<Rightarrow> gain_event res" where
  "MixerGainEvent junk input output v b p d =
     bind_res (Event b p d junk) (\<lambda>e.
       Inr (event.extend e \<lparr>ge_input = input, ge_output = output, ge_value = v\<rparr>))"

definition scheduleGain ::
  "('q, gain_event) queue_ops \<Rightarrow> int \<Rightarrow> u32 \<Rightarrow> u32 \<Rightarrow> rat \<Rightarrow> u32 \<Rightarrow> u32 \<Rightarrow> u32 \<Rightarrow>
     ('k, 'm, 'u, 'v, 'q) mixer \<Rightarrow> ('k, 'm, 'u, 'v, 'q) mixer res option"
where
  "scheduleGain Q junk input output g b p d m =
     (case bind_res (validateInputChannel input m) (\<lambda>_.
           bind_res (validateOutputChannel output m) (\<lambda>_.
             MixerGainEvent junk (input - 1) (output - 1) g b p d)) of
        Inl f \<Rightarrow> Some (Inl f)
      | Inr e \<Rightarrow> map_option (\<lambda>b. Inr (m\<lparr>gainEventBuffer := b\<rparr>)) (addEvent Q e (gainEventBuffer m)))"

definition mixer_restore :: "('k, 'm, 'u, 'v, 'q) mixer \<Rightarrow> ('k, 'm, 'u, 'v, 'q) mixer" where
  "mixer_restore m = m\<lparr>controlConnectionMap := (\<lambda>_. None)\<rparr>"

section \<open>Controllers in the process thread\<close>

definition control_process :: "('m \<Rightarrow> u32) \<Rightarrow> 'm control_connection \<Rightarrow> 'm control_connection" where
  "control_process getEventCount k = k\<lparr>eventCount := getEventCount (cc_connection k), eventIndex := 0\<rparr>"

text \<open>What a control message does to the gains.\<close>

definition apply_mapping :: "midi_event \<Rightarrow> control_mapping \<Rightarrow> rat list list \<Rightarrow> rat list list res" where
  "apply_mapping e mp g =
     (if cm_cc mp = ucast (databyte1 e)
      then set_gain (cm_input mp) (cm_output mp) (rnd_float (of_nat (unat (databyte2 e)) / 127)) g
      else Inr g)"

definition apply_control ::
  "control_mapping list \<Rightarrow> midi_event \<Rightarrow> rat list list \<Rightarrow> rat list list res"
where
  "apply_control mappings e g =
     (if matches_type (int (unat TYPE_CONTROL)) e then fold_res (apply_mapping e) mappings g else Inr g)"

text \<open>
  The loop of \<open>updateGains\<close>, with the index it leaves behind: the event it starts with is read
  without moving the index on, each further one with.
\<close>

function control_loop ::
  "(u32 \<Rightarrow> midi_event) \<Rightarrow> u32 \<Rightarrow> control_mapping list \<Rightarrow> u32 \<Rightarrow> midi_event \<Rightarrow> u32 \<Rightarrow>
     rat list list \<Rightarrow> u32 \<times> rat list list res"
where
  "control_loop getEvent cnt mappings frame e i g =
     (if frameOffset e = int (unat frame)
      then (case apply_control mappings e g of
              Inl f \<Rightarrow> (i, Inl f)
            | Inr g' \<Rightarrow>
                (if i < cnt then control_loop getEvent cnt mappings frame (getEvent i) (i + 1) g'
                 else (i, Inr g')))
      else (i, Inr g))"
  by pat_completeness auto

lemma unat_suc_below: "i < (n :: u32) \<Longrightarrow> unat (i + 1) = Suc (unat i)"
  using unat_add_bounded [of i 1] unat_u32_less [of n] by (simp add: word_less_nat_alt)

termination control_loop
  by (relation "measure (\<lambda>(_, cnt, _, _, _, i, _). unat cnt - unat i)")
     (auto simp: unat_suc_below word_less_nat_alt)

definition updateGains ::
  "('m \<Rightarrow> u32 \<Rightarrow> midi_event) \<Rightarrow> u32 \<Rightarrow> 'm control_connection \<Rightarrow> rat list list \<Rightarrow>
     'm control_connection \<times> rat list list res"
where
  "updateGains getEvent frame k g =
     (if eventCount k \<noteq> 0 \<and> eventIndex k < eventCount k
      then (let (i, r) = control_loop (getEvent (cc_connection k)) (eventCount k) (cc_mappings k) frame
                  (getEvent (cc_connection k) (eventIndex k)) (eventIndex k) g
            in (k\<lparr>eventIndex := i\<rparr>, r))
      else (k, Inr g))"

section \<open>The process thread\<close>

text \<open>What the network outside the mixer offers in a period.\<close>

record ('k, 'm, 'w) network =
  processAudio :: "'k \<Rightarrow> 'w \<Rightarrow> 'w"
  audioOf :: "'k \<Rightarrow> 'w \<Rightarrow> rat list"
  processControl :: "'m \<Rightarrow> 'w \<Rightarrow> 'w"
  countOf :: "'m \<Rightarrow> 'w \<Rightarrow> u32"
  eventOf :: "'m \<Rightarrow> 'w \<Rightarrow> u32 \<Rightarrow> midi_event"

definition add_mapping :: "control_mapping \<Rightarrow> 'm control_connection list \<Rightarrow> 'm control_connection list" where
  "add_mapping mp h =
     h[cm_connection mp := (h ! cm_connection mp)\<lparr>cc_mappings := mp # cc_mappings (h ! cm_connection mp)\<rparr>]"

text \<open>The sources of the connected inputs are processed; each connection's buffer is what it then points to.\<close>

fun pull_inputs ::
  "('k, 'm, 'w) network \<Rightarrow> 'k option list \<Rightarrow> 'w \<Rightarrow> ('k list \<times> 'w) res"
where
  "pull_inputs N [] w = Inr ([], w)"
| "pull_inputs N (None # ks) w = Inl (Undefined ''null pointer'')"
| "pull_inputs N (Some k # ks) w =
     bind_res (pull_inputs N ks (processAudio N k w)) (\<lambda>(r, w'). Inr (k # r, w'))"

fun process_controls ::
  "('k, 'm, 'w) network \<Rightarrow> nat list \<Rightarrow> 'm control_connection list \<Rightarrow> 'w \<Rightarrow>
     'm control_connection list \<times> 'w"
where
  "process_controls N [] h w = (h, w)"
| "process_controls N (a # as) h w =
     (let w' = processControl N (cc_connection (h ! a)) w
      in process_controls N as (h[a := control_process (\<lambda>k. countOf N k w') (h ! a)]) w')"

fun update_all ::
  "('m \<Rightarrow> u32 \<Rightarrow> midi_event) \<Rightarrow> u32 \<Rightarrow> nat list \<Rightarrow> 'm control_connection list \<times> rat list list \<Rightarrow>
     ('m control_connection list \<times> rat list list) res"
where
  "update_all getEvent frame [] hg = Inr hg"
| "update_all getEvent frame (a # as) (h, g) =
     (case updateGains getEvent frame (h ! a) g of
        (_, Inl f) \<Rightarrow> Inl f
      | (k, Inr g') \<Rightarrow> update_all getEvent frame as (h[a := k], g'))"

text \<open>The state of the loop over the frames.\<close>

record ('m, 'q, 'c, 'o) mix_run =
  mr_gain :: "rat list list"
  mr_heap :: "'m control_connection list"
  mr_event :: "gain_event option"
  mr_buffer :: "('q, gain_event) event_buffer"
  mr_collector :: "('c, 'o) collector"
  mr_output :: "rat list list"

definition next_gain_event where
  "next_gain_event Q C up rolling pos nframes r =
     (let (e, b, c) = getNextEvent Q C up rolling pos nframes (mr_buffer r) (mr_collector r)
      in r\<lparr>mr_event := e, mr_buffer := b, mr_collector := c\<rparr>)"

partial_function (option) gain_loop ::
  "('q, gain_event) queue_ops \<Rightarrow> ('c, 'o) queue_ops \<Rightarrow> (gain_event \<Rightarrow> 'o) \<Rightarrow> bool \<Rightarrow> jack_position \<Rightarrow>
     u32 \<Rightarrow> u32 \<Rightarrow> ('m, 'q, 'c, 'o) mix_run \<Rightarrow> ('m, 'q, 'c, 'o) mix_run res option"
where
  "gain_loop Q C up rolling pos nframes frame r =
     (case mr_event r of
        None \<Rightarrow> Some (Inr r)
      | Some e \<Rightarrow>
          if frameOffset e = int (unat frame)
          then (case set_gain (ge_input e) (ge_output e) (ge_value e) (mr_gain r) of
                  Inl f \<Rightarrow> Some (Inl f)
                | Inr g \<Rightarrow>
                    gain_loop Q C up rolling pos nframes frame
                      (next_gain_event Q C up rolling pos nframes
                         (r\<lparr>mr_gain := g, mr_collector := recycle C (up e) (mr_collector r)\<rparr>)))
          else Some (Inr r))"

text \<open>One sample of one output: the inputs in order, those with gain zero left out.\<close>

definition mix_sample :: "nat \<Rightarrow> nat \<Rightarrow> rat list list \<Rightarrow> rat list list \<Rightarrow> nat \<Rightarrow> rat list list \<Rightarrow>
    rat list list" where
  "mix_sample frame i audio g ou out =
     (if g ! i ! ou \<noteq> 0
      then out[ou := (out ! ou)[frame :=
             rnd_float (out ! ou ! frame + rnd_float (audio ! i ! frame * g ! i ! ou))]]
      else out)"

definition mix_frame :: "nat \<Rightarrow> rat list list \<Rightarrow> rat list list \<Rightarrow> nat \<Rightarrow> nat \<Rightarrow> rat list list \<Rightarrow> rat list list" where
  "mix_frame frame audio g inputs outs out =
     fold (\<lambda>i. fold (\<lambda>ou. mix_sample frame i audio g ou) [0..<outs]) [0..<inputs] out"

text \<open>
  The loop over the frames. Every walk over the control connections starts with \<open>getFirst\<close>; with
  nothing queued since the first of them they all see the same list.
\<close>

fun frame_loop ::
  "('q, gain_event) queue_ops \<Rightarrow> ('c, 'o) queue_ops \<Rightarrow> (gain_event \<Rightarrow> 'o) \<Rightarrow> bool \<Rightarrow> jack_position \<Rightarrow>
     u32 \<Rightarrow> ('m \<Rightarrow> u32 \<Rightarrow> midi_event) \<Rightarrow> nat list \<Rightarrow> rat list list \<Rightarrow> nat \<Rightarrow> nat list \<Rightarrow>
     ('m, 'q, 'c, 'o) mix_run \<Rightarrow> ('m, 'q, 'c, 'o) mix_run res option"
where
  "frame_loop Q C up rolling pos nframes getEvent conns audio outs [] r = Some (Inr r)"
| "frame_loop Q C up rolling pos nframes getEvent conns audio outs (f # fs) r =
     (case update_all getEvent (of_nat f) conns (mr_heap r, mr_gain r) of
        Inl e \<Rightarrow> Some (Inl e)
      | Inr (h, g) \<Rightarrow>
          (case gain_loop Q C up rolling pos nframes (of_nat f) (r\<lparr>mr_heap := h, mr_gain := g\<rparr>) of
             None \<Rightarrow> None
           | Some (Inl e) \<Rightarrow> Some (Inl e)
           | Some (Inr r1) \<Rightarrow>
               frame_loop Q C up rolling pos nframes getEvent conns audio outs fs
                 (r1\<lparr>mr_output := mix_frame f audio (mr_gain r1) (length audio) outs (mr_output r1)\<rparr>)))"

fun zero_outputs :: "nat \<Rightarrow> rat list list \<Rightarrow> rat list list res" where
  "zero_outputs n [] = Inr []"
| "zero_outputs n (b # bs) =
     bind_res (zero_samples n b) (\<lambda>z. bind_res (zero_outputs n bs) (\<lambda>zs. Inr (z # zs)))"

text \<open>Up to the frame loop: the mappings, the inputs, the outputs and the controllers.\<close>

definition mixer_prepare ::
  "('u, control_mapping) queue_ops \<Rightarrow> ('v, nat) queue_ops \<Rightarrow> ('k, 'm, 'w) network \<Rightarrow> nat \<Rightarrow>
     ('k, 'm, 'u, 'v, 'q) mixer \<Rightarrow> 'w \<Rightarrow>
     (('k, 'm, 'u, 'v, 'q) mixer \<times> rat list list \<times> 'w) res option"
where
  "mixer_prepare U V N n m w =
     Option.bind (drain U add_mapping (newControlMappingsQueue m) (control_heap m)) (\<lambda>(u, h).
     Option.bind (QueueList_getFirst V (controlConnections m)) (\<lambda>l.
       Some (if length (audioInput m) < unat (connectedInputs m)
             then Inl (Undefined ''index outside the inputs'')
             else bind_res (pull_inputs N (take (unat (connectedInputs m)) (audioInput m)) w) (\<lambda>(ks, w1).
                  bind_res (zero_outputs n (audioOutput m)) (\<lambda>out.
                    let (h2, w2) = process_controls N (ql_list l) h w1
                    in if \<forall>k \<in> set ks. n \<le> length (audioOf N k w2)
                       then Inr (m\<lparr>newControlMappingsQueue := u, controlConnections := l,
                                    control_heap := h2, audioOutput := out\<rparr>,
                                 map (\<lambda>k. audioOf N k w2) ks, w2)
                       else Inl (Undefined ''read past the buffer''))))))"

definition mixer_doProcess ::
  "('u, control_mapping) queue_ops \<Rightarrow> ('v, nat) queue_ops \<Rightarrow> ('q, gain_event) queue_ops \<Rightarrow>
     ('c, 'o) queue_ops \<Rightarrow> (gain_event \<Rightarrow> 'o) \<Rightarrow> ('k, 'm, 'w) network \<Rightarrow> bool \<Rightarrow> jack_position \<Rightarrow> u32 \<Rightarrow>
     ('k, 'm, 'u, 'v, 'q) mixer \<Rightarrow> ('c, 'o) collector \<Rightarrow> 'w \<Rightarrow>
     (('k, 'm, 'u, 'v, 'q) mixer \<times> ('c, 'o) collector \<times> 'w) res option"
where
  "mixer_doProcess U V Q C up N rolling pos nframes m c w =
     (case mixer_prepare U V N (unat nframes) m w of
        None \<Rightarrow> None
      | Some (Inl f) \<Rightarrow> Some (Inl f)
      | Some (Inr (m1, audio, w1)) \<Rightarrow>
          map_option (\<lambda>res. bind_res res (\<lambda>r.
              Inr (m1\<lparr>gain := mr_gain r, control_heap := mr_heap r, gainEventBuffer := mr_buffer r,
                      audioOutput := mr_output r\<rparr>, mr_collector r, w1)))
            (frame_loop Q C up rolling pos nframes (\<lambda>k. eventOf N k w1) (ql_list (controlConnections m1))
               audio (unat (audioOutputCount m1)) [0..<unat nframes]
               (next_gain_event Q C up rolling pos nframes
                  \<lparr>mr_gain = gain m1, mr_heap = control_heap m1, mr_event = None,
                   mr_buffer = gainEventBuffer m1, mr_collector = c, mr_output = audioOutput m1\<rparr>)))"

section \<open>Repositioning\<close>

text \<open>A control connection recycles its mappings, the mixer its control connections.\<close>

fun recycle_each :: "('c, 'o) queue_ops \<Rightarrow> 'o list \<Rightarrow> ('c, 'o) collector \<Rightarrow> ('c, 'o) collector" where
  "recycle_each C [] c = c"
| "recycle_each C (x # xs) c = recycle_each C xs (recycle C x c)"

definition control_reposition ::
  "('c, 'o) queue_ops \<Rightarrow> (control_mapping \<Rightarrow> 'o) \<Rightarrow> 'm control_connection \<Rightarrow> ('c, 'o) collector \<Rightarrow>
     'm control_connection \<times> ('c, 'o) collector"
where
  "control_reposition C up k c = (k\<lparr>cc_mappings := []\<rparr>, recycle_each C (map up (cc_mappings k)) c)"

fun reposition_controls ::
  "('c, 'o) queue_ops \<Rightarrow> (control_mapping \<Rightarrow> 'o) \<Rightarrow> (nat \<Rightarrow> 'o) \<Rightarrow> nat list \<Rightarrow>
     'm control_connection list \<Rightarrow> ('c, 'o) collector \<Rightarrow> 'm control_connection list \<times> ('c, 'o) collector"
where
  "reposition_controls C upm upc [] h c = (h, c)"
| "reposition_controls C upm upc (a # as) h c =
     (let (k, c1) = control_reposition C upm (h ! a) c
      in reposition_controls C upm upc as (h[a := k]) (recycle C (upc a) c1))"

definition mixer_reposition ::
  "('u, control_mapping) queue_ops \<Rightarrow> ('v, nat) queue_ops \<Rightarrow> ('q, gain_event) queue_ops \<Rightarrow>
     ('c, 'o) queue_ops \<Rightarrow> (control_mapping \<Rightarrow> 'o) \<Rightarrow> (nat \<Rightarrow> 'o) \<Rightarrow> (gain_event \<Rightarrow> 'o) \<Rightarrow>
     ('k, 'm, 'u, 'v, 'q) mixer \<Rightarrow> ('c, 'o) collector \<Rightarrow>
     (('k, 'm, 'u, 'v, 'q) mixer \<times> ('c, 'o) collector) res option"
where
  "mixer_reposition U V Q C upm upc upg m c =
     Option.bind (QueueList_getFirst V (controlConnections m)) (\<lambda>l.
       let (h, c1) = reposition_controls C upm upc (ql_list l) (control_heap m) c
       in Option.bind (recycleRemaining Q C upg (gainEventBuffer m) c1) (\<lambda>res.
          Option.bind (drain U (\<lambda>_ s. s) (newControlMappingsQueue m) ()) (\<lambda>(u, _).
            Some (bind_res res (\<lambda>(b, c2).
              Inr (m\<lparr>control_heap := h, controlConnections := l\<lparr>ql_list := []\<rparr>, gainEventBuffer := b,
                    newControlMappingsQueue := u, connectedInputs := 0\<rparr>, c2))))))"

section \<open>The factory\<close>

record mixer_env =
  instanceCount :: "int \<Rightarrow> int"

definition ioHash :: "u16 \<Rightarrow> u16 \<Rightarrow> int" where
  "ioHash inputs outputs = push_bit 4 (uint inputs) OR push_bit 16 (uint outputs)"

definition mixer_scriptReset :: "mixer_env \<Rightarrow> mixer_env" where
  "mixer_scriptReset e = e\<lparr>instanceCount := (\<lambda>_. 0)\<rparr>"

text \<open>
  The cache holds the addresses of mixers; \<open>alloc\<close> and \<open>newObject\<close> stand for the allocation and
  for the engine that learns of the new processor.
\<close>

definition getMixer ::
  "(u16 \<Rightarrow> u16 \<Rightarrow> 'o) \<Rightarrow> ('o \<Rightarrow> 'e \<Rightarrow> 'e) \<Rightarrow> ('o \<Rightarrow> 'e \<Rightarrow> 'e) \<Rightarrow> u16 \<Rightarrow> u16 \<Rightarrow>
     ('o, 'e) cache \<times> mixer_env \<Rightarrow> 'o \<times> ('o, 'e) cache \<times> mixer_env"
where
  "getMixer alloc newObject restoreObject inputs outputs cs =
     (case cs of (c, s) \<Rightarrow>
       (let h = ioHash inputs outputs; n = instanceCount s h;
            s1 = s\<lparr>instanceCount := (instanceCount s)(h := n + 1)\<rparr>;
            (found, c1) = findObject (h + n) c
        in case found of
             Some ob \<Rightarrow> (ob, c1\<lparr>environment := restoreObject ob (environment c1)\<rparr>, s1)
           | None \<Rightarrow> (let ob = alloc inputs outputs in (ob, registerObject newObject (h + n) ob c1, s1))))"

section \<open>The gains of a connected source\<close>

definition shaped :: "nat \<Rightarrow> nat \<Rightarrow> rat list list \<Rightarrow> bool" where
  "shaped rows cols g \<longleftrightarrow> length g = rows \<and> (\<forall>i < rows. length (g ! i) = cols)"

lemma set_gain_shaped:
  assumes "shaped rows cols g" "unat i < rows" "unat j < cols"
  shows "\<exists>g'. set_gain i j v g = Inr g' \<and> shaped rows cols g' \<and>
     (\<forall>a < rows. \<forall>b < cols. g' ! a ! b = (if a = unat i \<and> b = unat j then v else g ! a ! b))"
  using assms by (auto simp: set_gain_def shaped_def nth_list_update)

lemma do_each_append:
  "do_each f (xs @ ys) s = then_do (do_each f xs) (\<lambda>_. do_each f ys) s"
proof (induction xs arbitrary: s)
  case Nil
  then show ?case by simp
next
  case (Cons x xs)
  then show ?case by (auto simp: then_do_def split: prod.split sum.split)
qed

lemma do_each_snoc:
  "do_each f xs s = (Inr (), t) \<Longrightarrow> do_each f (xs @ [x]) s = f x t"
  by (auto simp: do_each_append then_do_def ret_def split: prod.splits sum.splits)

definition spread_hits :: "nat \<Rightarrow> nat \<Rightarrow> nat \<Rightarrow> nat \<Rightarrow> nat \<Rightarrow> nat \<Rightarrow> bool" where
  "spread_hits T c n outs a b \<longleftrightarrow> (\<exists>t < T. a = c + t mod n \<and> b = t mod outs)"

lemma spread_hits_Suc:
  "spread_hits (Suc T) c n outs a b \<longleftrightarrow> spread_hits T c n outs a b \<or> (a = c + T mod n \<and> b = T mod outs)"
  by (auto simp: spread_hits_def less_Suc_eq)

lemma spread_result:
  assumes "shaped rows (unat (audioOutputCount m)) (gain m)" "audioOutputCount m \<noteq> 0" "n \<noteq> 0"
    and "unat (connectedInputs m) + unat n \<le> rows" "rows < 2 ^ 32" "T \<le> 2 ^ 32"
  shows "\<exists>g'. do_each (spread_gain n v) [0..<T] m = (Inr (), m\<lparr>gain := g'\<rparr>) \<and>
     shaped rows (unat (audioOutputCount m)) g' \<and>
     (\<forall>a < rows. \<forall>b < unat (audioOutputCount m). g' ! a ! b =
        (if spread_hits T (unat (connectedInputs m)) (unat n) (unat (audioOutputCount m)) a b
         then v else gain m ! a ! b))"
  using assms(6)
proof (induction T)
  case 0
  then show ?case using assms(1) by (auto simp: ret_def spread_hits_def intro!: exI [of _ "gain m"])
next
  case (Suc T)
  let ?outs = "unat (audioOutputCount m)" and ?c = "unat (connectedInputs m)"
  from Suc obtain g1 where g1: "do_each (spread_gain n v) [0..<T] m = (Inr (), m\<lparr>gain := g1\<rparr>)"
    "shaped rows ?outs g1"
    "\<forall>a < rows. \<forall>b < ?outs. g1 ! a ! b = (if spread_hits T ?c (unat n) ?outs a b then v else gain m ! a ! b)"
    by auto
  have pos: "0 < unat n" "0 < ?outs" using assms(2,3) by (simp_all add: unat_gt_0)
  have t: "unat (of_nat T :: u32) = T" using Suc.prems by (simp add: unat_u32_of_nat)
  have "T mod unat n < unat n" using pos by simp
  then have "?c + T mod unat n < rows" using assms(4) by linarith
  then have i: "unat (connectedInputs m + of_nat T mod n) = ?c + T mod unat n"
    "?c + T mod unat n < rows"
    using assms(5) unat_add_bounded [of "connectedInputs m" "of_nat T mod n"] by (simp_all add: unat_mod t)
  have j: "unat (of_nat T mod audioOutputCount m) = T mod ?outs" "T mod ?outs < ?outs"
    using pos by (simp_all add: unat_mod t)
  obtain g2 where g2: "set_gain (connectedInputs m + of_nat T mod n) (of_nat T mod audioOutputCount m) v g1 = Inr g2"
    "shaped rows ?outs g2"
    "\<forall>a < rows. \<forall>b < ?outs. g2 ! a ! b =
        (if a = ?c + T mod unat n \<and> b = T mod ?outs then v else g1 ! a ! b)"
    using set_gain_shaped [OF g1(2), of "connectedInputs m + of_nat T mod n" "of_nat T mod audioOutputCount m" v] i j
    by auto
  have "do_each (spread_gain n v) [0..<Suc T] m = (Inr (), m\<lparr>gain := g2\<rparr>)"
    using do_each_snoc [OF g1(1), of T] g2(1) assms(2)
    by (simp add: spread_gain_def write_gain_def)
  then show ?case using g1(3) g2(2,3) by (auto simp: spread_hits_Suc)
qed

lemma spread_covers:
  assumes "0 < n" "0 < outs"
  shows "i < n \<Longrightarrow> \<exists>b < outs. spread_hits (max n outs) c n outs (c + i) b"
    and "b < outs \<Longrightarrow> \<exists>i < n. spread_hits (max n outs) c n outs (c + i) b"
proof -
  show "\<exists>b < outs. spread_hits (max n outs) c n outs (c + i) b" if "i < n"
    using that assms by (intro exI [of _ "i mod outs"]) (auto simp: spread_hits_def intro!: exI [of _ i])
  show "\<exists>i < n. spread_hits (max n outs) c n outs (c + i) b" if "b < outs"
    using that assms by (intro exI [of _ "b mod n"]) (auto simp: spread_hits_def intro!: exI [of _ b])
qed

lemma connect_inputs_result:
  assumes "\<And>i. i < T \<Longrightarrow> getAudioConnection i = Inr (K i)"
    and "\<And>i s. i < T \<Longrightarrow> link (K i) s = Inr (Some (K i))"
    and "unat (connectedInputs m) + T \<le> length (audioInput m)" "length (audioInput m) < 2 ^ 32"
  shows "connect_inputs link getAudioConnection T m =
     (Inr (), m\<lparr>connectedInputs := connectedInputs m + of_nat T,
        audioInput := take (unat (connectedInputs m)) (audioInput m) @ map (\<lambda>i. Some (K i)) [0..<T]
          @ drop (unat (connectedInputs m) + T) (audioInput m)\<rparr>)"
  using assms
proof (induction T)
  case 0
  then show ?case by (simp add: connect_inputs_def ret_def)
next
  case (Suc T)
  let ?c = "unat (connectedInputs m)"
  define m1 where "m1 = m\<lparr>connectedInputs := connectedInputs m + of_nat T,
        audioInput := take ?c (audioInput m) @ map (\<lambda>i. Some (K i)) [0..<T]
          @ drop (?c + T) (audioInput m)\<rparr>"
  have IH: "do_each (connect_input link getAudioConnection) [0..<T] m = (Inr (), m1)"
    using Suc by (simp add: connect_inputs_def m1_def)
  have "unat (of_nat T :: u32) = T" using Suc.prems by (simp add: unat_u32_of_nat)
  then have c: "unat (connectedInputs m + of_nat T) = ?c + T"
    using Suc.prems unat_add_bounded [of "connectedInputs m" "of_nat T"] by simp
  have d: "drop (?c + T) (audioInput m) = audioInput m ! (?c + T) # drop (?c + Suc T) (audioInput m)"
    using Suc.prems by (simp add: Cons_nth_drop_Suc)
  have "connect_input link getAudioConnection T m1 = (Inr (), m\<lparr>connectedInputs := connectedInputs m + of_nat (Suc T),
        audioInput := take ?c (audioInput m) @ map (\<lambda>i. Some (K i)) [0..<Suc T]
          @ drop (?c + Suc T) (audioInput m)\<rparr>)"
    using Suc.prems c d
    by (simp add: connect_input_def m1_def Let_def list_update_append nth_append add.commute add.left_commute)
  then show ?case using do_each_snoc [OF IH, of T] by (simp add: connect_inputs_def)
qed

section \<open>Which control messages are heard\<close>

text \<open>Every second message, and that twice.\<close>

fun every_other :: "'a list \<Rightarrow> 'a list" where
  "every_other [] = []"
| "every_other [x] = [x, x]"
| "every_other (x # y # zs) = x # x # every_other zs"

text \<open>The controllers' part of the loop over the frames, for one connection.\<close>

definition control_frame ::
  "('m \<Rightarrow> u32 \<Rightarrow> midi_event) \<Rightarrow> nat \<Rightarrow> 'm control_connection \<times> rat list list \<Rightarrow>
     ('m control_connection \<times> rat list list) res"
where
  "control_frame getEvent f kg =
     (case updateGains getEvent (of_nat f) (fst kg) (snd kg) of
        (_, Inl e) \<Rightarrow> Inl e
      | (k, Inr g) \<Rightarrow> Inr (k, g))"

lemma update_all_single:
  assumes "a < length h"
  shows "update_all getEvent (of_nat f) [a] (h, g) =
     bind_res (control_frame getEvent f (h ! a, g)) (\<lambda>(k, g'). Inr (h[a := k], g'))"
  by (auto simp: control_frame_def split: prod.split sum.split)

lemma every_other_step:
  "i < length xs \<Longrightarrow> every_other (drop i xs) = xs ! i # xs ! i # every_other (drop (i + 2) xs)"
proof -
  assume i: "i < length xs"
  show ?thesis
  proof (cases "i + 1 < length xs")
    case True
    then have "drop i xs = xs ! i # xs ! (i + 1) # drop (i + 2) xs"
      using i by (simp add: Cons_nth_drop_Suc)
    then show ?thesis by simp
  next
    case False
    then have "drop i xs = [xs ! i]" "drop (i + 2) xs = []"
      using i Cons_nth_drop_Suc [of i xs] by simp_all
    then show ?thesis by simp
  qed
qed

lemma control_frame_silent:
  assumes "eventCount k = of_nat (length evs)" "length evs < 2 ^ 31"
    and "eventIndex k = of_nat i" "i \<le> Suc (length evs)" "f < 2 ^ 32"
    and "\<forall>j < length evs. getEvent (cc_connection k) (of_nat j) = evs ! j"
    and "i < length evs \<longrightarrow> frameOffset (evs ! i) \<noteq> int f"
  shows "control_frame getEvent f (k, g) = Inr (k, g)"
proof -
  have n: "unat (of_nat (length evs) :: u32) = length evs" using assms(2) by (simp add: unat_u32_of_nat)
  have u: "unat (of_nat i :: u32) = i" using assms(2,4) by (simp add: unat_u32_of_nat)
  have f: "unat (of_nat f :: u32) = f" using assms(5) by (rule unat_u32_of_nat)
  show ?thesis
  proof (cases "i < length evs")
    case True
    then have "control_loop (getEvent (cc_connection k)) (eventCount k) (cc_mappings k) (of_nat f)
        (getEvent (cc_connection k) (eventIndex k)) (eventIndex k) g = (eventIndex k, Inr g)"
      using assms f by (subst control_loop.simps) simp
    then show ?thesis by (simp add: control_frame_def updateGains_def)
  next
    case False
    then have "\<not> eventIndex k < eventCount k" using assms(1,3) n u by (simp add: word_less_nat_alt)
    then show ?thesis by (simp add: control_frame_def updateGains_def)
  qed
qed

text \<open>At the frame of an event: it is applied, read again and applied, and the one after is read.\<close>

lemma control_frame_hit:
  assumes "eventCount k = of_nat (length evs)" "length evs < 2 ^ 31"
    and "eventIndex k = of_nat i" "i < length evs" "f < 2 ^ 32"
    and "\<forall>j < length evs. getEvent (cc_connection k) (of_nat j) = evs ! j"
    and "frameOffset (evs ! i) = int f"
    and "Suc i < length evs \<longrightarrow> frameOffset (evs ! Suc i) \<noteq> int f"
  shows "control_frame getEvent f (k, g) =
     bind_res (fold_res (apply_control (cc_mappings k)) [evs ! i, evs ! i] g)
       (\<lambda>g'. Inr (k\<lparr>eventIndex := of_nat (min (i + 2) (length evs))\<rparr>, g'))"
proof -
  let ?ge = "getEvent (cc_connection k)" and ?n = "eventCount k" and ?m = "cc_mappings k"
  have small: "j \<le> length evs \<Longrightarrow> unat (of_nat j :: u32) = j" for j
    using assms(2) by (simp add: unat_u32_of_nat)
  have f: "unat (of_nat f :: u32) = f" using assms(5) by (rule unat_u32_of_nat)
  have less: "(of_nat j :: u32) < ?n \<longleftrightarrow> j < length evs" if "j \<le> length evs" for j
    using small [OF that] small [of "length evs"] assms(1) by (simp add: word_less_nat_alt)
  have e: "?ge (of_nat i) = evs ! i" using assms(4,6) by simp
  have stop: "control_loop ?ge ?n ?m (of_nat f) (evs ! i) (of_nat (Suc i)) g1 =
      (case apply_control ?m (evs ! i) g1 of
         Inl x \<Rightarrow> (of_nat (Suc i), Inl x) | Inr g2 \<Rightarrow> (of_nat (min (i + 2) (length evs)), Inr g2))" for g1
  proof (cases "Suc i < length evs")
    case True
    then have "control_loop ?ge ?n ?m (of_nat f) (evs ! Suc i) (of_nat (Suc i) + 1) g2 =
        (of_nat (Suc i) + 1, Inr g2)" for g2
      using assms(8) f by (subst control_loop.simps) simp
    moreover have "?ge (of_nat (Suc i)) = evs ! Suc i" using True assms(6) by blast
    ultimately show ?thesis
      using assms(7) f less [of "Suc i"] True
      by (subst control_loop.simps) (simp add: add.commute split: sum.split)
  next
    case False
    then have "\<not> of_nat (Suc i) < ?n" "length evs = Suc i" using less [of "Suc i"] assms(4) by simp_all
    then show ?thesis using assms(7) f by (subst control_loop.simps) (simp split: sum.split)
  qed
  have "control_loop ?ge ?n ?m (of_nat f) (evs ! i) (of_nat i) g =
      (case apply_control ?m (evs ! i) g of
         Inl x \<Rightarrow> (of_nat i, Inl x)
       | Inr g1 \<Rightarrow> control_loop ?ge ?n ?m (of_nat f) (evs ! i) (of_nat (Suc i)) g1)"
    using assms(4,7) f less [of i] e
    by (subst control_loop.simps) (simp add: add.commute split: sum.split)
  moreover have "?n \<noteq> 0" "of_nat i < ?n" using less [of i] assms(4) by auto
  ultimately show ?thesis
    using e assms(3) unfolding control_frame_def updateGains_def stop
    by (auto split: sum.splits)
qed

lemma frames_hear_every_other:
  assumes "eventCount k = of_nat (length evs)" "length evs < 2 ^ 31" "F < 2 ^ 32"
    and "\<forall>j < length evs. getEvent (cc_connection k) (of_nat j) = evs ! j"
    and "sorted_wrt (\<lambda>x y. frameOffset x < frameOffset y) evs"
    and "eventIndex k = of_nat i" "i \<le> length evs" "f \<le> F"
    and "\<forall>j < length evs. i \<le> j \<longrightarrow> int f \<le> frameOffset (evs ! j) \<and> frameOffset (evs ! j) < int F"
  shows "bind_res (fold_res (control_frame getEvent) [f..<F] (k, g)) (\<lambda>(_, g'). Inr g') =
     fold_res (apply_control (cc_mappings k)) (every_other (drop i evs)) g"
  using assms
proof (induction "F - f" arbitrary: f i k g)
  case 0
  then have "F = f" by simp
  have "\<not> i < length evs" using 0(10) \<open>F = f\<close> by force
  then show ?case using \<open>F = f\<close> by simp
next
  case (Suc d)
  note P = Suc.prems
  have fF: "f < F" "d = F - Suc f" using Suc.hyps(2) by simp_all
  have range: "[f..<F] = f # [Suc f..<F]" using fF by (simp add: upt_conv_Cons)
  have later: "int (Suc f) \<le> frameOffset (evs ! j) \<and> frameOffset (evs ! j) < int F"
    if "j < length evs" "i \<le> j" "i < j \<or> frameOffset (evs ! i) \<noteq> int f" for j
  proof -
    have "int f \<le> frameOffset (evs ! i)" "frameOffset (evs ! j) < int F" using P(9) that by auto
    moreover have "frameOffset (evs ! i) \<le> frameOffset (evs ! j)" "i < j \<longrightarrow> frameOffset (evs ! i) < frameOffset (evs ! j)"
      using sorted_wrt_nth_less [OF P(5), of i j] that by (cases "i = j", simp_all)
    ultimately show ?thesis using that by auto
  qed
  show ?case
  proof (cases "i < length evs \<and> frameOffset (evs ! i) = int f")
    case False
    then have s: "control_frame getEvent f (k, g) = Inr (k, g)"
      using P(3,4,7) fF(1) by (intro control_frame_silent [OF P(1,2,6)]) auto
    have "bind_res (fold_res (control_frame getEvent) [Suc f..<F] (k, g)) (\<lambda>(_, g'). Inr g') =
      fold_res (apply_control (cc_mappings k)) (every_other (drop i evs)) g"
      using later False fF(1) by (intro Suc.hyps(1) [OF fF(2) P(1-7)]) auto
    then show ?thesis using s range by simp
  next
    case True
    let ?k = "k\<lparr>eventIndex := of_nat (min (i + 2) (length evs))\<rparr>"
    have h: "control_frame getEvent f (k, g) =
       bind_res (fold_res (apply_control (cc_mappings k)) [evs ! i, evs ! i] g) (\<lambda>g'. Inr (?k, g'))"
      using True later [of "Suc i"] fF(1) P(3) by (intro control_frame_hit [OF P(1,2,6)]) (use P(4) in auto)
    have r: "bind_res (fold_res (control_frame getEvent) [Suc f..<F] (?k, g1)) (\<lambda>(_, g'). Inr g') =
      fold_res (apply_control (cc_mappings ?k)) (every_other (drop (min (i + 2) (length evs)) evs)) g1" for g1
    proof (rule Suc.hyps(1) [OF fF(2)])
      show "\<forall>j < length evs. min (i + 2) (length evs) \<le> j \<longrightarrow>
          int (Suc f) \<le> frameOffset (evs ! j) \<and> frameOffset (evs ! j) < int F"
        using later by (simp add: min_le_iff_disj)
    qed (use P(1-5) fF(1) in simp_all)
    have "every_other (drop i evs) = evs ! i # evs ! i # every_other (drop (min (i + 2) (length evs)) evs)"
      using every_other_step [of i evs] True by (simp add: min_def)
    then have eo: "every_other (drop i evs) =
        [evs ! i, evs ! i] @ every_other (drop (min (i + 2) (length evs)) evs)" by simp
    have sp: "fold_res (apply_control (cc_mappings k)) (every_other (drop i evs)) g =
        bind_res (fold_res (apply_control (cc_mappings k)) [evs ! i, evs ! i] g)
          (fold_res (apply_control (cc_mappings k)) (every_other (drop (min (i + 2) (length evs)) evs)))"
      unfolding eo by (rule fold_res_append)
    have m: "cc_mappings ?k = cc_mappings k" by simp
    show ?thesis
    proof (cases "fold_res (apply_control (cc_mappings k)) [evs ! i, evs ! i] g")
      case (Inl x)
      show ?thesis unfolding range fold_res.simps(2) [of "control_frame getEvent"] h sp Inl by simp
    next
      case (Inr g1)
      show ?thesis
        unfolding range fold_res.simps(2) [of "control_frame getEvent"] h sp Inr bind_res_simps r m ..
    qed
  qed
qed

section \<open>The mix of a frame\<close>

definition mixed :: "rat list list \<Rightarrow> rat list list \<Rightarrow> nat \<Rightarrow> nat \<Rightarrow> nat list \<Rightarrow> rat \<Rightarrow> rat" where
  "mixed audio g ou frame is x =
     fold (\<lambda>i a. if g ! i ! ou \<noteq> 0 then rnd_float (a + rnd_float (audio ! i ! frame * g ! i ! ou)) else a) is x"

definition sized :: "nat \<Rightarrow> nat \<Rightarrow> rat list list \<Rightarrow> bool" where
  "sized outs n out \<longleftrightarrow> length out = outs \<and> (\<forall>ou < outs. n \<le> length (out ! ou))"

lemma mix_sample_one:
  assumes "sized outs n out" "frame < n" "T < outs"
  shows "sized outs n (mix_sample frame i audio g T out)"
    and "\<lbrakk>ou < outs; f < n\<rbrakk> \<Longrightarrow> mix_sample frame i audio g T out ! ou ! f =
        (if ou = T \<and> f = frame then mixed audio g ou frame [i] (out ! ou ! frame) else out ! ou ! f)"
  using assms by (auto simp: mix_sample_def mixed_def sized_def nth_list_update)

lemma mix_samples:
  assumes "sized outs n out" "frame < n" "T \<le> outs"
  shows "sized outs n (fold (\<lambda>ou. mix_sample frame i audio g ou) [0..<T] out) \<and>
     (\<forall>ou < outs. \<forall>f < n. fold (\<lambda>ou. mix_sample frame i audio g ou) [0..<T] out ! ou ! f =
        (if ou < T \<and> f = frame then mixed audio g ou frame [i] (out ! ou ! frame) else out ! ou ! f))"
  using assms(3)
proof (induction T)
  case 0
  then show ?case using assms(1) by simp
next
  case (Suc T)
  define o1 where "o1 = fold (\<lambda>ou. mix_sample frame i audio g ou) [0..<T] out"
  have T: "T < outs" using Suc.prems by simp
  have IH: "sized outs n o1" "\<forall>ou < outs. \<forall>f < n. o1 ! ou ! f =
      (if ou < T \<and> f = frame then mixed audio g ou frame [i] (out ! ou ! frame) else out ! ou ! f)"
    using Suc by (simp_all add: o1_def)
  have "fold (\<lambda>ou. mix_sample frame i audio g ou) [0..<Suc T] out = mix_sample frame i audio g T o1"
    by (simp add: o1_def)
  then show ?case
    using mix_sample_one [OF IH(1) assms(2) T, where i = i and audio = audio and g = g] IH(2) assms(2) by (auto simp: less_Suc_eq)
qed

lemma mix_inputs:
  assumes "sized outs n out" "frame < n"
  shows "sized outs n (fold (\<lambda>i. fold (\<lambda>ou. mix_sample frame i audio g ou) [0..<outs]) is out) \<and>
     (\<forall>ou < outs. \<forall>f < n. fold (\<lambda>i. fold (\<lambda>ou. mix_sample frame i audio g ou) [0..<outs]) is out ! ou ! f =
        (if f = frame then mixed audio g ou frame is (out ! ou ! frame) else out ! ou ! f))"
  using assms(1)
proof (induction "is" arbitrary: out)
  case Nil
  then show ?case by (simp add: mixed_def)
next
  case (Cons i js)
  let ?o = "fold (\<lambda>ou. mix_sample frame i audio g ou) [0..<outs] out"
  have s: "sized outs n ?o" and
    v: "\<forall>ou < outs. \<forall>f < n. ?o ! ou ! f =
        (if f = frame then mixed audio g ou frame [i] (out ! ou ! frame) else out ! ou ! f)"
    using mix_samples [OF Cons.prems assms(2), of outs i audio g] by simp_all
  show ?case using Cons.IH [OF s] v assms(2) by (simp add: mixed_def)
qed

lemma mix_frame_result:
  assumes "sized outs n out" "frame < n"
  shows "sized outs n (mix_frame frame audio g ins outs out)"
    and "\<lbrakk>ou < outs; f < n\<rbrakk> \<Longrightarrow> mix_frame frame audio g ins outs out ! ou ! f =
        (if f = frame then mixed audio g ou frame [0..<ins] (out ! ou ! frame) else out ! ou ! f)"
  using mix_inputs [OF assms] unfolding mix_frame_def by blast+

text \<open>With no controller and no gain event the loop mixes each frame with the same gains.\<close>

lemma quiet_loop:
  assumes "mr_event r = None" "sized outs n (mr_output r)" "set fs \<subseteq> {..<n}" "distinct fs"
  shows "\<exists>out. frame_loop Q C up rolling pos nframes getEvent [] audio outs fs r = Some (Inr (r\<lparr>mr_output := out\<rparr>)) \<and>
     sized outs n out \<and>
     (\<forall>ou < outs. \<forall>f < n. out ! ou ! f =
        (if f \<in> set fs then mixed audio (mr_gain r) ou f [0..<length audio] (mr_output r ! ou ! f)
         else mr_output r ! ou ! f))"
  using assms
proof (induction fs arbitrary: r)
  case Nil
  then show ?case by (auto intro!: exI [of _ "mr_output r"])
next
  case (Cons f fs)
  let ?o = "mix_frame f audio (mr_gain r) (length audio) outs (mr_output r)"
  have f: "f < n" using Cons.prems(3) by simp
  have g: "gain_loop Q C up rolling pos nframes (of_nat f) r = Some (Inr r)"
    using Cons.prems(1) by (subst gain_loop.simps) simp
  have "frame_loop Q C up rolling pos nframes getEvent [] audio outs (f # fs) r =
      frame_loop Q C up rolling pos nframes getEvent [] audio outs fs (r\<lparr>mr_output := ?o\<rparr>)"
    using g by simp
  moreover have "sized outs n ?o" using mix_frame_result(1) [OF Cons.prems(2) f] .
  ultimately show ?case
    using Cons.IH [of "r\<lparr>mr_output := ?o\<rparr>"] Cons.prems mix_frame_result(2) [OF Cons.prems(2) f]
    by auto
qed

text \<open>An event that is already late stops the gain events of the period.\<close>

lemma late_event_stays:
  assumes "mr_event r = Some e" "frameOffset e < 0"
    and "frame_loop Q C up rolling pos nframes getEvent conns audio outs fs r = Some (Inr r')"
  shows "mr_buffer r' = mr_buffer r \<and> mr_collector r' = mr_collector r \<and>
     (conns = [] \<longrightarrow> mr_gain r' = mr_gain r)"
  using assms
proof (induction fs arbitrary: r)
  case Nil
  then show ?case by simp
next
  case (Cons f fs)
  from Cons.prems(3) obtain h g where u: "update_all getEvent (of_nat f) conns (mr_heap r, mr_gain r) = Inr (h, g)"
    by (auto split: sum.splits)
  have "gain_loop Q C up rolling pos nframes (of_nat f) (r\<lparr>mr_heap := h, mr_gain := g\<rparr>) =
      Some (Inr (r\<lparr>mr_heap := h, mr_gain := g\<rparr>))"
    using Cons.prems(1,2) by (subst gain_loop.simps) simp
  then have "mr_buffer r' = mr_buffer r \<and> mr_collector r' = mr_collector r \<and> (conns = [] \<longrightarrow> mr_gain r' = g)"
    using Cons.IH [of "r\<lparr>mr_heap := h, mr_gain := g,
        mr_output := mix_frame f audio g (length audio) outs (mr_output r)\<rparr>"] Cons.prems u
    by simp
  then show ?case using u by auto
qed

lemma pull_null: "None \<in> set ks \<Longrightarrow> pull_inputs N ks w = Inl (Undefined ''null pointer'')"
  by (induction N ks w rule: pull_inputs.induct) auto

lemma zero_outputs_result:
  "zero_outputs n bs = Inr out \<Longrightarrow> length out = length bs \<and>
     (\<forall>ou < length bs. n \<le> length (out ! ou) \<and> (\<forall>f < n. out ! ou ! f = 0))"
  by (induction bs arbitrary: out)
     (auto simp: bind_res_eq_Inr zero_samples_def nth_append nth_Cons split: if_splits nat.splits)

lemma mixer_prepare_result:
  assumes "mixer_prepare U V N n m w = Some (Inr (m1, audio, w1))"
  shows "gainEventBuffer m1 = gainEventBuffer m" "gain m1 = gain m" "audioOutputCount m1 = audioOutputCount m"
    "zero_outputs n (audioOutput m) = Inr (audioOutput m1)"
  using assms by (auto simp: mixer_prepare_def bind_res_eq_Inr Let_def case_prod_beta split: bind_splits if_splits)

section \<open>Properties\<close>

text \<open>C26: connecting a source with one gain takes the next free inputs for its channels; every
  channel of the source then reaches some output with that gain and every output gets some channel
  of it, and no gain of another input changes.\<close>

theorem connect_gain_correct:
  fixes m :: "('k, 'm, 'u, 'v, 'q) mixer"
  assumes "n \<noteq> 0" "audioOutputCount m \<noteq> 0"
    and "shaped (unat (audioInputCount m)) (unat (audioOutputCount m)) (gain m)"
    and "length (audioInput m) = unat (audioInputCount m)"
    and "unat (connectedInputs m) + unat n \<le> unat (audioInputCount m)"
    and "\<forall>i < unat n. getAudioConnection i = Inr (K i)"
    and "\<forall>i < unat n. \<forall>s. link (K i) s = Inr (Some (K i))"
  shows "\<exists>m'. connect_gain link n getAudioConnection g m = (Inr (), m') \<and>
     unat (connectedInputs m') = unat (connectedInputs m) + unat n \<and>
     (\<forall>i < unat n. audioInput m' ! (unat (connectedInputs m) + i) = Some (K i)) \<and>
     (\<forall>i < unat n. \<exists>b < unat (audioOutputCount m). gain m' ! (unat (connectedInputs m) + i) ! b = g) \<and>
     (\<forall>b < unat (audioOutputCount m). \<exists>i < unat n. gain m' ! (unat (connectedInputs m) + i) ! b = g) \<and>
     (\<forall>a < unat (audioInputCount m). \<forall>b < unat (audioOutputCount m).
        a < unat (connectedInputs m) \<or> unat (connectedInputs m) + unat n \<le> a \<longrightarrow>
        gain m' ! a ! b = gain m ! a ! b)"
proof -
  let ?c = "unat (connectedInputs m)" and ?outs = "unat (audioOutputCount m)" and ?n = "unat n"
  let ?T = "max ?n ?outs" and ?ins = "unat (audioInputCount m)"
  have pos: "0 < ?n" "0 < ?outs" using assms(1,2) by (simp_all add: unat_gt_0)
  have b: "?ins < 2 ^ 32" "?T \<le> 2 ^ 32"
    using unat_u32_less [of "audioInputCount m"] unat_u32_less [of n] unat_u32_less [of "audioOutputCount m"]
    by simp_all
  obtain g1 where g1: "do_each (spread_gain n g) [0..<?T] m = (Inr (), m\<lparr>gain := g1\<rparr>)"
    "\<forall>a < ?ins. \<forall>b < ?outs. g1 ! a ! b = (if spread_hits ?T ?c ?n ?outs a b then g else gain m ! a ! b)"
    using spread_result [OF assms(3,2,1,5) b, of g] by blast
  have cn: "unat (connectedInputs m + n) = ?c + ?n"
    using assms(5) b(1) by (intro unat_add_bounded) simp
  then have nf: "\<not> audioInputCount m < connectedInputs m + n" using assms(5) by (simp add: word_less_nat_alt)
  define m' where "m' = m\<lparr>gain := g1, connectedInputs := connectedInputs m + n,
        audioInput := take ?c (audioInput m) @ map (\<lambda>i. Some (K i)) [0..<?n] @ drop (?c + ?n) (audioInput m)\<rparr>"
  have "connect_inputs link getAudioConnection ?n (m\<lparr>gain := g1\<rparr>) = (Inr (), m')"
    using connect_inputs_result [of ?n getAudioConnection K link "m\<lparr>gain := g1\<rparr>"] assms(4-7) b(1)
    by (simp add: m'_def)
  then have r: "connect_gain link n getAudioConnection g m = (Inr (), m')"
    using assms(1) nf g1(1) by (simp add: connect_gain_def)
  have rows: "?c + i < ?ins" if "i < ?n" for i using that assms(5) by linarith
  have "\<exists>b < ?outs. gain m' ! (?c + i) ! b = g" if "i < ?n" for i
    using spread_covers(1) [OF pos that, of ?c] g1(2) rows [OF that] by (auto simp: m'_def)
  moreover have "\<exists>i < ?n. gain m' ! (?c + i) ! b = g" if "b < ?outs" for b
    using spread_covers(2) [OF pos that, of ?c] g1(2) rows that by (force simp: m'_def)
  moreover have "\<not> spread_hits ?T ?c ?n ?outs a b" if "a < ?c \<or> ?c + ?n \<le> a" for a b
    using that mod_less_divisor [OF pos(1)] by (force simp: spread_hits_def simp flip: not_less)
  moreover have "audioInput m' ! (?c + i) = Some (K i)" if "i < ?n" for i
    using that assms(4,5) by (simp add: m'_def nth_append)
  ultimately show ?thesis using r g1(2) cn by (auto simp: m'_def)
qed

definition example_mixer ::
  "u32 \<Rightarrow> u32 \<Rightarrow> (nat, nat, control_mapping list, nat list, gain_event list) mixer"
where
  "example_mixer inputs outputs = Mixer 4 [] [] [] inputs outputs"

theorem connect_gain_correct_witness:
  "\<exists>m'. connect_gain (\<lambda>k s. Inr (Some k)) 1 (\<lambda>i. Inr (7 + i)) (1 / 2) (example_mixer 3 2) = (Inr (), m') \<and>
     audioInput m' ! 0 = Some 7 \<and> gain m' ! 0 ! 0 = 1 / 2 \<and> gain m' ! 0 ! 1 = 1 / 2 \<and> gain m' ! 2 ! 1 = 0"
proof -
  let ?m = "example_mixer 3 2"
  have e: "shaped (unat (audioInputCount ?m)) (unat (audioOutputCount ?m)) (gain ?m)"
    "length (audioInput ?m) = unat (audioInputCount ?m)"
    "unat (connectedInputs ?m) + unat (1 :: u32) \<le> unat (audioInputCount ?m)"
    "(1 :: u32) \<noteq> 0" "audioOutputCount ?m \<noteq> 0"
    by (simp_all add: example_mixer_def Mixer_def shaped_def)
  obtain m' where m': "connect_gain (\<lambda>k s. Inr (Some k)) 1 (\<lambda>i. Inr (7 + i)) (1 / 2) ?m = (Inr (), m')"
    "\<forall>i < unat (1 :: u32). audioInput m' ! (unat (connectedInputs ?m) + i) = Some (7 + i)"
    "\<forall>b < unat (audioOutputCount ?m). \<exists>i < unat (1 :: u32). gain m' ! (unat (connectedInputs ?m) + i) ! b = 1 / 2"
    "\<forall>a < unat (audioInputCount ?m). \<forall>b < unat (audioOutputCount ?m).
        a < unat (connectedInputs ?m) \<or> unat (connectedInputs ?m) + unat (1 :: u32) \<le> a \<longrightarrow>
        gain m' ! a ! b = gain ?m ! a ! b"
    using connect_gain_correct [OF e(4,5,1-3), of "\<lambda>i. Inr (7 + i)" "\<lambda>i. 7 + i" "\<lambda>k s. Inr (Some k)" "1 / 2"]
    by auto
  have "gain m' ! 2 ! 1 = gain ?m ! 2 ! 1"
    by (rule m'(4) [rule_format]) (simp_all add: example_mixer_def Mixer_def)
  then show ?thesis
    using m'(1-3) by (auto simp: example_mixer_def Mixer_def)
qed

text \<open>when the loop check refuses the first connection of a source, \<open>connect\<close> throws with the
  input already counted; where that input never had a connection, the next period reads through
  a null pointer.\<close>

theorem refused_connection_crashes:
  fixes m :: "('k, 'm, 'u, 'v, 'q) mixer" and V :: "('v, nat) queue_ops"
    and U :: "('u, control_mapping) queue_ops"
  assumes "n \<noteq> 0" "audioOutputCount m \<noteq> 0"
    and "shaped (unat (audioInputCount m)) (unat (audioOutputCount m)) (gain m)"
    and "length (audioInput m) = unat (audioInputCount m)"
    and "unat (connectedInputs m) + unat n \<le> unat (audioInputCount m)"
    and "getAudioConnection 0 = Inr k" "link k None = Inl e" "audioInput m ! unat (connectedInputs m) = None"
    and "fifo U cu" "fifo V cv"
  shows "\<exists>m'. connect_gain link n getAudioConnection g m = (Inl e, m') \<and>
     mixer_doProcess U V Q C up N rolling pos nframes m' c w = Some (Inl (Undefined ''null pointer''))"
proof -
  let ?c = "unat (connectedInputs m)" and ?outs = "unat (audioOutputCount m)" and ?n = "unat n"
  let ?ins = "unat (audioInputCount m)"
  have pos: "0 < ?n" using assms(1) by (simp add: unat_gt_0)
  have b: "?ins < 2 ^ 32" "max ?n ?outs \<le> 2 ^ 32"
    using unat_u32_less [of "audioInputCount m"] unat_u32_less [of n] unat_u32_less [of "audioOutputCount m"]
    by simp_all
  obtain g1 where g1: "do_each (spread_gain n g) [0..<max ?n ?outs] m = (Inr (), m\<lparr>gain := g1\<rparr>)"
    using spread_result [OF assms(3,2,1,5) b, of g] by blast
  have cn: "unat (connectedInputs m + n) = ?c + ?n"
    using assms(5) b(1) by (intro unat_add_bounded) simp
  then have nf: "\<not> audioInputCount m < connectedInputs m + n" using assms(5) by (simp add: word_less_nat_alt)
  define m' where "m' = m\<lparr>gain := g1, connectedInputs := connectedInputs m + 1\<rparr>"
  have "?c < ?ins" using pos assms(5) by simp
  then have i: "connect_input link getAudioConnection 0 (m\<lparr>gain := g1\<rparr>) = (Inl e, m')"
    using assms(4,6-8) by (simp add: connect_input_def Let_def m'_def)
  have "[0..<?n] = 0 # [1..<?n]" using pos by (simp add: upt_conv_Cons)
  then have "connect_inputs link getAudioConnection ?n (m\<lparr>gain := g1\<rparr>) = (Inl e, m')"
    using i by (simp add: connect_inputs_def)
  then have r: "connect_gain link n getAudioConnection g m = (Inl e, m')"
    using assms(1) nf g1(1) by (simp add: connect_gain_def)
  obtain u h where u: "drain U add_mapping (newControlMappingsQueue m') (control_heap m') = Some (u, h)"
    using fifo.drain_all [OF assms(9), of add_mapping "newControlMappingsQueue m'" "control_heap m'"] by blast
  obtain l where l: "QueueList_getFirst V (controlConnections m') = Some l"
    using fifo.ql_getFirst [OF assms(10)] by blast
  have c1: "unat (connectedInputs m') = Suc ?c"
    using \<open>?c < ?ins\<close> b(1) unat_add_bounded [of "connectedInputs m" 1] by (simp add: m'_def)
  have "None \<in> set (take (Suc ?c) (audioInput m))"
    using \<open>?c < ?ins\<close> assms(4,8) by (auto simp: in_set_conv_nth intro!: exI [of _ ?c])
  then have "pull_inputs N (take (unat (connectedInputs m')) (audioInput m')) w = Inl (Undefined ''null pointer'')"
    unfolding c1 by (intro pull_null) (simp add: m'_def)
  then have "mixer_prepare U V N (unat nframes) m' w = Some (Inl (Undefined ''null pointer''))"
    using u l c1 \<open>?c < ?ins\<close> assms(4) by (simp add: mixer_prepare_def m'_def not_less)
  then show ?thesis using r by (auto simp: mixer_doProcess_def)
qed

theorem refused_connection_crashes_witness:
  "\<exists>m'. connect_gain (\<lambda>k s. Inl (Logic_error ''Cannot connect infinite loop'')) 1 (\<lambda>i. Inr i) 1
       (example_mixer 1 1) = (Inl (Logic_error ''Cannot connect infinite loop''), m') \<and>
     mixer_doProcess (list_queue 16) (list_queue 4) (list_queue 8) (list_queue 8) (\<lambda>_. ())
       undefined True example_pos 4 m' empty_collector () = Some (Inl (Undefined ''null pointer''))"
  by (rule refused_connection_crashes [OF _ _ _ _ _ _ _ _ listq.fifo_axioms listq.fifo_axioms, where k = 0])
     (simp_all add: example_mixer_def Mixer_def shaped_def)

text \<open>in a period whose control messages on a connection lie at different frames the mixer acts
  on the first, third, fifth and so on, twice each, and on none of the others.\<close>

theorem control_hears_every_other:
  assumes "eventCount k = of_nat (length evs)" "length evs < 2 ^ 31" "F < 2 ^ 32" "eventIndex k = 0"
    and "\<forall>j < length evs. getEvent (cc_connection k) (of_nat j) = evs ! j"
    and "sorted_wrt (\<lambda>x y. frameOffset x < frameOffset y) evs"
    and "\<forall>e \<in> set evs. 0 \<le> frameOffset e \<and> frameOffset e < int F"
  shows "bind_res (fold_res (control_frame getEvent) [0..<F] (k, g)) (\<lambda>(_, g'). Inr g') =
     fold_res (apply_control (cc_mappings k)) (every_other evs) g"
  using frames_hear_every_other [of k evs F getEvent 0 0 g] assms by simp

definition example_control :: "int \<Rightarrow> u8 \<Rightarrow> midi_event" where
  "example_control f v = event.extend ((example_event 1 0)\<lparr>frameOffset := f\<rparr>)
     \<lparr>ev_type = 0xB0, databyte1 = 7, databyte2 = v, ev_channel = 0\<rparr>"

definition example_connection :: "nat control_connection" where
  "example_connection = \<lparr>cc_connection = 0,
     cc_mappings = [\<lparr>cm_connection = 0, cm_cc = 7, cm_input = 0, cm_output = 0\<rparr>],
     eventCount = 2, eventIndex = 0\<rparr>"

theorem control_hears_every_other_witness:
  "bind_res (fold_res (control_frame (\<lambda>_ i. if i = 0 then example_control 1 127 else example_control 3 0)) [0..<64]
       (example_connection, [[0]])) (\<lambda>(_, g'). Inr g') = Inr [[1]]"
proof -
  let ?evs = "[example_control 1 127, example_control 3 0]"
  have one: "rnd_float 1 = 1" using rnd_of_int [of 1 24] by simp
  have "fold_res (apply_control (cc_mappings example_connection)) (every_other ?evs) [[0]] = Inr [[1]]"
    by (simp add: apply_control_def apply_mapping_def matches_type_def TYPE_CONTROL_def example_control_def
        example_connection_def set_gain_def event.defs one)
  moreover have "getEvent = (\<lambda>_ i. if i = 0 then example_control 1 127 else example_control 3 0) \<Longrightarrow>
      j < length ?evs \<Longrightarrow> getEvent (cc_connection example_connection) (of_nat j :: u32) = ?evs ! j" for getEvent j
    by (auto simp: less_Suc_eq nth_Cons split: nat.split)
  ultimately show ?thesis
    using control_hears_every_other [of example_connection ?evs 64
        "\<lambda>_ i. if i = 0 then example_control 1 127 else example_control 3 0" "[[0]]"]
    by (auto simp: example_connection_def example_control_def event.defs)
qed

text \<open>a gain event that is already late when the buffer hands it out, or has bar zero and a negative
  offset left over, is taken from the buffer but neither applied nor given to the collector; no
  gain event of that period is applied.\<close>

theorem late_gain_lost:
  assumes "getNextEvent Q C up rolling pos nframes (gainEventBuffer m) c = (Some e, b', c')"
    and "frameOffset e < 0"
    and "mixer_doProcess U V Q C up N rolling pos nframes m c w = Some (Inr (m', c'', w'))"
  shows "gainEventBuffer m' = b' \<and> c'' = c' \<and> (ql_list (controlConnections m') = [] \<longrightarrow> gain m' = gain m)"
proof -
  from assms(3) obtain m1 audio w1 where p: "mixer_prepare U V N (unat nframes) m w = Some (Inr (m1, audio, w1))"
    by (auto simp: mixer_doProcess_def split: option.splits sum.splits)
  define r0 where "r0 = next_gain_event Q C up rolling pos nframes
     \<lparr>mr_gain = gain m1, mr_heap = control_heap m1, mr_event = None,
      mr_buffer = gainEventBuffer m1, mr_collector = c, mr_output = audioOutput m1\<rparr>"
  from assms(3) p obtain r where r:
    "frame_loop Q C up rolling pos nframes (\<lambda>k. eventOf N k w1) (ql_list (controlConnections m1))
       audio (unat (audioOutputCount m1)) [0..<unat nframes] r0 = Some (Inr r)"
    "m' = m1\<lparr>gain := mr_gain r, control_heap := mr_heap r, gainEventBuffer := mr_buffer r,
       audioOutput := mr_output r\<rparr>" "c'' = mr_collector r"
    by (auto simp: mixer_doProcess_def r0_def bind_res_eq_Inr)
  note mixer_prepare_result(1,2) [OF p]
  then have "mr_event r0 = Some e" "mr_buffer r0 = b'" "mr_collector r0 = c'" "mr_gain r0 = gain m"
    using assms(1) by (simp_all add: r0_def next_gain_event_def)
  then show ?thesis using late_event_stays [OF _ assms(2) r(1)] r(2,3) by simp
qed


definition example_network :: "(nat, nat, unit) network" where
  "example_network = \<lparr>processAudio = (\<lambda>_ w. w), audioOf = (\<lambda>k _. [2, 2]),
     processControl = (\<lambda>_ w. w), countOf = (\<lambda>_ _. 0), eventOf = (\<lambda>_ _ _. example_control 0 0)\<rparr>"

definition example_connected :: "gain_event list \<Rightarrow>
    (nat, nat, control_mapping list, nat list, gain_event list) mixer" where
  "example_connected es = (example_mixer 1 1)\<lparr>gain := [[1]], connectedInputs := 1, audioInput := [Some 0],
     audioOutput := [[0, 0]], gainEventBuffer := \<lparr>eventQueue = [], sortedEvents = es\<rparr>\<rparr>"

definition example_gain_event :: gain_event where
  "example_gain_event = event.extend ((example_event 0 0)\<lparr>frameOffset := - 1\<rparr>)
     \<lparr>ge_input = 0, ge_output = 0, ge_value = 0\<rparr>"

lemma example_zero_bar:
  "getNextEvent (list_queue 8) (list_queue 8) up True example_pos 2
     (gainEventBuffer (example_connected [example_gain_event])) c =
     (Some example_gain_event, \<lparr>eventQueue = [], sortedEvents = []\<rparr>, c)"
  by (simp add: getNextEvent_def buffer_update_def UPDATE_MAX_EVENTS_def numeral_eq_Suc list_queue_def
      example_connected_def example_gain_event_def example_event_def Event_at_def event.defs duration.defs)

lemma example_no_event:
  "getNextEvent (list_queue 8) (list_queue 8) up True example_pos 2
     (gainEventBuffer (example_connected [])) c = (None, \<lparr>eventQueue = [], sortedEvents = []\<rparr>, c)"
  by (simp add: getNextEvent_def buffer_update_def UPDATE_MAX_EVENTS_def numeral_eq_Suc list_queue_def
      example_connected_def)

lemma example_prepare:
  "mixer_prepare (list_queue 16) (list_queue 4) example_network 2 (example_connected es) () =
     Some (Inr (example_connected es, [[2, 2]], ()))"
  by (simp add: mixer_prepare_def example_connected_def example_mixer_def Mixer_def drain.simps
      QueueList_getFirst_def example_network_def list_queue_def zero_samples_def numeral_2_eq_2)

lemma example_connected_fields:
  "gain (example_connected es) = [[1]]" "control_heap (example_connected es) = []"
  "controlConnections (example_connected es) = \<lparr>ql_list = [], ql_queue = []\<rparr>"
  "audioOutputCount (example_connected es) = 1" "audioOutput (example_connected es) = [[0, 0]]"
  by (simp_all add: example_connected_def example_mixer_def Mixer_def)

theorem late_gain_lost_witness:
  "\<exists>m' c''. mixer_doProcess (list_queue 16) (list_queue 4) (list_queue 8) (list_queue 8) id example_network
       True example_pos 2 (example_connected [example_gain_event]) empty_collector () = Some (Inr (m', c'', ())) \<and>
     sortedEvents (gainEventBuffer m') = [] \<and> c'' = empty_collector"
proof -
  have "[0..<2] = [0, 1 :: nat]" by (simp add: numeral_eq_Suc)
  then obtain m' c'' where r: "mixer_doProcess (list_queue 16) (list_queue 4) (list_queue 8) (list_queue 8) id
      example_network True example_pos 2 (example_connected [example_gain_event]) empty_collector () =
      Some (Inr (m', c'', ()))"
    using example_zero_bar [of id "empty_collector :: (gain_event list, gain_event) collector"]
    by (simp add: mixer_doProcess_def example_prepare next_gain_event_def gain_loop.simps
        example_connected_fields example_gain_event_def event.defs)
  have "frameOffset example_gain_event < 0" by (simp add: example_gain_event_def event.defs)
  then show ?thesis using late_gain_lost [OF example_zero_bar _ r] r by simp
qed


section \<open>The factory's keys\<close>

text \<open>The key of the seventeenth mixer of a shape is that of the first with one more input.\<close>

theorem mixer_keys_collide:
  "ioHash inputs outputs + 16 = ioHash (inputs + 1) outputs" if "uint inputs < 2 ^ 12 - 1"
proof -
  have i: "uint (inputs + 1) = uint inputs + 1"
    using that by (simp add: uint_word_ariths)
  have d: "push_bit 4 a OR push_bit 16 b = push_bit 4 a + push_bit 16 (b :: int)" if "0 \<le> a" "a < 2 ^ 12" for a b
  proof (rule disjunctive_add [symmetric])
    fix n
    show "\<not> bit (push_bit 4 a) n \<or> \<not> bit (push_bit 16 b) n"
    proof (cases "16 \<le> n")
      case True
      have "take_bit 12 a = a" using that by (simp add: take_bit_int_eq_self)
      moreover have "\<not> n - 4 < 12" using True by arith
      then have "\<not> bit (take_bit 12 a) (n - 4)" unfolding bit_take_bit_iff by blast
      ultimately have "\<not> bit a (n - 4)" by simp
      then show ?thesis by (simp add: bit_push_bit_iff)
    qed (simp add: bit_push_bit_iff)
  qed
  have "0 \<le> uint inputs" by simp
  then have "ioHash inputs outputs = push_bit 4 (uint inputs) + push_bit 16 (uint outputs)"
    "ioHash (inputs + 1) outputs = push_bit 4 (uint inputs + 1) + push_bit 16 (uint outputs)"
    unfolding ioHash_def i using that by (intro d; linarith)+
  then show ?thesis by (simp add: push_bit_eq_mult)
qed

end
