(* ===== verification/Lv2_Host.thy ===== *)
theory Lv2_Host
  imports Script_Values Object_Cache "HOL-Library.List_Lexorder" "HOL-Library.Char_ord"
begin

text \<open>
  What the LV2 host keeps beside its plugins (\<open>src/lv2plugin.h\<close>, \<open>src/lv2plugin.cpp\<close>): the URID
  mapper, the state a script passes to a plugin, the worker that carries a plugin's messages
  between threads, and the plugin factory. The \<open>std::map\<close>s are association lists in the order of
  their keys. JACK's ring buffer and the lilv library are not part of the repository: their
  functions are arguments, and the locale \<open>ringbuffer\<close> states what JACK documents.
\<close>

section \<open>Ordered maps\<close>

fun insert_key :: "'k::linorder \<Rightarrow> 'v \<Rightarrow> ('k \<times> 'v) list \<Rightarrow> ('k \<times> 'v) list" where
  "insert_key k v [] = [(k, v)]"
| "insert_key k v ((k', v') # m) =
     (if k < k' then (k, v) # (k', v') # m
      else if k = k' then (k, v) # m
      else (k', v') # insert_key k v m)"

lemma map_of_insert_key: "map_of (insert_key k v m) = (map_of m)(k \<mapsto> v)"
  by (induction k v m rule: insert_key.induct) auto

lemma length_insert_key: "map_of m k = None \<Longrightarrow> length (insert_key k v m) = Suc (length m)"
  by (induction k v m rule: insert_key.induct) (auto split: if_splits)

lemma set_insert_key: "map_of m k = None \<Longrightarrow> set (insert_key k v m) = insert (k, v) (set m)"
  by (induction k v m rule: insert_key.induct) (auto split: if_splits)

section \<open>The URID mapper\<close>

type_synonym urid_map = "(string \<times> u32) list"

definition uriToId :: "string \<Rightarrow> urid_map \<Rightarrow> u32 \<times> urid_map" where
  "uriToId uri m =
     (case map_of m uri of
        None \<Rightarrow> (let newId = of_nat (length m + 10) in (newId, insert_key uri newId m))
      | Some i \<Rightarrow> (i, m))"

fun idToUri :: "u32 \<Rightarrow> urid_map \<Rightarrow> string option" where
  "idToUri urid [] = None"
| "idToUri urid ((uri, i) # m) = (if i = urid then Some uri else idToUri urid m)"

text \<open>The identifiers given out so far are the numbers from ten on, each once.\<close>

definition urids_ok :: "urid_map \<Rightarrow> bool" where
  "urids_ok m \<longleftrightarrow> distinct (map fst m) \<and> distinct (map snd m) \<and>
     (\<forall>i \<in> set (map snd m). unat i < length m + 10)"

lemma idToUri_iff:
  "distinct (map snd m) \<Longrightarrow> idToUri i m = Some uri \<longleftrightarrow> (uri, i) \<in> set m"
  by (induction i m rule: idToUri.induct) (auto dest: image_eqI [where f = snd] simp: rev_image_eqI)

lemma distinct_insert_key:
  assumes "map_of m k = None" "distinct (map fst m)" "distinct (map snd m)" "v \<notin> set (map snd m)"
  shows "distinct (map fst (insert_key k v m)) \<and> distinct (map snd (insert_key k v m))"
  using assms
proof (induction k v m rule: insert_key.induct)
  case (2 k v k' v' m)
  then have n: "k \<noteq> k'" "map_of m k = None" by (auto split: if_splits)
  then have "set (insert_key k v m) = insert (k, v) (set m)" by (intro set_insert_key)
  then have "fst ` set (insert_key k v m) = insert k (fst ` set m)"
    "snd ` set (insert_key k v m) = insert v (snd ` set m)" by simp_all
  moreover have "k \<notin> fst ` set m" using n(2) by (simp add: map_of_eq_None_iff)
  ultimately show ?case using 2 n by auto
qed simp

lemma uriToId_keeps:
  assumes "urids_ok m" "length m < 2 ^ 31" "uriToId uri m = (i, m')"
  shows "urids_ok m' \<and> map_of m' uri = Some i \<and> (\<forall>u j. map_of m u = Some j \<longrightarrow> map_of m' u = Some j)"
proof (cases "map_of m uri")
  case (Some j)
  then show ?thesis using assms by (simp add: uriToId_def)
next
  case None
  let ?n = "of_nat (length m + 10) :: u32"
  have r: "i = ?n" "m' = insert_key uri ?n m" using assms(3) None by (auto simp: uriToId_def Let_def)
  have n: "unat ?n = length m + 10" using assms(2) by (intro unat_u32_of_nat) simp
  have "?n \<notin> set (map snd m)" using assms(1) n by (force simp: urids_ok_def)
  then have d: "distinct (map fst m') \<and> distinct (map snd m')"
    using distinct_insert_key [OF None, of ?n] assms(1) r by (simp add: urids_ok_def)
  have "set m' = insert (uri, ?n) (set m)" "length m' = Suc (length m)"
    using set_insert_key [OF None] length_insert_key [OF None] r by simp_all
  then have "urids_ok m'" using d assms(1) n by (auto simp: urids_ok_def)
  then show ?thesis using r None by (auto simp: map_of_insert_key)
qed

section \<open>The state of a plugin\<close>

type_synonym lv2_state = "(int \<times> string) list"

text \<open>
  The pairs of the hash a script passes. What the mapper learns stays learnt when a later pair is
  refused.
\<close>

fun State :: "(sq_object \<times> sq_object) list \<Rightarrow> lv2_state \<Rightarrow> (urid_map, lv2_state) act" where
  "State [] st = ret st"
| "State (p # h) st =
     then_do (lift_res (hash_next (p # h))) (\<lambda>((k, v), _).
       case (k, v) of
         (StringValue key, StringValue val) \<Rightarrow>
           then_do (\<lambda>m. case uriToId key m of (i, m') \<Rightarrow> (Inr i, m')) (\<lambda>i.
             State h (put (uint i) val st))
       | _ \<Rightarrow> throw (Logic_error ''setState: key and value must be of type string''))"

definition State_file :: "string \<Rightarrow> lv2_state res" where
  "State_file filename = Inl (Logic_error ''LV2 State from file not yet implemented'')"

text \<open>The value with its length in bytes and its type.\<close>

definition retrieveState :: "u32 \<Rightarrow> u32 \<Rightarrow> lv2_state \<Rightarrow> string option \<times> nat \<times> u32" where
  "retrieveState stringType key st =
     (case map_of st (uint key) of
        Some val \<Rightarrow> (Some val, length val, stringType)
      | None \<Rightarrow> (None, 0, stringType))"

text \<open>The hash is an \<open>int\<close>; this is its bit pattern. \<open>hash\<close> stands for \<open>std::hash\<close>.\<close>

definition getHash :: "(string \<Rightarrow> u64) \<Rightarrow> lv2_state \<Rightarrow> u32" where
  "getHash hash st =
     fold (\<lambda>(k, val) h. (h XOR push_bit 1 (word_of_int k)) XOR push_bit 1 (ucast (hash val))) st 0"

section \<open>The worker\<close>

text \<open>
  A ring buffer of bytes: a write stores as many bytes as there is room for, a read takes as many
  as are there.
\<close>

record 'r ring_ops =
  ring_write :: "u8 list \<Rightarrow> 'r \<Rightarrow> 'r"
  ring_read :: "nat \<Rightarrow> 'r \<Rightarrow> u8 list \<times> 'r"
  ring_read_space :: "'r \<Rightarrow> nat"

locale ringbuffer =
  fixes R :: "'r ring_ops" and bytes :: "'r \<Rightarrow> u8 list" and room :: "'r \<Rightarrow> nat"
  assumes write_bytes: "bytes (ring_write R bs r) = bytes r @ take (room r) bs"
    and write_room: "room (ring_write R bs r) = room r - length bs"
    and read_bytes: "ring_read R n r = (bs, r') \<Longrightarrow> bs = take n (bytes r) \<and> bytes r' = drop n (bytes r)"
    and space: "ring_read_space R r = length (bytes r)"

text \<open>The reference ring: a list of at most \<open>n\<close> bytes. JACK's ring of 4096 holds 4095.\<close>

definition list_ring :: "nat \<Rightarrow> u8 list ring_ops" where
  "list_ring n =
     \<lparr>ring_write = (\<lambda>bs r. r @ take (n - length r) bs),
      ring_read = (\<lambda>k r. (take k r, drop k r)), ring_read_space = length\<rparr>"

text \<open>The bytes of a 32-bit size, least significant first, and the size some bytes stand for.\<close>

definition u32_bytes :: "u32 \<Rightarrow> u8 list" where
  "u32_bytes n = [ucast n, ucast (drop_bit 8 n), ucast (drop_bit 16 n), ucast (drop_bit 24 n)]"

definition bytes_u32 :: "u8 list \<Rightarrow> u32" where
  "bytes_u32 bs =
     (case take 4 (bs @ [0, 0, 0, 0]) of
        [a, b, c, d] \<Rightarrow> of_nat (unat a + 2 ^ 8 * unat b + 2 ^ 16 * unat c + 2 ^ 24 * unat d)
      | _ \<Rightarrow> 0)"

definition queueResponse :: "'r ring_ops \<Rightarrow> u8 list \<Rightarrow> 'r \<Rightarrow> 'r" where
  "queueResponse R data r = ring_write R data (ring_write R (u32_bytes (of_nat (length data))) r)"

text \<open>A request is written the same way, and the semaphore the worker waits on is posted.\<close>

definition scheduleWork :: "'r ring_ops \<Rightarrow> u8 list \<Rightarrow> 'r \<times> nat \<Rightarrow> 'r \<times> nat" where
  "scheduleWork R data rs = (queueResponse R data (fst rs), Suc (snd rs))"

text \<open>
  One turn of the worker's thread: it waits while the semaphore is zero. The plugin's \<open>work\<close> is an
  argument. Bytes that are missing are whatever the new buffer held; \<open>junk\<close> gives them.
\<close>

definition worker_turn ::
  "'r ring_ops \<Rightarrow> (nat \<Rightarrow> u8) \<Rightarrow> (u8 list \<Rightarrow> 'w \<Rightarrow> 'w) \<Rightarrow> 'r \<times> nat \<Rightarrow> 'w \<Rightarrow> (('r \<times> nat) \<times> 'w) option"
where
  "worker_turn R junk work rs w =
     (case rs of
        (r, 0) \<Rightarrow> None
      | (r, Suc n) \<Rightarrow>
          (let (sb, r1) = ring_read R 4 r;
               size = unat (bytes_u32 sb);
               (bs, r2) = ring_read R size r1
           in Some ((r2, n), work (bs @ map junk [length bs..<size]) w)))"

text \<open>
  In the process thread every response is handed to the plugin. The space to read is asked for once
  and counted down; the array a response is read into has 2048 bytes, and keeps the bytes of
  earlier responses that are not overwritten.
\<close>

partial_function (option) respond_loop ::
  "'r ring_ops \<Rightarrow> (u8 list \<Rightarrow> 'w \<Rightarrow> 'w) \<Rightarrow> u32 \<Rightarrow> u8 list \<Rightarrow> 'r \<Rightarrow> 'w \<Rightarrow> ('r \<times> 'w) res option"
where
  "respond_loop R work_response left response r w =
     (if left = 0 then Some (Inr (r, w))
      else (let (sb, r1) = ring_read R 4 r;
                size = bytes_u32 sb;
                (bs, r2) = ring_read R (unat size) r1;
                response' = bs @ drop (length bs) response
            in if 2048 < length bs \<or> 2048 < unat size
               then Some (Inl (Undefined ''access past the response buffer''))
               else respond_loop R work_response (left - (4 + size)) response' r2
                      (work_response (take (unat size) response') w)))"

definition respond ::
  "'r ring_ops \<Rightarrow> (u8 list \<Rightarrow> 'w \<Rightarrow> 'w) \<Rightarrow> u8 list \<Rightarrow> 'r \<Rightarrow> 'w \<Rightarrow> ('r \<times> 'w) res option"
where
  "respond R work_response response r w =
     respond_loop R work_response (of_nat (ring_read_space R r)) response r w"

lemma u32_byte: "unat (ucast (drop_bit k (n :: u32)) :: u8) = unat n div 2 ^ k mod 2 ^ 8"
proof -
  have "unat (drop_bit k n) = unat n div 2 ^ k"
    using unat_u32_less [of n]
    by (simp only: unsigned_drop_bit_eq) (simp add: drop_bit_eq_div take_bit_nat_eq_self)
  then show ?thesis by (simp add: unsigned_ucast_eq take_bit_eq_mod)
qed

lemma bytes_of_nat:
  fixes x :: nat
  assumes "x < 4294967296"
  shows "x mod 256 + 256 * (x div 256 mod 256) + 65536 * (x div 65536 mod 256)
      + 16777216 * (x div 16777216 mod 256) = x"
proof -
  have "x mod (256 * 256) = 256 * (x div 256 mod 256) + x mod 256"
    "x mod (65536 * 256) = 65536 * (x div 65536 mod 256) + x mod 65536"
    "x mod (16777216 * 256) = 16777216 * (x div 16777216 mod 256) + x mod 16777216"
    by (rule mod_mult2_eq)+
  moreover have "x mod 4294967296 = x" using assms by simp
  ultimately show ?thesis by simp
qed

lemma bytes_u32_roundtrip: "bytes_u32 (u32_bytes n) = n"
proof -
  have "unat (ucast n :: u8) = unat n mod 256" using u32_byte [of 0 n] by simp
  then have "bytes_u32 (u32_bytes n) = of_nat (unat n mod 256 + 256 * (unat n div 256 mod 256)
      + 65536 * (unat n div 65536 mod 256) + 16777216 * (unat n div 16777216 mod 256))"
    by (simp add: bytes_u32_def u32_bytes_def u32_byte)
  also have "\<dots> = n" using bytes_of_nat [OF unat_u32_less [of n]] by (simp only: word_of_nat_unat)
  finally show ?thesis .
qed

section \<open>What the worker's messages become\<close>

definition framed :: "u8 list \<Rightarrow> u8 list" where
  "framed d = u32_bytes (of_nat (length d)) @ d"

lemma length_framed [simp]: "length (framed d) = 4 + length d"
  by (simp add: framed_def u32_bytes_def)

context ringbuffer
begin

lemma queue_bytes:
  assumes "4 + length d \<le> room r"
  shows "bytes (queueResponse R d r) = bytes r @ framed d" "room (queueResponse R d r) = room r - (4 + length d)"
  using assms by (simp_all add: queueResponse_def write_bytes write_room framed_def u32_bytes_def)

lemma queue_all:
  "sum_list (map (\<lambda>d. 4 + length d) ds) \<le> room r \<Longrightarrow>
     bytes (fold (queueResponse R) ds r) = bytes r @ concat (map framed ds)"
proof (induction ds arbitrary: r)
  case (Cons d ds)
  then have "4 + length d \<le> room r" by simp
  from queue_bytes [OF this] Cons show ?case by simp
qed simp

text \<open>Reading the size and then as many bytes takes one message off the front.\<close>

lemma read_framed:
  assumes "bytes r = framed d @ rest" "length d < 2 ^ 32"
  obtains r1 r2 where "ring_read R 4 r = (u32_bytes (of_nat (length d)), r1)"
    "ring_read R (length d) r1 = (d, r2)" "bytes r2 = rest"
proof -
  obtain sb r1 where 1: "ring_read R 4 r = (sb, r1)" by fastforce
  obtain bs r2 where 2: "ring_read R (length d) r1 = (bs, r2)" by fastforce
  have "sb = u32_bytes (of_nat (length d))" "bytes r1 = d @ rest"
    using read_bytes [OF 1] assms(1) by (simp_all add: framed_def u32_bytes_def)
  then show ?thesis using that 1 2 read_bytes [OF 2] by simp
qed

lemma respond_delivers:
  assumes "bytes r = concat (map framed ds)" "\<forall>d \<in> set ds. length d \<le> 2048"
    and "length (bytes r) < 2 ^ 32"
  shows "\<exists>r'. respond_loop R f (of_nat (length (bytes r))) response r w = Some (Inr (r', fold f ds w)) \<and>
     bytes r' = []"
  using assms
proof (induction ds arbitrary: r response w)
  case Nil
  then show ?case by (subst respond_loop.simps) simp
next
  case (Cons d ds)
  have d: "length d \<le> 2048" "bytes r = framed d @ concat (map framed ds)" using Cons.prems by simp_all
  then obtain r1 r2 where read: "ring_read R 4 r = (u32_bytes (of_nat (length d)), r1)"
    "ring_read R (length d) r1 = (d, r2)" "bytes r2 = concat (map framed ds)"
    using read_framed [of r d "concat (map framed ds)"] by auto
  have n: "length (bytes r) = 4 + length d + length (bytes r2)" using d(2) read(3) by simp
  have s: "unat (of_nat (length d) :: u32) = length d" using d(1) by (intro unat_u32_of_nat) simp
  have left: "of_nat (length (bytes r)) - (4 + of_nat (length d)) = (of_nat (length (bytes r2)) :: u32)"
    unfolding n by simp
  have "unat (of_nat (length (bytes r)) :: u32) = length (bytes r)"
    using Cons.prems(3) by (rule unat_u32_of_nat)
  then have nz: "(of_nat (length (bytes r)) :: u32) \<noteq> 0" using n by auto
  have "respond_loop R f (of_nat (length (bytes r))) response r w =
      respond_loop R f (of_nat (length (bytes r2))) (d @ drop (length d) response) r2 (f d w)"
    using read(1,2) nz s d(1) left
    by (subst respond_loop.simps) (simp add: bytes_u32_roundtrip Let_def)
  then show ?case
    using Cons.IH [OF read(3), of "d @ drop (length d) response" "f d w"] Cons.prems n by auto
qed

lemma respond_overruns:
  assumes "bytes r = framed d @ rest" "2048 < length d" "length (bytes r) < 2 ^ 32"
  shows "respond_loop R f (of_nat (length (bytes r))) response r w =
     Some (Inl (Undefined ''access past the response buffer''))"
proof -
  have l: "length d < 2 ^ 32" using assms(1,3) by simp
  obtain r1 r2 where
    "ring_read R 4 r = (u32_bytes (of_nat (length d)), r1)" "ring_read R (length d) r1 = (d, r2)"
    by (rule read_framed [OF assms(1) l]) auto
  moreover have "unat (of_nat (length (bytes r)) :: u32) = length (bytes r)"
    using assms(3) by (rule unat_u32_of_nat)
  then have "(of_nat (length (bytes r)) :: u32) \<noteq> 0" using assms(1) by auto
  moreover have "unat (of_nat (length d) :: u32) = length d" using l by (rule unat_u32_of_nat)
  ultimately show ?thesis
    using assms(2) by (subst respond_loop.simps) (simp add: bytes_u32_roundtrip Let_def)
qed

end

interpretation listr: ringbuffer "list_ring n" "\<lambda>r. r" "\<lambda>r. n - length r"
  by unfold_locales (auto simp: list_ring_def min_def)

section \<open>The plugin factory\<close>

text \<open>
  What the factory asks lilv and the plugins: a plugin type by its URI, the features it requires,
  whether it uses a worker, whether it has a preset of a name, and what restoring a state answers
  (\<^const>\<open>None\<close>: the plugin has no state interface). \<open>make_plugin\<close> stands for the instance and the
  object made for it, with its default state restored, \<open>with_preset\<close> for the preset's values set
  on it.
\<close>

record ('pl, 'o) lilv_ops =
  plugin_by_uri :: "string \<Rightarrow> 'pl option"
  required_features :: "'pl \<Rightarrow> string list"
  uses_worker :: "'pl \<Rightarrow> bool"
  make_plugin :: "'pl \<Rightarrow> bool \<Rightarrow> 'o"
  has_preset :: "'pl \<Rightarrow> string \<Rightarrow> bool"
  with_preset :: "string \<Rightarrow> 'o \<Rightarrow> 'o"
  restore_state :: "'o \<Rightarrow> lv2_state \<Rightarrow> int option"

record ('pl, 'o, 'e) plugin_factory =
  pf_cache :: "('o, 'e) cache"
  pf_count :: "u32 \<Rightarrow> u32"
  pf_types :: "(string \<times> 'pl) list"
  pf_supported :: "string set"
  pf_workers :: nat

definition plugin_hash :: "(string \<Rightarrow> u64) \<Rightarrow> string \<Rightarrow> string option \<Rightarrow> lv2_state option \<Rightarrow> u64" where
  "plugin_hash hash uri preset st =
     (let h = hash (case preset of None \<Rightarrow> uri | Some p \<Rightarrow> uri @ '':'' @ p)
      in case st of None \<Rightarrow> h | Some s \<Rightarrow> h XOR scast (push_bit 1 (getHash hash s)))"

text \<open>The type of a plugin, checked when it is first asked for.\<close>

definition plugin_type ::
  "('pl, 'o) lilv_ops \<Rightarrow> string \<Rightarrow> (('pl, 'o, 'e) plugin_factory, 'pl) act"
where
  "plugin_type L uri s =
     (case map_of (pf_types s) uri of
        Some pl \<Rightarrow> (Inr pl, s)
      | None \<Rightarrow>
          (case plugin_by_uri L uri of
             None \<Rightarrow> (Inl (Logic_error (''Plugin is not installed on this system: '' @ uri)), s)
           | Some pl \<Rightarrow>
               (case filter (\<lambda>f. f \<notin> pf_supported s) (required_features L pl) of
                  f # _ \<Rightarrow>
                    (Inl (Logic_error (''Plugin '' @ uri @ '' requires unsupported feature: '' @ f)), s)
                | [] \<Rightarrow> (Inr pl, s\<lparr>pf_types := insert_key uri pl (pf_types s)\<rparr>))))"

definition to_string_int :: "int \<Rightarrow> string" where
  "to_string_int i = (if i < 0 then ''-'' @ decimal (nat (- i)) else decimal (nat i))"

text \<open>A new plugin: its worker first, then the instance, then its preset or its state.\<close>

definition new_plugin ::
  "('pl, 'o) lilv_ops \<Rightarrow> string \<Rightarrow> string option \<Rightarrow> lv2_state option \<Rightarrow> 'pl \<Rightarrow>
     (('pl, 'o, 'e) plugin_factory, 'o) act"
where
  "new_plugin L uri preset st pl s =
     (let w = uses_worker L pl; s1 = (if w then s\<lparr>pf_workers := Suc (pf_workers s)\<rparr> else s);
          ob = make_plugin L pl w
      in case preset of
           Some p \<Rightarrow>
             (if has_preset L pl p then (Inr (with_preset L p ob), s1)
              else (Inl (Logic_error (''Plugin '' @ uri @ '' has no such preset: '' @ p)), s1))
         | None \<Rightarrow>
             (case st of
                None \<Rightarrow> (Inr ob, s1)
              | Some v \<Rightarrow>
                  (case restore_state L ob v of
                     None \<Rightarrow> (Inr ob, s1)
                   | Some status \<Rightarrow>
                       (if status = 0 then (Inr ob, s1)
                        else (Inl (Logic_error (''Plugin '' @ uri @ '' setting state failed with code ''
                                @ to_string_int status)), s1)))))"

definition getPlugin ::
  "('pl, 'o) lilv_ops \<Rightarrow> (string \<Rightarrow> u64) \<Rightarrow> ('o \<Rightarrow> 'e \<Rightarrow> 'e) \<Rightarrow> ('o \<Rightarrow> 'e \<Rightarrow> 'e) \<Rightarrow>
     string \<Rightarrow> string option \<Rightarrow> lv2_state option \<Rightarrow> (('pl, 'o, 'e) plugin_factory, 'o) act"
where
  "getPlugin L hash newObject restoreObject uri preset st s =
     (let h = plugin_hash hash uri preset st;
          n = pf_count s (ucast h) + 1;
          key = sint (ucast (h + scast n) :: u32);
          (found, c) = findObject key (pf_cache s);
          s1 = s\<lparr>pf_count := (pf_count s)(ucast h := n), pf_cache := c\<rparr>
      in case found of
           Some ob \<Rightarrow> (Inr ob, s1\<lparr>pf_cache := c\<lparr>environment := restoreObject ob (environment c)\<rparr>\<rparr>)
         | None \<Rightarrow>
             then_do (plugin_type L uri) (\<lambda>pl.
             then_do (new_plugin L uri preset st pl) (\<lambda>ob.
             then_do (modify (\<lambda>s. s\<lparr>pf_cache := registerObject newObject key ob (pf_cache s)\<rparr>)) (\<lambda>_.
               ret ob))) s1)"

definition getPlugin_preset where
  "getPlugin_preset L hash newObject restoreObject uri preset =
     getPlugin L hash newObject restoreObject uri (Some preset) None"

definition getPlugin_state where
  "getPlugin_state L hash newObject restoreObject uri st =
     getPlugin L hash newObject restoreObject uri None (Some st)"

definition getPlugin_default where
  "getPlugin_default L hash newObject restoreObject uri =
     getPlugin L hash newObject restoreObject uri None None"

definition plugins_scriptReset :: "('pl, 'o, 'e) plugin_factory \<Rightarrow> ('pl, 'o, 'e) plugin_factory" where
  "plugins_scriptReset s = s\<lparr>pf_count := (\<lambda>_. 0)\<rparr>"

lemma plugin_type_keeps: "plugin_type L uri s = (r, s') \<Longrightarrow> pf_cache s' = pf_cache s"
  by (auto simp: plugin_type_def split: option.splits list.splits)

lemma new_plugin_keeps: "new_plugin L uri preset st pl s = (r, s') \<Longrightarrow> pf_cache s' = pf_cache s"
  by (auto simp: new_plugin_def Let_def split: option.splits if_splits)

definition plugin_key :: "u64 \<Rightarrow> ('pl, 'o, 'e) plugin_factory \<Rightarrow> int" where
  "plugin_key h s = sint (ucast (h + scast (pf_count s (ucast h) + 1)) :: u32)"

lemma getPlugin_stored:
  assumes "keys_sorted (instanceMap (pf_cache s))"
    and "getPlugin L hash newObject restoreObject uri preset st s = (Inr ob, s')"
  shows "map_of (instanceMap (pf_cache s')) (plugin_key (plugin_hash hash uri preset st) s) = Some (Some ob)"
proof -
  let ?k = "plugin_key (plugin_hash hash uri preset st) s"
  obtain found c where f: "findObject ?k (pf_cache s) = (found, c)" by fastforce
  have srt: "keys_sorted (instanceMap c)"
    using f assms(1) by (auto simp: findObject_def at_key_def Let_def keys_sorted_put split: option.splits)
  show ?thesis
  proof (cases found)
    case (Some q)
    then show ?thesis
      using assms(2) f findObject_used(1) [of ?k "pf_cache s" q c]
      by (auto simp: getPlugin_def Let_def plugin_key_def)
  next
    case None
    define s1 where "s1 = s\<lparr>pf_count := (pf_count s)(ucast (plugin_hash hash uri preset st) :=
        pf_count s (ucast (plugin_hash hash uri preset st)) + 1), pf_cache := c\<rparr>"
    have "then_do (plugin_type L uri) (\<lambda>pl.
             then_do (new_plugin L uri preset st pl) (\<lambda>ob.
             then_do (modify (\<lambda>s. s\<lparr>pf_cache := registerObject newObject ?k ob (pf_cache s)\<rparr>)) (\<lambda>_.
               ret ob))) s1 = (Inr ob, s')"
      using assms(2) f None by (simp add: getPlugin_def Let_def plugin_key_def s1_def)
    then obtain pl s2 s3 where "plugin_type L uri s1 = (Inr pl, s2)" "new_plugin L uri preset st pl s2 = (Inr ob, s3)"
      "s' = s3\<lparr>pf_cache := registerObject newObject ?k ob (pf_cache s3)\<rparr>"
      by (auto elim!: then_do_cases simp: modify_def ret_def)
    then have "pf_cache s' = registerObject newObject ?k ob c"
      using plugin_type_keeps new_plugin_keeps by (fastforce simp: s1_def)
    then show ?thesis using map_of_put [OF srt] by (simp add: registerObject_def)
  qed
qed

section \<open>Properties\<close>

text \<open>C28: the URID mapper gives every URI an identifier of its own, which stands for that URI from then
  on: asking again gives the same one, the unmap function gives the URI back, and no identifier
  given out before changes its meaning.\<close>

theorem urid_roundtrip:
  assumes "urids_ok m" "length m < 2 ^ 31" "uriToId uri m = (i, m')"
  shows "urids_ok m' \<and> idToUri i m' = Some uri \<and> uriToId uri m' = (i, m') \<and>
     (\<forall>u j. map_of m u = Some j \<longrightarrow> idToUri j m' = Some u)"
proof -
  note k = uriToId_keeps [OF assms]
  then have d: "distinct (map fst m')" "distinct (map snd m')" by (simp_all add: urids_ok_def)
  have "idToUri j m' = Some u" if "map_of m' u = Some j" for u j
    using idToUri_iff [OF d(2)] map_of_SomeD [OF that] by simp
  then show ?thesis using k by (auto simp: uriToId_def)
qed

theorem urid_roundtrip_witness:
  "\<exists>i m'. uriToId ''urn:b'' [(''urn:a'', 10)] = (i, m') \<and> idToUri i m' = Some ''urn:b'' \<and>
     idToUri 10 m' = Some ''urn:a''"
proof -
  obtain i m' where r: "uriToId ''urn:b'' [(''urn:a'', 10)] = (i, m')" by fastforce
  have "urids_ok [(''urn:a'', 10)]" by (simp add: urids_ok_def)
  from urid_roundtrip [OF this _ r] show ?thesis using r by simp
qed

text \<open>the responses a worker queues reach the plugin in the process thread one by one, in order and
  unchanged, and the ring is left empty, as long as they fit in it together and none has more
  than 2048 bytes.\<close>

theorem worker_responses_delivered:
  assumes "ringbuffer R bytes room" "bytes r = []"
    and "sum_list (map (\<lambda>d. 4 + length d) ds) \<le> room r" "room r < 2 ^ 32"
    and "\<forall>d \<in> set ds. length d \<le> 2048"
  shows "\<exists>r'. respond R work_response response (fold (queueResponse R) ds r) w =
       Some (Inr (r', fold work_response ds w)) \<and> bytes r' = []"
proof -
  let ?r = "fold (queueResponse R) ds r"
  have b: "bytes ?r = concat (map framed ds)"
    using ringbuffer.queue_all [OF assms(1,3)] assms(2) by simp
  have "length (concat (map framed ds)) = sum_list (map (\<lambda>d. 4 + length d) ds)"
    by (induction ds) simp_all
  then have "length (bytes ?r) < 2 ^ 32" using b assms(3,4) by simp
  from ringbuffer.respond_delivers [OF assms(1) b assms(5) this] show ?thesis
    by (simp add: respond_def ringbuffer.space [OF assms(1)])
qed

theorem worker_responses_delivered_witness:
  "\<exists>r'. respond (list_ring 4095) (\<lambda>d w. w @ [d]) (replicate 2048 0)
       (fold (queueResponse (list_ring 4095)) [[1, 2], [], [3]] []) [] = Some (Inr (r', [[1, 2], [], [3]])) \<and> r' = []"
  using worker_responses_delivered [OF listr.ringbuffer_axioms [of 4095], where r = "[]" and ds = "[[1, 2], [], [3]]"
      and work_response = "\<lambda>d w. w @ [d]" and response = "replicate 2048 0" and w = "[]"]
  by simp

text \<open>a response of more than 2048 bytes is read past the end of the array it is read into.\<close>

theorem worker_response_overrun:
  assumes "ringbuffer R bytes room" "bytes r = []" "4 + length d \<le> room r" "room r < 2 ^ 32" "2048 < length d"
  shows "respond R work_response response (queueResponse R d r) w =
     Some (Inl (Undefined ''access past the response buffer''))"
proof -
  have b: "bytes (queueResponse R d r) = framed d @ []"
    using ringbuffer.queue_bytes(1) [OF assms(1,3)] assms(2) by simp
  then have "length (bytes (queueResponse R d r)) < 2 ^ 32" using assms(3,4) by simp
  from ringbuffer.respond_overruns [OF assms(1) b assms(5) this] show ?thesis
    by (simp add: respond_def ringbuffer.space [OF assms(1)])
qed

text \<open>a plugin made in one run of the script is handed out in the next run for the same request, and
  for any other request of the same hash. Two states that give their keys one common value have
  the same hash whatever that value is, so after such a change the plugin keeps the old state.\<close>

theorem plugin_reused:
  assumes "keys_sorted (instanceMap (pf_cache s))" "pf_count s = (\<lambda>_. 0)"
    and "getPlugin L hash newObject restoreObject uri preset st s = (Inr ob, s1)"
    and "plugin_hash hash uri' preset' st' = plugin_hash hash uri preset st"
  shows "fst (getPlugin L hash newObject restoreObject uri' preset' st' (plugins_scriptReset s1)) = Inr ob"
proof -
  let ?h = "plugin_hash hash uri preset st" and ?s = "plugins_scriptReset s1"
  have "map_of (instanceMap (pf_cache ?s)) (plugin_key ?h ?s) = Some (Some ob)"
    using getPlugin_stored [OF assms(1,3)] assms(2) by (simp add: plugins_scriptReset_def plugin_key_def)
  then show ?thesis
    by (simp add: getPlugin_def assms(4) plugin_key_def Let_def findObject_def at_key_def)
qed

lemma common_value_cancels: "getHash hash [(k, v), (l, v)] = getHash hash [(k, w), (l, w)]"
  by (simp add: getHash_def ac_simps)

definition example_lilv :: "(string, string \<times> nat) lilv_ops" where
  "example_lilv = \<lparr>plugin_by_uri = Some, required_features = (\<lambda>_. []), uses_worker = (\<lambda>_. False),
     make_plugin = (\<lambda>pl _. (pl, 0)), has_preset = (\<lambda>_ _. False), with_preset = (\<lambda>_ ob. ob),
     restore_state = (\<lambda>_ _. Some 0)\<rparr>"

definition example_factory :: "(string, string \<times> nat, unit) plugin_factory" where
  "example_factory = \<lparr>pf_cache = \<lparr>instanceMap = [], activeScriptObjects = {}, environment = ()\<rparr>,
     pf_count = (\<lambda>_. 0), pf_types = [], pf_supported = {}, pf_workers = 0\<rparr>"

theorem plugin_reused_witness:
  "\<exists>s1. getPlugin_state example_lilv (\<lambda>s. of_nat (length s)) (\<lambda>_ e. e) (\<lambda>_ e. e) ''urn:p''
       [(10, ''on''), (11, ''on'')] example_factory = (Inr (''urn:p'', 0), s1) \<and>
     fst (getPlugin_state example_lilv (\<lambda>s. of_nat (length s)) (\<lambda>_ e. e) (\<lambda>_ e. e) ''urn:p''
       [(10, ''off''), (11, ''off'')] (plugins_scriptReset s1)) = Inr (''urn:p'', 0)"
proof -
  obtain s1 where r: "getPlugin example_lilv (\<lambda>s. of_nat (length s)) (\<lambda>_ e. e) (\<lambda>_ e. e) ''urn:p'' None
       (Some [(10, ''on''), (11, ''on'')]) example_factory = (Inr (''urn:p'', 0), s1)"
    by (simp add: getPlugin_def Let_def example_factory_def example_lilv_def findObject_def at_key_def
        plugin_type_def new_plugin_def)
  have "keys_sorted (instanceMap (pf_cache example_factory))" "pf_count example_factory = (\<lambda>_. 0)"
    by (simp_all add: example_factory_def keys_sorted_def)
  from plugin_reused [OF this r] show ?thesis
    using r common_value_cancels [of _ 10 "''on''" 11 "''off''"]
    by (auto simp: getPlugin_state_def plugin_hash_def)
qed

end
