(* ===== verification/Lv2_Midi.thy ===== *)
theory Lv2_Midi
  imports Ports
begin

text \<open>
  The MIDI ports of LV2 plugins (\<open>MidiInput\<close> and \<open>MidiOutput\<close> of \<open>src/lv2plugin.h\<close> and
  \<open>src/lv2plugin.cpp\<close>). An input merges the scheduled events with those of its connection into
  the plugin's atom sequence; an output reads the plugin's sequence back as events. The LV2 atom
  functions are not part of the repository: clearing and appending are arguments, with the laws of
  the locale \<open>atom_sequence\<close>.
\<close>

section \<open>Inputs\<close>

record ('k, 'a, 'q) midi_in =
  in_connection :: "'k option"
  in_buffer :: "('q, midi_event) event_buffer"
  localRolling :: bool
  atomSequence :: 'a

definition MidiInput :: "'a \<Rightarrow> 'q \<Rightarrow> ('k, 'a, 'q) midi_in" where
  "MidiInput a q = \<lparr>in_connection = None, in_buffer = \<lparr>eventQueue = q, sortedEvents = []\<rparr>,
     localRolling = False, atomSequence = a\<rparr>"

definition in_connectsTo :: "('k \<Rightarrow> bool option) \<Rightarrow> ('k, 'a, 'q) midi_in \<Rightarrow> bool option" where
  "in_connectsTo connects i = (case in_connection i of None \<Rightarrow> Some False | Some k \<Rightarrow> connects k)"

definition in_addEvent ::
  "('q, midi_event) queue_ops \<Rightarrow> midi_event \<Rightarrow> ('k, 'a, 'q) midi_in \<Rightarrow> ('k, 'a, 'q) midi_in option"
where
  "in_addEvent Q e i = map_option (\<lambda>b. i\<lparr>in_buffer := b\<rparr>) (addEvent Q e (in_buffer i))"

definition in_reset ::
  "('q, midi_event) queue_ops \<Rightarrow> ('c, 'o) queue_ops \<Rightarrow> (midi_event \<Rightarrow> 'o) \<Rightarrow> ('k, 'a, 'q) midi_in \<Rightarrow>
     ('c, 'o) collector \<Rightarrow> (('k, 'a, 'q) midi_in \<times> ('c, 'o) collector) res option"
where
  "in_reset Q C up i c =
     map_option (\<lambda>r. bind_res r (\<lambda>(b, c'). Inr (i\<lparr>in_buffer := b\<rparr>, c')))
       (recycleRemaining Q C up (in_buffer i) c)"

text \<open>
  An event of the sequence always has a body of three bytes; what the third is for a message of
  two depends on the memory, \<open>junk\<close>. Appending to a full sequence does nothing.
\<close>

definition atom_bytes :: "u8 \<Rightarrow> midi_event \<Rightarrow> u8 list" where
  "atom_bytes junk e = take 3 (pack e @ [junk])"

definition append_atom :: "'a midi_buffer_ops \<Rightarrow> nat \<Rightarrow> u8 list \<Rightarrow> 'a \<Rightarrow> 'a" where
  "append_atom A t bs a = (case mb_write A t bs a of None \<Rightarrow> a | Some a' \<Rightarrow> a')"

definition append_event :: "'a midi_buffer_ops \<Rightarrow> u8 \<Rightarrow> midi_event \<Rightarrow> 'a \<Rightarrow> 'a" where
  "append_event A junk e a =
     append_atom A (nat (if 0 \<le> frameOffset e then frameOffset e else 0)) (atom_bytes junk e) a"

definition all_notes_off :: "u8 list list" where
  "all_notes_off = map (\<lambda>channel. [TYPE_CONTROL + of_nat channel, 0x7b, 0]) [0..<16]"

text \<open>The loop over both sources of events, as long as one of them has an event.\<close>

partial_function (option) merge_loop ::
  "('q, midi_event) queue_ops \<Rightarrow> ('c, 'o) queue_ops \<Rightarrow> (midi_event \<Rightarrow> 'o) \<Rightarrow> 'a midi_buffer_ops \<Rightarrow> u8 \<Rightarrow>
     bool \<Rightarrow> jack_position \<Rightarrow> u32 \<Rightarrow> (u32 \<Rightarrow> midi_event) \<Rightarrow> u32 \<Rightarrow> midi_event option \<Rightarrow> midi_event option \<Rightarrow>
     u32 \<Rightarrow> ('q, midi_event) event_buffer \<Rightarrow> ('c, 'o) collector \<Rightarrow> 'a \<Rightarrow>
     (('q, midi_event) event_buffer \<times> ('c, 'o) collector \<times> 'a) option"
where
  "merge_loop Q C up A junk rolling pos nframes getEvent cnt be ce i b c a =
     (case be of
        None \<Rightarrow>
          (case ce of
             None \<Rightarrow> Some (b, c, a)
           | Some y \<Rightarrow>
               merge_loop Q C up A junk rolling pos nframes getEvent cnt None
                 (if i < cnt then Some (getEvent i) else None) (if i < cnt then i + 1 else i)
                 b c (append_event A junk y a))
      | Some x \<Rightarrow>
          (if ce = None \<or> frameOffset x < frameOffset (the ce)
           then (case getNextEvent Q C up rolling pos nframes b (recycle C (up x) c) of (be', b', c') \<Rightarrow>
                   merge_loop Q C up A junk rolling pos nframes getEvent cnt be' ce i b' c'
                     (append_event A junk x a))
           else merge_loop Q C up A junk rolling pos nframes getEvent cnt (Some x)
                  (if i < cnt then Some (getEvent i) else None) (if i < cnt then i + 1 else i)
                  b c (append_event A junk (the ce) a)))"

text \<open>
  The process method: the connection, if any, has its source processed; \<open>countOf\<close> and \<open>eventOf\<close> are
  what it answers then.
\<close>

definition in_process ::
  "('q, midi_event) queue_ops \<Rightarrow> ('c, 'o) queue_ops \<Rightarrow> (midi_event \<Rightarrow> 'o) \<Rightarrow> 'a midi_buffer_ops \<Rightarrow> u8 \<Rightarrow>
     ('k \<Rightarrow> 'w \<Rightarrow> 'w) \<Rightarrow> ('k \<Rightarrow> 'w \<Rightarrow> u32) \<Rightarrow> ('k \<Rightarrow> 'w \<Rightarrow> u32 \<Rightarrow> midi_event) \<Rightarrow>
     bool \<Rightarrow> jack_position \<Rightarrow> u32 \<Rightarrow> ('k, 'a, 'q) midi_in \<Rightarrow> ('c, 'o) collector \<Rightarrow> 'w \<Rightarrow>
     (('k, 'a, 'q) midi_in \<times> ('c, 'o) collector \<times> 'w) option"
where
  "in_process Q C up A junk processSource countOf eventOf rolling pos nframes p c w =
     (let a0 = mb_clear A (atomSequence p);
          a1 = (if localRolling p \<and> \<not> rolling then fold (append_atom A 0) all_notes_off a0 else a0);
          w1 = (case in_connection p of None \<Rightarrow> w | Some k \<Rightarrow> processSource k w);
          cnt = (case in_connection p of None \<Rightarrow> 0 | Some k \<Rightarrow> countOf k w1);
          ev = (case in_connection p of None \<Rightarrow> undefined | Some k \<Rightarrow> eventOf k w1);
          (be, b, c1) = getNextEvent Q C up rolling pos nframes (in_buffer p) c
      in map_option (\<lambda>(b', c', a'). (p\<lparr>in_buffer := b', localRolling := rolling, atomSequence := a'\<rparr>, c', w1))
           (merge_loop Q C up A junk rolling pos nframes ev cnt be (if cnt \<noteq> 0 then Some (ev 0) else None) 1
              b c1 a1))"

section \<open>Outputs\<close>

record atom_event =
  at_type :: u32
  at_frames :: int
  at_bytes :: "u8 list"

fun out_getEventCount :: "u32 \<Rightarrow> atom_event list \<Rightarrow> u32 \<Rightarrow> u32" where
  "out_getEventCount midiType [] counter = counter"
| "out_getEventCount midiType (e # es) counter =
     out_getEventCount midiType es (if at_type e = midiType then counter + 1 else counter)"

text \<open>The event found is unpacked into the one event object of the port.\<close>

fun out_getEvent :: "u32 \<Rightarrow> u32 \<Rightarrow> atom_event list \<Rightarrow> u32 \<Rightarrow> midi_event \<Rightarrow> (midi_event option \<times> midi_event) res" where
  "out_getEvent midiType i [] counter event = Inr (None, event)"
| "out_getEvent midiType i (e # es) counter event =
     (if at_type e = midiType
      then (if counter = i
            then bind_res (unpack (at_bytes e) event) (\<lambda>ev.
                   let ev' = ev\<lparr>frameOffset := at_frames e\<rparr> in Inr (Some ev', ev'))
            else out_getEvent midiType i es (counter + 1) event)
      else out_getEvent midiType i es counter event)"

section \<open>Merging\<close>

fun merge :: "midi_event list \<Rightarrow> midi_event list \<Rightarrow> midi_event list" where
  "merge [] ys = ys"
| "merge xs [] = xs"
| "merge (x # xs) (y # ys) =
     (if frameOffset x < frameOffset y then x # merge xs (y # ys) else y # merge (x # xs) ys)"

lemma merge_Nil [simp]: "merge xs [] = xs"
  by (cases xs) simp_all

lemma mset_merge: "mset (merge xs ys) = mset xs + mset ys"
  by (induction xs ys rule: merge.induct) auto

lemma set_merge: "set (merge xs ys) = set xs \<union> set ys"
  using arg_cong [OF mset_merge, of set_mset] by simp

lemma merge_sorted:
  assumes "sorted_wrt (\<lambda>x y. frameOffset x \<le> frameOffset y) xs"
    and "sorted_wrt (\<lambda>x y. frameOffset x \<le> frameOffset y) ys"
  shows "sorted_wrt (\<lambda>x y. frameOffset x \<le> frameOffset y) (merge xs ys)"
  using assms by (induction xs ys rule: merge.induct) (auto simp: set_merge)

text \<open>
  The events the buffer hands out when each is recycled before the next is asked for, and the
  buffer and collector at the end.
\<close>

inductive hands_out ::
  "('q, midi_event) queue_ops \<Rightarrow> ('c, 'o) queue_ops \<Rightarrow> (midi_event \<Rightarrow> 'o) \<Rightarrow> bool \<Rightarrow> jack_position \<Rightarrow> u32 \<Rightarrow>
     midi_event option \<Rightarrow> ('q, midi_event) event_buffer \<Rightarrow> ('c, 'o) collector \<Rightarrow> midi_event list \<Rightarrow>
     ('q, midi_event) event_buffer \<Rightarrow> ('c, 'o) collector \<Rightarrow> bool"
  for Q C up rolling pos nframes
where
  nothing: "hands_out Q C up rolling pos nframes None b c [] b c"
| next_event: "\<lbrakk>getNextEvent Q C up rolling pos nframes b (recycle C (up x) c) = (be, b1, c1);
     hands_out Q C up rolling pos nframes be b1 c1 xs b2 c2\<rbrakk> \<Longrightarrow>
     hands_out Q C up rolling pos nframes (Some x) b c (x # xs) b2 c2"

inductive_cases hands_out_NoneE: "hands_out Q C up rolling pos nframes None b c xs b2 c2"
inductive_cases hands_out_SomeE: "hands_out Q C up rolling pos nframes (Some x) b c xs b2 c2"


lemma merge_loop_result:
  assumes "hands_out Q C up rolling pos nframes be b c xs b2 c2"
    and "length cs < 2 ^ 31" "cnt = of_nat (length cs)" "\<forall>j < length cs. getEvent (of_nat j) = cs ! j"
    and "k \<le> length cs" "ce = (if k < length cs then Some (cs ! k) else None)"
    and "k < length cs \<longrightarrow> i = of_nat (Suc k)"
  shows "merge_loop Q C up A junk rolling pos nframes getEvent cnt be ce i b c a =
     Some (b2, c2, fold (append_event A junk) (merge xs (drop k cs)) a)"
  using assms
proof (induction "length xs + (length cs - k)" arbitrary: be b c xs k ce i a rule: less_induct)
  case less
  note P = less.prems
  let ?loop = "merge_loop Q C up A junk rolling pos nframes getEvent cnt"
  have small: "unat (of_nat j :: u32) = j" if "j \<le> length cs" for j
    using P(2) that by (intro unat_u32_of_nat) simp
  have take_connection: "?loop be (if i < cnt then Some (getEvent i) else None) (if i < cnt then i + 1 else i)
        b c (append_event A junk (cs ! k) a) =
      Some (b2, c2, fold (append_event A junk) (merge xs (drop (Suc k) cs)) (append_event A junk (cs ! k) a))"
    if k: "k < length cs"
  proof (rule less.hyps [OF _ P(1-4)])
    have "i < cnt \<longleftrightarrow> Suc k < length cs"
      using P(3,7) k small [of "Suc k"] small [of "length cs"] by (simp add: word_less_nat_alt del: of_nat_Suc)
    moreover have "getEvent i = cs ! Suc k" if "Suc k < length cs"
      using P(4,7) that k by auto
    ultimately show "(if i < cnt then Some (getEvent i) else None) =
        (if Suc k < length cs then Some (cs ! Suc k) else None)"
      "Suc k < length cs \<longrightarrow> (if i < cnt then i + 1 else i) = of_nat (Suc (Suc k))"
      using P(7) k by simp_all
  qed (use k in simp_all)
  have d: "drop k cs = cs ! k # drop (Suc k) cs" if "k < length cs"
    using that by (simp add: Cons_nth_drop_Suc)
  show ?case
  proof (cases be)
    case None
    from P(1) have xs: "xs = []" "b2 = b" "c2 = c" unfolding None by (auto elim: hands_out_NoneE)
    show ?thesis
    proof (cases "k < length cs")
      case True
      then have "?loop be ce i b c a = ?loop be (if i < cnt then Some (getEvent i) else None)
          (if i < cnt then i + 1 else i) b c (append_event A junk (cs ! k) a)"
        using None P(6) by (subst merge_loop.simps) simp
      then show ?thesis using take_connection [OF True] d [OF True] xs(1) by simp
    next
      case False
      then have "?loop be ce i b c a = Some (b, c, a)"
        using None P(6) by (subst merge_loop.simps) simp
      then show ?thesis using False xs by simp
    qed
  next
    case (Some x)
    from P(1) obtain be' b1 c1 ys where n:
      "getNextEvent Q C up rolling pos nframes b (recycle C (up x) c) = (be', b1, c1)"
      "hands_out Q C up rolling pos nframes be' b1 c1 ys b2 c2" "xs = x # ys"
      unfolding Some by (auto elim: hands_out_SomeE)
    show ?thesis
    proof (cases "ce = None \<or> frameOffset x < frameOffset (the ce)")
      case True
      then have "?loop be ce i b c a = ?loop be' ce i b1 c1 (append_event A junk x a)"
        using Some n(1) by (subst merge_loop.simps) simp
      also have "\<dots> = Some (b2, c2, fold (append_event A junk) (merge ys (drop k cs)) (append_event A junk x a))"
        using n(3) by (intro less.hyps [OF _ n(2) P(2-7)]) simp
      moreover have "merge xs (drop k cs) = x # merge ys (drop k cs)"
        using True P(6) n(3) d by (cases "k < length cs") simp_all
      ultimately show ?thesis by simp
    next
      case False
      then have k: "k < length cs" "ce = Some (cs ! k)" using P(6) by (auto split: if_splits)
      then have "?loop be ce i b c a = ?loop be (if i < cnt then Some (getEvent i) else None)
          (if i < cnt then i + 1 else i) b c (append_event A junk (cs ! k) a)"
        using Some False by (subst merge_loop.simps) simp
      moreover have "merge xs (drop k cs) = cs ! k # merge xs (drop (Suc k) cs)"
        using False k n(3) d by simp
      ultimately show ?thesis using take_connection [OF k(1)] by simp
    qed
  qed
qed

text \<open>A MIDI port whose sequence has room for a fixed number of three byte events.\<close>

locale atom_port = midi_port Q ct C cc A wr
  for Q :: "('q, midi_event) queue_ops" and ct and C :: "('c, 'o) queue_ops" and cc
    and A :: "'a midi_buffer_ops" and wr +
  fixes room :: nat
  assumes full: "mb_write A t bs a = None \<longleftrightarrow> room \<le> length (wr a)"
begin

lemma append_atom_written:
  "length (wr a) \<le> room \<Longrightarrow> wr (append_atom A t bs a) = take room (wr a @ [(t, bs)])"
  using full [of t bs a] write_appends [of t bs a]
  by (auto simp: append_atom_def split: option.split)

lemma append_atoms_written:
  assumes "length (wr a) \<le> room"
  shows "wr (fold (\<lambda>(t, bs). append_atom A t bs) es a) = take room (wr a @ es)"
  using assms
proof (induction es arbitrary: a)
  case (Cons e es)
  have "length (wr (append_atom A (fst e) (snd e) a)) \<le> room"
    using append_atom_written [OF Cons.prems] by simp
  then show ?case
    using Cons append_atom_written [OF Cons.prems, of "fst e" "snd e"]
    by (cases "length (wr a) < room") (auto simp: case_prod_beta take_Cons')
qed simp

lemma hands_out_exists:
  "\<exists>xs b2 c2. hands_out Q C up rolling pos n be b c xs b2 c2"
proof (induction "buffered ct b" arbitrary: be b c rule: less_induct)
  case less
  show ?case
  proof (cases be)
    case None
    then show ?thesis by (blast intro: hands_out.nothing)
  next
    case (Some x)
    obtain be' b1 c1 where g: "getNextEvent Q C up rolling pos n b (recycle C (up x) c) = (be', b1, c1)"
      by (metis surj_pair)
    have "\<exists>xs b2 c2. hands_out Q C up rolling pos n be' b1 c1 xs b2 c2"
    proof (cases be')
      case None
      then show ?thesis by (blast intro: hands_out.nothing)
    next
      case (Some y)
      then show ?thesis using less getNextEvent_shrinks g by blast
    qed
    then show ?thesis using g Some by (blast intro: hands_out.next_event)
  qed
qed

lemma hands_out_account:
  assumes "hands_out Q C up rolling pos n be b c xs b2 c2"
  shows "\<exists>ds. image_mset ident (mset (case be of None \<Rightarrow> [] | Some e \<Rightarrow> [e])) + pending ct b =
       image_mset ident (mset xs) + image_mset ident (mset ds) + pending ct b2 \<and>
     collected cc c2 = collected cc c + mset (map up xs) + mset (map (\<lambda>d. up (updateFrameOffset pos d)) ds) \<and>
     (\<forall>d \<in> set ds. rolling \<and> calculateFrameOffset d pos < -256)"
  using assms
proof induction
  case (nothing b c)
  show ?case by (rule exI [of _ "[]"]) simp
next
  case (next_event b x c be b1 c1 xs b2 c2)
  from next_event.IH obtain ds where ds:
    "image_mset ident (mset (case be of None \<Rightarrow> [] | Some e \<Rightarrow> [e])) + pending ct b1 =
       image_mset ident (mset xs) + image_mset ident (mset ds) + pending ct b2"
    "collected cc c2 = collected cc c1 + mset (map up xs) + mset (map (\<lambda>d. up (updateFrameOffset pos d)) ds)"
    "\<forall>d \<in> set ds. rolling \<and> calculateFrameOffset d pos < -256" by blast
  from getNextEvent_outcome [OF next_event.hyps(1)] obtain es where es:
    "pending ct b = image_mset ident (mset es) +
       image_mset ident (mset (case be of None \<Rightarrow> [] | Some e \<Rightarrow> [e])) + pending ct b1"
    "collected cc c1 = collected cc (recycle C (up x) c) + mset (map (\<lambda>d. up (updateFrameOffset pos d)) es)"
    "\<forall>d \<in> set es. rolling \<and> calculateFrameOffset d pos < -256"
    by (metis (no_types, lifting))
  show ?case
    by (rule exI [of _ "es @ ds"]) (use ds es coll.collected_recycle in \<open>auto simp: ac_simps\<close>)
qed

end

interpretation list_atoms: atom_port "list_queue n" "\<lambda>q. q" "list_queue m" "\<lambda>q. q" "list_midi_buffer room" "\<lambda>b. b" room
  by unfold_locales (auto simp: list_midi_buffer_def)

definition atom_wire :: "u8 \<Rightarrow> midi_event \<Rightarrow> nat \<times> u8 list" where
  "atom_wire junk e = (nat (frameOffset e), atom_bytes junk e)"

definition offs :: "bool \<Rightarrow> ('k, 'a, 'q) midi_in \<Rightarrow> (nat \<times> u8 list) list" where
  "offs rolling p = (if localRolling p \<and> \<not> rolling then map (Pair 0) all_notes_off else [])"

lemma append_events:
  "fold (append_event A junk) es a = fold (\<lambda>(t, bs). append_atom A t bs) (map (atom_wire junk) es) a"
  by (induction es arbitrary: a) (simp_all add: append_event_def atom_wire_def max_def)

lemma append_offs: "fold (append_atom A 0) bss a = fold (\<lambda>(t, bs). append_atom A t bs) (map (Pair 0) bss) a"
  by (induction bss arbitrary: a) simp_all

text \<open>What the connection answers in a period, as a list.\<close>

definition answers :: "('k \<Rightarrow> 'w \<Rightarrow> u32) \<Rightarrow> ('k \<Rightarrow> 'w \<Rightarrow> u32 \<Rightarrow> midi_event) \<Rightarrow> 'k option \<Rightarrow> 'w \<Rightarrow> midi_event list \<Rightarrow> bool" where
  "answers countOf eventOf conn w cs \<longleftrightarrow> length cs < 2 ^ 31 \<and>
     (case conn of None \<Rightarrow> cs = []
      | Some k \<Rightarrow> countOf k w = of_nat (length cs) \<and> (\<forall>j < length cs. eventOf k w (of_nat j) = cs ! j))"

definition pulled :: "('k \<Rightarrow> 'w \<Rightarrow> 'w) \<Rightarrow> 'k option \<Rightarrow> 'w \<Rightarrow> 'w" where
  "pulled processSource conn w = (case conn of None \<Rightarrow> w | Some k \<Rightarrow> processSource k w)"

context atom_port
begin

lemma in_process_result:
  assumes "answers countOf eventOf (in_connection p) (pulled processSource (in_connection p) w) cs"
  shows "\<exists>xs p' c'. in_process Q C up A junk processSource countOf eventOf rolling pos n p c w =
       Some (p', c', pulled processSource (in_connection p) w) \<and>
     wr (atomSequence p') = take room (offs rolling p @ map (atom_wire junk) (merge xs cs)) \<and>
     localRolling p' = rolling \<and>
     (\<exists>ds. pending ct (in_buffer p) =
          image_mset ident (mset xs) + image_mset ident (mset ds) + pending ct (in_buffer p') \<and>
        collected cc c' = collected cc c + mset (map up xs) + mset (map (\<lambda>d. up (updateFrameOffset pos d)) ds) \<and>
        (\<forall>d \<in> set ds. rolling \<and> calculateFrameOffset d pos < -256))"
proof -
  let ?w = "pulled processSource (in_connection p) w"
  define cnt where "cnt = (case in_connection p of None \<Rightarrow> 0 | Some k \<Rightarrow> countOf k ?w)"
  define ev where "ev = (case in_connection p of None \<Rightarrow> undefined | Some k \<Rightarrow> eventOf k ?w)"
  define a1 where "a1 = fold (\<lambda>(t, bs). append_atom A t bs) (offs rolling p) (mb_clear A (atomSequence p))"
  have cs: "length cs < 2 ^ 31" "cnt = of_nat (length cs)" "\<forall>j < length cs. ev (of_nat j) = cs ! j"
    using assms by (auto simp: answers_def cnt_def ev_def split: option.splits)
  obtain be b1 c1 where g: "getNextEvent Q C up rolling pos n (in_buffer p) c = (be, b1, c1)" by (metis surj_pair)
  obtain xs b2 c2 where h: "hands_out Q C up rolling pos n be b1 c1 xs b2 c2" using hands_out_exists by blast
  have "unat cnt = length cs" using cs(1,2) by (simp add: unat_u32_of_nat)
  then have "cnt \<noteq> 0 \<longleftrightarrow> 0 < length cs" by (auto simp: unat_eq_zero)
  then have first: "(if cnt \<noteq> 0 then Some (ev 0) else None) = (if 0 < length cs then Some (cs ! 0) else None)"
    using cs(3) by (metis semiring_1_class.of_nat_0)
  define p' where "p' = p\<lparr>in_buffer := b2, localRolling := rolling,
      atomSequence := fold (append_event A junk) (merge xs cs) a1\<rparr>"
  have r: "in_process Q C up A junk processSource countOf eventOf rolling pos n p c w = Some (p', c2, ?w)"
  proof -
    have "(if localRolling p \<and> \<not> rolling then fold (append_atom A 0) all_notes_off (mb_clear A (atomSequence p))
        else mb_clear A (atomSequence p)) = a1"
      by (simp add: a1_def offs_def append_offs)
    moreover have "merge_loop Q C up A junk rolling pos n ev cnt be (if cnt \<noteq> 0 then Some (ev 0) else None) 1 b1 c1 a1 =
        Some (b2, c2, fold (append_event A junk) (merge xs cs) a1)"
      unfolding first using merge_loop_result [OF h cs(1-3), of 0 _ 1 A junk a1] by simp
    ultimately show ?thesis
      unfolding in_process_def Let_def cnt_def [symmetric] ev_def [symmetric] pulled_def [symmetric]
      by (simp only: g prod.case) (simp add: p'_def)
  qed
  have "wr a1 = take room (offs rolling p)"
    using append_atoms_written [of "mb_clear A (atomSequence p)" "offs rolling p"] by (simp add: a1_def clear_empty)
  then have "wr (atomSequence p') = take room (offs rolling p @ map (atom_wire junk) (merge xs cs))"
    using append_atoms_written [of a1 "map (atom_wire junk) (merge xs cs)"]
    by (simp add: p'_def append_events min_def)
  moreover from hands_out_account [OF h] obtain ds where ds:
    "image_mset ident (mset (case be of None \<Rightarrow> [] | Some e \<Rightarrow> [e])) + pending ct b1 =
       image_mset ident (mset xs) + image_mset ident (mset ds) + pending ct b2"
    "collected cc c2 = collected cc c1 + mset (map up xs) + mset (map (\<lambda>d. up (updateFrameOffset pos d)) ds)"
    "\<forall>d \<in> set ds. rolling \<and> calculateFrameOffset d pos < -256" by blast
  moreover from getNextEvent_outcome [OF g] obtain es where
    "pending ct (in_buffer p) = image_mset ident (mset es) +
       image_mset ident (mset (case be of None \<Rightarrow> [] | Some e \<Rightarrow> [e])) + pending ct b1"
    "collected cc c1 = collected cc c + mset (map (\<lambda>d. up (updateFrameOffset pos d)) es)"
    "\<forall>d \<in> set es. rolling \<and> calculateFrameOffset d pos < -256"
    by (metis (no_types, lifting))
  ultimately show ?thesis
    using r by (intro exI [of _ xs] exI [of _ p'] exI [of _ c2] conjI exI [of _ "es @ ds"])
      (auto simp: p'_def ac_simps)
qed

end

section \<open>Properties\<close>


definition example_midi_in :: "(nat, (nat \<times> u8 list) list, midi_event list) midi_in" where
  "example_midi_in = \<lparr>in_connection = Some 0,
     in_buffer = \<lparr>eventQueue = [], sortedEvents = [example_midi 0 0]\<rparr>, localRolling = False, atomSequence = []\<rparr>"


text \<open>what a plugin writes to a MIDI output is read back by index: the count is the number of MIDI
  events in the sequence, and index \<open>i\<close> gives the \<open>i\<close>-th of them, unpacked, at its frame.\<close>

theorem midi_output_indexed:
  assumes "length es < 2 ^ 31"
  shows "out_getEventCount mt es 0 = of_nat (length (filter (\<lambda>e. at_type e = mt) es)) \<and>
    out_getEvent mt i es 0 event =
      (case drop (unat i) (filter (\<lambda>e. at_type e = mt) es) of
         [] \<Rightarrow> Inr (None, event)
       | e # _ \<Rightarrow> bind_res (unpack (at_bytes e) event) (\<lambda>ev.
           Inr (Some (ev\<lparr>frameOffset := at_frames e\<rparr>), ev\<lparr>frameOffset := at_frames e\<rparr>)))"
proof -
  have "out_getEventCount mt es k = k + of_nat (length (filter (\<lambda>e. at_type e = mt) es))" for k
    by (induction es arbitrary: k) simp_all
  then have cnt: "out_getEventCount mt es 0 = of_nat (length (filter (\<lambda>e. at_type e = mt) es))" by simp
  have "out_getEvent mt i es (of_nat k) event =
      (case drop (unat i - k) (filter (\<lambda>e. at_type e = mt) es) of
         [] \<Rightarrow> Inr (None, event)
       | e # _ \<Rightarrow> bind_res (unpack (at_bytes e) event) (\<lambda>ev.
           Inr (Some (ev\<lparr>frameOffset := at_frames e\<rparr>), ev\<lparr>frameOffset := at_frames e\<rparr>)))"
    if "k + length es < 2 ^ 32" "k \<le> unat i" for k
    using that
  proof (induction es arbitrary: k)
    case (Cons e es)
    have k: "unat (of_nat k :: u32) = k" using Cons.prems(1) by (intro unat_u32_of_nat) simp
    show ?case
    proof (cases "at_type e = mt")
      case True
      show ?thesis
      proof (cases "of_nat k = i")
        case True
        then have "unat i = k" using k by auto
        then show ?thesis using True \<open>at_type e = mt\<close> by (simp add: Let_def)
      next
        case False
        then have "k \<noteq> unat i" by auto
        then have "Suc k \<le> unat i" using Cons.prems(2) by simp
        then show ?thesis
          using Cons.IH [of "Suc k"] Cons.prems(1) False True
          by (simp add: add.commute drop_Cons' Let_def Suc_diff_le [symmetric])
      qed
    next
      case False
      then show ?thesis using Cons by simp
    qed
  qed simp
  from this [of 0] show ?thesis using assms cnt by simp
qed

theorem midi_output_indexed_witness:
  "out_getEvent 15 1 [\<lparr>at_type = 15, at_frames = 0, at_bytes = [0x90, 60, 99]\<rparr>, \<lparr>at_type = 4, at_frames = 1, at_bytes = []\<rparr>,
       \<lparr>at_type = 15, at_frames = 2, at_bytes = [0x83, 61, 0]\<rparr>] 0 (example_midi 1 0) =
     (let ev = (example_midi 1 0)\<lparr>ev_type := 0x80, ev_channel := 3, databyte1 := 61, databyte2 := 0, frameOffset := 2\<rparr>
      in Inr (Some ev, ev))"
  using midi_output_indexed [of "[\<lparr>at_type = 15, at_frames = 0, at_bytes = [0x90, 60, 99]\<rparr>, \<lparr>at_type = 4, at_frames = 1, at_bytes = []\<rparr>,
       \<lparr>at_type = 15, at_frames = 2, at_bytes = [0x83, 61, 0]\<rparr>]" 15 1 "example_midi 1 0"]
  by (simp add: unpack_def Let_def)

end
