(* ===== verification/Lv2_Plugin.thy ===== *)
theory Lv2_Plugin
  imports Lv2_Host Lv2_Midi Midi_Handlers
begin

text \<open>
  LV2 plugins as processors (\<open>Plugin\<close>, \<open>ControlConnection\<close>, \<open>ControlMapping\<close> and \<open>ControlEvent\<close> of
  \<open>src/lv2plugin.h\<close> and \<open>src/lv2plugin.cpp\<close>): how the ports of a plugin are told apart, its audio
  and MIDI connections, control values set, scheduled and mapped to MIDI controllers, and the order
  of the steps of a period. The plugin itself runs behind lilv and is an argument.
\<close>

section \<open>Control ports\<close>

record control_port =
  cp_value :: rat
  cp_default :: rat
  cp_minimum :: rat
  cp_maximum :: rat

type_synonym control_map = "(string \<times> control_port option) list"

text \<open>\<open>controlMap[symbol]\<close>: an unknown symbol is entered with a null pointer.\<close>

definition control_at :: "string \<Rightarrow> control_map \<Rightarrow> control_port option \<times> control_map" where
  "control_at symbol m =
     (case map_of m symbol of None \<Rightarrow> (None, insert_key symbol None m) | Some p \<Rightarrow> (p, m))"

definition getPort :: "string \<Rightarrow> (control_map, control_port) act" where
  "getPort symbol m =
     (case control_at symbol m of
        (None, m') \<Rightarrow> (Inl (Logic_error (''Plugin has no such port: '' @ symbol)), m')
      | (Some p, m') \<Rightarrow> (Inr p, m'))"

text \<open>A write through a pointer to the port of a symbol.\<close>

definition set_value :: "string \<Rightarrow> rat \<Rightarrow> control_map \<Rightarrow> control_map" where
  "set_value symbol v m =
     (case map_of m symbol of
        Some (Some p) \<Rightarrow> insert_key symbol (Some (p\<lparr>cp_value := v\<rparr>)) m
      | _ \<Rightarrow> m)"

definition setControlValue :: "string \<Rightarrow> rat \<Rightarrow> (control_map, unit) act" where
  "setControlValue symbol v = then_do (getPort symbol) (\<lambda>_. modify (set_value symbol v))"

text \<open>
  The callback that restores a state: the value is what its type says it is. Unknown types and
  ports are only warned about.
\<close>

record atom_types =
  doubleType :: u32
  floatType :: u32
  intType :: u32
  longType :: u32
  stringType :: u32

record atom_value =
  as_float :: rat
  as_double :: rat
  as_int :: int
  as_long :: int

definition atom_number :: "atom_types \<Rightarrow> atom_value \<Rightarrow> u32 \<Rightarrow> rat option" where
  "atom_number T v t =
     (if t = floatType T then Some (as_float v)
      else if t = doubleType T then Some (rnd_float (as_double v))
      else if t = intType T then Some (rnd_float (of_int (as_int v)))
      else if t = longType T then Some (rnd_float (of_int (as_long v)))
      else None)"

definition setPortValue :: "atom_types \<Rightarrow> string \<Rightarrow> atom_value \<Rightarrow> u32 \<Rightarrow> control_map \<Rightarrow> control_map" where
  "setPortValue T portname v t m =
     (case control_at portname m of
        (None, m') \<Rightarrow> m'
      | (Some _, m') \<Rightarrow>
          (case atom_number T v t of None \<Rightarrow> m' | Some x \<Rightarrow> set_value portname x m'))"

section \<open>Scheduled control values\<close>

record control_event = event +
  ce_port :: string
  ce_value :: rat

definition ControlEvent :: "int \<Rightarrow> string \<Rightarrow> rat \<Rightarrow> u32 \<Rightarrow> u32 \<Rightarrow> u32 \<Rightarrow> control_event res" where
  "ControlEvent junk port v b p d =
     bind_res (Event b p d junk) (\<lambda>e. Inr (event.extend e \<lparr>ce_port = port, ce_value = v\<rparr>))"

section \<open>Controllers\<close>

record ctl_mapping =
  mp_connection :: nat
  mp_cc :: u8
  mp_port :: string
  mp_minimum :: rat
  mp_maximum :: rat

record 'm ctl_connection =
  ctl_source :: 'm
  ctl_mappings :: "ctl_mapping list"

definition getScaled :: "rat \<Rightarrow> rat \<Rightarrow> u8 \<Rightarrow> rat" where
  "getScaled minimum maximum v =
     rnd_float (minimum + rnd_float (rnd_float (rnd_float (maximum - minimum) * of_nat (unat v)) / 127))"

definition mapping_update :: "u8 \<Rightarrow> u8 \<Rightarrow> ctl_mapping \<Rightarrow> control_map \<Rightarrow> control_map" where
  "mapping_update cc v mp m =
     (if mp_cc mp = cc then set_value (mp_port mp) (getScaled (mp_minimum mp) (mp_maximum mp) v) m else m)"

definition apply_message :: "ctl_mapping list \<Rightarrow> midi_event \<Rightarrow> control_map \<Rightarrow> control_map" where
  "apply_message mps e m =
     (if matches_type (int (unat TYPE_CONTROL)) e
      then fold (mapping_update (databyte1 e) (databyte2 e)) mps m else m)"

text \<open>The loop of \<open>ControlConnection::process\<close>: every event is read twice and acted on once.\<close>

function control_events ::
  "(u32 \<Rightarrow> midi_event) \<Rightarrow> u32 \<Rightarrow> ctl_mapping list \<Rightarrow> u32 \<Rightarrow> control_map \<Rightarrow> control_map"
where
  "control_events getEvent cnt mps i m =
     (if i < cnt then control_events getEvent cnt mps (i + 1) (apply_message mps (getEvent i) m) else m)"
  by pat_completeness auto

termination control_events
proof (relation "measure (\<lambda>(_, cnt, _, i, _). unat cnt - unat i)")
  fix getEvent :: "u32 \<Rightarrow> midi_event" and cnt i :: u32 and mps m
  assume "i < cnt"
  moreover from this have "unat (i + 1) = Suc (unat i)"
    using unat_add_bounded [of i 1] unat_u32_less [of cnt] by (simp add: word_less_nat_alt)
  ultimately show "((getEvent, cnt, mps, i + 1, apply_message mps (getEvent i) m), getEvent, cnt, mps, i, m)
      \<in> measure (\<lambda>(_, cnt, _, i, _). unat cnt - unat i)"
    by (simp add: word_less_nat_alt)
qed simp

declare control_events.simps [simp del]

section \<open>The plugin\<close>

text \<open>What lilv says of a port.\<close>

record lilv_port =
  lp_audio :: bool
  lp_control :: bool
  lp_atom :: bool
  lp_input :: bool
  lp_output :: bool
  lp_symbol :: string
  lp_default :: "rat option"
  lp_minimum :: rat
  lp_maximum :: rat
  lp_sequence :: bool
  lp_midi :: bool

text \<open>What a port is connected to when the plugin is made.\<close>

datatype port_target = To_control string | To_midi_input nat | To_midi_output nat | To_nothing

record plugin_ports =
  audioInputIndex :: "nat list"
  audioOutputIndex :: "nat list"
  pp_controls :: control_map
  midiInputs :: "nat list"
  midiOutputs :: "nat list"
  connected :: "(nat \<times> port_target) list"

text \<open>
  One turn of the constructor's loop over the ports. MIDI ports are added at the front of their
  list and are named by the port's index here.
\<close>

definition classify :: "nat \<times> lilv_port \<Rightarrow> plugin_ports \<Rightarrow> plugin_ports" where
  "classify ip s =
     (case ip of (i, p) \<Rightarrow>
       if lp_audio p
       then (if lp_input p then s\<lparr>audioInputIndex := audioInputIndex s @ [i]\<rparr>
             else if lp_output p then s\<lparr>audioOutputIndex := audioOutputIndex s @ [i]\<rparr>
             else s)
       else if lp_control p \<and> lp_input p
       then s\<lparr>pp_controls := insert_key (lp_symbol p)
                (Some \<lparr>cp_value = 0, cp_default = (case lp_default p of None \<Rightarrow> 0 | Some d \<Rightarrow> d),
                       cp_minimum = lp_minimum p, cp_maximum = lp_maximum p\<rparr>) (pp_controls s),
              connected := connected s @ [(i, To_control (lp_symbol p))]\<rparr>
       else if lp_atom p
       then (if lp_input p \<and> lp_sequence p \<and> lp_midi p
             then s\<lparr>midiInputs := i # midiInputs s, connected := connected s @ [(i, To_midi_input i)]\<rparr>
             else if lp_output p
             then s\<lparr>midiOutputs := i # midiOutputs s, connected := connected s @ [(i, To_midi_output i)]\<rparr>
             else s)
       else s\<lparr>connected := connected s @ [(i, To_nothing)]\<rparr>)"

definition no_ports :: plugin_ports where
  "no_ports = \<lparr>audioInputIndex = [], audioOutputIndex = [], pp_controls = [], midiInputs = [],
     midiOutputs = [], connected = []\<rparr>"

definition plugin_ports_of :: "lilv_port list \<Rightarrow> plugin_ports" where
  "plugin_ports_of ps = fold classify (enumerate 0 ps) no_ports"

text \<open>
  The plugin object. \<open>'k\<close> are audio connections, \<open>'m\<close> MIDI connections; MIDI inputs are kept with
  their state, outputs by the index of their port.
\<close>

record ('k, 'm, 'a, 'q, 'p, 'u, 'v) plugin =
  pl_audioInput :: "'k option list"
  pl_midiInput :: "('m, 'a, 'q) midi_in list"
  pl_midiOutput :: "nat list"
  pl_controlMap :: control_map
  pl_controlBuffer :: "('p, control_event) event_buffer"
  pl_heap :: "'m ctl_connection list"
  pl_connectionMap :: "'m \<Rightarrow> nat option"
  pl_connections :: "('v, nat) queue_list"
  pl_newMappings :: 'u

definition Plugin ::
  "(nat \<Rightarrow> 'a) \<Rightarrow> 'q \<Rightarrow> 'p \<Rightarrow> 'u \<Rightarrow> 'v \<Rightarrow> lilv_port list \<Rightarrow> ('k, 'm, 'a, 'q, 'p, 'u, 'v) plugin"
where
  "Plugin newSequence q p u v ps =
     (let s = plugin_ports_of ps
      in \<lparr>pl_audioInput = replicate (length (filter (\<lambda>p. lp_audio p \<and> lp_input p) ps)) None,
          pl_midiInput = map (\<lambda>i. MidiInput (newSequence i) q) (midiInputs s),
          pl_midiOutput = midiOutputs s, pl_controlMap = pp_controls s,
          pl_controlBuffer = \<lparr>eventQueue = p, sortedEvents = []\<rparr>,
          pl_heap = [], pl_connectionMap = (\<lambda>_. None), pl_connections = \<lparr>ql_list = [], ql_queue = v\<rparr>,
          pl_newMappings = u\<rparr>)"

section \<open>Connecting\<close>

text \<open>\<open>link\<close> is \<open>setConnection\<close> of the audio connectors of this plugin, see \<open>Routing\<close>.\<close>

definition set_input ::
  "('k \<Rightarrow> 'k option \<Rightarrow> 'k option res) \<Rightarrow> (nat \<Rightarrow> 'k res) \<Rightarrow> nat \<Rightarrow> nat \<Rightarrow> ('k option list, unit) act"
where
  "set_input link getAudioConnection j i ins =
     (case bind_res (getAudioConnection j) (\<lambda>k. link k (ins ! i)) of
        Inl f \<Rightarrow> (Inl f, ins)
      | Inr s \<Rightarrow> (Inr (), ins[i := s]))"

definition plugin_connect ::
  "('k \<Rightarrow> 'k option \<Rightarrow> 'k option res) \<Rightarrow> u32 \<Rightarrow> (nat \<Rightarrow> 'k res) \<Rightarrow> ('k option list, unit) act"
where
  "plugin_connect link sourceOutputs getAudioConnection ins =
     (if ins = [] then (Inl (Logic_error ''cannot connect: this plugin has no audio inputs''), ins)
      else if length ins = 2 \<and> sourceOutputs = 1
      then then_do (set_input link getAudioConnection 0 0) (\<lambda>_. set_input link getAudioConnection 0 1) ins
      else if length ins = unat sourceOutputs
      then do_each (\<lambda>i. set_input link getAudioConnection i i) [0..<length ins] ins
      else (Inl (Logic_error ''cannot connect: different number of input/output connections''), ins))"

definition plugin_connect_channel ::
  "('k \<Rightarrow> 'k option \<Rightarrow> 'k option res) \<Rightarrow> 'k \<Rightarrow> u32 \<Rightarrow> ('k option list, unit) act"
where
  "plugin_connect_channel link k channel ins =
     (if channel = 0 then (Inl (Logic_error ''cannot connect: there is no channel zero''), ins)
      else if length ins < unat channel then (Inl (Logic_error ''cannot connect: channel too high''), ins)
      else set_input link (\<lambda>_. Inr k) 0 (unat channel - 1) ins)"

definition plugin_connectMidi ::
  "('m \<Rightarrow> 'm option \<Rightarrow> 'm option res) \<Rightarrow> u32 \<Rightarrow> (nat \<Rightarrow> 'm res) \<Rightarrow> (('m, 'a, 'q) midi_in list, unit) act"
where
  "plugin_connectMidi link outputCount getMidiConnection ins =
     (if outputCount = 0 then (Inl (Logic_error ''cannot connect: the source has no MIDI outputs''), ins)
      else case ins of
             [] \<Rightarrow> (Inl (Logic_error ''cannot connect: this plugin has no MIDI inputs''), ins)
           | p # ps \<Rightarrow>
               (case bind_res (getMidiConnection 0) (\<lambda>k. link k (in_connection p)) of
                  Inl f \<Rightarrow> (Inl f, ins)
                | Inr s \<Rightarrow> (Inr (), p\<lparr>in_connection := s\<rparr> # ps)))"

text \<open>The output the walk along the list ends at; past the end a null pointer.\<close>

fun getMidiConnection :: "nat list \<Rightarrow> nat \<Rightarrow> nat option" where
  "getMidiConnection [] index = None"
| "getMidiConnection (p # ps) index = (if index = 0 then Some p else getMidiConnection ps (index - 1))"

definition plugin_addMidiEvent ::
  "('q, midi_event) queue_ops \<Rightarrow> midi_event \<Rightarrow> ('m, 'a, 'q) midi_in list \<Rightarrow> ('m, 'a, 'q) midi_in list option"
where
  "plugin_addMidiEvent Q e ins =
     (case ins of [] \<Rightarrow> Some [] | p # ps \<Rightarrow> map_option (\<lambda>p'. p' # ps) (in_addEvent Q e p))"

fun midi_inputs_connectTo :: "('m \<Rightarrow> bool option) \<Rightarrow> ('m, 'a, 'q) midi_in list \<Rightarrow> bool option" where
  "midi_inputs_connectTo connects [] = Some False"
| "midi_inputs_connectTo connects (p # ps) =
     Option.bind (in_connectsTo connects p) (\<lambda>b. if b then Some True else midi_inputs_connectTo connects ps)"

fun audio_inputs_connectTo :: "('k \<Rightarrow> bool option) \<Rightarrow> 'k option list \<Rightarrow> bool option" where
  "audio_inputs_connectTo connects [] = Some False"
| "audio_inputs_connectTo connects (c # cs) =
     Option.bind (case c of None \<Rightarrow> Some False | Some k \<Rightarrow> connects k) (\<lambda>b.
       if b then Some True else audio_inputs_connectTo connects cs)"

definition plugin_connectsTo where
  "plugin_connectsTo midiConnects audioConnects s =
     Option.bind (midi_inputs_connectTo midiConnects (pl_midiInput s)) (\<lambda>b.
       if b then Some True else audio_inputs_connectTo audioConnects (pl_audioInput s))"

section \<open>Scheduling and mapping controls\<close>

text \<open>An action on the control map inside the plugin.\<close>

definition on_controls :: "(control_map, 'r) act \<Rightarrow> (('k, 'm, 'a, 'q, 'p, 'u, 'v) plugin, 'r) act" where
  "on_controls f s = (case f (pl_controlMap s) of (r, m) \<Rightarrow> (r, s\<lparr>pl_controlMap := m\<rparr>))"

text \<open>The bar, position and division arrive as \<open>int\<close> and are converted.\<close>

definition scheduleControl ::
  "('p, control_event) queue_ops \<Rightarrow> int \<Rightarrow> string \<Rightarrow> rat \<Rightarrow> int \<Rightarrow> int \<Rightarrow> int \<Rightarrow>
     ('k, 'm, 'a, 'q, 'p, 'u, 'v) plugin \<Rightarrow> (unit res \<times> ('k, 'm, 'a, 'q, 'p, 'u, 'v) plugin) option"
where
  "scheduleControl P junk symbol v bar pos d s =
     (case on_controls (getPort symbol) s of
        (Inl f, s1) \<Rightarrow> Some (Inl f, s1)
      | (Inr _, s1) \<Rightarrow>
          (case ControlEvent junk symbol v (word_of_int bar) (word_of_int pos) (word_of_int d) of
             Inl f \<Rightarrow> Some (Inl f, s1)
           | Inr e \<Rightarrow> map_option (\<lambda>b. (Inr (), s1\<lparr>pl_controlBuffer := b\<rparr>)) (addEvent P e (pl_controlBuffer s1))))"

definition ctl_connection_for ::
  "('v, nat) queue_ops \<Rightarrow> 'm \<Rightarrow> ('k, 'm, 'a, 'q, 'p, 'u, 'v) plugin \<Rightarrow>
     (nat \<times> ('k, 'm, 'a, 'q, 'p, 'u, 'v) plugin) option"
where
  "ctl_connection_for V k s =
     (case pl_connectionMap s k of
        Some a \<Rightarrow> Some (a, s)
      | None \<Rightarrow>
          (let a = length (pl_heap s)
           in map_option (\<lambda>l. (a, s\<lparr>pl_heap := pl_heap s @ [\<lparr>ctl_source = k, ctl_mappings = []\<rparr>],
                  pl_connectionMap := (pl_connectionMap s)(k \<mapsto> a), pl_connections := l\<rparr>))
                (QueueList_add V a (pl_connections s))))"

definition addController ::
  "('u, ctl_mapping) queue_ops \<Rightarrow> ('v, nat) queue_ops \<Rightarrow> (nat \<Rightarrow> 'm res) \<Rightarrow> u32 \<Rightarrow> string \<Rightarrow> rat \<Rightarrow> rat \<Rightarrow>
     ('k, 'm, 'a, 'q, 'p, 'u, 'v) plugin \<Rightarrow> (unit res \<times> ('k, 'm, 'a, 'q, 'p, 'u, 'v) plugin) option"
where
  "addController U V getConnection cc symbol minimum maximum s =
     (if cc = 0 then Some (Inl (Logic_error ''There is no MIDI control number zero''), s)
      else if 127 < cc then Some (Inl (Logic_error ''MIDI control number cannot be greater than 127''), s)
      else if maximum < minimum
      then Some (Inl (Logic_error ''Minimum cannot be greater than maximum''), s)
      else case then_do (on_controls (getPort symbol)) (\<lambda>_. lift_res (getConnection 0)) s of
             (Inl f, s1) \<Rightarrow> Some (Inl f, s1)
           | (Inr k, s1) \<Rightarrow>
               Option.bind (ctl_connection_for V k s1) (\<lambda>(a, s2).
                 map_option (\<lambda>u. (Inr (), s2\<lparr>pl_newMappings := u\<rparr>))
                   (q_push U \<lparr>mp_connection = a, mp_cc = ucast cc, mp_port = symbol, mp_minimum = minimum,
                       mp_maximum = maximum\<rparr> (pl_newMappings s2))))"

definition addController_min where
  "addController_min U V getConnection cc symbol minimum s =
     (case on_controls (getPort symbol) s of
        (Inl f, s1) \<Rightarrow> Some (Inl f, s1)
      | (Inr p, s1) \<Rightarrow> addController U V getConnection cc symbol minimum (cp_maximum p) s1)"

definition addController_range where
  "addController_range U V getConnection cc symbol s =
     (case on_controls (getPort symbol) s of
        (Inl f, s1) \<Rightarrow> Some (Inl f, s1)
      | (Inr p, s1) \<Rightarrow> addController U V getConnection cc symbol (cp_minimum p) (cp_maximum p) s1)"

definition plugin_restore :: "('k, 'm, 'a, 'q, 'p, 'u, 'v) plugin \<Rightarrow> ('k, 'm, 'a, 'q, 'p, 'u, 'v) plugin" where
  "plugin_restore s = s\<lparr>pl_connectionMap := (\<lambda>_. None)\<rparr>"

section \<open>A period\<close>

definition ctl_addMapping :: "ctl_mapping \<Rightarrow> 'm ctl_connection list \<Rightarrow> 'm ctl_connection list" where
  "ctl_addMapping mp h =
     h[mp_connection mp := (h ! mp_connection mp)\<lparr>ctl_mappings := mp # ctl_mappings (h ! mp_connection mp)\<rparr>]"

text \<open>What lies outside the plugin object, as steps on the state \<open>'w\<close> of everything else.\<close>

record ('k, 'm, 'a, 'w) plugin_world =
  pw_processAudio :: "'k \<Rightarrow> 'w \<Rightarrow> 'w"
  pw_processMidi :: "'m \<Rightarrow> 'w \<Rightarrow> 'w"
  pw_count :: "'m \<Rightarrow> 'w \<Rightarrow> u32"
  pw_event :: "'m \<Rightarrow> 'w \<Rightarrow> u32 \<Rightarrow> midi_event"
  pw_clear :: "nat \<Rightarrow> 'w \<Rightarrow> 'w"
  pw_run :: "'k option list \<Rightarrow> control_map \<Rightarrow> 'a list \<Rightarrow> u32 \<Rightarrow> 'w \<Rightarrow> control_map \<times> 'w"
  pw_fire :: "'w \<Rightarrow> 'w option"
  pw_respond :: "'w \<Rightarrow> 'w res option"

fun process_midi_inputs where
  "process_midi_inputs Q C up A junk W rolling pos nframes [] c w = Some ([], c, w)"
| "process_midi_inputs Q C up A junk W rolling pos nframes (p # ps) c w =
     Option.bind (in_process Q C up A junk (pw_processMidi W) (pw_count W) (pw_event W) rolling pos nframes p c w)
       (\<lambda>(p', c1, w1).
          map_option (\<lambda>(ps', c2, w2). (p' # ps', c2, w2))
            (process_midi_inputs Q C up A junk W rolling pos nframes ps c1 w1))"

fun process_audio_inputs :: "('k, 'm, 'a, 'w) plugin_world \<Rightarrow> 'k option list \<Rightarrow> 'w \<Rightarrow> 'w" where
  "process_audio_inputs W [] w = w"
| "process_audio_inputs W (None # ks) w = process_audio_inputs W ks w"
| "process_audio_inputs W (Some k # ks) w = process_audio_inputs W ks (pw_processAudio W k w)"

definition ctl_process ::
  "('k, 'm, 'a, 'w) plugin_world \<Rightarrow> 'm ctl_connection \<Rightarrow> control_map \<times> 'w \<Rightarrow> control_map \<times> 'w"
where
  "ctl_process W k mw =
     (let w = pw_processMidi W (ctl_source k) (snd mw)
      in (control_events (pw_event W (ctl_source k) w) (pw_count W (ctl_source k) w) (ctl_mappings k) 0 (fst mw), w))"

definition control_handler ::
  "('c, 'o) queue_ops \<Rightarrow> (control_event \<Rightarrow> 'o) \<Rightarrow> control_event \<Rightarrow> ('c, 'o) collector \<times> control_map \<Rightarrow>
     ('c, 'o) collector \<times> control_map"
where
  "control_handler C up e s = (recycle C (up e) (fst s), set_value (ce_port e) (ce_value e) (snd s))"

definition plugin_doProcess ::
  "('q, midi_event) queue_ops \<Rightarrow> ('p, control_event) queue_ops \<Rightarrow> ('u, ctl_mapping) queue_ops \<Rightarrow>
     ('v, nat) queue_ops \<Rightarrow> ('c, 'o) queue_ops \<Rightarrow> (midi_event \<Rightarrow> 'o) \<Rightarrow> (control_event \<Rightarrow> 'o) \<Rightarrow>
     'a midi_buffer_ops \<Rightarrow> u8 \<Rightarrow> ('k, 'm, 'a, 'w) plugin_world \<Rightarrow> bool \<Rightarrow> jack_position \<Rightarrow> u32 \<Rightarrow>
     ('k, 'm, 'a, 'q, 'p, 'u, 'v) plugin \<Rightarrow> ('c, 'o) collector \<Rightarrow> 'w \<Rightarrow>
     (('k, 'm, 'a, 'q, 'p, 'u, 'v) plugin \<times> ('c, 'o) collector \<times> 'w) res option"
where
  "plugin_doProcess Q P U V C upm upc A junk W rolling pos nframes s c w =
     Option.bind (drain U ctl_addMapping (pl_newMappings s) (pl_heap s)) (\<lambda>(u, h).
     Option.bind (process_midi_inputs Q C upm A junk W rolling pos nframes (pl_midiInput s) c w) (\<lambda>(ins, c1, w1).
     Option.bind (event_loop P C upc rolling pos nframes (control_handler C upc) (pl_controlBuffer s)
         (c1, pl_controlMap s)) (\<lambda>(b, c2, m2).
     Option.bind (QueueList_getFirst V (pl_connections s)) (\<lambda>l.
       let w2 = process_audio_inputs W (pl_audioInput s) w1;
           (m3, w3) = fold (\<lambda>a. ctl_process W (h ! a)) (ql_list l) (m2, w2);
           w4 = fold (pw_clear W) (pl_midiOutput s) w3;
           (m5, w5) = pw_run W (pl_audioInput s) m3 (map atomSequence ins) nframes w4
       in Option.bind (pw_fire W w5) (\<lambda>w6.
          map_option (\<lambda>r. bind_res r (\<lambda>w7.
              Inr (s\<lparr>pl_newMappings := u, pl_heap := h, pl_midiInput := ins, pl_controlBuffer := b,
                     pl_controlMap := m5, pl_connections := l\<rparr>, c2, w7)))
            (pw_respond W w6))))))"

section \<open>Repositioning\<close>

fun reset_inputs where
  "reset_inputs Q C up [] c = Some (Inr ([], c))"
| "reset_inputs Q C up (p # ps) c =
     Option.bind (in_reset Q C up p c) (\<lambda>r.
       case r of
         Inl f \<Rightarrow> Some (Inl f)
       | Inr (p', c1) \<Rightarrow>
           map_option (\<lambda>r. bind_res r (\<lambda>(ps', c2). Inr (p' # ps', c2))) (reset_inputs Q C up ps c1))"

definition ctl_reset ::
  "('c, 'o) queue_ops \<Rightarrow> (ctl_mapping \<Rightarrow> 'o) \<Rightarrow> 'm ctl_connection \<Rightarrow> ('c, 'o) collector \<Rightarrow>
     'm ctl_connection \<times> ('c, 'o) collector"
where
  "ctl_reset C up k c = (k\<lparr>ctl_mappings := []\<rparr>, fold (\<lambda>mp. recycle C (up mp)) (ctl_mappings k) c)"

fun reset_connections ::
  "('c, 'o) queue_ops \<Rightarrow> (ctl_mapping \<Rightarrow> 'o) \<Rightarrow> (nat \<Rightarrow> 'o) \<Rightarrow> nat list \<Rightarrow> 'm ctl_connection list \<Rightarrow>
     ('c, 'o) collector \<Rightarrow> 'm ctl_connection list \<times> ('c, 'o) collector"
where
  "reset_connections C upm upc [] h c = (h, c)"
| "reset_connections C upm upc (a # as) h c =
     (let (k, c1) = ctl_reset C upm (h ! a) c
      in reset_connections C upm upc as (h[a := k]) (recycle C (upc a) c1))"

text \<open>New mappings that are still queued stay queued.\<close>

definition plugin_reposition ::
  "('q, midi_event) queue_ops \<Rightarrow> ('p, control_event) queue_ops \<Rightarrow> ('v, nat) queue_ops \<Rightarrow> ('c, 'o) queue_ops \<Rightarrow>
     (midi_event \<Rightarrow> 'o) \<Rightarrow> (control_event \<Rightarrow> 'o) \<Rightarrow> (ctl_mapping \<Rightarrow> 'o) \<Rightarrow> (nat \<Rightarrow> 'o) \<Rightarrow>
     ('k, 'm, 'a, 'q, 'p, 'u, 'v) plugin \<Rightarrow> ('c, 'o) collector \<Rightarrow>
     (('k, 'm, 'a, 'q, 'p, 'u, 'v) plugin \<times> ('c, 'o) collector) res option"
where
  "plugin_reposition Q P V C upe upc upm upk s c =
     Option.bind (reset_inputs Q C upe (pl_midiInput s) c) (\<lambda>r.
       case r of
         Inl f \<Rightarrow> Some (Inl f)
       | Inr (ins, c1) \<Rightarrow>
           Option.bind (QueueList_getFirst V (pl_connections s)) (\<lambda>l.
             let (h, c2) = reset_connections C upm upk (ql_list l) (pl_heap s) c1
             in map_option (\<lambda>r. bind_res r (\<lambda>(b, c3).
                    Inr (s\<lparr>pl_midiInput := ins, pl_heap := h, pl_connections := l\<lparr>ql_list := []\<rparr>,
                           pl_controlBuffer := b\<rparr>, c3)))
                  (recycleRemaining P C upc (pl_controlBuffer s) c2)))"

section \<open>Lemmas\<close>

definition audio_in :: "nat \<times> lilv_port \<Rightarrow> bool" where
  "audio_in ip \<longleftrightarrow> lp_audio (snd ip) \<and> lp_input (snd ip)"

definition audio_out :: "nat \<times> lilv_port \<Rightarrow> bool" where
  "audio_out ip \<longleftrightarrow> lp_audio (snd ip) \<and> \<not> lp_input (snd ip) \<and> lp_output (snd ip)"

definition midi_in :: "nat \<times> lilv_port \<Rightarrow> bool" where
  "midi_in ip \<longleftrightarrow> \<not> lp_audio (snd ip) \<and> \<not> (lp_control (snd ip) \<and> lp_input (snd ip)) \<and> lp_atom (snd ip) \<and>
     lp_input (snd ip) \<and> lp_sequence (snd ip) \<and> lp_midi (snd ip)"

definition midi_out :: "nat \<times> lilv_port \<Rightarrow> bool" where
  "midi_out ip \<longleftrightarrow> \<not> lp_audio (snd ip) \<and> \<not> (lp_control (snd ip) \<and> lp_input (snd ip)) \<and> lp_atom (snd ip) \<and>
     \<not> (lp_input (snd ip) \<and> lp_sequence (snd ip) \<and> lp_midi (snd ip)) \<and> lp_output (snd ip)"

lemma classify_all:
  "audioInputIndex (fold classify ips s) = audioInputIndex s @ map fst (filter audio_in ips)"
  "audioOutputIndex (fold classify ips s) = audioOutputIndex s @ map fst (filter audio_out ips)"
  "midiInputs (fold classify ips s) = rev (map fst (filter midi_in ips)) @ midiInputs s"
  "midiOutputs (fold classify ips s) = rev (map fst (filter midi_out ips)) @ midiOutputs s"
  by (induction ips arbitrary: s)
     (auto simp: classify_def audio_in_def audio_out_def midi_in_def midi_out_def)

lemma getMidiConnection_nth:
  "getMidiConnection ps i = (if i < length ps then Some (ps ! i) else None)"
  by (induction ps arbitrary: i) (auto simp: nth_Cons split: nat.split)

lemma control_events_fold:
  assumes "length es < 2 ^ 31" "cnt = of_nat (length es)" "\<forall>j < length es. getEvent (of_nat j) = es ! j"
    and "k \<le> length es"
  shows "control_events getEvent cnt mps (of_nat k) m = fold (apply_message mps) (drop k es) m"
  using assms(4)
proof (induction "length es - k" arbitrary: k m)
  case 0
  then have k: "k = length es" by simp
  then show ?case using assms(2) by (subst control_events.simps) simp
next
  case (Suc d)
  then have k: "k < length es" "d = length es - Suc k" by simp_all
  have u: "j \<le> length es \<Longrightarrow> unat (of_nat j :: u32) = j" for j
    using assms(1) by (intro unat_u32_of_nat) simp
  have "of_nat k < cnt" using assms(2) k(1) u [of k] u [of "length es"] by (simp add: word_less_nat_alt)
  then have "control_events getEvent cnt mps (of_nat k) m =
      control_events getEvent cnt mps (of_nat (Suc k)) (apply_message mps (es ! k) m)"
    using assms(3) k(1) by (subst control_events.simps) (simp add: add.commute)
  also have "\<dots> = fold (apply_message mps) (drop (Suc k) es) (apply_message mps (es ! k) m)"
    using Suc.hyps(1) [OF k(2)] k(1) by simp
  finally show ?case using Cons_nth_drop_Suc [OF k(1)] by (metis fold_simps(2))
qed

section \<open>Properties\<close>



definition example_world :: "(nat, nat, (nat \<times> u8 list) list, unit) plugin_world" where
  "example_world = \<lparr>pw_processAudio = (\<lambda>_ w. w), pw_processMidi = (\<lambda>_ w. w), pw_count = (\<lambda>_ _. 2),
     pw_event = (\<lambda>_ _ i. (example_midi 1 0)\<lparr>ev_type := 0xB0, databyte1 := 7, databyte2 := (if i = 0 then 127 else 0)\<rparr>),
     pw_clear = (\<lambda>_ w. w), pw_run = (\<lambda>_ m _ _ w. (m, w)), pw_fire = Some, pw_respond = (\<lambda>w. Some (Inr w))\<rparr>"

definition example_volume :: control_map where
  "example_volume = [(''volume'', Some \<lparr>cp_value = 1, cp_default = 0, cp_minimum = 0, cp_maximum = 1\<rparr>)]"


text \<open>a mapping turns the value of a MIDI controller into a control value that starts at the
  mapping's minimum and never falls as the controller's value rises.\<close>

theorem scaled_monotone:
  assumes "minimum \<le> maximum" "rnd_float minimum = minimum" "a \<le> b"
  shows "getScaled minimum maximum 0 = minimum \<and> getScaled minimum maximum a \<le> getScaled minimum maximum b \<and>
     minimum \<le> getScaled minimum maximum a"
proof -
  have z: "rnd_float 0 = 0" using rnd_of_int [of 0 24] by simp
  then have s0: "getScaled minimum maximum 0 = minimum" using assms(2) by (simp add: getScaled_def)
  have d: "0 \<le> rnd_float (maximum - minimum)" using assms(1) by (intro rnd_nonneg) simp
  have mono: "getScaled minimum maximum x \<le> getScaled minimum maximum y" if "x \<le> y" for x y
  proof -
    have "(of_nat (unat x) :: rat) \<le> of_nat (unat y)" using that by (simp add: word_le_nat_alt)
    then have "rnd_float (maximum - minimum) * of_nat (unat x) \<le> rnd_float (maximum - minimum) * of_nat (unat y)"
      using d by (rule mult_left_mono)
    then have "rnd_float (rnd_float (maximum - minimum) * of_nat (unat x)) / 127
        \<le> rnd_float (rnd_float (maximum - minimum) * of_nat (unat y)) / 127"
      by (intro divide_right_mono rnd_mono) simp_all
    then show ?thesis unfolding getScaled_def by (intro rnd_mono add_left_mono) simp_all
  qed
  then show ?thesis using s0 assms(3) mono [of 0 a] by simp
qed

theorem scaled_monotone_witness: "getScaled 0 1 3 \<le> getScaled 0 1 100"
proof -
  have "rnd_float 0 = 0" using rnd_of_int [of 0 24] by simp
  then show ?thesis using scaled_monotone [of 0 1 3 100] by simp
qed

text \<open>
  Repositioning hands the control connections to the collector, which deletes them, and leaves the
  queued mappings that point to them in place.
\<close>

lemma reposition_keeps_mappings:
  assumes "plugin_reposition Q P V C upe upc upm upk s c = Some (Inr (s', c'))"
  shows "pl_newMappings s' = pl_newMappings s \<and> ql_list (pl_connections s') = []"
  using assms by (auto simp: plugin_reposition_def bind_res_eq_Inr Let_def split: bind_splits sum.splits prod.splits)

end
