(* ===== verification/Trackers.thy ===== *)
theory Trackers
  imports Transport Midi_Data Object_Cache
begin

text \<open>
  The trackers that listen to the music: the audio and MIDI beat trackers (\<open>src/beattracker.h\<close>,
  \<open>src/beattracker.cpp\<close>) and the onset detector (\<open>src/onsetdetector.h\<close>, \<open>src/onsetdetector.cpp\<close>).
  The BTrack library is not part of the modelled code: its operations are arguments. The MIDI
  events of a period are the list the connection answers.
\<close>

section \<open>Hops\<close>

text \<open>
  Both audio trackers collect samples in a buffer of 512 and handle it when it is full. The state
  is the index, the buffer and whatever the handler works on.
\<close>

definition HOP_SIZE :: nat where "HOP_SIZE = 512"

definition hop_step :: "(rat list \<Rightarrow> 's \<Rightarrow> 's) \<Rightarrow> rat \<Rightarrow> nat \<times> rat list \<times> 's \<Rightarrow> nat \<times> rat list \<times> 's" where
  "hop_step handle x ibs =
     (case ibs of (i, b, s) \<Rightarrow>
       let b' = b[i := x]
       in if Suc i = HOP_SIZE then (0, b', handle b' s) else (Suc i, b', s))"

definition hop_loop :: "(rat list \<Rightarrow> 's \<Rightarrow> 's) \<Rightarrow> rat list \<Rightarrow> nat \<times> rat list \<times> 's \<Rightarrow> nat \<times> rat list \<times> 's" where
  "hop_loop handle xs = fold (hop_step handle) xs"

section \<open>The audio beat tracker\<close>

record 'b btrack_ops =
  bt_processAudio :: "rat list \<Rightarrow> 'b \<Rightarrow> 'b"
  bt_processSample :: "rat \<Rightarrow> 'b \<Rightarrow> 'b"
  bt_beatDue :: "'b \<Rightarrow> bool"
  bt_tempo :: "'b \<Rightarrow> rat"
  bt_setTempo :: "rat \<Rightarrow> 'b \<Rightarrow> 'b"

record ('k, 'b) audio_tracker =
  at_btrack :: 'b
  at_buffer :: "rat list"
  at_index :: nat
  at_master :: master
  at_input :: "'k option"

definition at_connect :: "'k \<Rightarrow> ('k, 'b) audio_tracker \<Rightarrow> ('k, 'b) audio_tracker" where
  "at_connect k t = t\<lparr>at_input := Some k\<rparr>"

text \<open>\<open>getMaster\<close> is the master \<open>getTransportMaster\<close> of the cache answers.\<close>

definition at_reset ::
  "'b btrack_ops \<Rightarrow> master res \<Rightarrow> rat \<Rightarrow> ('k, 'b) audio_tracker \<Rightarrow> ('k, 'b) audio_tracker res"
where
  "at_reset B getMaster b t =
     bind_res getMaster (\<lambda>m. Inr (t\<lparr>at_master := m, at_btrack := bt_setTempo B b (at_btrack t)\<rparr>))"

definition beat_handler :: "'b btrack_ops \<Rightarrow> rat list \<Rightarrow> 'b \<times> master \<Rightarrow> 'b \<times> master" where
  "beat_handler B buf bm =
     (let b = bt_processAudio B buf (fst bm)
      in (b, if bt_beatDue B b then forceBeat (bt_tempo B b) (snd bm) else snd bm))"

text \<open>The samples are those of the connection, once its source has been processed, or silence.\<close>

definition at_doProcess ::
  "'b btrack_ops \<Rightarrow> ('k \<Rightarrow> 'w \<Rightarrow> 'w) \<Rightarrow> ('k \<Rightarrow> 'w \<Rightarrow> rat list) \<Rightarrow> nat \<Rightarrow> ('k, 'b) audio_tracker \<Rightarrow> 'w \<Rightarrow>
     ('k, 'b) audio_tracker \<times> 'w"
where
  "at_doProcess B processSource audio nframes t w =
     (let w' = (case at_input t of None \<Rightarrow> w | Some k \<Rightarrow> processSource k w);
          xs = (case at_input t of None \<Rightarrow> replicate nframes 0 | Some k \<Rightarrow> take nframes (audio k w'));
          (i, buf, b, m) = hop_loop (beat_handler B) xs (at_index t, at_buffer t, at_btrack t, at_master t)
      in (t\<lparr>at_index := i, at_buffer := buf, at_btrack := b, at_master := m\<rparr>, w'))"

text \<open>
  The factories of all trackers keep one object, under the key one: it is reset when it exists.
\<close>

definition get_tracker ::
  "('o \<Rightarrow> 'e \<Rightarrow> 'e) \<Rightarrow> ('o \<Rightarrow> 'e \<Rightarrow> 'e) \<Rightarrow> 'o \<Rightarrow> ('o, 'e) cache \<Rightarrow> 'o \<times> ('o, 'e) cache"
where
  "get_tracker newObject resetObject fresh_object c =
     (case findObject 1 c of
        (Some t, c1) \<Rightarrow> (t, c1\<lparr>environment := resetObject t (environment c1)\<rparr>)
      | (None, c1) \<Rightarrow> (fresh_object, registerObject newObject 1 fresh_object c1))"

section \<open>The MIDI beat tracker\<close>

text \<open>
  A handler is a pointer to a function; \<open>Deleted\<close> is a pointer to one that has been deleted. What
  the tracker does outside itself is recorded in order.
\<close>

datatype 'f handler = No_handler | Handler "'f script_function" | Deleted

datatype 'f tracker_effect =
    OnCount 'f nat
  | OnBeat 'f rat
  | TransportStart
  | TransportStop
  | TransportRelocate u32

record ('f, 'b) midi_tracker =
  mt_btrack :: 'b
  mt_master :: master
  frameIndex :: nat
  currentOnset :: rat
  noteWeight :: "rat list"
  onBeatHandler :: "'f handler"
  countInNote :: u8
  countInCount :: nat
  lastCountTime :: "u32 list"
  countStartTime :: u32
  onCountHandler :: "'f handler"
  stopSeconds :: u32
  lastEventTime :: u32
  effects :: "'f tracker_effect list"

text \<open>A call of a handler dispatches a closure; reading a deleted handler is undefined.\<close>

definition call_handler ::
  "'f handler \<Rightarrow> ('f \<Rightarrow> 'f tracker_effect) \<Rightarrow> ('f, 'b) midi_tracker \<Rightarrow> ('f, 'b) midi_tracker res"
where
  "call_handler h closure t =
     (case h of
        No_handler \<Rightarrow> Inr t
      | Handler f \<Rightarrow> Inr (t\<lparr>effects := effects t @ [closure (sq_function f)]\<rparr>)
      | Deleted \<Rightarrow> Inl (Undefined ''use of a deleted handler''))"

definition dispatchCountInEvent :: "nat \<Rightarrow> ('f, 'b) midi_tracker \<Rightarrow> ('f, 'b) midi_tracker res" where
  "dispatchCountInEvent n t = call_handler (onCountHandler t) (\<lambda>f. OnCount f n) t"

text \<open>The periods of a count-in event, in the integer types of the code.\<close>

definition realBeatPeriod :: "u32 \<Rightarrow> midi_event \<Rightarrow> u32 \<Rightarrow> u32" where
  "realBeatPeriod time e previous = word_of_int (int (unat time) + frameOffset e - int (unat previous))"

definition idealBeatPeriod :: "jack_position \<Rightarrow> u32" where
  "idealBeatPeriod pos =
     word_of_int (trunc (rnd_double (of_nat (unat (60 * j_frame_rate pos)) / j_beats_per_minute pos)))"

definition event_time :: "u32 \<Rightarrow> midi_event \<Rightarrow> u32" where
  "event_time time e = word_of_int (int (unat time) + frameOffset e)"

text \<open>The fourth event in time sets the tempo to the average of the three periods.\<close>

definition finish_count ::
  "'b btrack_ops \<Rightarrow> jack_position \<Rightarrow> u32 \<Rightarrow> midi_event \<Rightarrow> ('f, 'b) midi_tracker \<Rightarrow> ('f, 'b) midi_tracker"
where
  "finish_count B pos time e t =
     (let sumBeatPeriod = fold (\<lambda>i s. s + (lastCountTime t ! Suc i - lastCountTime t ! i)) [0..<3] 0;
          avgBeatPeriod = of_nat (unat (sumBeatPeriod div 3));
          avgBpm = rnd_double (rnd_double (of_nat (unat (j_frame_rate pos)) * 60) / avgBeatPeriod)
      in t\<lparr>mt_btrack := bt_setTempo B avgBpm (mt_btrack t), mt_master := setBpm avgBpm (mt_master t),
           countStartTime := word_of_int (trunc (rnd_double
             (rnd_double (of_int (int (unat time) + frameOffset e)) + avgBeatPeriod)))\<rparr>)"

definition countInEvent ::
  "'b btrack_ops \<Rightarrow> jack_position \<Rightarrow> u32 \<Rightarrow> midi_event \<Rightarrow> ('f, 'b) midi_tracker \<Rightarrow> ('f, 'b) midi_tracker res"
where
  "countInEvent B pos time e t =
     (if countInCount t \<noteq> 0
      then (let real = realBeatPeriod time e (lastCountTime t ! (countInCount t - 1));
                ideal = idealBeatPeriod pos
            in if ideal = 0 then Inl (Undefined ''division by zero'')
               else let delta = 100 * real div ideal
                    in if 60 \<le> delta \<and> delta \<le> 140
                       then if countInCount t < length (lastCountTime t)
                            then bind_res (dispatchCountInEvent (countInCount t + 1)
                                     (t\<lparr>lastCountTime := (lastCountTime t)[countInCount t := event_time time e]\<rparr>))
                                   (\<lambda>t1. let t2 = t1\<lparr>countInCount := countInCount t1 + 1\<rparr>
                                         in Inr (if countInCount t2 = 4 then finish_count B pos time e t2 else t2))
                            else Inl (Undefined ''write past the count times'')
                       else Inr t)
      else dispatchCountInEvent 1
             (t\<lparr>lastCountTime := (lastCountTime t)[0 := event_time time e], countInCount := 1\<rparr>))"

fun count_in_events ::
  "'b btrack_ops \<Rightarrow> jack_position \<Rightarrow> u32 \<Rightarrow> u8 \<Rightarrow> midi_event list \<Rightarrow> ('f, 'b) midi_tracker \<Rightarrow>
     ('f, 'b) midi_tracker res"
where
  "count_in_events B pos time note [] t = Inr t"
| "count_in_events B pos time note (e # es) t =
     bind_res (if matches_data (int (unat TYPE_NOTE_ON)) (int (unat note)) 72 127 e
               then countInEvent B pos time e t else Inr t)
       (count_in_events B pos time note es)"

definition detectCountIn ::
  "'b btrack_ops \<Rightarrow> jack_position \<Rightarrow> u32 \<Rightarrow> u32 \<Rightarrow> midi_event list \<Rightarrow> ('f, 'b) midi_tracker \<Rightarrow>
     ('f, 'b) midi_tracker res"
where
  "detectCountIn B pos nframes time es t =
     (if countInCount t = 4 \<and> countStartTime t \<le> time + nframes
      then Inr (t\<lparr>effects := effects t @ [TransportStart], countInCount := 0, countInNote := 0\<rparr>)
      else if countInCount t \<noteq> 0 \<and> j_frame_rate pos < time - lastCountTime t ! (countInCount t - 1)
      then Inr (t\<lparr>countInCount := 0\<rparr>)
      else if countInNote t \<noteq> 0 \<and> countInCount t < 4
      then count_in_events B pos time (countInNote t) es t
      else Inr t)"

definition stopIfSilent ::
  "bool \<Rightarrow> jack_position \<Rightarrow> u32 \<Rightarrow> ('f, 'b) midi_tracker \<Rightarrow> ('f, 'b) midi_tracker res"
where
  "stopIfSilent rolling pos time t =
     (if \<not> rolling then Inr (t\<lparr>lastEventTime := time\<rparr>)
      else if stopSeconds t = 0 then Inr t
      else if j_frame_rate pos = 0 then Inl (Undefined ''division by zero'')
      else if stopSeconds t < (time - lastEventTime t) div j_frame_rate pos
      then Inr (t\<lparr>effects := effects t @ [TransportStop, TransportRelocate 0]\<rparr>)
      else Inr t)"

definition onBeat :: "'f script_function \<Rightarrow> ('f, 'b) midi_tracker \<Rightarrow> ('f, 'b) midi_tracker res" where
  "onBeat f t =
     (if numargs f \<noteq> 2 then Inl (Logic_error ''onBeat handler should take one argument'')
      else Inr (t\<lparr>onBeatHandler := Handler f\<rparr>))"

definition onCount :: "'f script_function \<Rightarrow> ('f, 'b) midi_tracker \<Rightarrow> ('f, 'b) midi_tracker res" where
  "onCount f t =
     (if numargs f \<noteq> 2 then Inl (Logic_error ''onCount handler should take one argument'')
      else Inr (t\<lparr>onCountHandler := Handler f\<rparr>))"

definition setNoteWeight :: "u32 \<Rightarrow> rat \<Rightarrow> ('f, 'b) midi_tracker \<Rightarrow> ('f, 'b) midi_tracker res" where
  "setNoteWeight note weight t =
     (if 127 < note then Inl (Logic_error ''onCount handler should take one argument'')
      else Inr (t\<lparr>noteWeight := (noteWeight t)[unat note := weight]\<rparr>))"

definition countIn :: "u8 \<Rightarrow> ('f, 'b) midi_tracker \<Rightarrow> ('f, 'b) midi_tracker" where
  "countIn note t = t\<lparr>countInNote := note\<rparr>"

definition stopOnSilence :: "u32 \<Rightarrow> ('f, 'b) midi_tracker \<Rightarrow> ('f, 'b) midi_tracker" where
  "stopOnSilence seconds t = t\<lparr>stopSeconds := seconds\<rparr>"

text \<open>Deleting the handler leaves the pointer to it as it is.\<close>

definition mt_reset ::
  "'b btrack_ops \<Rightarrow> master res \<Rightarrow> rat \<Rightarrow> ('f, 'b) midi_tracker \<Rightarrow> ('f, 'b) midi_tracker res"
where
  "mt_reset B getMaster b t =
     bind_res getMaster (\<lambda>m.
       let t1 = t\<lparr>mt_master := m, mt_btrack := bt_setTempo B b (mt_btrack t), noteWeight := replicate 128 1\<rparr>
       in case onCountHandler t1 of
            No_handler \<Rightarrow> Inr t1
          | Handler _ \<Rightarrow> Inr (t1\<lparr>onCountHandler := Deleted\<rparr>)
          | Deleted \<Rightarrow> Inl (Undefined ''use of a deleted handler''))"

text \<open>The constructor leaves \<open>stopSeconds\<close> and the count times without a value.\<close>

definition mt_new ::
  "'b btrack_ops \<Rightarrow> 'b \<Rightarrow> u32 \<Rightarrow> u32 list \<Rightarrow> u32 \<Rightarrow> master res \<Rightarrow> rat \<Rightarrow> ('f, 'b) midi_tracker res"
where
  "mt_new B b0 junk junk_times junk_start getMaster b =
     mt_reset B getMaster b
       \<lparr>mt_btrack = b0, mt_master = Master 0 0 0 0, frameIndex = 0, currentOnset = 0, noteWeight = [],
        onBeatHandler = No_handler, countInNote = 0, countInCount = 0, lastCountTime = take 4 (junk_times @ replicate 4 0),
        countStartTime = junk_start, onCountHandler = No_handler, stopSeconds = junk, lastEventTime = 0,
        effects = []\<rparr>"

text \<open>The events of one frame, and what of the period is left.\<close>

fun onset_events ::
  "u32 \<Rightarrow> nat \<Rightarrow> midi_event list \<Rightarrow> ('f, 'b) midi_tracker \<Rightarrow> (midi_event list \<times> ('f, 'b) midi_tracker) res"
where
  "onset_events time i [] t = Inr ([], t)"
| "onset_events time i (e # es) t =
     (if word_of_int (frameOffset e) = (of_nat i :: u32)
      then if matches_type (int (unat TYPE_NOTE_ON)) e
           then if unat (databyte1 e) < length (noteWeight t)
                then onset_events time i es
                       (t\<lparr>currentOnset := rnd_double (currentOnset t + rnd_float (of_nat (unat (databyte2 e))
                            * noteWeight t ! unat (databyte1 e))), lastEventTime := time\<rparr>)
                else Inl (Undefined ''index outside the note weights'')
           else onset_events time i es t
      else Inr (e # es, t))"

text \<open>A full hop is handed to the tracker.\<close>

definition onset_hop :: "'b btrack_ops \<Rightarrow> ('f, 'b) midi_tracker \<Rightarrow> ('f, 'b) midi_tracker res" where
  "onset_hop B t =
     (if frameIndex t = HOP_SIZE
      then (let b = bt_processSample B (currentOnset t) (mt_btrack t); t1 = t\<lparr>mt_btrack := b\<rparr>
            in bind_res (if bt_beatDue B b
                         then call_handler (onBeatHandler t1) (\<lambda>f. OnBeat f (bt_tempo B b))
                                (t1\<lparr>mt_master := forceBeat (bt_tempo B b) (mt_master t1)\<rparr>)
                         else Inr t1)
                 (\<lambda>t2. Inr (t2\<lparr>frameIndex := 0, currentOnset := 0\<rparr>)))
      else Inr t)"

fun onset_frames ::
  "'b btrack_ops \<Rightarrow> u32 \<Rightarrow> nat list \<Rightarrow> midi_event list \<Rightarrow> ('f, 'b) midi_tracker \<Rightarrow> ('f, 'b) midi_tracker res"
where
  "onset_frames B time [] es t = Inr t"
| "onset_frames B time (i # is) es t =
     bind_res (onset_events time i es t) (\<lambda>(es', t1).
     bind_res (onset_hop B t1) (\<lambda>t2.
       onset_frames B time is es' (t2\<lparr>frameIndex := Suc (frameIndex t2)\<rparr>)))"

definition mt_doProcess ::
  "'b btrack_ops \<Rightarrow> bool \<Rightarrow> jack_position \<Rightarrow> u32 \<Rightarrow> u32 \<Rightarrow> midi_event list \<Rightarrow> ('f, 'b) midi_tracker \<Rightarrow>
     ('f, 'b) midi_tracker res"
where
  "mt_doProcess B rolling pos nframes time es t =
     bind_res (if rolling then Inr t else detectCountIn B pos nframes time es t) (\<lambda>t1.
     bind_res (onset_frames B time [0..<unat nframes] es t1) (stopIfSilent rolling pos time))"

section \<open>The onset detector\<close>

record ('k, 'd, 'f) onset_detector =
  od_function :: 'd
  od_index :: nat
  od_buffer :: "rat list"
  od_history :: "rat list"
  od_threshold :: rat
  lastOnsetFrame :: u32
  od_input :: "'k option"
  onOnsetHandler :: "'f script_function option"
  fired :: "('f \<times> time_position) list"

definition OnsetDetector ::
  "'d \<Rightarrow> rat list \<Rightarrow> 'f script_function option \<Rightarrow> ('k, 'd, 'f) onset_detector"
where
  "OnsetDetector d junk_buffer junk_handler =
     \<lparr>od_function = d, od_index = 0, od_buffer = junk_buffer, od_history = replicate 8 0, od_threshold = 1,
      lastOnsetFrame = 0, od_input = None, onOnsetHandler = junk_handler, fired = []\<rparr>"

definition onOnset ::
  "'f script_function \<Rightarrow> ('k, 'd, 'f) onset_detector \<Rightarrow> ('k, 'd, 'f) onset_detector res"
where
  "onOnset f t =
     bind_res (store_handler 2 ''onOnset handler should take one argument'' f (onOnsetHandler t))
       (\<lambda>h. Inr (t\<lparr>onOnsetHandler := h\<rparr>))"

definition set_threshold :: "rat \<Rightarrow> ('k, 'd, 'f) onset_detector \<Rightarrow> ('k, 'd, 'f) onset_detector" where
  "set_threshold x t = t\<lparr>od_threshold := x\<rparr>"

definition od_reset :: "('k, 'd, 'f) onset_detector \<Rightarrow> ('k, 'd, 'f) onset_detector" where
  "od_reset t = t\<lparr>onOnsetHandler := None\<rparr>"

text \<open>The element the code takes for the median of the eight values.\<close>

definition history_median :: "rat list \<Rightarrow> rat" where
  "history_median h = sort h ! (8 div 2 + 1)"

definition shift_history :: "rat \<Rightarrow> rat list \<Rightarrow> rat list" where
  "shift_history onset h = (fold (\<lambda>i h. h[i := h ! Suc i]) [0..<7] h)[7 := onset]"

definition onset_handler ::
  "(rat list \<Rightarrow> 'd \<Rightarrow> rat \<times> 'd) \<Rightarrow> u32 \<Rightarrow> jack_position \<Rightarrow> u32 \<Rightarrow> rat list \<Rightarrow>
     ('k, 'd, 'f) onset_detector \<Rightarrow> ('k, 'd, 'f) onset_detector"
where
  "onset_handler odf sampleRate pos time buf t =
     (let median = history_median (od_history t);
          (onset, d) = odf buf (od_function t);
          delta = rnd_float (rnd_float (of_nat (unat (time - lastOnsetFrame t))) / rnd_float (of_nat (unat sampleRate)));
          fire = rnd_float (od_threshold t * 150);
          t1 = t\<lparr>od_function := d\<rparr>;
          t2 = (if fire \<le> rnd_double (onset - median) \<and> rnd_double (25 / 1000) < delta
                then t1\<lparr>fired := fired t1 @ (case onOnsetHandler t1 of None \<Rightarrow> [] | Some f \<Rightarrow> [(sq_function f, TimePosition pos)]),
                        lastOnsetFrame := time\<rparr>
                else t1)
      in t2\<lparr>od_history := shift_history onset (od_history t2)\<rparr>)"

definition od_doProcess ::
  "(rat list \<Rightarrow> 'd \<Rightarrow> rat \<times> 'd) \<Rightarrow> ('k \<Rightarrow> 'w \<Rightarrow> 'w) \<Rightarrow> ('k \<Rightarrow> 'w \<Rightarrow> rat list) \<Rightarrow> u32 \<Rightarrow> jack_position \<Rightarrow>
     nat \<Rightarrow> u32 \<Rightarrow> ('k, 'd, 'f) onset_detector \<Rightarrow> 'w \<Rightarrow> ('k, 'd, 'f) onset_detector \<times> 'w"
where
  "od_doProcess odf processSource audio sampleRate pos nframes time t w =
     (let w' = (case od_input t of None \<Rightarrow> w | Some k \<Rightarrow> processSource k w);
          xs = (case od_input t of None \<Rightarrow> replicate nframes 0 | Some k \<Rightarrow> take nframes (audio k w'));
          (i, buf, t') = hop_loop (onset_handler odf sampleRate pos time) xs (od_index t, od_buffer t, t)
      in (t'\<lparr>od_index := i, od_buffer := buf\<rparr>, w'))"

section \<open>Lemmas\<close>

lemma hop_loop_chunks:
  assumes "i < HOP_SIZE" "length b = HOP_SIZE"
  shows "\<exists>cs i' b'. hop_loop handle xs (i, b, s) = (i', b', fold handle cs s) \<and>
     take i b @ xs = concat cs @ take i' b' \<and> (\<forall>c \<in> set cs. length c = HOP_SIZE) \<and>
     i' < HOP_SIZE \<and> length b' = HOP_SIZE"
  using assms
proof (induction xs arbitrary: i b s)
  case Nil
  then show ?case by (intro exI [of _ "[]"]) (auto simp: hop_loop_def)
next
  case (Cons x xs)
  let ?b = "b[i := x]"
  have t: "take (Suc i) ?b = take i b @ [x]"
    using Cons.prems by (simp add: take_Suc_conv_app_nth)
  show ?case
  proof (cases "Suc i = HOP_SIZE")
    case True
    then have full: "?b = take i b @ [x]" using t Cons.prems(2) by simp
    have z: "0 < HOP_SIZE" "length ?b = HOP_SIZE" using Cons.prems by simp_all
    from Cons.IH [OF z, of "handle ?b s"] obtain cs i' b' where c:
      "hop_loop handle xs (0, ?b, handle ?b s) = (i', b', fold handle cs (handle ?b s))"
      "take 0 ?b @ xs = concat cs @ take i' b'" "\<forall>c \<in> set cs. length c = HOP_SIZE"
      "i' < HOP_SIZE" "length b' = HOP_SIZE" by blast
    have "hop_loop handle (x # xs) (i, b, s) = (i', b', fold handle (?b # cs) s)"
      using c(1) True by (simp add: hop_loop_def hop_step_def Let_def)
    moreover have "take i b @ x # xs = concat (?b # cs) @ take i' b'" using c(2) full by simp
    ultimately show ?thesis using c(3-5) z(2) by (metis set_ConsD)
  next
    case False
    then have z: "Suc i < HOP_SIZE" "length ?b = HOP_SIZE" using Cons.prems by simp_all
    from Cons.IH [OF z, of s] obtain cs i' b' where c:
      "hop_loop handle xs (Suc i, ?b, s) = (i', b', fold handle cs s)"
      "take (Suc i) ?b @ xs = concat cs @ take i' b'" "\<forall>c \<in> set cs. length c = HOP_SIZE"
      "i' < HOP_SIZE" "length b' = HOP_SIZE" by blast
    have "hop_loop handle (x # xs) (i, b, s) = (i', b', fold handle cs s)"
      using c(1) False by (simp add: hop_loop_def hop_step_def Let_def)
    moreover have "take i b @ x # xs = concat cs @ take i' b'" using c(2) t by simp
    ultimately show ?thesis using c(3-5) by blast
  qed
qed

text \<open>The three periods of a count-in add up to the time from the first event to the last.\<close>

lemma sum_periods:
  "fold (\<lambda>i s. s + (ls ! Suc i - ls ! i)) [0..<3] (0 :: u32) = ls ! 3 - ls ! 0"
  by (simp add: upt_rec [of 0] upt_rec [of "Suc 0"] numeral_eq_Suc)

lemma shift_history_tl: "length h = 8 \<Longrightarrow> shift_history x h = tl h @ [x]"
  by (auto simp: shift_history_def numeral_eq_Suc length_Suc_conv upt_rec)

text \<open>The element taken is the sixth of eight, above the median of these.\<close>

lemma history_median_high: "history_median [1, 1, 1, 1, 1, 9, 9, 9] = 9"
proof -
  have "sort [1, 1, 1, 1, 1, 9, 9, 9 :: rat] = [1, 1, 1, 1, 1, 9, 9, 9]" by simp
  moreover have "8 div 2 + 1 = (5 :: nat)" by simp
  ultimately show ?thesis unfolding history_median_def by (simp only:) simp
qed

lemma onset_handler_once:
  "lastOnsetFrame (onset_handler odf sr pos time buf t) = time \<and>
     length (fired (onset_handler odf sr pos time buf t)) \<le> Suc (length (fired t)) \<or>
   lastOnsetFrame (onset_handler odf sr pos time buf t) = lastOnsetFrame t \<and>
     fired (onset_handler odf sr pos time buf t) = fired t"
  by (auto simp: onset_handler_def Let_def case_prod_beta split: option.split)

lemma onset_handler_quiet:
  assumes "lastOnsetFrame t = time"
  shows "fired (onset_handler odf sr pos time buf t) = fired t \<and>
     lastOnsetFrame (onset_handler odf sr pos time buf t) = time"
proof -
  have "rnd_float 0 = 0" using rnd_of_int [of 0 24] by simp
  moreover have "0 \<le> rnd_double (25 / 1000)" by (rule rnd_nonneg) simp
  ultimately have "\<not> rnd_double (25 / 1000) < rnd_float (rnd_float 0 / rnd_float (of_nat (unat sr)))" by simp
  then show ?thesis using assms by (simp add: onset_handler_def Let_def case_prod_beta)
qed

lemma onset_handlers_quiet:
  "lastOnsetFrame t = time \<Longrightarrow> fired (fold (onset_handler odf sr pos time) cs t) = fired t"
  by (induction cs arbitrary: t) (simp_all add: onset_handler_quiet)

lemma onset_handlers_once:
  "length (fired (fold (onset_handler odf sr pos time) cs t)) \<le> Suc (length (fired t))"
proof (induction cs arbitrary: t)
  case (Cons c cs)
  let ?t = "onset_handler odf sr pos time c t"
  from onset_handler_once [of odf sr pos time c t] show ?case
  proof
    assume "lastOnsetFrame ?t = time \<and> length (fired ?t) \<le> Suc (length (fired t))"
    then show ?thesis using onset_handlers_quiet [of ?t time] by simp
  next
    assume "lastOnsetFrame ?t = lastOnsetFrame t \<and> fired ?t = fired t"
    then show ?thesis using Cons.IH [of ?t] by simp
  qed
qed simp

section \<open>Properties\<close>

text \<open>C39: the audio beat tracker hands every sample to BTrack exactly once and in order, in hops of 512
  whatever the length of the periods, keeps the rest for the next period and never writes
  outside its buffer; the master is forced to BTrack's tempo on the hops in which a beat is due.\<close>

theorem audio_hops_complete:
  assumes "at_index t < HOP_SIZE" "length (at_buffer t) = HOP_SIZE"
    and "xs = (case at_input t of None \<Rightarrow> replicate n 0 | Some k \<Rightarrow> take n (audio k (processSource k w)))"
  shows "\<exists>cs. (let t' = fst (at_doProcess B processSource audio n t w)
     in take (at_index t) (at_buffer t) @ xs = concat cs @ take (at_index t') (at_buffer t') \<and>
        (\<forall>c \<in> set cs. length c = HOP_SIZE) \<and> at_index t' < HOP_SIZE \<and> length (at_buffer t') = HOP_SIZE \<and>
        (at_btrack t', at_master t') = fold (beat_handler B) cs (at_btrack t, at_master t))"
proof -
  obtain cs i' b' where c:
    "hop_loop (beat_handler B) xs (at_index t, at_buffer t, at_btrack t, at_master t) =
       (i', b', fold (beat_handler B) cs (at_btrack t, at_master t))"
    "take (at_index t) (at_buffer t) @ xs = concat cs @ take i' b'"
    "\<forall>c \<in> set cs. length c = HOP_SIZE" "i' < HOP_SIZE" "length b' = HOP_SIZE"
    using hop_loop_chunks [OF assms(1,2), of "beat_handler B" xs "(at_btrack t, at_master t)"] by blast
  have "fst (at_doProcess B processSource audio n t w) =
     t\<lparr>at_index := i', at_buffer := b', at_btrack := fst (fold (beat_handler B) cs (at_btrack t, at_master t)),
       at_master := snd (fold (beat_handler B) cs (at_btrack t, at_master t))\<rparr>"
    using c(1) assms(3) by (auto simp: at_doProcess_def Let_def case_prod_beta split: option.splits)
  then show ?thesis using c(2-5) by (intro exI [of _ cs]) (simp add: Let_def)
qed

text \<open>the event that completes a count-in calls the count handler with four, sets BTrack and the
  master to the average of the three beat periods, counted from the first event to the last, and
  the start one such period after the event.\<close>

theorem count_in_sets_tempo:
  assumes "countInCount t = 3" "lastCountTime t = [l0, l1, l2, l3]" "onCountHandler t = Handler f"
    and "idealBeatPeriod pos \<noteq> 0"
    and "60 \<le> 100 * realBeatPeriod time e l2 div idealBeatPeriod pos"
    and "100 * realBeatPeriod time e l2 div idealBeatPeriod pos \<le> 140"
  shows "\<exists>t'. countInEvent B pos time e t = Inr t' \<and> countInCount t' = 4 \<and>
     effects t' = effects t @ [OnCount (sq_function f) 4] \<and>
     (let avg = of_nat (unat (event_time time e - l0) div 3);
          tempo = rnd_double (rnd_double (of_nat (unat (j_frame_rate pos)) * 60) / avg)
      in bpm (mt_master t') = tempo \<and> mt_btrack t' = bt_setTempo B tempo (mt_btrack t) \<and>
         countStartTime t' = word_of_int (trunc (rnd_double
           (rnd_double (of_int (int (unat time) + frameOffset e)) + avg))))"
proof -
  define t3 where "t3 = t\<lparr>lastCountTime := [l0, l1, l2, event_time time e],
     effects := effects t @ [OnCount (sq_function f) 4], countInCount := 4\<rparr>"
  define t4 where "t4 = finish_count B pos time e t3"
  have "countInEvent B pos time e t = Inr t4"
    using assms by (simp add: countInEvent_def Let_def t3_def t4_def dispatchCountInEvent_def call_handler_def
        numeral_eq_Suc)
  moreover have "lastCountTime t3 ! 3 - lastCountTime t3 ! 0 = event_time time e - l0"
    by (simp add: t3_def numeral_eq_Suc)
  then have avg: "unat ((lastCountTime t3 ! 3 - lastCountTime t3 ! 0) div 3) = unat (event_time time e - l0) div 3"
    by (simp add: unat_div)
  have "countInCount t4 = 4" "effects t4 = effects t @ [OnCount (sq_function f) 4]"
    by (simp_all add: t4_def finish_count_def Let_def t3_def)
  moreover have "bpm (mt_master t4) =
       rnd_double (rnd_double (of_nat (unat (j_frame_rate pos)) * 60) / of_nat (unat (event_time time e - l0) div 3))"
    unfolding t4_def finish_count_def Let_def sum_periods avg by (simp add: setBpm_def)
  moreover have "mt_btrack t4 = bt_setTempo B
       (rnd_double (rnd_double (of_nat (unat (j_frame_rate pos)) * 60) / of_nat (unat (event_time time e - l0) div 3)))
       (mt_btrack t)"
    unfolding t4_def finish_count_def Let_def sum_periods avg by (simp add: t3_def)
  moreover have "countStartTime t4 = word_of_int (trunc (rnd_double
       (rnd_double (of_int (int (unat time) + frameOffset e)) + of_nat (unat (event_time time e - l0) div 3))))"
    unfolding t4_def finish_count_def Let_def sum_periods avg by simp
  ultimately show ?thesis unfolding Let_def by blast
qed

text \<open>resetting a cached MIDI beat tracker deletes its count handler but keeps the pointer to it, so
  the next count-in uses the deleted function.\<close>

theorem reset_count_handler_dangles:
  assumes "onCount f t = Inr t1" "mt_reset B getMaster b t1 = Inr t2" "countInCount t2 = 0"
  shows "countInEvent B pos time e t2 = Inl (Undefined ''use of a deleted handler'')"
  using assms
  by (auto simp: onCount_def mt_reset_def bind_res_eq_Inr Let_def countInEvent_def dispatchCountInEvent_def
      call_handler_def split: if_splits)

text \<open>C40: the onset detector fires at most once in a period, however many hops end in it.\<close>

theorem one_onset_per_period:
  assumes "od_index t < HOP_SIZE" "length (od_buffer t) = HOP_SIZE"
  shows "length (fired (fst (od_doProcess odf processSource audio sr pos n time t w))) \<le> Suc (length (fired t))"
proof -
  define xs where "xs = (case od_input t of None \<Rightarrow> replicate n 0 | Some k \<Rightarrow> take n (audio k (processSource k w)))"
  obtain cs i' b' where c:
    "hop_loop (onset_handler odf sr pos time) xs (od_index t, od_buffer t, t) =
       (i', b', fold (onset_handler odf sr pos time) cs t)"
    using hop_loop_chunks [OF assms, of "onset_handler odf sr pos time" xs t] by blast
  have "fst (od_doProcess odf processSource audio sr pos n time t w) =
      (fold (onset_handler odf sr pos time) cs t)\<lparr>od_index := i', od_buffer := b'\<rparr>"
    using c by (auto simp: od_doProcess_def Let_def xs_def case_prod_beta split: option.splits)
  then show ?thesis using onset_handlers_once [of odf sr pos time cs t] by simp
qed

section \<open>Witnesses\<close>

definition example_btrack :: "nat btrack_ops" where
  "example_btrack = \<lparr>bt_processAudio = \<lambda>_. Suc, bt_processSample = \<lambda>_. Suc, bt_beatDue = \<lambda>b. b = 1,
     bt_tempo = \<lambda>_. 90, bt_setTempo = \<lambda>_ b. b\<rparr>"

definition example_audio_tracker :: "(nat, nat) audio_tracker" where
  "example_audio_tracker = \<lparr>at_btrack = 0, at_buffer = replicate 512 0, at_index = 500,
     at_master = Master 0 120 4 4, at_input = Some 0\<rparr>"

definition example_tracker :: "(nat, nat) midi_tracker" where
  "example_tracker = \<lparr>mt_btrack = 0, mt_master = Master 0 120 4 4, frameIndex = 0, currentOnset = 0,
     noteWeight = replicate 128 1, onBeatHandler = No_handler, countInNote = 37, countInCount = 3,
     lastCountTime = [0, 24000, 48000, 0], countStartTime = 0,
     onCountHandler = Handler \<lparr>sq_function = 7, numargs = 2\<rparr>, stopSeconds = 0, lastEventTime = 0,
     effects = []\<rparr>"

definition example_hit :: midi_event where
  "example_hit = Midi_Event 0 (mk_dur 1 0 1) 37 100 0x90 9"

theorem audio_hops_complete_witness:
  "\<exists>cs. (let t' = fst (at_doProcess example_btrack (\<lambda>_ w. w) (\<lambda>_ _. replicate 1024 1) 1024 example_audio_tracker ())
     in replicate 500 0 @ replicate 1024 1 = concat cs @ take (at_index t') (at_buffer t') \<and>
        (\<forall>c \<in> set cs. length c = HOP_SIZE) \<and> at_index t' < HOP_SIZE)"
  using audio_hops_complete [of example_audio_tracker "replicate 1024 1" 1024
      "\<lambda>_ _. replicate 1024 1" "\<lambda>_ w. w" "()" example_btrack]
  by (auto simp: example_audio_tracker_def HOP_SIZE_def Let_def)

lemma example_hit_offset: "frameOffset example_hit = 0"
  by (simp add: example_hit_def Midi_Event_def Event_at_def event.defs duration.defs)

lemma example_ideal: "idealBeatPeriod example_pos = 24000"
proof -
  have "rnd_double 24000 = 24000" using rnd_of_nat [of 24000 53] by simp
  then show ?thesis by (simp add: idealBeatPeriod_def example_pos_def)
qed

theorem count_in_sets_tempo_witness:
  "\<exists>t'. countInEvent example_btrack example_pos 72000 example_hit example_tracker = Inr t' \<and>
     countInCount t' = 4 \<and> effects t' = [OnCount 7 4] \<and> bpm (mt_master t') = 120"
proof -
  have r: "rnd_double 2880000 = 2880000" "rnd_double 120 = 120"
    using rnd_of_nat [of 2880000 53] rnd_of_nat [of 120 53] by simp_all
  have "\<exists>t'. countInEvent example_btrack example_pos 72000 example_hit example_tracker = Inr t' \<and>
     countInCount t' = 4 \<and> effects t' = [] @ [OnCount 7 4] \<and>
     bpm (mt_master t') = rnd_double (rnd_double (48000 * 60) / 24000)"
    using count_in_sets_tempo [of example_tracker 0 24000 48000 0 "\<lparr>sq_function = 7, numargs = 2\<rparr>" example_pos
        72000 example_hit example_btrack] example_ideal
    by (simp add: example_tracker_def example_hit_offset realBeatPeriod_def event_time_def Let_def) (auto simp: example_pos_def)
  then show ?thesis using r by simp
qed

theorem reset_count_handler_dangles_witness:
  "\<exists>t1 t2. onCount \<lparr>sq_function = 7, numargs = 2\<rparr> (example_tracker\<lparr>countInCount := 0\<rparr>) = Inr t1 \<and>
     mt_reset example_btrack (Inr (Master 0 90 4 4)) 90 t1 = Inr t2 \<and>
     countInEvent example_btrack example_pos 0 example_hit t2 = Inl (Undefined ''use of a deleted handler'')"
proof -
  let ?t1 = "example_tracker\<lparr>countInCount := 0, onCountHandler := Handler \<lparr>sq_function = 7, numargs = 2\<rparr>\<rparr>"
  let ?t2 = "?t1\<lparr>mt_master := Master 0 90 4 4, mt_btrack := 0, noteWeight := replicate 128 1, onCountHandler := Deleted\<rparr>"
  have "onCount \<lparr>sq_function = 7, numargs = 2\<rparr> (example_tracker\<lparr>countInCount := 0\<rparr>) = Inr ?t1"
    by (simp add: onCount_def)
  moreover have "mt_reset example_btrack (Inr (Master 0 90 4 4)) 90 ?t1 = Inr ?t2"
    by (simp add: mt_reset_def example_btrack_def example_tracker_def)
  ultimately show ?thesis
    using reset_count_handler_dangles [of "\<lparr>sq_function = 7, numargs = 2\<rparr>" "example_tracker\<lparr>countInCount := 0\<rparr>" ?t1
        example_btrack "Inr (Master 0 90 4 4)" 90 ?t2 example_pos 0 example_hit]
    by (auto simp: example_tracker_def)
qed

theorem one_onset_per_period_witness:
  "length (fired (fst (od_doProcess (\<lambda>_ d. (1000, d)) (\<lambda>_ w. w) (\<lambda>_ _. replicate 1024 1) 48000 example_pos 1024 48000
      (OnsetDetector () (replicate 512 0) (Some \<lparr>sq_function = 7, numargs = 2\<rparr>) :: (nat, unit, nat) onset_detector) ()))) \<le> 1"
  using one_onset_per_period [of "OnsetDetector () (replicate 512 0) (Some \<lparr>sq_function = 7, numargs = 2\<rparr>) :: (nat, unit, nat) onset_detector"
      "\<lambda>_ d. (1000, d)" "\<lambda>_ w. w" "\<lambda>_ _. replicate 1024 1" 48000 example_pos 1024 48000 "()"]
  by (simp add: OnsetDetector_def HOP_SIZE_def)

end
