(* ===== verification/Ticks.thy ===== *)
theory Ticks
  imports Musical_Time
begin

text \<open>
  Positions counted in ticks of a bar, which the readers of ABC, MML and drum tablature walk
  along: with \<open>D\<close> ticks in every bar, tick \<open>k\<close> of a piece that starts in bar one. As long as
  \<open>D\<close> stays below \<open>Duration::MAX_DENOMINATOR\<close> the arithmetic of \<open>src/position.cpp\<close> on these is
  exact, and the denominator stays \<open>D\<close>.
\<close>

definition tick_position :: "nat \<Rightarrow> nat \<Rightarrow> position" where
  "tick_position D k = mk_dur (1 + of_nat (k div D)) (of_nat (k mod D)) (of_nat D)"

definition tick_duration :: "nat \<Rightarrow> nat \<Rightarrow> duration" where
  "tick_duration D t = mk_dur (of_nat (t div D)) (of_nat (t mod D)) (of_nat D)"

text \<open>A number of ticks to the bar the arithmetic is exact for.\<close>

definition tick_base :: "nat \<Rightarrow> bool" where
  "tick_base D \<longleftrightarrow> 0 < D \<and> D \<le> 384000"

lemma of_nat_u32_simps:
  assumes "a < 2 ^ 32" "b < 2 ^ 32"
  shows "(of_nat a :: u32) = of_nat b \<longleftrightarrow> a = b" "(of_nat a :: u32) \<le> of_nat b \<longleftrightarrow> a \<le> b"
    "(of_nat a :: u32) < of_nat b \<longleftrightarrow> a < b"
    "(of_nat a :: u32) div of_nat b = of_nat (a div b)" "(of_nat a :: u32) mod of_nat b = of_nat (a mod b)"
proof -
  have u: "unat (of_nat a :: u32) = a" "unat (of_nat b :: u32) = b"
    using assms by (simp_all add: unat_u32_of_nat)
  show "(of_nat a :: u32) = of_nat b \<longleftrightarrow> a = b" using u by metis
  show "(of_nat a :: u32) \<le> of_nat b \<longleftrightarrow> a \<le> b" "(of_nat a :: u32) < of_nat b \<longleftrightarrow> a < b"
    using u by (simp_all add: word_le_nat_alt word_less_nat_alt)
  show "(of_nat a :: u32) div of_nat b = of_nat (a div b)" "(of_nat a :: u32) mod of_nat b = of_nat (a mod b)"
    using u by (simp_all add: word_arith_nat_div word_arith_nat_mod)
qed

lemma tick_base_word:
  assumes "tick_base D"
  shows "(of_nat D :: u32) \<noteq> 0" "\<not> MAX_DENOMINATOR < (of_nat D :: u32)"
  using assms of_nat_u32_simps(1) [of D 0] of_nat_u32_simps(3) [of 384000 D]
  by (simp_all add: tick_base_def MAX_DENOMINATOR_def)

text \<open>Normalising an exact number of ticks only carries whole bars.\<close>

lemma normalize_ticks:
  assumes "tick_base D" "t < 2 ^ 32"
  shows "normalize_dur (mk_dur w (of_nat t) (of_nat D)) =
     Inr (mk_dur (w + of_nat (t div D)) (of_nat (t mod D)) (of_nat D))"
proof (cases "D \<le> t")
  case True
  moreover have "D < 2 ^ 32" using assms(1) by (simp add: tick_base_def)
  ultimately show ?thesis
    using tick_base_word [OF assms(1)] assms(2) of_nat_u32_simps [of t D] of_nat_u32_simps(2) [of D t]
    by (simp add: normalize_dur_def Let_def mk_dur_def)
next
  case False
  moreover have "D < 2 ^ 32" using assms(1) by (simp add: tick_base_def)
  ultimately show ?thesis
    using tick_base_word [OF assms(1)] assms(2) of_nat_u32_simps(2) [of D t]
    by (simp add: normalize_dur_def Let_def mk_dur_def)
qed

lemma Duration_ticks:
  assumes "tick_base D" "t < 2 ^ 32"
  shows "Duration 0 (of_nat t) (of_nat D) = Inr (tick_duration D t)"
  using normalize_ticks [OF assms, of 0] tick_base_word(1) [OF assms(1)]
  by (simp add: Duration_def tick_duration_def)

lemma Position_ticks:
  assumes "tick_base D" "t < 2 ^ 32" "b \<noteq> 0"
  shows "Position b (of_nat t) (of_nat D) = Inr (mk_dur (b + of_nat (t div D)) (of_nat (t mod D)) (of_nat D))"
  using normalize_ticks [OF assms(1,2), of b] tick_base_word(1) [OF assms(1)] assms(3)
  by (simp add: Position_def Duration_def)

lemma mod_tick_base:
  assumes "tick_base D"
  shows "k mod D < 384000"
proof -
  have "k mod D < D" using assms by (simp add: tick_base_def)
  then show ?thesis using assms by (simp add: tick_base_def)
qed

lemma div_add_parts:
  fixes D :: nat
  assumes "0 < D"
  shows "a div D + b div D + (a mod D + b mod D) div D = (a + b) div D"
    "(a mod D + b mod D) mod D = (a + b) mod D"
  by (rule div_add1_eq [symmetric], rule mod_add_eq)

lemma tick_position_plus:
  assumes "tick_base D"
  shows "pos_plus (tick_position D k) (tick_duration D t) = Inr (tick_position D (k + t))"
proof -
  have D: "0 < D" using assms by (simp add: tick_base_def)
  have "normalize_dur (mk_dur (1 + of_nat (k div D) + of_nat (t div D)) (of_nat (k mod D + t mod D)) (of_nat D)) =
     Inr (mk_dur (1 + of_nat (k div D) + of_nat (t div D) + of_nat ((k mod D + t mod D) div D))
       (of_nat ((k mod D + t mod D) mod D)) (of_nat D))"
    using mod_tick_base [OF assms, of k] mod_tick_base [OF assms, of t] by (intro normalize_ticks [OF assms]) simp
  moreover have "(1 + of_nat (k div D) + of_nat (t div D) + of_nat ((k mod D + t mod D) div D) :: u32) =
     1 + of_nat ((k + t) div D)"
    unfolding div_add_parts(1) [OF D, of k t, symmetric] by simp
  ultimately show ?thesis
    using D by (simp add: pos_plus_def tick_position_def tick_duration_def mk_dur_def div_add_parts(2))
qed

text \<open>The first step away from the start of the piece takes on the denominator.\<close>

lemma first_bar_plus:
  assumes "tick_base D"
  shows "pos_plus (mk_dur 1 0 1) (tick_duration D t) = Inr (tick_position D t)"
proof -
  have "normalize_dur (mk_dur (1 + of_nat (t div D)) (of_nat (t mod D)) (of_nat D)) =
     Inr (mk_dur (1 + of_nat (t div D) + of_nat (t mod D div D)) (of_nat (t mod D mod D)) (of_nat D))"
    using mod_tick_base [OF assms, of t] by (intro normalize_ticks [OF assms]) simp
  moreover have "t mod D div D = 0" using assms by (simp add: tick_base_def)
  ultimately show ?thesis
    by (cases "(of_nat D :: u32) = 1") (simp_all add: pos_plus_def tick_position_def tick_duration_def mk_dur_def Let_def)
qed

lemma tick_position_minus:
  assumes "tick_base D" "a \<le> b" "b < 2 ^ 31"
  shows "dur_minus (tick_position D b) (tick_position D a) = Inr (mk_dur 0 (of_nat (b - a)) (of_nat D))"
proof -
  have D: "0 < D" "D < 2 ^ 32" using assms(1) by (simp_all add: tick_base_def)
  have le: "a div D \<le> b div D" using assms(2) by (rule div_le_mono)
  have w: "unat (1 + of_nat (b div D) :: u32) = 1 + b div D" "unat (1 + of_nat (a div D) :: u32) = 1 + a div D"
  proof -
    have "b div D < 2 ^ 31" using assms(3) by (meson div_le_dividend le_less_trans)
    then show "unat (1 + of_nat (b div D) :: u32) = 1 + b div D" "unat (1 + of_nat (a div D) :: u32) = 1 + a div D"
      using le unat_u32_of_nat [of "1 + b div D"] unat_u32_of_nat [of "1 + a div D"] by simp_all
  qed
  have m: "unat (of_nat (b mod D) :: u32) = b mod D" "unat (of_nat D :: u32) = D"
    using D mod_tick_base [OF assms(1), of b] by (simp_all add: unat_u32_of_nat)
  obtain j where j: "b div D = a div D + j" using le by (metis le_Suc_ex)
  have "b = a div D * D + j * D + b mod D" "a = a div D * D + a mod D"
    using j div_mult_mod_eq [of b D] div_mult_mod_eq [of a D] by (simp_all add: add_mult_distrib)
  then have "b mod D + j * D = b - a + a mod D" using assms(2) by linarith
  then have n: "b mod D + (b div D - a div D) * D = b - a + a mod D" using j by simp
  have "unat (minus_loop (1 + of_nat (b div D)) (1 + of_nat (a div D)) (of_nat (b mod D)) (of_nat D)) =
     b mod D + (b div D - a div D) * D"
    using minus_loop_unat [of "of_nat (b mod D)" "1 + of_nat (b div D)" "1 + of_nat (a div D)" "of_nat D"] w m n assms(3)
      mod_tick_base [OF assms(1), of a] by simp
  then have "minus_loop (1 + of_nat (b div D)) (1 + of_nat (a div D)) (of_nat (b mod D)) (of_nat D) =
     of_nat (b - a + a mod D)"
    using n by (metis word_of_nat_unat)
  then show ?thesis by (simp add: dur_minus_def tick_position_def)
qed

lemma tick_position_dvalue:
  assumes "tick_base D" "k < 2 ^ 31"
  shows "dvalue (tick_position D k) = 1 + of_nat k / of_nat D"
proof -
  have D: "0 < D" "D < 2 ^ 32" using assms(1) by (simp_all add: tick_base_def)
  have "k div D < 2 ^ 31" using assms(2) by (meson div_le_dividend le_less_trans)
  then have w: "unat (1 + of_nat (k div D) :: u32) = 1 + k div D"
    using unat_u32_of_nat [of "1 + k div D"] by simp
  have "(of_nat k :: rat) = of_nat (k div D) * of_nat D + of_nat (k mod D)"
    by (metis div_mult_mod_eq of_nat_add of_nat_mult)
  then show ?thesis
    using w D mod_tick_base [OF assms(1), of k]
    by (simp add: dvalue_def tick_position_def unat_u32_of_nat add_divide_distrib)
qed

end
