(* ===== verification/Drum_Tab.thy ===== *)
theory Drum_Tab
  imports Ticks Midi_Data
begin

text \<open>
  The reader of drum tablature (\<open>src/drumtabreader.h\<close>, \<open>src/drumtabreader.cpp\<close>): the tables of
  pitches and velocities, the bars of a line, the lines of a text. A C string is the list of its
  characters before the terminator, and a pointer with a length is the list of the characters it
  spans.
\<close>

section \<open>Characters\<close>

definition is_space :: "char \<Rightarrow> bool" where
  "is_space c = (of_char c \<in> {9, 10, 11, 12, 13, 32 :: nat})"

definition is_digit :: "char \<Rightarrow> bool" where
  "is_digit c = (48 \<le> (of_char c :: nat) \<and> (of_char c :: nat) \<le> 57)"

definition to_upper :: "char \<Rightarrow> char" where
  "to_upper c = (if 97 \<le> (of_char c :: nat) \<and> (of_char c :: nat) \<le> 122 then char_of ((of_char c :: nat) - 32) else c)"

definition digit_value :: "char \<Rightarrow> int" where
  "digit_value c = of_char c - 48"

section \<open>The reader\<close>

type_synonym table = "string \<rightharpoonup> int"

record drum_reader =
  noteValue :: table
  noteVelocity :: table

definition DrumTabReader :: drum_reader where
  "DrumTabReader =
     \<lparr>noteValue = map_of
        [(''SDo'', 38), (''SNo'', 38), (''SNO'', 38), (''S o'', 38), (''S g'', 38), (''SNg'', 38), (''S d'', 38),
         (''SNd'', 38), (''SDf'', 40), (''SNF'', 40), (''S F'', 40),
         (''BDo'', 36), (''B o'', 36),
         (''RDX'', 51), (''CRx'', 51), (''CCX'', 49), (''C1X'', 49), (''C2X'', 57),
         (''HHx'', 42), (''HHX'', 42), (''HHo'', 42), (''HHg'', 42), (''HFx'', 44), (''HHO'', 46),
         (''T1o'', 48), (''T2o'', 47), (''T3o'', 43),
         (''FTo'', 45), (''FTO'', 45), (''F1o'', 45), (''F2o'', 45)],
      noteVelocity = map_of
        [(''SDo'', 111), (''SNO'', 127), (''S d'', 22), (''SNd'', 22), (''S g'', 33), (''BDo'', 111),
         (''HHX'', 127), (''HHg'', 33), (''FTO'', 127)]\<rparr>"

text \<open>\<open>operator[]\<close> of a map of numbers inserts a zero under a key it does not have.\<close>

definition index_map :: "string \<Rightarrow> table \<Rightarrow> int \<times> table" where
  "index_map k m = (case m k of Some v \<Rightarrow> (v, m) | None \<Rightarrow> (0, m(k \<mapsto> 0)))"

definition define_code :: "string \<Rightarrow> string \<Rightarrow> int \<Rightarrow> int \<Rightarrow> drum_reader \<Rightarrow> drum_reader" where
  "define_code code hit note v r =
     r\<lparr>noteValue := (noteValue r)(code @ hit \<mapsto> note), noteVelocity := (noteVelocity r)(code @ hit \<mapsto> v)\<rparr>"

definition define_number :: "int \<Rightarrow> string \<Rightarrow> int \<Rightarrow> drum_reader \<Rightarrow> drum_reader" where
  "define_number note hit v r = r\<lparr>noteVelocity := (noteVelocity r)(show_int note @ hit \<mapsto> v)\<rparr>"

definition setVelocity :: "int \<Rightarrow> string \<Rightarrow> int \<Rightarrow> drum_reader \<Rightarrow> drum_reader" where
  "setVelocity note hit v r = define_number note hit v r"

section \<open>Bars\<close>

text \<open>
  One strike: the pitch is the number in the first two columns, or what the table has under the
  letters there; the velocity is what the table has under the letters and the strike.
\<close>

definition strike :: "int \<Rightarrow> char \<Rightarrow> char \<Rightarrow> nat \<Rightarrow> nat \<Rightarrow> char \<Rightarrow> drum_reader \<times> pattern \<Rightarrow> (drum_reader \<times> pattern) res"
where
  "strike bar c0 c1 len i c rp =
     (case rp of (r, pat) \<Rightarrow>
       let hit = [to_upper c0, to_upper c1];
           (notenum, r1) =
             (if is_digit c0 \<and> is_digit c1 then (10 * digit_value c0 + digit_value c1, r)
              else (let (n, m) = index_map hit (noteValue r) in (n, r\<lparr>noteValue := m\<rparr>)));
           (v, m) = index_map (hit @ [c]) (noteVelocity r1);
           velocity = (if v = 0 then 127 else v)
       in bind_res (Note notenum (word_of_int velocity) 1 (int len)) (\<lambda>note.
          bind_res (addNote note bar (int i) (int len) pat) (\<lambda>pat'.
            Inr (r1\<lparr>noteVelocity := m\<rparr>, pat'))))"

fun bar_loop ::
  "int \<Rightarrow> char \<Rightarrow> char \<Rightarrow> nat \<Rightarrow> nat \<Rightarrow> string \<Rightarrow> drum_reader \<times> pattern \<Rightarrow> (drum_reader \<times> pattern) res"
where
  "bar_loop bar c0 c1 len i [] rp = Inr rp"
| "bar_loop bar c0 c1 len i (c # cs) rp =
     bind_res (if c \<noteq> CHR ''-'' then strike bar c0 c1 len i c rp else Inr rp)
       (bar_loop bar c0 c1 len (Suc i) cs)"

definition processBar :: "int \<Rightarrow> char \<Rightarrow> char \<Rightarrow> string \<Rightarrow> drum_reader \<times> pattern \<Rightarrow> (drum_reader \<times> pattern) res" where
  "processBar bar c0 c1 line rp = bar_loop bar c0 c1 (length line) 0 line rp"

section \<open>Lines\<close>

text \<open>
  The characters still to be looked at are the last argument but one; \<open>last\<close> and \<open>i\<close> are indices
  into the body of the line.
\<close>

fun tab_loop ::
  "char \<Rightarrow> char \<Rightarrow> string \<Rightarrow> nat \<Rightarrow> nat \<Rightarrow> int \<Rightarrow> string \<Rightarrow> drum_reader \<times> pattern \<Rightarrow> (int \<times> drum_reader \<times> pattern) res"
where
  "tab_loop c0 c1 line lst i barCounter [] rp = Inr (barCounter, rp)"
| "tab_loop c0 c1 line lst i barCounter (c # cs) rp =
     (if c = CHR ''|''
      then bind_res (processBar barCounter c0 c1 (take (i - lst) (drop lst line)) rp)
             (tab_loop c0 c1 line (Suc i) (Suc i) (barCounter + 1) cs)
      else tab_loop c0 c1 line lst (Suc i) barCounter cs rp)"

definition processTabLine ::
  "int \<Rightarrow> string \<Rightarrow> drum_reader \<times> pattern \<Rightarrow> (int \<times> drum_reader \<times> pattern) res"
where
  "processTabLine startBar line rp =
     bind_res (tab_loop (line ! 0) (line ! 1) (drop 3 line) 0 0 startBar (drop 3 line) rp)
       (\<lambda>(barCounter, rp'). Inr (barCounter - startBar, rp'))"

section \<open>Texts\<close>

text \<open>One line, given the bar its group of lines starts in and the bars of the last line.\<close>

definition read_line ::
  "string \<Rightarrow> int \<times> int \<times> drum_reader \<times> pattern \<Rightarrow> (int \<times> int \<times> drum_reader \<times> pattern) res"
where
  "read_line segment st =
     (case st of (startBar, lineBars, rp) \<Rightarrow>
       let line = dropWhile is_space segment
       in if 3 < length line \<and> line ! 2 = CHR ''|''
          then bind_res (processTabLine startBar line rp) (\<lambda>(bars, rp'). Inr (startBar, bars, rp'))
          else if line = [] then Inr (startBar + lineBars, 0, rp)
          else Inr (startBar, lineBars, rp))"

text \<open>The line from \<open>last\<close> to the newline at \<open>i\<close> or to the end; the newline starts the next one.\<close>

fun read_loop ::
  "string \<Rightarrow> nat \<Rightarrow> nat \<Rightarrow> string \<Rightarrow> int \<times> int \<times> drum_reader \<times> pattern \<Rightarrow> (int \<times> int \<times> drum_reader \<times> pattern) res"
where
  "read_loop tab lst i [] st = read_line (take (i - lst) (drop lst tab)) st"
| "read_loop tab lst i (c # cs) st =
     (if c = CHR 0x0A
      then bind_res (read_line (take (i - lst) (drop lst tab)) st) (read_loop tab i (Suc i) cs)
      else read_loop tab lst (Suc i) cs st)"

definition drum_read :: "string \<Rightarrow> drum_reader \<Rightarrow> (drum_reader \<times> pattern) res" where
  "drum_read tab r = bind_res (read_loop tab 0 0 tab (1, 0, r, [])) (\<lambda>(startBar, lineBars, rp). Inr rp)"

section \<open>The notes of a tablature\<close>

text \<open>The pieces of a list between the occurrences of a separator.\<close>

fun split_on :: "'a \<Rightarrow> 'a list \<Rightarrow> 'a list list" where
  "split_on s [] = [[]]"
| "split_on s (x # xs) =
     (if x = s then [] # split_on s xs else (x # hd (split_on s xs)) # tl (split_on s xs))"

text \<open>
  What a line means: the bars are the pieces closed by a bar line, and every character but a dash
  is a note in its place of the bar, as long as one such place. A row headed by two digits plays
  that pitch; what the other rows play is what the code makes of them.
\<close>

definition row_pitch :: "char \<Rightarrow> char \<Rightarrow> int" where
  "row_pitch c0 c1 = (if is_digit c0 \<and> is_digit c1 then 10 * digit_value c0 + digit_value c1 else 0)"

definition strike_velocity :: "drum_reader \<Rightarrow> string \<Rightarrow> int" where
  "strike_velocity r k = (case noteVelocity r k of None \<Rightarrow> 127 | Some v \<Rightarrow> if v = 0 then 127 else v)"

definition strike_note :: "drum_reader \<Rightarrow> char \<Rightarrow> char \<Rightarrow> int \<Rightarrow> nat \<Rightarrow> nat \<times> char \<Rightarrow> pattern_note" where
  "strike_note r c0 c1 bar len ic =
     \<lparr>pn_note = Note_lasting (row_pitch c0 c1) (word_of_int (strike_velocity r [to_upper c0, to_upper c1, snd ic]))
        (tick_duration len 1),
      pn_position = mk_dur (word_of_int bar) (of_nat (fst ic)) (of_nat len)\<rparr>"

definition bar_notes :: "drum_reader \<Rightarrow> char \<Rightarrow> char \<Rightarrow> int \<Rightarrow> string \<Rightarrow> pattern" where
  "bar_notes r c0 c1 bar line =
     map (strike_note r c0 c1 bar (length line)) (filter (\<lambda>(i, c). c \<noteq> CHR ''-'') (enumerate 0 line))"

fun bars_notes :: "drum_reader \<Rightarrow> char \<Rightarrow> char \<Rightarrow> int \<Rightarrow> string list \<Rightarrow> pattern" where
  "bars_notes r c0 c1 bar [] = []"
| "bars_notes r c0 c1 bar (b # bs) = bar_notes r c0 c1 bar b @ bars_notes r c0 c1 (bar + 1) bs"

definition closed_bars :: "string \<Rightarrow> string list" where
  "closed_bars line = butlast (split_on (CHR ''|'') (drop 3 line))"

definition is_row :: "string \<Rightarrow> bool" where
  "is_row line \<longleftrightarrow> 3 < length line \<and> line ! 2 = CHR ''|''"

text \<open>Rows below each other play together; an empty line moves on past the last of them.\<close>

fun text_notes :: "drum_reader \<Rightarrow> int \<Rightarrow> int \<Rightarrow> string list \<Rightarrow> pattern" where
  "text_notes r startBar lineBars [] = []"
| "text_notes r startBar lineBars (line # ls) =
     (if is_row line
      then bars_notes r (line ! 0) (line ! 1) startBar (closed_bars line) @
             text_notes r startBar (int (length (closed_bars line))) ls
      else if line = [] then text_notes r (startBar + lineBars) 0 ls
      else text_notes r startBar lineBars ls)"

section \<open>Lemmas\<close>

text \<open>No pitch is stored under two letters, which is where the reader looks for one.\<close>

definition no_codes :: "drum_reader \<Rightarrow> bool" where
  "no_codes r \<longleftrightarrow> (\<forall>k v. length k = 2 \<and> noteValue r k = Some v \<longrightarrow> v = 0)"

text \<open>Reading changes the tables only where that makes no difference.\<close>

definition same_sound :: "drum_reader \<Rightarrow> drum_reader \<Rightarrow> bool" where
  "same_sound r r' \<longleftrightarrow> no_codes r' \<and> (\<forall>k. strike_velocity r' k = strike_velocity r k)"

lemma no_codes_new: "no_codes DrumTabReader"
proof -
  have "k \<in> dom (noteValue DrumTabReader) \<Longrightarrow> length k = 3" for k
    unfolding DrumTabReader_def by (auto simp: dom_map_of_conv_image_fst)
  then show ?thesis by (force simp: no_codes_def)
qed

lemma no_codes_setVelocity: "no_codes r \<Longrightarrow> no_codes (setVelocity n h v r)"
  by (simp add: no_codes_def setVelocity_def define_number_def)

lemma same_sound_refl: "no_codes r \<Longrightarrow> same_sound r r"
  by (simp add: same_sound_def)

lemma same_sound_trans: "same_sound r s \<Longrightarrow> same_sound s t \<Longrightarrow> same_sound r t"
  by (simp add: same_sound_def)

lemma same_sound_note: "same_sound r s \<Longrightarrow> strike_note s = strike_note r"
  by (intro ext) (simp add: strike_note_def same_sound_def)

lemma same_sound_bars: "same_sound r s \<Longrightarrow> bars_notes s c0 c1 bar bs = bars_notes r c0 c1 bar bs"
  by (induction bs arbitrary: bar) (simp_all add: bar_notes_def same_sound_note)

lemma same_sound_text: "same_sound r s \<Longrightarrow> text_notes s b l ls = text_notes r b l ls"
  by (induction ls arbitrary: b l) (simp_all add: same_sound_bars)

lemma split_on_nonempty [simp]: "split_on s xs \<noteq> []"
  by (cases xs) simp_all

lemma split_on_none: "s \<notin> set xs \<Longrightarrow> split_on s xs = [xs]"
  by (induction xs) auto

lemma split_on_first: "s \<notin> set xs \<Longrightarrow> split_on s (xs @ s # ys) = xs # split_on s ys"
  by (induction xs) auto

lemma length_split_on: "length (split_on s xs) \<le> Suc (length xs)"
  by (induction xs) simp_all

lemma split_on_mem: "p \<in> set (split_on s xs) \<Longrightarrow> set p \<subseteq> set xs"
proof (induction xs arbitrary: p)
  case (Cons x xs)
  note hd = Cons.IH [OF hd_in_set [OF split_on_nonempty]]
  have tl: "set q \<subseteq> set xs" if "q \<in> set (tl (split_on s xs))" for q
    using Cons.IH list.set_sel(2) [OF split_on_nonempty that] by blast
  show ?case
  proof (cases "x = s")
    case True
    then show ?thesis using Cons.prems Cons.IH [of p] by auto
  next
    case False
    then have "p = x # hd (split_on s xs) \<or> p \<in> set (tl (split_on s xs))" using Cons.prems by simp
    then show ?thesis using hd tl [of p] by auto
  qed
qed simp

lemma strike_correct:
  assumes "no_codes r" "tick_base len" "i < len" "1 \<le> bar" "bar < 2 ^ 32"
  shows "\<exists>r'. strike bar c0 c1 len i c (r, pat) = Inr (r', pat @ [strike_note r c0 c1 bar len (i, c)]) \<and>
     same_sound r r'"
proof -
  have u: "word_of_int (int len) = (of_nat len :: u32)" "word_of_int (int i) = (of_nat i :: u32)" by simp_all
  have "i < 2 ^ 32" "len < 2 ^ 32" using assms(2,3) by (simp_all add: tick_base_def)
  moreover have "(word_of_int bar :: u32) \<noteq> 0"
    using unat_u32_of_int [of bar] assms(4,5) by auto
  ultimately have p: "Duration 0 1 (of_nat len) = Inr (tick_duration len 1)"
    "Position (word_of_int bar) (of_nat i) (of_nat len) = Inr (mk_dur (word_of_int bar) (of_nat i) (of_nat len))"
    using Duration_ticks [OF assms(2), of 1] Position_ticks [OF assms(2), of i "word_of_int bar"] assms(3) by simp_all
  obtain n r1 where n: "(if is_digit c0 \<and> is_digit c1 then (10 * digit_value c0 + digit_value c1, r)
      else (let (n, m) = index_map [to_upper c0, to_upper c1] (noteValue r) in (n, r\<lparr>noteValue := m\<rparr>))) = (n, r1)"
    by fastforce
  have n1: "n = row_pitch c0 c1" "no_codes r1" "noteVelocity r1 = noteVelocity r"
    using n assms(1) assms(1) [unfolded no_codes_def, rule_format, of "[to_upper c0, to_upper c1]" n]
    by (auto simp: row_pitch_def index_map_def no_codes_def split: if_splits option.splits)
  obtain v m where v: "index_map ([to_upper c0, to_upper c1] @ [c]) (noteVelocity r1) = (v, m)" by fastforce
  have "(if v = 0 then 127 else v) = strike_velocity r [to_upper c0, to_upper c1, c]"
    using v n1(3) by (auto simp: index_map_def strike_velocity_def split: option.splits)
  moreover have "same_sound r (r1\<lparr>noteVelocity := m\<rparr>)"
    using v n1 by (auto simp: same_sound_def no_codes_def index_map_def strike_velocity_def split: option.splits if_splits)
  ultimately show ?thesis
    using n v p n1(1) u
    by (simp add: strike_def Note_def addNote_def strike_note_def Note_lasting_def Let_def)
qed

lemma bar_loop_correct:
  assumes "no_codes r" "tick_base len" "i + length cs \<le> len" "1 \<le> bar" "bar < 2 ^ 32"
  shows "\<exists>r'. bar_loop bar c0 c1 len i cs (r, pat) =
       Inr (r', pat @ map (strike_note r c0 c1 bar len) (filter (\<lambda>(i, c). c \<noteq> CHR ''-'') (enumerate i cs))) \<and>
     same_sound r r'"
  using assms(1,3)
proof (induction cs arbitrary: i r pat)
  case (Cons c cs)
  show ?case
  proof (cases "c = CHR ''-''")
    case False
    obtain r1 where r1: "strike bar c0 c1 len i c (r, pat) = Inr (r1, pat @ [strike_note r c0 c1 bar len (i, c)])"
      "same_sound r r1"
      using strike_correct [OF Cons.prems(1) assms(2) _ assms(4,5), of i c0 c1 c pat] Cons.prems(2) by auto
    then have "no_codes r1" by (simp add: same_sound_def)
    from Cons.IH [OF this, of "Suc i" "pat @ [strike_note r c0 c1 bar len (i, c)]"] Cons.prems(2)
    show ?thesis using False r1 by (auto simp: same_sound_note intro: same_sound_trans)
  qed (use Cons.IH [OF Cons.prems(1), of "Suc i" pat] Cons.prems(2) in simp)
qed (simp add: same_sound_refl)

lemma tab_loop_correct:
  assumes "no_codes r" "length line \<le> 384000" "drop lst line = seg @ cs" "lst + length seg = i" "CHR ''|'' \<notin> set seg"
    "1 \<le> bar" "bar + int (length cs) < 2 ^ 32"
  shows "\<exists>r'. tab_loop c0 c1 line lst i bar cs (r, pat) =
       Inr (bar + int (length (butlast (split_on (CHR ''|'') (seg @ cs)))), r',
            pat @ bars_notes r c0 c1 bar (butlast (split_on (CHR ''|'') (seg @ cs)))) \<and>
     same_sound r r'"
  using assms(1,3-)
proof (induction cs arbitrary: lst i seg bar r pat)
  case Nil
  then show ?case by (simp add: split_on_none same_sound_refl)
next
  case (Cons c cs)
  show ?case
  proof (cases "c = CHR ''|''")
    case True
    have seg: "take (i - lst) (drop lst line) = seg" using Cons.prems(2,3) by auto
    have "length (drop lst line) \<le> 384000" using assms(2) by simp
    then have len: "length seg \<le> 384000" using Cons.prems(2) by simp
    have "\<exists>r1. processBar bar c0 c1 seg (r, pat) = Inr (r1, pat @ bar_notes r c0 c1 bar seg) \<and> same_sound r r1"
    proof (cases "seg = []")
      case True
      then show ?thesis using Cons.prems(1) by (simp add: processBar_def bar_notes_def same_sound_refl)
    next
      case False
      then have "tick_base (length seg)" using len by (simp add: tick_base_def)
      from bar_loop_correct [OF Cons.prems(1) this, of 0 seg bar c0 c1 pat] Cons.prems(5,6)
      show ?thesis by (simp add: processBar_def bar_notes_def)
    qed
    then obtain r1 where r1: "processBar bar c0 c1 seg (r, pat) = Inr (r1, pat @ bar_notes r c0 c1 bar seg)"
      "same_sound r r1" by blast
    have "no_codes r1" using r1(2) by (simp add: same_sound_def)
    moreover have "drop (Suc i) line = [] @ cs"
    proof -
      have "drop (Suc i) line = drop (Suc (length seg)) (drop lst line)" using Cons.prems(3) by (simp add: ac_simps)
      then show ?thesis using Cons.prems(2) by simp
    qed
    moreover have "Suc i + length ([] :: string) = Suc i" "CHR ''|'' \<notin> set []" "1 \<le> bar + 1"
      "bar + 1 + int (length cs) < 2 ^ 32"
      using Cons.prems(5,6) by simp_all
    ultimately obtain r2 where "tab_loop c0 c1 line (Suc i) (Suc i) (bar + 1) cs (r1, pat @ bar_notes r c0 c1 bar seg) =
       Inr (bar + 1 + int (length (butlast (split_on (CHR ''|'') cs))), r2,
            (pat @ bar_notes r c0 c1 bar seg) @ bars_notes r1 c0 c1 (bar + 1) (butlast (split_on (CHR ''|'') cs)))"
      "same_sound r1 r2"
      using Cons.IH [of r1 "Suc i" "[]" "Suc i" "bar + 1" "pat @ bar_notes r c0 c1 bar seg"] by auto
    moreover have "1 + int (length (butlast (split_on (CHR ''|'') cs))) = int (length (split_on (CHR ''|'') cs))"
      by (cases "split_on (CHR ''|'') cs" rule: rev_cases) simp_all
    moreover have "same_sound r r2" using r1(2) \<open>same_sound r1 r2\<close> by (rule same_sound_trans)
    ultimately show ?thesis
      using True seg r1 Cons.prems(4) by (simp add: split_on_first same_sound_bars)
  next
    case False
    moreover have "CHR ''|'' \<notin> set (seg @ [c])" "drop lst line = (seg @ [c]) @ cs" "lst + length (seg @ [c]) = Suc i"
      using Cons.prems False by auto
    ultimately show ?thesis
      using Cons.IH [OF Cons.prems(1), of lst "seg @ [c]" "Suc i" bar pat] Cons.prems(5,6) by simp
  qed
qed

definition blank :: "string \<Rightarrow> string" where "blank line = dropWhile is_space line"

lemma blank_newline: "set pre \<subseteq> {CHR 0x0A} \<Longrightarrow> blank (pre @ seg) = blank seg"
  unfolding blank_def by (rule dropWhile_append2) (auto simp: is_space_def)

text \<open>What the reader keeps: the next free bar is no further than the characters read.\<close>

lemma read_line_correct:
  assumes "no_codes r" "length segment + lst \<le> 384000" "1 \<le> b" "0 \<le> l" "b + l \<le> 1 + int lst"
  shows "\<exists>r' b' l'. read_line segment (b, l, r, pat) =
       Inr (b', l', r', pat @ text_notes r b l [blank segment]) \<and>
     same_sound r r' \<and> 1 \<le> b' \<and> 0 \<le> l' \<and> b' + l' \<le> 1 + int (lst + length segment) \<and>
     (\<forall>ls. text_notes r b l (blank segment # ls) = text_notes r b l [blank segment] @ text_notes r b' l' ls)"
proof -
  let ?line = "blank segment"
  have len: "length ?line \<le> length segment" by (simp add: blank_def length_dropWhile_le)
  show ?thesis
  proof (cases "is_row ?line")
    case True
    let ?bars = "closed_bars ?line"
    have nb: "length ?bars \<le> length ?line"
      using length_split_on [of "CHR ''|''" "drop 3 ?line"] True by (simp add: closed_bars_def is_row_def)
    obtain r' where r': "tab_loop (?line ! 0) (?line ! 1) (drop 3 ?line) 0 0 b (drop 3 ?line) (r, pat) =
         Inr (b + int (length ?bars), r', pat @ bars_notes r (?line ! 0) (?line ! 1) b ?bars)" "same_sound r r'"
    proof -
      have "length (drop 3 ?line) \<le> 384000" "b + int (length (drop 3 ?line)) < 2 ^ 32"
        using len assms(2-5) by auto
      from tab_loop_correct [OF assms(1) this(1), of 0 "[]" "drop 3 ?line" 0 b "?line ! 0" "?line ! 1" pat]
        this(2) assms(3) that
      show ?thesis by (auto simp: closed_bars_def)
    qed
    have "read_line segment (b, l, r, pat) =
        Inr (b, int (length ?bars), r', pat @ bars_notes r (?line ! 0) (?line ! 1) b ?bars)"
      using True r'(1) by (simp add: read_line_def Let_def blank_def is_row_def processTabLine_def)
    moreover have "b + int (length ?bars) \<le> 1 + int (lst + length segment)" using nb len assms(4,5) by simp
    ultimately show ?thesis using True r'(2) assms(3) by auto
  next
    case False
    then show ?thesis
      using assms by (cases "?line = []")
        (auto simp: read_line_def Let_def blank_def is_row_def same_sound_refl)
  qed
qed

lemma read_loop_correct:
  assumes "no_codes r" "length tab \<le> 384000" "drop lst tab = pre @ seg @ cs" "lst + length (pre @ seg) = i"
    "set pre \<subseteq> {CHR 0x0A}" "CHR 0x0A \<notin> set seg" "lst \<le> length tab" "1 \<le> b" "0 \<le> l" "b + l \<le> 1 + int lst"
  shows "\<exists>r' b' l'. read_loop tab lst i cs (b, l, r, pat) =
       Inr (b', l', r', pat @ text_notes r b l (map blank (split_on (CHR 0x0A) (seg @ cs)))) \<and> same_sound r r'"
  using assms(1,3-)
proof (induction cs arbitrary: lst i pre seg b l r pat)
  case Nil
  have seg: "take (i - lst) (drop lst tab) = pre @ seg" using Nil.prems(2,3) by auto
  have "blank (pre @ seg) = blank seg" using Nil.prems(4) by (rule blank_newline)
  moreover have "length (pre @ seg) + lst \<le> 384000"
    using arg_cong [OF Nil.prems(2), of length] assms(2) Nil.prems(6) by simp
  note read_line_correct [OF Nil.prems(1) this Nil.prems(7-9), of pat]
  ultimately show ?case using seg Nil.prems(5) by (auto simp: split_on_none)
next
  case (Cons c cs)
  show ?case
  proof (cases "c = CHR 0x0A")
    case True
    have seg: "take (i - lst) (drop lst tab) = pre @ seg" using Cons.prems(2,3) by auto
    have bl: "blank (pre @ seg) = blank seg" using Cons.prems(4) by (rule blank_newline)
    have n: "length (pre @ seg) + lst < length tab"
      using arg_cong [OF Cons.prems(2), of length] Cons.prems(6) by simp
    then have "length (pre @ seg) + lst \<le> 384000" using assms(2) by simp
    from read_line_correct [OF Cons.prems(1) this Cons.prems(7-9), of pat]
    obtain r1 b1 l1 where r1: "read_line (pre @ seg) (b, l, r, pat) =
         Inr (b1, l1, r1, pat @ text_notes r b l [blank seg])" "same_sound r r1" "1 \<le> b1" "0 \<le> l1"
       "b1 + l1 \<le> 1 + int (lst + length (pre @ seg))"
       "\<forall>ls. text_notes r b l (blank seg # ls) = text_notes r b l [blank seg] @ text_notes r b1 l1 ls"
      unfolding bl by blast
    have "no_codes r1" using r1(2) by (simp add: same_sound_def)
    moreover have "drop i tab = [CHR 0x0A] @ [] @ cs"
    proof -
      have "drop i tab = drop (length (pre @ seg)) (drop lst tab)" using Cons.prems(3) by (simp add: ac_simps)
      then show ?thesis using Cons.prems(2) True by simp
    qed
    moreover have "i + length ([CHR 0x0A] @ []) = Suc i" "i \<le> length tab" "b1 + l1 \<le> 1 + int i"
      using n r1(5) Cons.prems(3) by simp_all
    ultimately obtain r2 b2 l2 where "read_loop tab i (Suc i) cs (b1, l1, r1, pat @ text_notes r b l [blank seg]) =
       Inr (b2, l2, r2, (pat @ text_notes r b l [blank seg]) @
         text_notes r1 b1 l1 (map blank (split_on (CHR 0x0A) cs)))" "same_sound r1 r2"
      using Cons.IH [of r1 i "[CHR 0x0A]" "[]" "Suc i" b1 l1 "pat @ text_notes r b l [blank seg]"] r1(3,4) by auto
    moreover have "same_sound r r2" using r1(2) \<open>same_sound r1 r2\<close> by (rule same_sound_trans)
    ultimately show ?thesis
      using True seg r1(1) Cons.prems(5) same_sound_text [OF r1(2)]
        r1(6) [rule_format, of "map blank (split_on (CHR 0x0A) cs)"]
      by (simp add: split_on_first del: text_notes.simps)
  next
    case False
    moreover have "CHR 0x0A \<notin> set (seg @ [c])" "drop lst tab = pre @ (seg @ [c]) @ cs"
      "lst + length (pre @ seg @ [c]) = Suc i"
      using Cons.prems False by auto
    ultimately show ?thesis
      using Cons.IH [OF Cons.prems(1), of lst pre "seg @ [c]" "Suc i" b l pat] Cons.prems(4,6-9) by simp
  qed
qed

section \<open>Properties\<close>

text \<open>C36: reading a tablature never fails, and gives the notes of its rows: every character but a dash in a
  bar that is closed by a bar line, at its place in the bar, the bars of a row counted from the
  first bar of its group of rows and the groups one after the other.\<close>

theorem drum_read_correct:
  assumes "no_codes r" "length tab \<le> 384000"
  shows "\<exists>r'. drum_read tab r = Inr (r', text_notes r 1 0 (map blank (split_on (CHR 0x0A) tab))) \<and> same_sound r r'"
  using read_loop_correct [OF assms, of 0 "[]" "[]" tab 0 1 0 "[]"] by (auto simp: drum_read_def)

lemma text_notes_pitch:
  assumes "\<forall>line \<in> set ls. is_row line \<longrightarrow> row_pitch (line ! 0) (line ! 1) = 0" "n \<in> set (text_notes r b l ls)"
  shows "note_value (pn_note n) = 0"
proof -
  have "m \<in> set (bars_notes r c0 c1 bar bs) \<Longrightarrow> note_value (pn_note m) = row_pitch c0 c1" for m c0 c1 bar bs
    by (induction bs arbitrary: bar) (auto simp: bar_notes_def strike_note_def Note_lasting_def)
  with assms show ?thesis by (induction ls arbitrary: b l) (auto split: if_splits)
qed

text \<open>a tablature without digits, whose rows are named by letters as the tables of the reader expect,
  is read as notes of pitch zero only: the pitch is looked up without the strike its key ends in.\<close>

theorem named_rows_lose_pitch:
  assumes "drum_read tab DrumTabReader = Inr (r', pat)" "length tab \<le> 384000" "\<forall>c \<in> set tab. \<not> is_digit c"
  shows "\<forall>n \<in> set pat. note_value (pn_note n) = 0"
proof -
  have mem: "set line \<subseteq> set tab" if "line \<in> set (map blank (split_on (CHR 0x0A) tab))" for line
  proof -
    from that obtain p where "p \<in> set (split_on (CHR 0x0A) tab)" "line = blank p" by auto
    then show ?thesis using split_on_mem by (fastforce simp: blank_def dest: set_dropWhileD)
  qed
  have "row_pitch (line ! 0) (line ! 1) = 0" if "line \<in> set (map blank (split_on (CHR 0x0A) tab))" "is_row line" for line
  proof -
    have "line ! 0 \<in> set line" using that(2) by (intro nth_mem) (auto simp: is_row_def)
    then show ?thesis using mem [OF that(1)] assms(3) by (auto simp: row_pitch_def)
  qed
  moreover obtain r1 where "drum_read tab DrumTabReader =
      Inr (r1, text_notes DrumTabReader 1 0 (map blank (split_on (CHR 0x0A) tab)))"
    using drum_read_correct [OF no_codes_new assms(2)] by blast
  ultimately show ?thesis
    using assms(1) text_notes_pitch [of "map blank (split_on (CHR 0x0A) tab)" _ DrumTabReader 1 0] by simp
qed

section \<open>Witnesses\<close>

theorem drum_read_correct_witness:
  "\<exists>r' pat. drum_read ''36|x-x-|'' DrumTabReader = Inr (r', pat) \<and> same_sound DrumTabReader r' \<and>
     map (\<lambda>n. (note_value (pn_note n), pn_position n)) pat = [(36, mk_dur 1 0 4), (36, mk_dur 1 2 4)]"
proof -
  have b: "map blank (split_on (CHR 0x0A) ''36|x-x-|'') = [''36|x-x-|'']" by (simp add: blank_def is_space_def)
  have "map (\<lambda>n. (note_value (pn_note n), pn_position n)) (text_notes DrumTabReader 1 0 [''36|x-x-|'']) =
      [(36, mk_dur 1 0 4), (36, mk_dur 1 2 4)]"
    by (simp add: is_row_def closed_bars_def bar_notes_def strike_note_def Note_lasting_def row_pitch_def is_digit_def
        digit_value_def)
  then show ?thesis using drum_read_correct [OF no_codes_new, of "''36|x-x-|''"] unfolding b by auto
qed

theorem named_rows_lose_pitch_witness:
  "\<exists>r' pat. drum_read ''BD|o-o-|'' DrumTabReader = Inr (r', pat) \<and> (\<forall>n \<in> set pat. note_value (pn_note n) = 0) \<and>
     pat \<noteq> []"
proof -
  have b: "map blank (split_on (CHR 0x0A) ''BD|o-o-|'') = [''BD|o-o-|'']" by (simp add: blank_def is_space_def)
  have ne: "text_notes DrumTabReader 1 0 [''BD|o-o-|''] \<noteq> []"
    by (simp add: is_row_def closed_bars_def bar_notes_def)
  obtain r' where r': "drum_read ''BD|o-o-|'' DrumTabReader = Inr (r', text_notes DrumTabReader 1 0 [''BD|o-o-|''])"
    using read_loop_correct [OF no_codes_new, of "''BD|o-o-|''" 0 "[]" "[]" "''BD|o-o-|''" 0 1 0 "[]"]
    unfolding append_Nil b by (auto simp: drum_read_def)
  show ?thesis
    using named_rows_lose_pitch [OF r'] ne r' by (auto simp: is_digit_def)
qed

end
