(* ===== verification/Abc_Reader.thy ===== *)
theory Abc_Reader
  imports Ticks Midi_Data Floats
begin

text \<open>
  The reader of ABC notation (\<open>src/abcreader.h\<close>, \<open>src/abcreader.cpp\<close>). The text is parsed by the
  abcmidi library, which is not modelled: what it reports to the reader is a list of callbacks, an
  argument of the model. One callback, \<open>mfwrite\<close>, asks the library for the events of each track
  in turn; it carries them as a function of the track.
\<close>

section \<open>The reader\<close>

record abc_error =
  ae_mesg :: string
  ae_line :: int
  ae_pos :: int

record abc_reader =
  ticksPerQuarter :: u32
  abc_ticksPerBeat :: u32
  abc_beatsPerBar :: u32
  abc_beatUnit :: u32
  activeTrack :: u32
  currentPosition :: position
  activeNote :: "int \<rightharpoonup> midi_note"
  noteStart :: "int \<rightharpoonup> position"
  tunes :: "tune list"
  errors :: "abc_error list"

text \<open>The constructor leaves the ticks and the track without a value.\<close>

definition ABCReader :: "u32 \<Rightarrow> u32 \<Rightarrow> u32 \<Rightarrow> abc_reader" where
  "ABCReader junk_quarter junk_beat junk_track =
     \<lparr>ticksPerQuarter = junk_quarter, abc_ticksPerBeat = junk_beat, abc_beatsPerBar = 4, abc_beatUnit = 4,
      activeTrack = junk_track, currentPosition = default_position, activeNote = Map.empty, noteStart = Map.empty,
      tunes = [], errors = []\<rparr>"

text \<open>The bytes of an event are signed characters; those past the end are not the reader's.\<close>

definition data_at :: "nat \<Rightarrow> int list \<Rightarrow> int res" where
  "data_at i data = (if i < length data then Inr (data ! i) else Inl (Undefined ''read past the event''))"

text \<open>\<open>currentTune\<close> is the last tune, and the operation on it replaces it.\<close>

definition on_currentTune :: "(tune \<Rightarrow> tune res) \<Rightarrow> (abc_reader, unit) act" where
  "on_currentTune f r =
     (if tunes r = [] then (Inl (Undefined ''no current tune''), r)
      else case f (last (tunes r)) of
             Inl e \<Rightarrow> (Inl e, r)
           | Inr t \<Rightarrow> (Inr (), r\<lparr>tunes := butlast (tunes r) @ [t]\<rparr>))"

section \<open>Callbacks\<close>

definition divide_ticks :: "abc_reader \<Rightarrow> u32 res" where
  "divide_ticks r =
     (if abc_beatUnit r = 0 then Inl (Undefined ''integer division by zero'')
      else Inr (ticksPerQuarter r * 4 div abc_beatUnit r))"

definition startSequence :: "int \<Rightarrow> int \<Rightarrow> int \<Rightarrow> (abc_reader, unit) act" where
  "startSequence format ntracks ticks =
     then_do (modify (\<lambda>r. r\<lparr>ticksPerQuarter := word_of_int ticks\<rparr>)) (\<lambda>_.
     then_do (\<lambda>r. (divide_ticks r, r)) (\<lambda>t.
       modify (\<lambda>r. r\<lparr>abc_ticksPerBeat := t, tunes := tunes r @ [Tune (word_of_int ntracks)]\<rparr>)))"

definition startTrack :: "u32 \<Rightarrow> (abc_reader, unit) act" where
  "startTrack k =
     then_do (lift_res (Position 1 0 1)) (\<lambda>p.
       modify (\<lambda>r. r\<lparr>currentPosition := p, activeNote := Map.empty, activeTrack := k\<rparr>))"

definition writeTempo :: "int \<Rightarrow> (abc_reader, unit) act" where
  "writeTempo tempo = ret ()"

definition singleNoteTuningChange :: "int \<Rightarrow> rat \<Rightarrow> (abc_reader, unit) act" where
  "singleNoteTuningChange key midipitch = ret ()"

text \<open>The conversion of \<open>pow(2, n)\<close> to 32 bits is undefined from the 32nd power on.\<close>

definition beat_unit :: "int \<Rightarrow> u32 res" where
  "beat_unit n =
     (if n < 0 then Inr 0 else if n < 32 then Inr (2 ^ nat n) else Inl (Undefined ''conversion out of range''))"

definition writeMetaEvent :: "int \<Rightarrow> int \<Rightarrow> int list \<Rightarrow> (abc_reader, unit) act" where
  "writeMetaEvent delta_time type data =
     then_do (gets activeTrack) (\<lambda>trk.
       if type = 0x03 \<and> trk = 0
       then on_currentTune (\<lambda>t. Inr (t\<lparr>title := map (\<lambda>c. char_of (c mod 256)) (takeWhile (\<lambda>c. c \<noteq> 0) data)\<rparr>))
       else if type = 0x58
       then then_do (lift_res (data_at 0 data)) (\<lambda>num.
            then_do (modify (\<lambda>r. r\<lparr>abc_beatsPerBar := word_of_int num\<rparr>)) (\<lambda>_.
            then_do (lift_res (bind_res (data_at 1 data) beat_unit)) (\<lambda>unt.
            then_do (modify (\<lambda>r. r\<lparr>abc_beatUnit := unt\<rparr>)) (\<lambda>_.
            then_do (\<lambda>r. (divide_ticks r, r)) (\<lambda>t.
            then_do (modify (\<lambda>r. r\<lparr>abc_ticksPerBeat := t\<rparr>)) (\<lambda>_.
              on_currentTune (\<lambda>tn. Inr (setTimeSignature (rnd_float (of_nat (unat (word_of_int num :: u32))))
                (rnd_float (of_nat (unat unt))) tn))))))))
       else ret ())"

definition addError :: "string \<Rightarrow> int \<Rightarrow> int \<Rightarrow> (abc_reader, unit) act" where
  "addError mesg lineno linepos =
     modify (\<lambda>r. r\<lparr>errors := errors r @ [\<lparr>ae_mesg = mesg, ae_line = lineno, ae_pos = linepos\<rparr>]\<rparr>)"

text \<open>A warning is printed, and changes nothing.\<close>

definition addWarning :: "string \<Rightarrow> int \<Rightarrow> int \<Rightarrow> (abc_reader, unit) act" where
  "addWarning mesg lineno linepos = ret ()"

text \<open>The key of a note: its pitch and its channel.\<close>

definition note_key :: "int \<Rightarrow> int \<Rightarrow> int" where
  "note_key chan d0 = d0 OR push_bit 8 chan"

definition note_on :: "int \<Rightarrow> int list \<Rightarrow> (abc_reader, unit) act" where
  "note_on chan data =
     then_do (lift_res (data_at 0 data)) (\<lambda>d0.
     then_do (lift_res (data_at 1 data)) (\<lambda>d1.
       let key = note_key chan d0
       in modify (\<lambda>r. r\<lparr>activeNote := (if activeNote r key = None
                                     then (activeNote r)(key \<mapsto> Note_on_channel d0 (word_of_int d1) chan) else activeNote r),
                       noteStart := (noteStart r)(key \<mapsto> currentPosition r)\<rparr>)))"

definition note_off :: "int \<Rightarrow> int list \<Rightarrow> (abc_reader, unit) act" where
  "note_off chan data =
     then_do (lift_res (data_at 0 data)) (\<lambda>d0 r.
       let key = note_key chan d0 in
       case activeNote r key of
         None \<Rightarrow> (Inr (), r)
       | Some note \<Rightarrow>
           let start = (case noteStart r key of Some p \<Rightarrow> p | None \<Rightarrow> default_position)
           in case dur_minus (currentPosition r) start of
                Inl e \<Rightarrow> (Inl e, r)
              | Inr d \<Rightarrow>
                  then_do (on_currentTune (addMidiNote (activeTrack r) (setDuration d note) start)) (\<lambda>_.
                    modify (\<lambda>r. r\<lparr>activeNote := (activeNote r)(key := None)\<rparr>)) r)"

definition writeMidiEvent :: "int \<Rightarrow> int \<Rightarrow> int \<Rightarrow> int list \<Rightarrow> (abc_reader, unit) act" where
  "writeMidiEvent delta_time type chan data =
     then_do (\<lambda>r. (bind_res (Duration 0 (word_of_int delta_time) (abc_ticksPerBeat r * abc_beatsPerBar r))
                     (pos_plus (currentPosition r)), r)) (\<lambda>p.
     then_do (modify (\<lambda>r. r\<lparr>currentPosition := p\<rparr>)) (\<lambda>_.
       if type = int (unat TYPE_NOTE_ON) then note_on chan data
       else if type = int (unat TYPE_NOTE_OFF) then note_off chan data
       else addWarning ''MIDI event type not yet implemented'' 0 0))"

section \<open>What the library reports\<close>

datatype track_call =
    Mf_write_tempo int
  | Mf_write_meta_event int int "int list"
  | Mf_write_midi_event int int int "int list"
  | Single_note_tuning_change int rat
  | Add_error string int int
  | Add_warning string int int

datatype parser_call = Report track_call | Mfwrite int int int "nat \<Rightarrow> track_call list"

fun run_track_call :: "track_call \<Rightarrow> (abc_reader, unit) act" where
  "run_track_call (Mf_write_tempo t) = writeTempo t"
| "run_track_call (Mf_write_meta_event d ty data) = writeMetaEvent d ty data"
| "run_track_call (Mf_write_midi_event d ty ch data) = writeMidiEvent d ty ch data"
| "run_track_call (Single_note_tuning_change k p) = singleNoteTuningChange k p"
| "run_track_call (Add_error m l p) = addError m l p"
| "run_track_call (Add_warning m l p) = addWarning m l p"

definition write_track :: "(nat \<Rightarrow> track_call list) \<Rightarrow> nat \<Rightarrow> (abc_reader, unit) act" where
  "write_track writetrack i = then_do (startTrack (of_nat i)) (\<lambda>_. do_each run_track_call (writetrack i))"

definition mfwrite :: "int \<Rightarrow> int \<Rightarrow> int \<Rightarrow> (nat \<Rightarrow> track_call list) \<Rightarrow> (abc_reader, unit) act" where
  "mfwrite format ntracks ticks writetrack =
     then_do (startSequence format ntracks ticks) (\<lambda>_. do_each (write_track writetrack) [0..<nat ntracks])"

fun run_parser_call :: "parser_call \<Rightarrow> (abc_reader, unit) act" where
  "run_parser_call (Report c) = run_track_call c"
| "run_parser_call (Mfwrite f n d w) = mfwrite f n d w"

section \<open>Reading\<close>

definition error_message :: "abc_error \<Rightarrow> string" where
  "error_message e =
     ''ABC Error ['' @ show_int (ae_line e) @ '':'' @ show_int (ae_pos e) @ ''] '' @ ae_mesg e"

text \<open>The errors of this run only; the tunes are whatever the object holds.\<close>

definition run_parser :: "parser_call list \<Rightarrow> (abc_reader, unit) act" where
  "run_parser calls =
     then_do (modify (\<lambda>r. r\<lparr>errors := []\<rparr>)) (\<lambda>_.
     then_do (do_each run_parser_call calls) (\<lambda>_.
     then_do (gets errors) (\<lambda>es. if es \<noteq> [] then throw (Logic_error (error_message (hd es))) else ret ())))"

text \<open>The tunes after the first are deleted, from the last on; the first is taken out.\<close>

fun drop_tunes :: "tune list \<Rightarrow> (tune \<times> tune list) res" where
  "drop_tunes [] = Inl (Undefined ''last of an empty vector'')"
| "drop_tunes [t] = Inr (t, [])"
| "drop_tunes (t # u # ts) = drop_tunes (butlast (t # u # ts))"

definition first_tune :: "(abc_reader, tune) act" where
  "first_tune r =
     (case drop_tunes (tunes r) of Inl e \<Rightarrow> (Inl e, r) | Inr (t, ts) \<Rightarrow> (Inr t, r\<lparr>tunes := ts\<rparr>))"

definition readTune :: "(string \<Rightarrow> parser_call list) \<Rightarrow> string \<Rightarrow> (abc_reader, tune) act" where
  "readTune parse_abc abc = then_do (run_parser (parse_abc abc)) (\<lambda>_. first_tune)"

definition abc_read ::
  "(string \<Rightarrow> string \<Rightarrow> string \<Rightarrow> string \<Rightarrow> string option \<Rightarrow> parser_call list) \<Rightarrow>
     string \<Rightarrow> string \<Rightarrow> string \<Rightarrow> string \<Rightarrow> string option \<Rightarrow> (abc_reader, pattern) act"
where
  "abc_read parse_abc_raw abc key noteLength meter rhythm =
     then_do (run_parser (parse_abc_raw abc key noteLength meter rhythm)) (\<lambda>_.
     then_do first_tune (\<lambda>t. lift_res (track (if 1 < numTracks t then 2 else 1) t)))"

text \<open>Without a meter it is the transport's, or four four.\<close>

definition meter_of :: "time_signature \<Rightarrow> string" where
  "meter_of ts =
     (if ts_valid ts then decimal (unat (ts_numerator ts)) @ ''/'' @ decimal (unat (ts_denominator ts)) else ''4/4'')"

definition abc_read_meter ::
  "(string \<Rightarrow> string \<Rightarrow> string \<Rightarrow> string \<Rightarrow> string option \<Rightarrow> parser_call list) \<Rightarrow> time_signature \<Rightarrow>
     string \<Rightarrow> string \<Rightarrow> string \<Rightarrow> (abc_reader, pattern) act"
where
  "abc_read_meter parse_abc_raw ts abc key noteLength =
     abc_read parse_abc_raw abc key noteLength (meter_of ts) None"

definition abc_read_key ::
  "(string \<Rightarrow> string \<Rightarrow> string \<Rightarrow> string \<Rightarrow> string option \<Rightarrow> parser_call list) \<Rightarrow> time_signature \<Rightarrow>
     string \<Rightarrow> string \<Rightarrow> (abc_reader, pattern) act"
where
  "abc_read_key parse_abc_raw ts abc key = abc_read_meter parse_abc_raw ts abc key ''1/8''"

definition abc_read_plain ::
  "(string \<Rightarrow> string \<Rightarrow> string \<Rightarrow> string \<Rightarrow> string option \<Rightarrow> parser_call list) \<Rightarrow> time_signature \<Rightarrow>
     string \<Rightarrow> (abc_reader, pattern) act"
where
  "abc_read_plain parse_abc_raw ts abc = abc_read_key parse_abc_raw ts abc ''C''"

section \<open>What a track means\<close>

text \<open>
  The notes a track plays when every bar has \<open>D\<close> ticks: \<open>now\<close> is the tick of the last event, and
  \<open>sounding\<close> holds the notes that have begun, each with the tick it began at last. A note is
  added where it ends.
\<close>

fun played :: "nat \<Rightarrow> nat \<Rightarrow> (int \<rightharpoonup> nat \<times> midi_note) \<Rightarrow> track_call list \<Rightarrow> pattern" where
  "played D now sounding [] = []"
| "played D now sounding (Mf_write_midi_event d ty ch data # cs) =
     (let t = now + nat d; key = note_key ch (data ! 0) in
      if ty = 0x90
      then played D t (sounding(key \<mapsto> (t, case sounding key of Some (_, n) \<Rightarrow> n
                                            | None \<Rightarrow> Note_on_channel (data ! 0) (word_of_int (data ! 1)) ch))) cs
      else if ty = 0x80
      then (case sounding key of
              None \<Rightarrow> played D t sounding cs
            | Some (start, n) \<Rightarrow>
                \<lparr>pn_note = setDuration (mk_dur 0 (of_nat (t - start)) (of_nat D)) n,
                 pn_position = tick_position D start\<rparr> # played D t (sounding(key := None)) cs)
      else played D t sounding cs)"
| "played D now sounding (Mf_write_tempo _ # cs) = played D now sounding cs"
| "played D now sounding (Mf_write_meta_event _ _ _ # cs) = played D now sounding cs"
| "played D now sounding (Single_note_tuning_change _ _ # cs) = played D now sounding cs"
| "played D now sounding (Add_error _ _ _ # cs) = played D now sounding cs"
| "played D now sounding (Add_warning _ _ _ # cs) = played D now sounding cs"

text \<open>A track without changes of meter, and how many ticks it lasts.\<close>

fun steady :: "track_call \<Rightarrow> bool" where
  "steady (Mf_write_midi_event d ty ch data) = (0 \<le> d \<and> 2 \<le> length data)"
| "steady (Mf_write_meta_event d ty data) = (ty \<noteq> 0x58)"
| "steady _ = True"

fun ticks :: "track_call \<Rightarrow> nat" where
  "ticks (Mf_write_midi_event d ty ch data) = nat d"
| "ticks _ = 0"

text \<open>The state of the reader in the middle of such a track.\<close>

definition in_track :: "nat \<Rightarrow> nat \<Rightarrow> (int \<rightharpoonup> nat \<times> midi_note) \<Rightarrow> abc_reader \<Rightarrow> bool" where
  "in_track D now sounding r \<longleftrightarrow>
     tick_base D \<and> abc_ticksPerBeat r * abc_beatsPerBar r = of_nat D \<and>
     (currentPosition r = tick_position D now \<or> now = 0 \<and> currentPosition r = mk_dur 1 0 1) \<and>
     (\<forall>key. activeNote r key = map_option snd (sounding key)) \<and>
     (\<forall>key start n. sounding key = Some (start, n) \<longrightarrow> noteStart r key = Some (tick_position D start) \<and> start \<le> now) \<and>
     tunes r \<noteq> [] \<and> unat (activeTrack r) < length (tracks (last (tunes r)))"

definition track_notes :: "abc_reader \<Rightarrow> pattern" where
  "track_notes r = tracks (last (tunes r)) ! unat (activeTrack r)"

text \<open>Nothing but the notes of the track has changed.\<close>

definition same_tunes :: "abc_reader \<Rightarrow> abc_reader \<Rightarrow> bool" where
  "same_tunes r r' \<longleftrightarrow> butlast (tunes r') = butlast (tunes r) \<and> activeTrack r' = activeTrack r \<and>
     tunes r' \<noteq> [] \<and> abc_ticksPerBeat r' = abc_ticksPerBeat r \<and> abc_beatsPerBar r' = abc_beatsPerBar r \<and>
     length (tracks (last (tunes r'))) = length (tracks (last (tunes r))) \<and>
     (\<forall>k. k \<noteq> unat (activeTrack r) \<longrightarrow> tracks (last (tunes r')) ! k = tracks (last (tunes r)) ! k)"

lemma same_tunes_refl [simp]: "tunes r \<noteq> [] \<Longrightarrow> same_tunes r r"
  by (simp add: same_tunes_def)

lemma same_tunes_trans: "same_tunes r s \<Longrightarrow> same_tunes s t \<Longrightarrow> same_tunes r t"
  by (simp add: same_tunes_def)

section \<open>Lemmas\<close>

lemma advance_position:
  assumes "in_track D now sounding r" "0 \<le> d" "nat d < 2 ^ 32"
  shows "bind_res (Duration 0 (word_of_int d) (abc_ticksPerBeat r * abc_beatsPerBar r)) (pos_plus (currentPosition r)) =
     Inr (tick_position D (now + nat d))"
proof -
  have D: "tick_base D" "abc_ticksPerBeat r * abc_beatsPerBar r = of_nat D" using assms(1) by (simp_all add: in_track_def)
  have "(word_of_int d :: u32) = of_nat (nat d)" using assms(2) by simp
  then have "Duration 0 (word_of_int d) (abc_ticksPerBeat r * abc_beatsPerBar r) = Inr (tick_duration D (nat d))"
    using D Duration_ticks [OF D(1) assms(3)] by simp
  then show ?thesis
    using assms(1) tick_position_plus [OF D(1), of now "nat d"] first_bar_plus [OF D(1), of "nat d"]
    by (auto simp: in_track_def)
qed

text \<open>One step of a track: what it adds, and what is left to play afterwards.\<close>

definition track_step :: "nat \<Rightarrow> nat \<Rightarrow> (int \<rightharpoonup> nat \<times> midi_note) \<Rightarrow> track_call \<Rightarrow> abc_reader \<Rightarrow> bool" where
  "track_step D now sounding c r \<longleftrightarrow>
     (\<exists>r' sounding' ns. run_track_call c r = (Inr (), r') \<and> in_track D (now + ticks c) sounding' r' \<and>
        track_notes r' = track_notes r @ ns \<and> same_tunes r r' \<and>
        (\<forall>cs. played D now sounding (c # cs) = ns @ played D (now + ticks c) sounding' cs))"

lemma in_track_tunes: "in_track D now sounding r \<Longrightarrow> tunes r \<noteq> []"
  by (simp add: in_track_def)

lemma two_bytes: "2 \<le> length data \<Longrightarrow> data \<noteq> []"
  by auto

lemma note_on_step:
  assumes "in_track D now sounding r" "0 \<le> d" "now + nat d < 2 ^ 31" "2 \<le> length data"
  shows "track_step D now sounding (Mf_write_midi_event d 0x90 ch data) r"
proof -
  let ?t = "now + nat d" and ?key = "note_key ch (data ! 0)"
  define n where "n = (case sounding ?key of Some (_, n) \<Rightarrow> n | None \<Rightarrow> Note_on_channel (data ! 0) (word_of_int (data ! 1)) ch)"
  define r' where "r' = r\<lparr>currentPosition := tick_position D ?t,
     activeNote := (if activeNote r ?key = None
        then (activeNote r)(?key \<mapsto> Note_on_channel (data ! 0) (word_of_int (data ! 1)) ch) else activeNote r),
     noteStart := (noteStart r)(?key \<mapsto> tick_position D ?t)\<rparr>"
  have "run_track_call (Mf_write_midi_event d 0x90 ch data) r = (Inr (), r')"
    using advance_position [OF assms(1,2)] assms(3,4) two_bytes [OF assms(4)]
    by (simp add: writeMidiEvent_def TYPE_NOTE_ON_def note_on_def data_at_def Let_def r'_def then_do_def modify_def lift_res_def)
  moreover have "in_track D ?t (sounding(?key \<mapsto> (?t, n))) r'"
    using assms(1) by (fastforce simp: in_track_def r'_def n_def split: option.splits)
  moreover have "track_notes r' = track_notes r @ []" "same_tunes r r'"
    using in_track_tunes [OF assms(1)] by (simp_all add: track_notes_def r'_def same_tunes_def)
  ultimately show ?thesis
    unfolding track_step_def
    by (intro exI [of _ r'] exI [of _ "sounding(?key \<mapsto> (?t, n))"] exI [of _ "[]"]) (simp add: n_def Let_def)
qed

lemma note_off_step:
  assumes "in_track D now sounding r" "0 \<le> d" "now + nat d < 2 ^ 31" "2 \<le> length data"
  shows "track_step D now sounding (Mf_write_midi_event d 0x80 ch data) r"
proof (cases "sounding (note_key ch (data ! 0))")
  case None
  define r' where "r' = r\<lparr>currentPosition := tick_position D (now + nat d)\<rparr>"
  have "activeNote r' (note_key ch (data ! 0)) = None" using assms(1) None by (simp add: in_track_def r'_def)
  then have "run_track_call (Mf_write_midi_event d 0x80 ch data) r = (Inr (), r')"
    using advance_position [OF assms(1,2)] assms(3,4) two_bytes [OF assms(4)]
    by (simp add: writeMidiEvent_def TYPE_NOTE_ON_def TYPE_NOTE_OFF_def note_off_def data_at_def Let_def r'_def
        then_do_def modify_def lift_res_def)
  moreover have "in_track D (now + nat d) sounding r'"
    using assms(1) by (fastforce simp: in_track_def r'_def)
  moreover have "track_notes r' = track_notes r @ []" "same_tunes r r'"
    using in_track_tunes [OF assms(1)] by (simp_all add: track_notes_def r'_def same_tunes_def)
  ultimately show ?thesis
    unfolding track_step_def using None
    by (intro exI [of _ r'] exI [of _ sounding] exI [of _ "[]"]) (simp add: Let_def)
next
  case (Some sn)
  let ?t = "now + nat d" and ?key = "note_key ch (data ! 0)"
  obtain start n where sn: "sn = (start, n)" by (cases sn)
  define nt where "nt = setDuration (mk_dur 0 (of_nat (?t - start)) (of_nat D)) n"
  define k where "k = unat (activeTrack r)"
  define tn where "tn = last (tunes r)"
  define r' where "r' = r\<lparr>currentPosition := tick_position D ?t,
     tunes := butlast (tunes r) @ [tn\<lparr>tracks := (tracks tn)[k := addNote_at nt (tick_position D start) (tracks tn ! k)]\<rparr>],
     activeNote := (activeNote r)(?key := None)\<rparr>"
  have a: "activeNote r ?key = Some n" "noteStart r ?key = Some (tick_position D start)" "start \<le> now" "tick_base D"
    "tunes r \<noteq> []" "k < length (tracks tn)"
    using assms(1) Some sn by (auto simp: in_track_def k_def tn_def)
  have "dur_minus (tick_position D ?t) (tick_position D start) = Inr (mk_dur 0 (of_nat (?t - start)) (of_nat D))"
    using tick_position_minus [OF a(4), of start ?t] a(3) assms(3) by simp
  then have "run_track_call (Mf_write_midi_event d 0x80 ch data) r = (Inr (), r')"
    using advance_position [OF assms(1,2)] assms(3,4) two_bytes [OF assms(4)] a
    by (simp add: writeMidiEvent_def TYPE_NOTE_ON_def TYPE_NOTE_OFF_def note_off_def data_at_def Let_def r'_def
        then_do_def modify_def lift_res_def on_currentTune_def addMidiNote_def nt_def k_def tn_def)
  moreover have "in_track D ?t (sounding(?key := None)) r'"
    using assms(1) a by (fastforce simp: in_track_def r'_def k_def)
  moreover have "track_notes r' = track_notes r @ [\<lparr>pn_note = nt, pn_position = tick_position D start\<rparr>]" "same_tunes r r'"
    using a by (simp_all add: track_notes_def r'_def same_tunes_def k_def tn_def addNote_at_def)
  ultimately show ?thesis
    unfolding track_step_def using Some sn
    by (intro exI [of _ r'] exI [of _ "sounding(?key := None)"]
        exI [of _ "[\<lparr>pn_note = nt, pn_position = tick_position D start\<rparr>]"]) (simp add: Let_def nt_def)
qed

lemma other_event_step:
  assumes "in_track D now sounding r" "0 \<le> d" "now + nat d < 2 ^ 31" "ty \<noteq> 0x90" "ty \<noteq> 0x80"
  shows "track_step D now sounding (Mf_write_midi_event d ty ch data) r"
proof -
  define r' where "r' = r\<lparr>currentPosition := tick_position D (now + nat d)\<rparr>"
  have "run_track_call (Mf_write_midi_event d ty ch data) r = (Inr (), r')"
    using advance_position [OF assms(1,2)] assms(3-)
    by (simp add: writeMidiEvent_def TYPE_NOTE_ON_def TYPE_NOTE_OFF_def addWarning_def r'_def then_do_def modify_def ret_def)
  moreover have "in_track D (now + nat d) sounding r'"
    using assms(1) by (fastforce simp: in_track_def r'_def)
  moreover have "track_notes r' = track_notes r @ []" "same_tunes r r'"
    using in_track_tunes [OF assms(1)] by (simp_all add: track_notes_def r'_def same_tunes_def)
  ultimately show ?thesis
    unfolding track_step_def using assms(4,5)
    by (intro exI [of _ r'] exI [of _ sounding] exI [of _ "[]"]) (simp add: Let_def)
qed

lemma title_step:
  assumes "in_track D now sounding r" "ty \<noteq> 0x58"
  shows "track_step D now sounding (Mf_write_meta_event d ty data) r"
proof -
  obtain r' where r': "run_track_call (Mf_write_meta_event d ty data) r = (Inr (), r')"
    "in_track D now sounding r'" "track_notes r' = track_notes r" "same_tunes r r'"
  proof (cases "ty = 0x03 \<and> activeTrack r = 0")
    case True
    define r' where "r' = r\<lparr>tunes := butlast (tunes r) @
      [(last (tunes r))\<lparr>title := map (\<lambda>c. char_of (c mod 256)) (takeWhile (\<lambda>c. c \<noteq> 0) data)\<rparr>]\<rparr>"
    have "run_track_call (Mf_write_meta_event d ty data) r = (Inr (), r')"
      using True assms(1) by (simp add: writeMetaEvent_def on_currentTune_def r'_def in_track_def)
    then show ?thesis
      using assms(1) by (intro that [of r']) (auto simp: in_track_def r'_def track_notes_def same_tunes_def)
  next
    case False
    then have "run_track_call (Mf_write_meta_event d ty data) r = (Inr (), r)"
      using assms(2) by (auto simp: writeMetaEvent_def)
    then show ?thesis using assms(1) in_track_tunes [OF assms(1)] by (intro that [of r]) simp_all
  qed
  then show ?thesis
    unfolding track_step_def by (intro exI [of _ r'] exI [of _ sounding] exI [of _ "[]"]) simp
qed

lemma track_steps:
  assumes "in_track D now sounding r" "steady c" "now + ticks c < 2 ^ 31"
  shows "track_step D now sounding c r"
proof (cases c)
  case (Mf_write_midi_event d ty ch data)
  then show ?thesis
    using assms note_on_step [OF assms(1), of d data ch] note_off_step [OF assms(1), of d data ch]
      other_event_step [OF assms(1), of d ty ch data]
    by (cases "ty = 0x90"; cases "ty = 0x80") auto
next
  case (Mf_write_meta_event d ty data)
  then show ?thesis using assms title_step [OF assms(1)] by simp
next
  case (Mf_write_tempo t)
  then show ?thesis unfolding track_step_def using assms(1) in_track_tunes [OF assms(1)]
    by (intro exI [of _ r] exI [of _ sounding] exI [of _ "[]"]) (simp add: writeTempo_def)
next
  case (Single_note_tuning_change k p)
  then show ?thesis unfolding track_step_def using assms(1) in_track_tunes [OF assms(1)]
    by (intro exI [of _ r] exI [of _ sounding] exI [of _ "[]"]) (simp add: singleNoteTuningChange_def)
next
  case (Add_warning m l p)
  then show ?thesis unfolding track_step_def using assms(1) in_track_tunes [OF assms(1)]
    by (intro exI [of _ r] exI [of _ sounding] exI [of _ "[]"]) (simp add: addWarning_def)
next
  case (Add_error m l p)
  let ?r = "r\<lparr>errors := errors r @ [\<lparr>ae_mesg = m, ae_line = l, ae_pos = p\<rparr>]\<rparr>"
  have "in_track D now sounding ?r" using assms(1) by (simp add: in_track_def)
  then show ?thesis unfolding track_step_def using Add_error in_track_tunes [OF assms(1)]
    by (intro exI [of _ ?r] exI [of _ sounding] exI [of _ "[]"])
      (simp add: addError_def track_notes_def same_tunes_def)
qed

lemma track_run:
  assumes "in_track D now sounding r" "\<forall>c \<in> set cs. steady c" "now + sum_list (map ticks cs) < 2 ^ 31"
  shows "\<exists>r'. do_each run_track_call cs r = (Inr (), r') \<and> same_tunes r r' \<and>
     track_notes r' = track_notes r @ played D now sounding cs"
  using assms
proof (induction cs arbitrary: now sounding r)
  case Nil
  then show ?case using in_track_tunes [OF Nil(1)] by simp
next
  case (Cons c cs)
  have "now + ticks c < 2 ^ 31" using Cons.prems(3) by simp
  from track_steps [OF Cons.prems(1) _ this] Cons.prems(2)
  obtain r1 sounding1 ns where 1: "run_track_call c r = (Inr (), r1)" "in_track D (now + ticks c) sounding1 r1"
    "track_notes r1 = track_notes r @ ns" "same_tunes r r1"
    "\<forall>cs. played D now sounding (c # cs) = ns @ played D (now + ticks c) sounding1 cs"
    by (auto simp: track_step_def)
  have "now + ticks c + sum_list (map ticks cs) < 2 ^ 31" using Cons.prems(3) by simp
  with Cons.IH [OF 1(2)] Cons.prems(2)
  obtain r2 where 2: "do_each run_track_call cs r1 = (Inr (), r2)" "same_tunes r1 r2"
    "track_notes r2 = track_notes r1 @ played D (now + ticks c) sounding1 cs" by auto
  have "same_tunes r r2" using 1(4) 2(2) by (rule same_tunes_trans)
  then show ?case using 1(1,3) 2(1,3) 1(5) [rule_format, of cs] by (intro exI [of _ r2]) simp
qed

text \<open>The tracks of a tune one after the other, from the one given on.\<close>

lemma write_tracks:
  assumes "tick_base D" "abc_ticksPerBeat r * abc_beatsPerBar r = of_nat D" "tunes r \<noteq> []"
    "m \<le> length (tracks (last (tunes r)))" "length (tracks (last (tunes r))) < 2 ^ 32" "i \<le> m"
    "\<forall>k < m. (\<forall>c \<in> set (w k). steady c) \<and> sum_list (map ticks (w k)) < 2 ^ 31"
  shows "\<exists>r'. do_each (write_track w) [i..<m] r = (Inr (), r') \<and> butlast (tunes r') = butlast (tunes r) \<and> tunes r' \<noteq> [] \<and>
     length (tracks (last (tunes r'))) = length (tracks (last (tunes r))) \<and>
     (\<forall>k. tracks (last (tunes r')) ! k = tracks (last (tunes r)) ! k @
        (if i \<le> k \<and> k < m then played D 0 Map.empty (w k) else []))"
  using assms(2-6)
proof (induction "m - i" arbitrary: i r)
  case 0
  then show ?case by (intro exI [of _ r]) auto
next
  case (Suc n)
  define r1 where "r1 = r\<lparr>currentPosition := mk_dur 1 0 1, activeNote := Map.empty, activeTrack := of_nat i\<rparr>"
  have i: "i < m" "unat (of_nat i :: u32) = i"
    using Suc.hyps(2) Suc.prems(3,4) by (auto intro: unat_u32_of_nat)
  have "Position 1 0 1 = Inr (mk_dur 1 0 1)"
    using Position_ticks [of 1 0 1] by (simp add: tick_base_def)
  then have s: "startTrack (of_nat i) r = (Inr (), r1)" by (simp add: startTrack_def r1_def)
  have "in_track D 0 Map.empty r1"
    using assms(1) Suc.prems i by (simp add: in_track_def r1_def)
  with track_run [of D 0 Map.empty r1 "w i"] i(1) assms(7)
  obtain r2 where 2: "do_each run_track_call (w i) r1 = (Inr (), r2)" "same_tunes r1 r2"
    "track_notes r2 = track_notes r1 @ played D 0 Map.empty (w i)" by auto
  have t: "butlast (tunes r2) = butlast (tunes r)" "tunes r2 \<noteq> []"
    "abc_ticksPerBeat r2 * abc_beatsPerBar r2 = of_nat D"
    "length (tracks (last (tunes r2))) = length (tracks (last (tunes r)))"
    "\<And>k. tracks (last (tunes r2)) ! k = tracks (last (tunes r)) ! k @ (if k = i then played D 0 Map.empty (w k) else [])"
    using 2(2,3) Suc.prems(1) i(2) by (auto simp: same_tunes_def r1_def track_notes_def)
  have "write_track w i r = (Inr (), r2)" using s 2(1) by (simp add: write_track_def)
  then have e: "do_each (write_track w) [i..<m] r = do_each (write_track w) [Suc i..<m] r2"
    using i(1) by (simp add: upt_rec [of i])
  obtain r3 where 3: "do_each (write_track w) [Suc i..<m] r2 = (Inr (), r3)" "butlast (tunes r3) = butlast (tunes r2)"
    "tunes r3 \<noteq> []" "length (tracks (last (tunes r3))) = length (tracks (last (tunes r2)))"
    "\<forall>k. tracks (last (tunes r3)) ! k = tracks (last (tunes r2)) ! k @
        (if Suc i \<le> k \<and> k < m then played D 0 Map.empty (w k) else [])"
  proof -
    have "n = m - Suc i" "m \<le> length (tracks (last (tunes r2)))" "length (tracks (last (tunes r2))) < 2 ^ 32" "Suc i \<le> m"
      using Suc.hyps(2) Suc.prems t(4) i(1) by simp_all
    from Suc.hyps(1) [OF this(1) t(3,2) this(2-4)] that show ?thesis by blast
  qed
  show ?case
  proof (intro exI [of _ r3] conjI allI)
    fix k
    show "tracks (last (tunes r3)) ! k = tracks (last (tunes r)) ! k @
        (if i \<le> k \<and> k < m then played D 0 Map.empty (w k) else [])"
      using 3(5) t(5) i(1) by (cases "k = i") auto
  qed (use e 3 t in simp_all)
qed

section \<open>Properties\<close>


text \<open>Callbacks other than those of a track only concern errors and warnings.\<close>

fun diagnostic :: "parser_call \<Rightarrow> bool" where
  "diagnostic (Report (Add_error m l p)) = True"
| "diagnostic (Report (Add_warning m l p)) = True"
| "diagnostic (Report c) = False"
| "diagnostic (Mfwrite f n d w) = True"

text \<open>The tunes below the last are never touched.\<close>

definition keeps :: "(abc_reader, 'a) act \<Rightarrow> bool" where
  "keeps m \<longleftrightarrow> (\<forall>r p q r' x. tunes r = p @ q \<longrightarrow> q \<noteq> [] \<longrightarrow> m r = (x, r') \<longrightarrow> (\<exists>q'. q' \<noteq> [] \<and> tunes r' = p @ q'))"

lemma keeps_then:
  assumes "keeps m" "\<And>a. keeps (f a)"
  shows "keeps (then_do m f)"
  unfolding keeps_def
proof (intro allI impI)
  fix r p q r' x
  assume t: "tunes r = p @ q" "q \<noteq> []" and e: "then_do m f r = (x, r')"
  obtain y r1 where y: "m r = (y, r1)" by fastforce
  obtain q1 where q1: "q1 \<noteq> []" "tunes r1 = p @ q1" using assms(1) t y unfolding keeps_def by blast
  show "\<exists>q'. q' \<noteq> [] \<and> tunes r' = p @ q'"
  proof (cases y)
    case (Inl e')
    then show ?thesis using e y q1 by (simp add: then_do_def)
  next
    case (Inr a)
    then have "f a r1 = (x, r')" using e y by (simp add: then_do_def)
    then show ?thesis using assms(2) q1 unfolding keeps_def by blast
  qed
qed

lemma keeps_basic [intro]:
  "keeps (ret a)" "keeps (throw e)" "keeps (lift_res x)" "keeps (gets f)" "keeps (\<lambda>r. (g r, r))"
  by (auto simp: keeps_def)

lemma keeps_modify: "(\<And>r. tunes (f r) = tunes r) \<Longrightarrow> keeps (modify f)"
  by (auto simp: keeps_def)

lemma keeps_append: "(\<And>r. \<exists>ts. tunes (f r) = tunes r @ ts) \<Longrightarrow> keeps (modify f)"
  unfolding keeps_def
proof (intro allI impI)
  fix r p q r' x
  assume a: "\<And>r. \<exists>ts. tunes (f r) = tunes r @ ts" and t: "tunes r = p @ q" "q \<noteq> []" "modify f r = (x, r')"
  obtain ts where "tunes (f r) = tunes r @ ts" using a by blast
  then show "\<exists>q'. q' \<noteq> [] \<and> tunes r' = p @ q'" using t by (intro exI [of _ "q @ ts"]) auto
qed

lemma keeps_on_currentTune: "keeps (on_currentTune f)"
  by (auto simp: keeps_def on_currentTune_def butlast_append split: if_splits sum.splits)

lemma keeps_do_each: "(\<And>x. keeps (f x)) \<Longrightarrow> keeps (do_each f xs)"
  by (induction xs) (auto intro: keeps_then)

lemma keeps_note_off: "keeps (note_off chan data)"
proof -
  have "\<exists>q'. q' \<noteq> [] \<and> tunes r' = p @ q'"
    if t: "tunes r = p @ q" "q \<noteq> []" and e: "note_off chan data r = (x, r')" for r p q r' x
  proof -
    have k: "keeps (then_do (on_currentTune f) (\<lambda>_. modify g))" if "\<And>r. tunes (g r) = tunes r" for f g
      using that by (intro keeps_then keeps_on_currentTune keeps_modify)
    have "r' = r \<or> (\<exists>f g. (\<forall>r. tunes (g r) = tunes r) \<and> then_do (on_currentTune f) (\<lambda>_. modify g) r = (x, r'))"
    proof (cases "data_at 0 data")
      case (Inl e')
      then show ?thesis using e by (simp add: note_off_def)
    next
      case (Inr d0)
      show ?thesis
      proof (cases "activeNote r (note_key chan d0)")
        case None
        then show ?thesis using e Inr by (simp add: note_off_def Let_def)
      next
        case (Some n)
        let ?start = "case noteStart r (note_key chan d0) of Some p \<Rightarrow> p | None \<Rightarrow> default_position"
        show ?thesis
        proof (cases "dur_minus (currentPosition r) ?start")
          case (Inl e')
          then show ?thesis using e Inr Some by (simp add: note_off_def Let_def)
        next
          case d: (Inr d)
          then have h: "then_do (on_currentTune (addMidiNote (activeTrack r) (setDuration d n) ?start))
              (\<lambda>_. modify (\<lambda>r. r\<lparr>activeNote := (activeNote r)(note_key chan d0 := None)\<rparr>)) r = (x, r')"
            using e Inr Some by (simp add: note_off_def Let_def)
          show ?thesis by (rule disjI2, rule exI, rule exI, rule conjI [OF _ h]) simp
        qed
      qed
    qed
    then show ?thesis using t k unfolding keeps_def by blast
  qed
  then show ?thesis unfolding keeps_def by blast
qed

lemma keeps_if: "keeps m \<Longrightarrow> keeps n \<Longrightarrow> keeps (if b then m else n)"
  by simp

lemmas keeps_intros = keeps_if keeps_then keeps_basic keeps_modify keeps_on_currentTune keeps_do_each keeps_note_off

lemma keeps_note_on: "keeps (note_on chan data)"
  unfolding note_on_def Let_def by (intro keeps_intros) simp_all

lemma keeps_track_call: "keeps (run_track_call c)"
proof (cases c)
  case (Mf_write_midi_event d ty ch data)
  then show ?thesis
    unfolding Mf_write_midi_event run_track_call.simps writeMidiEvent_def addWarning_def
    by (intro keeps_intros keeps_note_on) simp_all
next
  case (Mf_write_meta_event d ty data)
  show ?thesis
    unfolding Mf_write_meta_event run_track_call.simps writeMetaEvent_def
    by (intro keeps_intros) simp_all
next
  case (Add_error m l p)
  show ?thesis unfolding Add_error run_track_call.simps addError_def by (intro keeps_intros) simp_all
qed (auto simp: writeTempo_def singleNoteTuningChange_def addWarning_def)

lemma keeps_write_track: "keeps (write_track w i)"
  unfolding write_track_def startTrack_def by (intro keeps_intros keeps_track_call) simp_all

text \<open>A run of the parser keeps the tunes there are.\<close>

definition extends :: "(abc_reader, unit) act \<Rightarrow> bool" where
  "extends m \<longleftrightarrow> (\<forall>r r' x. m r = (x, r') \<longrightarrow> (\<exists>ts. tunes r' = tunes r @ ts))"

lemma extendsD: "extends m \<Longrightarrow> m r = (x, r') \<Longrightarrow> \<exists>ts. tunes r' = tunes r @ ts"
  unfolding extends_def by blast

lemma extends_mfwrite: "extends (mfwrite f n d w)"
  unfolding extends_def
proof (intro allI impI)
  fix r r' x
  assume e: "mfwrite f n d w r = (x, r')"
  obtain y r1 where s: "startSequence f n d r = (y, r1)" by fastforce
  show "\<exists>ts. tunes r' = tunes r @ ts"
  proof (cases y)
    case (Inl e')
    then show ?thesis
      using e s by (auto simp: mfwrite_def startSequence_def then_do_def modify_def split: sum.splits)
  next
    case (Inr u)
    then have "tunes r1 = tunes r @ [Tune (word_of_int n)]"
      using s by (auto simp: startSequence_def then_do_def modify_def split: sum.splits)
    moreover have "do_each (write_track w) [0..<nat n] r1 = (x, r')" using e s Inr by (simp add: mfwrite_def)
    moreover have "keeps (do_each (write_track w) [0..<nat n])" by (intro keeps_do_each keeps_write_track)
    ultimately show ?thesis unfolding keeps_def by blast
  qed
qed

lemma extends_diagnostic: "diagnostic c \<Longrightarrow> extends (run_parser_call c)"
  by (cases c rule: diagnostic.cases) (auto simp: extends_mfwrite, auto simp: extends_def addError_def addWarning_def)

lemma extends_do_each:
  assumes "\<forall>c \<in> set cs. extends (f c)"
  shows "extends (do_each f cs)"
  using assms
proof (induction cs)
  case (Cons c cs)
  show ?case
    unfolding extends_def
  proof (intro allI impI)
    fix r r' x
    assume e: "do_each f (c # cs) r = (x, r')"
    obtain y r1 where s: "f c r = (y, r1)" by fastforce
    then obtain ts where ts: "tunes r1 = tunes r @ ts" using Cons.prems extendsD [of "f c" r y r1] by auto
    show "\<exists>ts. tunes r' = tunes r @ ts"
    proof (cases y)
      case (Inr u)
      then have "do_each f cs r1 = (x, r')" using e s by simp
      then obtain us where "tunes r' = tunes r1 @ us" using Cons extendsD [of "do_each f cs" r1 x r'] by auto
      then show ?thesis using ts by simp
    qed (use e s ts in simp)
  qed
qed (auto simp: extends_def)

lemma drop_tunes_snoc: "drop_tunes (t # us @ [u]) = drop_tunes (t # us)"
proof (cases us)
  case Nil
  have "drop_tunes [t, u] = drop_tunes (butlast [t, u])" by (rule drop_tunes.simps(3))
  then show ?thesis using Nil by simp
next
  case (Cons a as)
  have "drop_tunes (t # a # as @ [u]) = drop_tunes (butlast (t # a # as @ [u]))" by (rule drop_tunes.simps(3))
  also have "butlast (t # a # as @ [u]) = t # a # as" by (simp add: butlast_append)
  finally show ?thesis using Cons by (simp del: drop_tunes.simps)
qed

lemma drop_tunes_first: "drop_tunes (t # ts) = Inr (t, [])"
  by (induction ts rule: rev_induct) (simp_all add: drop_tunes_snoc del: drop_tunes.simps(3))

text \<open>the tunes a failed reading has produced stay in the reader, and the next reading, even of another
  text, answers with the first of them.\<close>

theorem stale_tune_returned:
  assumes "readTune parse abc r = (Inl e, r1)" "tunes r1 = t # ts"
    and "\<forall>c \<in> set (parse' abc'). diagnostic c" "readTune parse' abc' r1 = (Inr t', r2)"
  shows "t' = t \<and> tunes r2 = []"
proof -
  have "extends (do_each run_parser_call (parse' abc'))"
    using assms(3) extends_diagnostic by (intro extends_do_each) blast
  moreover obtain x r3 where d: "do_each run_parser_call (parse' abc') (r1\<lparr>errors := []\<rparr>) = (x, r3)" by fastforce
  ultimately obtain us where "tunes r3 = tunes (r1\<lparr>errors := []\<rparr>) @ us" using extendsD by blast
  then have us: "tunes r3 = t # ts @ us" using assms(2) by simp
  have "first_tune r3 = (Inr t', r2)"
    using assms(4) d
    by (cases x) (auto simp: readTune_def run_parser_def then_do_def modify_def gets_def throw_def ret_def split: if_splits)
  then show ?thesis using us drop_tunes_first [of t "ts @ us"] by (auto simp: first_tune_def)
qed

text \<open>
  A change of meter inside a track changes the ticks of a bar, and with them the denominator of
  the position: a note that sounds across it cannot be ended.
\<close>

lemma meter_change_fails:
  "bind_res (pos_plus (tick_position 1920 480) (tick_duration 1440 240)) (\<lambda>p. dur_minus p (tick_position 1920 480)) =
     Inl (Logic_error ''cannot subtract different divisors (not implemented)'')"
  by (simp add: pos_plus_def tick_position_def tick_duration_def mk_dur_def normalize_dur_def Let_def MAX_DENOMINATOR_def
      reduce_by_def reduce_factor.simps dur_minus_def)

section \<open>Witnesses\<close>

definition example_reader :: abc_reader where "example_reader = ABCReader 0 0 0"

text \<open>One track of a quarter note on channel 0, in bars of 1920 ticks.\<close>

definition example_track :: "nat \<Rightarrow> track_call list" where
  "example_track k = [Mf_write_tempo 500000, Mf_write_midi_event 0 0x90 0 [60, 100], Mf_write_midi_event 480 0x80 0 [60, 0]]"


theorem stale_tune_returned_witness:
  "\<exists>e r1 t r2.
     readTune (\<lambda>_. [Report (Add_error ''no note'' 1 2), Mfwrite 1 1 480 (\<lambda>_. [])]) ''A'' example_reader = (Inl e, r1) \<and>
     readTune (\<lambda>_. [Mfwrite 1 0 480 (\<lambda>_. [])]) ''B'' r1 = (Inr t, r2) \<and> tracks t = [[]] \<and> tunes r2 = []"
proof -
  let ?p = "\<lambda>_. [Report (Add_error ''no note'' 1 2), Mfwrite 1 1 480 (\<lambda>_. [])]" and ?q = "\<lambda>_. [Mfwrite 1 0 480 (\<lambda>_. [])]"
  have pos: "Position 1 0 1 = Inr (mk_dur 1 0 1)" using Position_ticks [of 1 0 1] by (simp add: tick_base_def)
  obtain e r1 where 1: "readTune ?p ''A'' example_reader = (Inl e, r1)" "tunes r1 = [Tune 1]"
    "abc_beatUnit r1 = 4"
    by (simp add: readTune_def run_parser_def addError_def mfwrite_def startSequence_def divide_ticks_def write_track_def
        startTrack_def pos example_reader_def ABCReader_def)
  obtain t r2 where 2: "readTune ?q ''B'' r1 = (Inr t, r2)"
    using 1(2,3) by (simp add: readTune_def run_parser_def mfwrite_def startSequence_def divide_ticks_def
        first_tune_def then_do_def modify_def gets_def)
  have "t = Tune 1 \<and> tunes r2 = []"
    by (rule stale_tune_returned [OF 1(1) 1(2) _ 2]) simp
  then show ?thesis using 1(1) 2 by (auto simp: Tune_def)
qed

end
