(* ===== verification/Mml_Parser.thy ===== *)
theory Mml_Parser
  imports Prelude "HOL-Library.Signed_Division"
begin

text \<open>
  The parser of the music macro language the MML reader runs on (\<open>tinymml/mml.h\<close>, \<open>tinymml/mml.c\<close>,
  \<open>tinymml/mml_stack.h\<close>, \<open>tinymml/mml_stack.c\<close> and what these use of \<open>tinymml/ntlibc.c\<close>). A text
  is the list of its characters before the terminator; a pointer into it is an index, and reading
  behind the terminator is undefined. The two stacks of repeat brackets are lists with the top
  first.
\<close>

section \<open>Characters\<close>

definition ntlibc_toupper :: "char \<Rightarrow> char" where
  "ntlibc_toupper c =
     (if 97 \<le> (of_char c :: nat) \<and> (of_char c :: nat) \<le> 122 then char_of ((of_char c :: nat) - 32) else c)"

definition ntlibc_isdigit :: "char \<Rightarrow> bool" where
  "ntlibc_isdigit c = (48 \<le> (of_char c :: nat) \<and> (of_char c :: nat) \<le> 57)"

text \<open>
  The scan of \<open>ntlibc_atoi\<close> over the whole string, which counts blanks and signs wherever they
  stand and gives up at a second sign, and the digits it then reads behind that many characters.
\<close>

fun atoi_scan :: "string \<Rightarrow> nat \<times> bool \<times> nat \<Rightarrow> (nat \<times> bool) option" where
  "atoi_scan [] (ofs, sign, scnt) = Some (ofs, sign)"
| "atoi_scan (c # cs) (ofs, sign, scnt) =
     (if c = CHR '' '' then atoi_scan cs (ofs + 1, sign, scnt)
      else if c = CHR ''+'' then if 0 < scnt then None else atoi_scan cs (ofs + 1, False, scnt + 1)
      else if c = CHR ''-'' then if 0 < scnt then None else atoi_scan cs (ofs + 1, True, scnt + 1)
      else atoi_scan cs (ofs, sign, scnt))"

definition digits_value :: "string \<Rightarrow> int" where
  "digits_value cs = fold (\<lambda>c n. 10 * n + (of_char c - 48)) (takeWhile ntlibc_isdigit cs) 0"

definition ntlibc_atoi :: "string \<Rightarrow> int" where
  "ntlibc_atoi cs =
     (case atoi_scan cs (0, False, 0) of
        None \<Rightarrow> 0
      | Some (ofs, sign) \<Rightarrow> if sign then - digits_value (drop ofs cs) else digits_value (drop ofs cs))"

datatype char_type =
    Note_char | Sharp_char | Flat_char | Rest_char | Octave_char | Length_char | Volume_char | Tempo_char
  | Octave_up_char | Octave_down_char | Number_char | Repeat_left_char | Repeat_right_char
  | User_event_char | Unknown_char

definition get_char_type :: "char \<Rightarrow> char_type" where
  "get_char_type c =
     (if c \<in> set ''CDEFGAB'' then Note_char
      else if c = CHR ''+'' then Sharp_char
      else if c = CHR ''-'' then Flat_char
      else if c = CHR ''R'' then Rest_char
      else if c = CHR ''O'' then Octave_char
      else if c = CHR ''L'' then Length_char
      else if c = CHR ''V'' then Volume_char
      else if c = CHR ''T'' then Tempo_char
      else if c = CHR 0x3E then Octave_up_char
      else if c = CHR 0x3C then Octave_down_char
      else if c \<in> set ''0123456789.'' then Number_char
      else if c = CHR ''['' then Repeat_left_char
      else if c = CHR '']'' then Repeat_right_char
      else if c = CHR 0x40 then User_event_char
      else Unknown_char)"

section \<open>The parser's state\<close>

datatype mml_result =
    MML_OK | MML_EOT | Illegal_octave_value | Illegal_length_value | Illegal_tempo_value
  | Illegal_volume_value | Illegal_note_text | Illegal_sequence_found | Illegal_token_length
  | Illegal_user_event_token | Illegal_user_event_length | Illegal_repeat_pair | Not_ready_for_setup
  | Not_ready_for_fetch | Stack_full_repeat_left | Stack_empty_repeat_left | Stack_full_repeat_right

datatype mml_info =
    Mml_Note int int
  | Mml_Rest int
  | Mml_Tempo int
  | Mml_Length int
  | Mml_Volume int
  | Mml_Octave int
  | Mml_Octave_up int
  | Mml_Octave_down int
  | Mml_User_event string

datatype mml_state = Wait_setup | Fetch_ready

record mml =
  octave :: int
  note_length :: int
  bticks :: int
  tp :: nat
  state :: mml_state
  left :: "nat list"
  right :: "nat list"

record mml_option =
  opt_octave :: int
  opt_length :: int
  opt_bticks :: int

definition default_option :: mml_option where
  "default_option = \<lparr>opt_octave = 4, opt_length = 8, opt_bticks = 480\<rparr>"

definition MML_STACK_MAX_DEPTH :: nat where "MML_STACK_MAX_DEPTH = 8"

definition mml_stack_push :: "nat \<Rightarrow> nat list \<Rightarrow> nat list option" where
  "mml_stack_push p st = (if length st = MML_STACK_MAX_DEPTH then None else Some (p # st))"

definition mml_stack_pop :: "nat list \<Rightarrow> (nat \<times> nat list) option" where
  "mml_stack_pop st = (case st of [] \<Rightarrow> None | p # r \<Rightarrow> Some (p, r))"

text \<open>Initialisation leaves the options without a value.\<close>

definition mml_init :: "int \<Rightarrow> int \<Rightarrow> int \<Rightarrow> mml" where
  "mml_init junk1 junk2 junk3 =
     \<lparr>octave = junk1, note_length = junk2, bticks = junk3, tp = 0, state = Wait_setup, left = [], right = []\<rparr>"

definition mml_setup :: "mml_option option \<Rightarrow> mml \<Rightarrow> mml" where
  "mml_setup opt h =
     (let op = (case opt of Some op \<Rightarrow> op | None \<Rightarrow> default_option)
      in h\<lparr>octave := opt_octave op, note_length := opt_length op, bticks := opt_bticks op, tp := 0,
           left := [], right := [], state := Fetch_ready\<rparr>)"

section \<open>Tokens\<close>

definition is_blank :: "char \<Rightarrow> bool" where
  "is_blank c \<longleftrightarrow> ntlibc_toupper c \<in> {CHR '' '', CHR 0x0D, CHR 0x0A, CHR 0x09}"

text \<open>What can be read from an index on: the rest of the text, and its terminator behind it.\<close>

definition text_rest :: "string \<Rightarrow> nat \<Rightarrow> string res" where
  "text_rest s i = (if i \<le> length s then Inr (drop i s) else Inl (Undefined ''read past the end of the text''))"

definition token_size :: nat where "token_size = 8"

definition single_char :: "char_type \<Rightarrow> bool" where
  "single_char t \<longleftrightarrow> t = Note_char \<or> t = Repeat_left_char \<or> t = Repeat_right_char"

text \<open>
  The characters of the type of the first one: the result, the buffer and how many have been
  read. The terminator is of the unknown type, so a token of that type runs over it.
\<close>

fun token_head :: "char_type \<Rightarrow> string \<Rightarrow> string \<Rightarrow> nat \<Rightarrow> (mml_result \<times> string \<times> nat) res" where
  "token_head t [] buf cnt =
     (if t = Unknown_char
      then if token_size \<le> cnt + 2 then Inr (Illegal_token_length, buf @ [CHR 0x00], cnt + 1)
           else Inl (Undefined ''read past the end of the text'')
      else Inr (MML_OK, buf, cnt))"
| "token_head t (c # cs) buf cnt =
     (if get_char_type (ntlibc_toupper c) = t
      then if single_char t then Inr (MML_OK, buf @ [ntlibc_toupper c], cnt + 1)
           else if token_size \<le> cnt + 2 then Inr (Illegal_token_length, buf @ [ntlibc_toupper c], cnt + 1)
           else token_head t cs (buf @ [ntlibc_toupper c]) (cnt + 1)
      else Inr (MML_OK, buf, cnt))"

definition is_accidental :: "char \<Rightarrow> bool" where
  "is_accidental c \<longleftrightarrow> get_char_type (ntlibc_toupper c) \<in> {Sharp_char, Flat_char}"

text \<open>Sharps and flats behind it are added however many there are.\<close>

definition scan_token :: "string \<Rightarrow> (mml_result \<times> string \<times> nat) res" where
  "scan_token rest =
     (case rest of
        [] \<Rightarrow> Inr (MML_EOT, [], 0)
      | c # cs \<Rightarrow>
          bind_res (token_head (get_char_type (ntlibc_toupper c)) rest [] 0) (\<lambda>(r, buf, n).
            if r \<noteq> MML_OK then Inr (r, buf, n)
            else let acc = takeWhile is_accidental (drop n rest);
                     buf' = buf @ map ntlibc_toupper acc
                 in if length buf' < token_size then Inr (MML_OK, buf', n + length acc)
                    else Inl (Undefined ''write past the token buffer'')))"

text \<open>At the end of the text an open bracket is taken off its stack.\<close>

definition get_token :: "string \<Rightarrow> mml \<Rightarrow> (mml_result \<times> string \<times> mml) res" where
  "get_token s h =
     bind_res (text_rest s (tp h)) (\<lambda>rest.
       let blanks = length (takeWhile is_blank rest); h1 = h\<lparr>tp := tp h + blanks\<rparr>
       in if drop blanks rest = []
          then (case mml_stack_pop (left h1) of
                  Some (p, st) \<Rightarrow> Inr (Illegal_repeat_pair, [], h1\<lparr>left := st\<rparr>)
                | None \<Rightarrow>
                    (case mml_stack_pop (right h1) of
                       Some (p, st) \<Rightarrow> Inr (Illegal_repeat_pair, [], h1\<lparr>right := st\<rparr>)
                     | None \<Rightarrow> Inr (MML_EOT, [], h1)))
          else bind_res (scan_token (drop blanks rest)) (\<lambda>(r, buf, n).
                 Inr (r, buf, h1\<lparr>tp := tp h1 + n\<rparr>)))"

text \<open>The first character of a buffer, which starts out zeroed.\<close>

definition first_type :: "string \<Rightarrow> char_type" where
  "first_type buf = (case buf of [] \<Rightarrow> get_char_type (CHR 0x00) | c # cs \<Rightarrow> get_char_type c)"

section \<open>Notes and lengths\<close>

definition note_distance :: string where "note_distance = ''C D EF G A B''"

definition get_note_number :: "mml \<Rightarrow> string \<Rightarrow> mml_result \<times> int" where
  "get_note_number h buf =
     (case buf of
        [] \<Rightarrow> (Illegal_note_text, 0)
      | c # acc \<Rightarrow>
          if c \<in> set note_distance
          then (MML_OK, fold (\<lambda>a n. if a = CHR ''+'' then n + 1 else if a = CHR ''-'' then n - 1 else n) acc
                  (int (length (takeWhile (\<lambda>x. x \<noteq> c) note_distance))) + octave h * 12)
          else (Illegal_note_text, 0))"

definition convert_note_length_to_ticks :: "int \<Rightarrow> int \<Rightarrow> mml_result \<times> int" where
  "convert_note_length_to_ticks b n =
     (if n = 0 then (MML_OK, 0)
      else if n = 1 then (MML_OK, b * 4)
      else if n = 2 then (MML_OK, b * 2)
      else if n = 4 then (MML_OK, b * 1)
      else if n = 8 then (MML_OK, b sdiv 2)
      else if n = 16 then (MML_OK, b sdiv 4)
      else if n = 32 then (MML_OK, b sdiv 8)
      else if n = 64 then (MML_OK, b sdiv 16)
      else if n = 23 then (MML_OK, (b * 4) sdiv 3)
      else if n = 43 then (MML_OK, (b * 2) sdiv 3)
      else if n = 83 then (MML_OK, (b * 1) sdiv 3)
      else if n = 163 then (MML_OK, (b sdiv 2) sdiv 3)
      else if n = 323 then (MML_OK, (b sdiv 4) sdiv 3)
      else if n = 643 then (MML_OK, (b sdiv 8) sdiv 3)
      else (Illegal_length_value, 0))"

text \<open>Every dot adds the next shorter length.\<close>

fun dot_loop :: "int \<Rightarrow> string \<Rightarrow> int \<Rightarrow> int \<Rightarrow> mml_result \<times> int" where
  "dot_loop b [] n t = (MML_OK, t)"
| "dot_loop b (c # cs) n t =
     (if c = CHR ''.''
      then (case convert_note_length_to_ticks b (n * 2) of
              (r, v) \<Rightarrow> if r \<noteq> MML_OK then (r, t) else dot_loop b cs (n * 2) (t + v))
      else dot_loop b cs n t)"

definition get_note_ticks :: "mml \<Rightarrow> string \<Rightarrow> mml_result \<times> int" where
  "get_note_ticks h buf =
     (let n = ntlibc_atoi buf
      in case convert_note_length_to_ticks (bticks h) n of
           (r, v) \<Rightarrow> if r \<noteq> MML_OK then (r, 0) else dot_loop (bticks h) buf n v)"

definition get_note_ticks_default :: "mml \<Rightarrow> mml_result \<times> int" where
  "get_note_ticks_default h = convert_note_length_to_ticks (bticks h) (note_length h)"

section \<open>User events\<close>

definition user_event_size :: nat where "user_event_size = 16"

fun user_event_loop :: "string \<Rightarrow> string \<Rightarrow> nat \<Rightarrow> (mml_result \<times> string \<times> nat) res" where
  "user_event_loop [] buf cnt = Inl (Undefined ''read past the end of the text'')"
| "user_event_loop (c # cs) buf cnt =
     (if ntlibc_toupper c = CHR 0x7D then Inr (MML_OK, buf, cnt + 1)
      else if cs = [] then Inr (Illegal_sequence_found, buf @ [ntlibc_toupper c], cnt + 1)
      else if user_event_size \<le> cnt + 2 then Inr (Illegal_user_event_length, buf @ [ntlibc_toupper c], cnt + 1)
      else user_event_loop cs (buf @ [ntlibc_toupper c]) (cnt + 1))"

text \<open>A text that ends right behind the opening brace: the terminator is taken for a character.\<close>

definition get_user_event_token :: "string \<Rightarrow> mml \<Rightarrow> (mml_result \<times> string \<times> mml) res" where
  "get_user_event_token s h =
     bind_res (text_rest s (tp h)) (\<lambda>rest.
       case rest of
         [] \<Rightarrow> Inr (Illegal_user_event_token, [], h)
       | c # cs \<Rightarrow>
           if ntlibc_toupper c \<noteq> CHR 0x7B then Inr (Illegal_user_event_token, [], h)
           else bind_res (user_event_loop cs [] 0) (\<lambda>(r, buf, n). Inr (r, buf, h\<lparr>tp := tp h + 1 + n\<rparr>)))"

section \<open>Fetching\<close>

type_synonym fetched = "mml_result \<times> mml_info option \<times> mml"

text \<open>
  Notes and rests look ahead for a length; without one the pointer goes back to where it was
  behind the first token.
\<close>

definition fetch_note :: "string \<Rightarrow> string \<Rightarrow> mml \<Rightarrow> fetched res" where
  "fetch_note s buf1 h =
     bind_res (get_token s h) (\<lambda>(mr, buf2, h1).
       case get_note_number h1 buf1 of
         (r, number) \<Rightarrow>
           if r \<noteq> MML_OK then Inr (r, None, h1)
           else if first_type buf2 = Number_char
           then (case get_note_ticks h1 buf2 of
                   (r, t) \<Rightarrow> if r \<noteq> MML_OK then Inr (r, None, h1) else Inr (MML_OK, Some (Mml_Note number t), h1))
           else (case get_note_ticks_default h1 of
                   (r, t) \<Rightarrow> if r \<noteq> MML_OK then Inr (r, None, h1)
                            else Inr (MML_OK, Some (Mml_Note number t), h1\<lparr>tp := tp h\<rparr>)))"

definition fetch_rest :: "string \<Rightarrow> mml \<Rightarrow> fetched res" where
  "fetch_rest s h =
     bind_res (get_token s h) (\<lambda>(mr, buf2, h1).
       if first_type buf2 = Number_char
       then (case get_note_ticks h1 buf2 of
               (r, t) \<Rightarrow> if r \<noteq> MML_OK then Inr (r, None, h1) else Inr (MML_OK, Some (Mml_Rest t), h1))
       else (case get_note_ticks_default h1 of
               (r, t) \<Rightarrow> if r \<noteq> MML_OK then Inr (r, None, h1)
                        else Inr (MML_OK, Some (Mml_Rest t), h1\<lparr>tp := tp h\<rparr>)))"

text \<open>
  Commands with a number. What the token's own result was is what the fetch returns, even when it
  is an error and the callback has been made.
\<close>

definition fetch_number ::
  "string \<Rightarrow> mml_result \<Rightarrow> (int \<Rightarrow> mml_info) \<Rightarrow> (int \<Rightarrow> mml \<Rightarrow> mml) \<Rightarrow> mml \<Rightarrow> fetched res"
where
  "fetch_number s illegal info change h =
     bind_res (get_token s h) (\<lambda>(mr, buf2, h1).
       if first_type buf2 = Number_char
       then Inr (mr, Some (info (ntlibc_atoi buf2)), change (ntlibc_atoi buf2) h1)
       else Inr (illegal, None, h1))"

definition octave_up :: "mml \<Rightarrow> mml" where
  "octave_up h = (if octave h < 10 then h\<lparr>octave := octave h + 1\<rparr> else h)"

definition octave_down :: "mml \<Rightarrow> mml" where
  "octave_down h = (if 0 < octave h then h\<lparr>octave := octave h - 1\<rparr> else h)"

definition fetch_left :: "mml \<Rightarrow> fetched" where
  "fetch_left h =
     (case mml_stack_push (tp h - 1) (left h) of
        None \<Rightarrow> (Stack_full_repeat_left, None, h)
      | Some st \<Rightarrow> (MML_OK, None, h\<lparr>left := st\<rparr>))"

definition jump_back :: "mml \<Rightarrow> fetched" where
  "jump_back h =
     (case mml_stack_pop (left h) of
        None \<Rightarrow> (Stack_empty_repeat_left, None, h)
      | Some (p, st) \<Rightarrow> (MML_OK, None, h\<lparr>left := st, tp := p + 1\<rparr>))"

definition push_right :: "nat list \<Rightarrow> (nat list \<Rightarrow> fetched) \<Rightarrow> nat \<Rightarrow> mml \<Rightarrow> fetched" where
  "push_right st k p h =
     (case mml_stack_push p st of None \<Rightarrow> (Stack_full_repeat_right, None, h\<lparr>right := st\<rparr>) | Some st' \<Rightarrow> k st')"

definition fetch_right :: "mml \<Rightarrow> fetched" where
  "fetch_right h =
     (let rsp = tp h - 1 in
      case mml_stack_pop (right h) of
        Some (p, st) \<Rightarrow>
          if rsp = p then (MML_OK, None, h\<lparr>right := st\<rparr>)
          else push_right st (\<lambda>st1. push_right st1 (\<lambda>st2. jump_back (h\<lparr>right := st2\<rparr>)) rsp h) p h
      | None \<Rightarrow> push_right [] (\<lambda>st1. jump_back (h\<lparr>right := st1\<rparr>)) rsp h)"

definition fetch_user_event :: "string \<Rightarrow> mml \<Rightarrow> fetched res" where
  "fetch_user_event s h =
     bind_res (get_user_event_token s h) (\<lambda>(r, name, h1).
       Inr (r, if r = MML_OK then Some (Mml_User_event name) else None, h1))"

definition fetch_command :: "string \<Rightarrow> string \<Rightarrow> mml \<Rightarrow> fetched res" where
  "fetch_command s buf1 h =
     (case first_type buf1 of
        Note_char \<Rightarrow> fetch_note s buf1 h
      | Rest_char \<Rightarrow> fetch_rest s h
      | Tempo_char \<Rightarrow> fetch_number s Illegal_tempo_value Mml_Tempo (\<lambda>_ h. h) h
      | Volume_char \<Rightarrow> fetch_number s Illegal_volume_value Mml_Volume (\<lambda>_ h. h) h
      | Length_char \<Rightarrow> fetch_number s Illegal_length_value Mml_Length (\<lambda>n h. h\<lparr>note_length := n\<rparr>) h
      | Octave_char \<Rightarrow> fetch_number s Illegal_octave_value Mml_Octave (\<lambda>n h. h\<lparr>octave := n\<rparr>) h
      | Octave_up_char \<Rightarrow>
          (let h1 = (octave_up ^^ length buf1) h in Inr (MML_OK, Some (Mml_Octave_up (octave h1)), h1))
      | Octave_down_char \<Rightarrow>
          (let h1 = (octave_down ^^ length buf1) h in Inr (MML_OK, Some (Mml_Octave_down (octave h1)), h1))
      | Repeat_left_char \<Rightarrow> Inr (fetch_left h)
      | Repeat_right_char \<Rightarrow> Inr (fetch_right h)
      | User_event_char \<Rightarrow> fetch_user_event s h
      | _ \<Rightarrow> Inr (Illegal_sequence_found, None, h))"

definition mml_fetch :: "string \<Rightarrow> mml \<Rightarrow> fetched res" where
  "mml_fetch s h =
     (if state h \<noteq> Fetch_ready then Inr (Not_ready_for_fetch, None, h)
      else bind_res (get_token s h) (\<lambda>(mr, buf1, h1).
             if mr \<noteq> MML_OK then Inr (mr, None, h1) else fetch_command s buf1 h1))"

text \<open>
  The loop of a client: it fetches as long as the result is good. The client's own state is what
  its callback changes; a callback that throws ends the loop.
\<close>

partial_function (option) fetch_loop ::
  "(mml_info \<Rightarrow> 's \<Rightarrow> 's res) \<Rightarrow> string \<Rightarrow> mml \<Rightarrow> 's \<Rightarrow> ('s \<times> mml_result) res option"
where
  "fetch_loop callback s h x =
     (case mml_fetch s h of
        Inl e \<Rightarrow> Some (Inl e)
      | Inr f \<Rightarrow>
          (case (case fst (snd f) of None \<Rightarrow> Inr x | Some i \<Rightarrow> callback i x) of
             Inl e \<Rightarrow> Some (Inl e)
           | Inr x1 \<Rightarrow> if fst f = MML_OK then fetch_loop callback s (snd (snd f)) x1 else Some (Inr (x1, fst f))))"

section \<open>Where a fetch ends\<close>

text \<open>
  A token depends on the text and the position only: the result, the buffer and the position
  behind it. At the end of the text there is none.
\<close>

definition token_at :: "string \<Rightarrow> nat \<Rightarrow> (mml_result \<times> string \<times> nat) res" where
  "token_at s i =
     bind_res (text_rest s i) (\<lambda>rest.
       let blanks = length (takeWhile is_blank rest)
       in bind_res (scan_token (drop blanks rest)) (\<lambda>(r, buf, n). Inr (r, buf, i + blanks + n)))"

definition blank_from :: "string \<Rightarrow> nat \<Rightarrow> bool" where
  "blank_from s i \<longleftrightarrow> (\<forall>c \<in> set (drop i s). is_blank c)"

definition user_event_end :: "string \<Rightarrow> nat \<Rightarrow> nat option" where
  "user_event_end s i =
     (case drop i s of
        [] \<Rightarrow> None
      | c # cs \<Rightarrow> (case user_event_loop cs [] 0 of Inl _ \<Rightarrow> None | Inr (r, b, n) \<Rightarrow> Some (i + 1 + n)))"

text \<open>The position a fetch ends at when it does not jump.\<close>

definition next_pos :: "string \<Rightarrow> nat \<Rightarrow> nat option" where
  "next_pos s i =
     (case token_at s i of
        Inl _ \<Rightarrow> None
      | Inr (r, buf, k) \<Rightarrow>
          if r \<noteq> MML_OK then None
          else if first_type buf \<in> {Note_char, Rest_char}
          then (case token_at s k of
                  Inl _ \<Rightarrow> None
                | Inr (r2, b2, m) \<Rightarrow> Some (if first_type b2 = Number_char then m else k))
          else if first_type buf \<in> {Tempo_char, Volume_char, Length_char, Octave_char}
          then (case token_at s k of Inl _ \<Rightarrow> None | Inr (r2, b2, m) \<Rightarrow> Some m)
          else if first_type buf = User_event_char then user_event_end s k
          else Some k)"

lemma token_head_counts:
  "token_head t cs buf cnt = Inr (r, b, n) \<Longrightarrow> r = MML_OK \<Longrightarrow> cnt \<le> n \<and> n \<le> cnt + length cs \<and> length b + cnt = length buf + n"
  by (induction t cs buf cnt rule: token_head.induct) (auto split: if_splits)

lemma token_head_first:
  assumes "token_head (get_char_type (ntlibc_toupper c)) (c # cs) [] 0 = Inr (MML_OK, b, n)"
  shows "0 < n \<and> n \<le> Suc (length cs) \<and> length b = n \<and> b \<noteq> [] \<and> hd b = ntlibc_toupper c"
proof -
  have hd: "token_head t xs (x # buf) cnt = Inr (MML_OK, b, n) \<Longrightarrow> b \<noteq> [] \<and> hd b = x" for t xs x buf cnt
    by (induction t xs "x # buf" cnt arbitrary: buf rule: token_head.induct) (auto split: if_splits)
  have "length b = n \<and> n \<le> Suc (length cs)" using token_head_counts [OF assms refl] by simp
  moreover have "0 < n \<and> b \<noteq> [] \<and> hd b = ntlibc_toupper c"
    using assms hd [of _ cs "ntlibc_toupper c" "[]" 1] token_head_counts [of _ cs "[ntlibc_toupper c]" 1 MML_OK b n]
    by (auto simp: token_size_def split: if_splits)
  ultimately show ?thesis by blast
qed

text \<open>A good token is not empty, lies in the text and starts with the first character that is not blank.\<close>

lemma scan_token_ok:
  assumes "scan_token rest = Inr (MML_OK, buf, n)"
  shows "0 < n \<and> n \<le> length rest \<and> buf \<noteq> [] \<and> rest \<noteq> [] \<and> hd buf = ntlibc_toupper (hd rest)"
proof (cases rest)
  case (Cons c cs)
  obtain r b m where h: "token_head (get_char_type (ntlibc_toupper c)) (c # cs) [] 0 = Inr (r, b, m)"
    using assms Cons by (auto simp: scan_token_def bind_res_eq_Inr)
  then have r: "r = MML_OK" using assms Cons by (auto simp: scan_token_def split: if_splits)
  note f = token_head_first [OF h [unfolded r]]
  have "n = m + length (takeWhile is_accidental (drop m rest))"
    "buf = b @ map ntlibc_toupper (takeWhile is_accidental (drop m rest))"
    using assms Cons h r by (auto simp: scan_token_def Let_def split: if_splits)
  moreover have "length (takeWhile is_accidental (drop m rest)) \<le> length rest - m"
    by (metis length_drop length_takeWhile_le)
  ultimately show ?thesis using f Cons by auto
qed (use assms in \<open>simp add: scan_token_def\<close>)

lemma token_at_ok:
  assumes "token_at s i = Inr (MML_OK, buf, k)"
  shows "i < k \<and> k \<le> length s \<and> buf \<noteq> [] \<and> \<not> blank_from s i"
proof -
  define bl where "bl = length (takeWhile is_blank (drop i s))"
  have i: "i \<le> length s" and t: "\<exists>n. scan_token (drop bl (drop i s)) = Inr (MML_OK, buf, n) \<and> k = i + bl + n"
    using assms by (auto simp: token_at_def text_rest_def bl_def Let_def bind_res_eq_Inr split: if_splits)
  then obtain n where n: "scan_token (drop bl (drop i s)) = Inr (MML_OK, buf, n)" "k = i + bl + n" by blast
  note o = scan_token_ok [OF n(1)]
  have "bl \<le> length (drop i s)" unfolding bl_def by (rule length_takeWhile_le)
  moreover have "\<not> blank_from s i"
  proof
    assume "blank_from s i"
    then have "takeWhile is_blank (drop i s) = drop i s" by (simp add: blank_from_def)
    then have "drop bl (drop i s) = []" unfolding bl_def by (metis drop_all order_refl)
    then show False using o by simp
  qed
  ultimately show ?thesis using o n(2) i by auto
qed

lemma token_at_number:
  assumes "token_at s i = Inr (r, buf, k)" "r = MML_OK \<or> first_type buf = Number_char" "i \<le> length s"
  shows "i \<le> k"
  using assms by (auto simp: token_at_def text_rest_def Let_def bind_res_eq_Inr)

text \<open>Fetching a token and the token at a position.\<close>

lemma get_token_at:
  assumes "get_token s h = Inr (r, buf, h')"
  obtains "\<not> blank_from s (tp h)" "token_at s (tp h) = Inr (r, buf, tp h')" "h' = h\<lparr>tp := tp h'\<rparr>"
  | k l rt where "blank_from s (tp h)" "token_at s (tp h) = Inr (MML_EOT, [], tp h')" "buf = []" "r \<noteq> MML_OK"
      "h' = h\<lparr>tp := k, left := l, right := rt\<rparr>"
proof -
  define rest where "rest = drop (tp h) s"
  define bl where "bl = length (takeWhile is_blank rest)"
  have i: "tp h \<le> length s" using assms by (auto simp: get_token_def text_rest_def split: if_splits)
  have g: "get_token s h =
      (if drop bl rest = []
       then (case mml_stack_pop (left h) of
               Some (p, st) \<Rightarrow> Inr (Illegal_repeat_pair, [], h\<lparr>tp := tp h + bl, left := st\<rparr>)
             | None \<Rightarrow> (case mml_stack_pop (right h) of
                  Some (p, st) \<Rightarrow> Inr (Illegal_repeat_pair, [], h\<lparr>tp := tp h + bl, right := st\<rparr>)
                | None \<Rightarrow> Inr (MML_EOT, [], h\<lparr>tp := tp h + bl\<rparr>)))
       else bind_res (scan_token (drop bl rest)) (\<lambda>(r, buf, n). Inr (r, buf, h\<lparr>tp := tp h + bl + n\<rparr>)))"
    using i unfolding get_token_def text_rest_def Let_def rest_def [symmetric]
    by (cases "mml_stack_pop (left h)"; cases "mml_stack_pop (right h)")
      (simp_all del: drop_eq_Nil drop_drop add: bl_def [symmetric])
  have t: "token_at s (tp h) = bind_res (scan_token (drop bl rest)) (\<lambda>(r, buf, n). Inr (r, buf, tp h + bl + n))"
    using i by (simp add: token_at_def text_rest_def Let_def rest_def bl_def)
  have b: "blank_from s (tp h) \<longleftrightarrow> drop bl rest = []"
    unfolding bl_def blank_from_def rest_def [symmetric] dropWhile_eq_drop [symmetric] dropWhile_eq_Nil_conv ..
  show thesis
  proof (cases "drop bl rest = []")
    case True
    then have "token_at s (tp h) = Inr (MML_EOT, [], tp h + bl)" using t by (simp add: scan_token_def)
    moreover have "buf = [] \<and> r \<noteq> MML_OK \<and> tp h' = tp h + bl \<and> (\<exists>k l rt. h' = h\<lparr>tp := k, left := l, right := rt\<rparr>)"
      using assms True unfolding g
      by (auto simp: mml_stack_pop_def split: list.splits) (metis mml.surjective mml.update_convs mml.simps)+
    ultimately show thesis using that(2) b True by auto
  next
    case False
    then show thesis using assms that(1) b t unfolding g by (auto simp: bind_res_eq_Inr)
  qed
qed

lemma get_token_ok:
  assumes "get_token s h = Inr (MML_OK, buf, h')"
  shows "token_at s (tp h) = Inr (MML_OK, buf, tp h')" "h' = h\<lparr>tp := tp h'\<rparr>"
  using get_token_at [OF assms] by (metis)+

text \<open>
  What a good fetch can do: move on, with the stacks as they were unless the text is at its end;
  open a repeat; pass a closing bracket for the second time; or jump back behind the last open
  bracket.
\<close>

definition closes :: "string \<Rightarrow> nat \<Rightarrow> nat \<Rightarrow> bool" where
  "closes s k r \<longleftrightarrow> (\<exists>buf. token_at s k = Inr (MML_OK, buf, Suc r) \<and> first_type buf = Repeat_right_char)"

inductive moves :: "string \<Rightarrow> mml \<Rightarrow> mml \<Rightarrow> bool" for s where
  forward: "next_pos s (tp h) = Some (tp h') \<Longrightarrow> left h' = left h \<Longrightarrow> right h' = right h \<Longrightarrow>
     (\<And>r. \<not> closes s (tp h) r) \<Longrightarrow> moves s h h'"
| at_end: "blank_from s (tp h') \<Longrightarrow> tp h' \<le> length s \<Longrightarrow> moves s h h'"
| opens_repeat: "next_pos s (tp h) = Some (Suc p) \<Longrightarrow> (\<And>r. \<not> closes s (tp h) r) \<Longrightarrow> tp h' = Suc p \<Longrightarrow> left h' = p # left h \<Longrightarrow>
     right h' = right h \<Longrightarrow> moves s h h'"
| passing: "closes s (tp h) r \<Longrightarrow> right h = r # right h' \<Longrightarrow> left h' = left h \<Longrightarrow> tp h' = Suc r \<Longrightarrow> moves s h h'"
| jumping: "closes s (tp h) r \<Longrightarrow> right h = [] \<or> hd (right h) \<noteq> r \<Longrightarrow> right h' = r # right h \<Longrightarrow> left h = p # left h' \<Longrightarrow>
     tp h' = Suc p \<Longrightarrow> moves s h h'"

lemma first_type_Nil [simp]: "first_type [] = Unknown_char"
  by (simp add: first_type_def get_char_type_def)

lemma not_closes: "token_at s i = Inr (MML_OK, buf, k) \<Longrightarrow> first_type buf \<noteq> Repeat_right_char \<Longrightarrow> \<not> closes s i r"
  by (simp add: closes_def)

text \<open>The look-ahead of a note, of a rest and of a command with a number.\<close>

lemma look_ahead:
  assumes "get_token s h = Inr (mr, buf, h')"
  obtains m where "token_at s (tp h) = Inr (mr, buf, m)" "h' = h\<lparr>tp := m\<rparr>" "\<not> blank_from s (tp h)"
  | "blank_from s (tp h)" "first_type buf \<noteq> Number_char" "tp h \<le> length s" "state h' = state h"
proof -
  have i: "tp h \<le> length s" using assms by (auto simp: get_token_def text_rest_def split: if_splits)
  show thesis
  proof (rule get_token_at [OF assms])
    assume "\<not> blank_from s (tp h)" "token_at s (tp h) = Inr (mr, buf, tp h')" "h' = h\<lparr>tp := tp h'\<rparr>"
    then show thesis using that(1) by blast
  next
    fix k l rt
    assume "blank_from s (tp h)" "buf = []" "h' = h\<lparr>tp := k, left := l, right := rt\<rparr>"
    then show thesis using that(2) i by simp
  qed
qed

lemma fetch_note_moves:
  assumes "token_at s (tp h) = Inr (MML_OK, buf1, k)" "first_type buf1 = Note_char"
    and "fetch_note s buf1 (h\<lparr>tp := k\<rparr>) = Inr (MML_OK, io, h')"
  shows "moves s h h' \<and> state h' = state h"
proof -
  obtain mr buf2 h1 where g: "get_token s (h\<lparr>tp := k\<rparr>) = Inr (mr, buf2, h1)"
    using assms(3) by (auto simp: fetch_note_def bind_res_eq_Inr)
  note nc = not_closes [OF assms(1)] assms(2)
  show ?thesis
  proof (rule look_ahead [OF g])
    fix m
    assume m: "token_at s (tp (h\<lparr>tp := k\<rparr>)) = Inr (mr, buf2, m)" "h1 = h\<lparr>tp := k, tp := m\<rparr>"
    then have "h' = h\<lparr>tp := if first_type buf2 = Number_char then m else k\<rparr>"
      using assms(3) g by (auto simp: fetch_note_def split: if_splits prod.splits)
    then show ?thesis using m assms(1,2) nc by (auto intro!: moves.forward simp: next_pos_def)
  next
    assume b: "blank_from s (tp (h\<lparr>tp := k\<rparr>))" "first_type buf2 \<noteq> Number_char" "tp (h\<lparr>tp := k\<rparr>) \<le> length s"
      "state h1 = state (h\<lparr>tp := k\<rparr>)"
    then have "tp h' = k \<and> state h' = state h"
      using assms(3) g by (auto simp: fetch_note_def split: if_splits prod.splits)
    then show ?thesis using b by (auto intro: moves.at_end)
  qed
qed

lemma fetch_rest_moves:
  assumes "token_at s (tp h) = Inr (MML_OK, buf1, k)" "first_type buf1 = Rest_char"
    and "fetch_rest s (h\<lparr>tp := k\<rparr>) = Inr (MML_OK, io, h')"
  shows "moves s h h' \<and> state h' = state h"
proof -
  obtain mr buf2 h1 where g: "get_token s (h\<lparr>tp := k\<rparr>) = Inr (mr, buf2, h1)"
    using assms(3) by (auto simp: fetch_rest_def bind_res_eq_Inr)
  note nc = not_closes [OF assms(1)] assms(2)
  show ?thesis
  proof (rule look_ahead [OF g])
    fix m
    assume m: "token_at s (tp (h\<lparr>tp := k\<rparr>)) = Inr (mr, buf2, m)" "h1 = h\<lparr>tp := k, tp := m\<rparr>"
    then have "h' = h\<lparr>tp := if first_type buf2 = Number_char then m else k\<rparr>"
      using assms(3) g by (auto simp: fetch_rest_def split: if_splits prod.splits)
    then show ?thesis using m assms(1,2) nc by (auto intro!: moves.forward simp: next_pos_def)
  next
    assume b: "blank_from s (tp (h\<lparr>tp := k\<rparr>))" "first_type buf2 \<noteq> Number_char" "tp (h\<lparr>tp := k\<rparr>) \<le> length s"
      "state h1 = state (h\<lparr>tp := k\<rparr>)"
    then have "tp h' = k \<and> state h' = state h"
      using assms(3) g by (auto simp: fetch_rest_def split: if_splits prod.splits)
    then show ?thesis using b by (auto intro: moves.at_end)
  qed
qed

lemma fetch_number_moves:
  assumes "token_at s (tp h) = Inr (MML_OK, buf1, k)"
    and "first_type buf1 \<in> {Tempo_char, Volume_char, Length_char, Octave_char}" "illegal \<noteq> MML_OK"
    and "\<And>n h. tp (change n h) = tp h \<and> left (change n h) = left h \<and> right (change n h) = right h \<and> state (change n h) = state h"
    and "fetch_number s illegal info change (h\<lparr>tp := k\<rparr>) = Inr (MML_OK, io, h')"
  shows "moves s h h' \<and> state h' = state h"
proof -
  obtain mr buf2 h1 where g: "get_token s (h\<lparr>tp := k\<rparr>) = Inr (mr, buf2, h1)"
    using assms(5) by (auto simp: fetch_number_def bind_res_eq_Inr)
  then have n: "first_type buf2 = Number_char" "h' = change (ntlibc_atoi buf2) h1"
    using assms(3,5) by (auto simp: fetch_number_def split: if_splits)
  have nc: "\<not> closes s (tp h) r" for r using assms(2) by (intro not_closes [OF assms(1)]) auto
  show ?thesis
  proof (rule look_ahead [OF g])
    fix m
    assume "token_at s (tp (h\<lparr>tp := k\<rparr>)) = Inr (mr, buf2, m)" "h1 = h\<lparr>tp := k, tp := m\<rparr>"
    then show ?thesis using n(2) assms(1,2,4) nc by (auto intro!: moves.forward simp: next_pos_def)
  qed (use n in simp)
qed

lemma octave_iter:
  "tp ((octave_up ^^ n) h) = tp h" "left ((octave_up ^^ n) h) = left h" "right ((octave_up ^^ n) h) = right h"
  "state ((octave_up ^^ n) h) = state h"
  "tp ((octave_down ^^ n) h) = tp h" "left ((octave_down ^^ n) h) = left h" "right ((octave_down ^^ n) h) = right h"
  "state ((octave_down ^^ n) h) = state h"
  by (induction n) (simp_all add: octave_up_def octave_down_def)

lemma fetch_right_moves:
  assumes "closes s (tp h) r" "fetch_right (h\<lparr>tp := Suc r\<rparr>) = (MML_OK, io, h')"
  shows "moves s h h' \<and> state h' = state h"
proof (cases "right h")
  case Nil
  then obtain p st where "left h = p # st" "h' = h\<lparr>tp := Suc p, left := st, right := [r]\<rparr>"
    using assms(2) by (auto simp: fetch_right_def mml_stack_pop_def push_right_def mml_stack_push_def jump_back_def
        MML_STACK_MAX_DEPTH_def Let_def split: list.splits)
  then show ?thesis using Nil assms(1) by (simp add: moves.jumping)
next
  case (Cons q rs)
  show ?thesis
  proof (cases "q = r")
    case True
    then have "h' = h\<lparr>tp := Suc r, right := rs\<rparr>"
      using assms(2) Cons by (auto simp: fetch_right_def mml_stack_pop_def Let_def)
    then show ?thesis using True Cons assms(1) by (auto intro: moves.passing)
  next
    case False
    then obtain p st where "left h = p # st" "h' = h\<lparr>tp := Suc p, left := st, right := r # q # rs\<rparr>"
      using assms(2) Cons by (auto simp: fetch_right_def mml_stack_pop_def push_right_def mml_stack_push_def jump_back_def
          MML_STACK_MAX_DEPTH_def Let_def split: list.splits if_splits)
    then show ?thesis using Cons False assms(1) by (simp add: moves.jumping)
  qed
qed

lemma fetch_moves:
  assumes "mml_fetch s h = Inr (MML_OK, io, h')"
  shows "moves s h h' \<and> state h' = state h"
proof -
  obtain buf k where t: "token_at s (tp h) = Inr (MML_OK, buf, k)" "fetch_command s buf (h\<lparr>tp := k\<rparr>) = Inr (MML_OK, io, h')"
  proof -
    obtain mr buf h1 where g: "get_token s h = Inr (mr, buf, h1)"
      using assms by (auto simp: mml_fetch_def bind_res_eq_Inr split: if_splits)
    then have m: "mr = MML_OK" "fetch_command s buf h1 = Inr (MML_OK, io, h')"
      using assms by (auto simp: mml_fetch_def split: if_splits)
    then show thesis using that [of buf "tp h1"] get_token_ok [of s h buf h1] g by simp
  qed
  have k: "tp h < k" "k \<le> length s" using token_at_ok [OF t(1)] by simp_all
  have nc: "first_type buf \<noteq> Repeat_right_char \<Longrightarrow> \<not> closes s (tp h) r" for r by (rule not_closes [OF t(1)])
  show ?thesis
  proof (cases "first_type buf")
    case Note_char
    then show ?thesis using t fetch_note_moves [OF t(1)] by (simp add: fetch_command_def)
  next
    case Rest_char
    then show ?thesis using t fetch_rest_moves [OF t(1)] by (simp add: fetch_command_def)
  next
    case Octave_char
    then show ?thesis using t(2) fetch_number_moves [OF t(1), of Illegal_octave_value "\<lambda>n h. h\<lparr>octave := n\<rparr>" Mml_Octave]
      by (simp add: fetch_command_def)
  next
    case Length_char
    then show ?thesis using t(2) fetch_number_moves [OF t(1), of Illegal_length_value "\<lambda>n h. h\<lparr>note_length := n\<rparr>" Mml_Length]
      by (simp add: fetch_command_def)
  next
    case Volume_char
    then show ?thesis using t(2) fetch_number_moves [OF t(1), of Illegal_volume_value "\<lambda>_ h. h" Mml_Volume]
      by (simp add: fetch_command_def)
  next
    case Tempo_char
    then show ?thesis using t(2) fetch_number_moves [OF t(1), of Illegal_tempo_value "\<lambda>_ h. h" Mml_Tempo]
      by (simp add: fetch_command_def)
  next
    case Octave_up_char
    then have "h' = (octave_up ^^ length buf) (h\<lparr>tp := k\<rparr>)" using t(2) by (simp add: fetch_command_def Let_def)
    then show ?thesis using t(1) Octave_up_char nc by (auto intro!: moves.forward simp: octave_iter next_pos_def)
  next
    case Octave_down_char
    then have "h' = (octave_down ^^ length buf) (h\<lparr>tp := k\<rparr>)" using t(2) by (simp add: fetch_command_def Let_def)
    then show ?thesis using t(1) Octave_down_char nc by (auto intro!: moves.forward simp: octave_iter next_pos_def)
  next
    case Repeat_left_char
    obtain p where "k = Suc p" using k(1) by (cases k) auto
    then show ?thesis using t Repeat_left_char nc
      by (auto intro!: moves.opens_repeat simp: fetch_command_def fetch_left_def mml_stack_push_def next_pos_def split: if_splits)
  next
    case Repeat_right_char
    obtain r where r: "k = Suc r" using k(1) by (cases k) auto
    then have "closes s (tp h) r" using t(1) Repeat_right_char by (auto simp: closes_def)
    then show ?thesis using t(2) Repeat_right_char r fetch_right_moves [of s h r] by (simp add: fetch_command_def)
  next
    case User_event_char
    obtain c cs n b where "drop k s = c # cs" "user_event_loop cs [] 0 = Inr (MML_OK, b, n)" "h' = h\<lparr>tp := k + 1 + n\<rparr>"
      using t(2) User_event_char
      by (auto simp: fetch_command_def fetch_user_event_def get_user_event_token_def text_rest_def bind_res_eq_Inr
          split: if_splits list.splits)
    then show ?thesis using t(1) User_event_char nc
      by (auto intro!: moves.forward simp: next_pos_def user_event_end_def)
  qed (use t(2) in \<open>simp_all add: fetch_command_def\<close>)
qed

section \<open>The loop ends\<close>

text \<open>The positions the parser comes by from one on, were there no jumps.\<close>

definition reach :: "string \<Rightarrow> nat \<Rightarrow> nat \<Rightarrow> bool" where
  "reach s = (\<lambda>i j. next_pos s i = Some j)\<^sup>*\<^sup>*"

lemma user_event_loop_counts: "user_event_loop cs buf cnt = Inr (r, b, n) \<Longrightarrow> cnt < n \<and> n \<le> cnt + length cs"
  by (induction cs buf cnt rule: user_event_loop.induct) (auto split: if_splits)

lemma next_pos_later:
  assumes "next_pos s i = Some j"
  shows "i < j"
proof -
  obtain buf k where t: "token_at s i = Inr (MML_OK, buf, k)"
    using assms by (auto simp: next_pos_def split: sum.splits prod.splits if_splits)
  note k = token_at_ok [OF t]
  have m: "k \<le> m" if "token_at s k = Inr (r, b, m)" for r b m
    using that by (auto simp: token_at_def text_rest_def Let_def bind_res_eq_Inr split: if_splits)
  show ?thesis
    using assms t k
    by (auto simp: next_pos_def user_event_end_def dest: m split: sum.splits prod.splits if_splits list.splits)
qed

lemma reach_refl [intro]: "reach s i i"
  by (simp add: reach_def)

lemma reach_trans: "reach s i j \<Longrightarrow> reach s j k \<Longrightarrow> reach s i k"
  by (simp add: reach_def)

lemma reach_step: "next_pos s i = Some j \<Longrightarrow> reach s i j"
  by (simp add: reach_def r_into_rtranclp)

lemma reach_cases:
  assumes "reach s i k" "next_pos s i = Some j"
  shows "k = i \<or> reach s j k"
  using assms(1) unfolding reach_def by (cases rule: converse_rtranclpE) (use assms(2) in auto)

lemma reach_le: "reach s i j \<Longrightarrow> i \<le> j"
  unfolding reach_def by (induction rule: rtranclp_induct) (auto dest: next_pos_later)

lemma closes_next: "closes s k r \<Longrightarrow> next_pos s k = Some (Suc r)"
  by (auto simp: closes_def next_pos_def)

lemma closes_bounds: "closes s k r \<Longrightarrow> k \<le> r \<and> r < length s"
  using token_at_ok by (fastforce simp: closes_def)

lemma closes_unique: "closes s k r \<Longrightarrow> closes s k r' \<Longrightarrow> r' = r"
  by (auto simp: closes_def)

text \<open>
  The invariant: the brackets being repeated lie ahead, the nearest on top; behind each open
  bracket the parser comes by the bracket above it, and behind the top one by where it is.
\<close>

fun opened :: "string \<Rightarrow> nat list \<Rightarrow> nat \<Rightarrow> bool" where
  "opened s [] i = True"
| "opened s (p # ps) i = (reach s (Suc p) i \<and> opened s ps (Suc p))"

definition repeats_ok :: "string \<Rightarrow> mml \<Rightarrow> bool" where
  "repeats_ok s h \<longleftrightarrow>
     (\<forall>r \<in> set (right h). \<exists>k. reach s (tp h) k \<and> closes s k r) \<and> sorted_wrt (<) (right h) \<and> opened s (left h) (tp h)"

text \<open>
  The measure: a digit for every position, the later the higher. It is 2 while the position is
  ahead, 1 once the bracket there is being repeated, and 0 when it is passed.
\<close>

definition place :: "mml \<Rightarrow> nat \<Rightarrow> nat" where
  "place h i = (if i < tp h then 0 else if i \<in> set (right h) then 1 else 2)"

definition weight :: "string \<Rightarrow> mml \<Rightarrow> nat" where
  "weight s h = (\<Sum>i < length s. place h i * 3 ^ i)"

lemma digits_bound: "(\<forall>i < m. d i \<le> (2 :: nat)) \<Longrightarrow> (\<Sum>i < m. d i * 3 ^ i) < 3 ^ m"
proof (induction m)
  case (Suc m)
  then have "(\<Sum>i < m. d i * 3 ^ i) < 3 ^ m" "d m * 3 ^ m \<le> 2 * 3 ^ m" by (auto intro: mult_right_mono)
  then show ?case unfolding sum.lessThan_Suc power_Suc by linarith
qed simp

text \<open>Lowering a digit lowers the number, whatever happens to the digits below.\<close>

lemma odometer:
  fixes d d' :: "nat \<Rightarrow> nat"
  assumes "m < n" "d' m < d m" "\<And>i. m < i \<Longrightarrow> i < n \<Longrightarrow> d' i = d i" "\<And>i. d' i \<le> 2"
  shows "(\<Sum>i < n. d' i * 3 ^ i) < (\<Sum>i < n. d i * 3 ^ i)"
proof -
  have split: "(\<Sum>i < n. f i) = (\<Sum>i < m. f i) + f m + (\<Sum>i \<in> {m <..< n}. f i)" for f :: "nat \<Rightarrow> nat"
  proof -
    have "{..<n} = insert m ({..<m} \<union> {m <..< n})" using assms(1) by auto
    moreover have "sum f ({..<m} \<union> {m <..< n}) = sum f {..<m} + sum f {m <..< n}"
      by (rule sum.union_disjoint) auto
    ultimately show ?thesis by simp
  qed
  have "(\<Sum>i < m. d' i * 3 ^ i) < 3 ^ m" using assms(4) by (intro digits_bound) simp
  moreover have "(d' m + 1) * 3 ^ m \<le> d m * 3 ^ m" using assms(2) by (intro mult_right_mono) simp_all
  moreover have "(\<Sum>i \<in> {m <..< n}. d' i * 3 ^ i) = (\<Sum>i \<in> {m <..< n}. d i * 3 ^ i)"
    using assms(3) by (intro sum.cong) auto
  ultimately show ?thesis unfolding split by simp
qed

lemma place_le: "place h i \<le> 2"
  by (simp add: place_def)

lemma weight_less:
  assumes "m < length s" "tp h \<le> m" "place h' m < place h m" "\<And>i. m < i \<Longrightarrow> i < length s \<Longrightarrow> place h' i = place h i"
  shows "weight s h' < weight s h"
  unfolding weight_def using assms by (intro odometer [of m]) (auto simp: place_le)

lemma next_pos_token: "next_pos s i = Some j \<Longrightarrow> i < length s"
  using token_at_ok by (fastforce simp: next_pos_def split: sum.splits prod.splits if_splits)

text \<open>Every move keeps the invariant and lowers the measure.\<close>

lemma forward_decreases:
  assumes "repeats_ok s h" "next_pos s (tp h) = Some (tp h')" "right h' = right h"
  shows "weight s h' < weight s h"
proof (rule weight_less)
  let ?m = "min (tp h' - 1) (length s - 1)"
  have n: "tp h < tp h'" "tp h < length s" using next_pos_later next_pos_token assms(2) by blast+
  then show "?m < length s" "tp h \<le> ?m" "place h' ?m < place h ?m" by (auto simp: place_def)
  show "place h' i = place h i" if "?m < i" "i < length s" for i
    using that n assms(3) by (auto simp: place_def)
qed

lemma ahead_after:
  assumes "\<forall>r \<in> set rs. \<exists>k. reach s i k \<and> closes s k r" "next_pos s i = Some j" "\<forall>r \<in> set rs. \<not> closes s i r"
  shows "\<forall>r \<in> set rs. \<exists>k. reach s j k \<and> closes s k r"
proof
  fix r
  assume r: "r \<in> set rs"
  then obtain k where k: "reach s i k" "closes s k r" using assms(1) by blast
  then have "k \<noteq> i" using assms(3) r by blast
  then show "\<exists>k. reach s j k \<and> closes s k r" using reach_cases [OF k(1) assms(2)] k(2) by blast
qed

lemma moves_ok:
  assumes "moves s h h'" "repeats_ok s h"
  shows "blank_from s (tp h') \<and> tp h' \<le> length s \<or> repeats_ok s h' \<and> weight s h' < weight s h"
  using assms(1)
proof (cases rule: moves.cases)
  case forward
  have "repeats_ok s h'"
    using assms(2) forward ahead_after [OF _ forward(1)] reach_step [OF forward(1)] reach_trans
    by (cases "left h") (auto simp: repeats_ok_def)
  then show ?thesis using forward_decreases [OF assms(2) forward(1,3)] by blast
next
  case at_end
  then show ?thesis by blast
next
  case (opens_repeat p)
  have st: "opened s (left h) (Suc p)"
    using assms(2) reach_trans [OF _ reach_step [OF opens_repeat(1)]] by (cases "left h") (auto simp: repeats_ok_def)
  have "repeats_ok s h'"
    using assms(2) opens_repeat st ahead_after [OF _ opens_repeat(1)] by (auto simp: repeats_ok_def)
  then show ?thesis using forward_decreases [OF assms(2), of h'] opens_repeat by simp
next
  case (passing r)
  note n = closes_next [OF passing(1)]
  have "\<forall>q \<in> set (right h'). \<not> closes s (tp h) q"
    using assms(2) passing closes_unique by (fastforce simp: repeats_ok_def)
  then have "\<forall>q \<in> set (right h'). \<exists>k. reach s (Suc r) k \<and> closes s k q"
    using assms(2) passing(2) ahead_after [OF _ n] by (auto simp: repeats_ok_def)
  moreover have "opened s (left h') (tp h')"
    using assms(2) passing(3,4) reach_trans [OF _ reach_step [OF n]] by (cases "left h") (auto simp: repeats_ok_def)
  ultimately have "repeats_ok s h'" using assms(2) passing by (auto simp: repeats_ok_def)
  moreover have "weight s h' < weight s h"
    using closes_bounds [OF passing(1)] passing by (intro weight_less [of r]) (auto simp: place_def)
  ultimately show ?thesis by blast
next
  case (jumping r p)
  note n = closes_next [OF jumping(1)] and b = closes_bounds [OF jumping(1)]
  have behind: "reach s (Suc p) (tp h)" "opened s (left h') (Suc p)"
    using assms(2) jumping(4) by (simp_all add: repeats_ok_def)
  have later: "q = r \<or> r < q" if "q \<in> set (right h)" for q
  proof -
    obtain k where k: "reach s (tp h) k" "closes s k q" using assms(2) \<open>q \<in> set (right h)\<close> by (auto simp: repeats_ok_def)
    then show ?thesis
      using reach_cases [OF k(1) n] closes_unique [OF jumping(1)] reach_le [of s "Suc r" k] closes_bounds [OF k(2)] by auto
  qed
  have new: "\<forall>q \<in> set (right h). r < q"
  proof (cases "right h")
    case (Cons q qs)
    then have "r < q" using later [of q] jumping(2) by auto
    then show ?thesis using assms(2) Cons by (auto simp: repeats_ok_def)
  qed simp
  have "repeats_ok s h'"
    using assms(2) jumping new behind reach_trans [OF behind(1)] by (fastforce simp: repeats_ok_def)
  moreover have "weight s h' < weight s h"
    using b jumping new reach_le [OF behind(1)] by (intro weight_less [of r]) (auto simp: place_def)
  ultimately show ?thesis by blast
qed

lemma fetch_at_end:
  assumes "blank_from s (tp h)" "mml_fetch s h = Inr (r, io, h')"
  shows "r \<noteq> MML_OK \<and> io = None"
proof -
  have "mr \<noteq> MML_OK" if "get_token s h = Inr (mr, buf, h1)" for mr buf h1
    using get_token_at [OF that] assms(1) by metis
  then show ?thesis using assms(2) by (auto simp: mml_fetch_def bind_res_eq_Inr split: if_splits)
qed

lemma fetch_loop_ends:
  assumes "repeats_ok s h"
  shows "\<exists>x'. fetch_loop callback s h x = Some x'"
  using assms
proof (induction "weight s h" arbitrary: h x rule: less_induct)
  case less
  show ?case
  proof (cases "mml_fetch s h")
    case (Inl e)
    then show ?thesis by (simp add: fetch_loop.simps [of callback s h x])
  next
    case (Inr f)
    obtain r io h' where f: "f = (r, io, h')" by (cases f)
    have "\<exists>x'. fetch_loop callback s h' x1 = Some x'" if ok: "r = MML_OK" for x1
    proof -
      from moves_ok [OF _ less.prems] fetch_moves [of s h io h'] Inr f ok
      consider "blank_from s (tp h')" | "repeats_ok s h'" "weight s h' < weight s h" by auto
      then show ?thesis
      proof cases
        case 1
        then show ?thesis
          using fetch_at_end [of s h'] by (subst fetch_loop.simps) (auto split: sum.split)
      qed (use less.hyps in blast)
    qed
    then show ?thesis using Inr f
      by (subst fetch_loop.simps) (auto split: sum.split option.split)
  qed
qed

section \<open>Properties\<close>

text \<open>C32: parsing ends on every text, however its repeats are nested, crossed or left open, whatever the
  callback does.\<close>

theorem mml_parse_ends:
  "\<exists>res. fetch_loop callback s (mml_setup opt h) x = Some res"
  by (rule fetch_loop_ends) (simp add: repeats_ok_def mml_setup_def Let_def)

text \<open>seven sharps or flats behind a note are written past the end of the token buffer.\<close>

theorem accidentals_overflow:
  assumes "drop (tp h) s = c # acc @ rest" "get_char_type (ntlibc_toupper c) = Note_char"
    and "\<forall>a \<in> set acc. is_accidental a" "7 \<le> length acc" "state h = Fetch_ready"
  shows "mml_fetch s h = Inl (Undefined ''write past the token buffer'')"
proof -
  have b: "\<not> is_blank c"
    using assms(2) by (auto simp: is_blank_def get_char_type_def)
  have "tp h \<le> length s" using assms(1) by (metis drop_all list.distinct(1) nat_le_linear)
  moreover have "length (takeWhile is_accidental (acc @ rest)) \<ge> 7"
    using assms(3,4) by (simp add: takeWhile_append2)
  ultimately show ?thesis
    using assms b
    by (simp add: mml_fetch_def get_token_def text_rest_def scan_token_def single_char_def Let_def token_size_def)
qed

theorem accidentals_overflow_witness:
  "mml_fetch ''C+++++++'' (mml_setup None (mml_init 0 0 0)) = Inl (Undefined ''write past the token buffer'')"
  using accidentals_overflow [of "mml_setup None (mml_init 0 0 0)" "''C+++++++''" "CHR ''C''" "''+++++++''" "[]"]
  by (simp add: mml_setup_def Let_def get_char_type_def ntlibc_toupper_def is_accidental_def)

end
