(* ===== verification/Mml_Syntax.thy ===== *)
theory Mml_Syntax
  imports Mml_Parser
begin

text \<open>
  A reference syntax for the music macro language: commands, how they are written and what they
  mean. The parser of \<open>tinymml/mml.c\<close> reads back what is written, command by command.
\<close>

section \<open>Commands\<close>

datatype command =
    Play char string "nat option"
  | Pause "nat option"
  | Set_octave nat
  | Set_length nat
  | Go_up
  | Go_down

definition lengths :: "nat set" where
  "lengths = {0, 1, 2, 4, 8, 16, 32, 64, 23, 43, 83, 163, 323, 643}"

fun command_ok :: "command \<Rightarrow> bool" where
  "command_ok (Play c acc n) =
     (c \<in> set ''CDEFGAB'' \<and> set acc \<subseteq> {CHR ''+'', CHR ''-''} \<and> length acc \<le> 6 \<and> (\<forall>k. n = Some k \<longrightarrow> k \<in> lengths))"
| "command_ok (Pause n) = (\<forall>k. n = Some k \<longrightarrow> k \<in> lengths)"
| "command_ok (Set_octave k) = (k < 1000)"
| "command_ok (Set_length k) = (k \<in> lengths)"
| "command_ok Go_up = True"
| "command_ok Go_down = True"

text \<open>A command is a token, then its number if it has one, then a blank.\<close>

fun token :: "command \<Rightarrow> string" where
  "token (Play c acc n) = c # acc"
| "token (Pause n) = ''R''"
| "token (Set_octave k) = ''O''"
| "token (Set_length k) = ''L''"
| "token Go_up = [CHR 0x3E]"
| "token Go_down = [CHR 0x3C]"

fun argument :: "command \<Rightarrow> nat option" where
  "argument (Play c acc n) = n"
| "argument (Pause n) = n"
| "argument (Set_octave k) = Some k"
| "argument (Set_length k) = Some k"
| "argument Go_up = None"
| "argument Go_down = None"

definition show_argument :: "command \<Rightarrow> string" where
  "show_argument c = (case argument c of None \<Rightarrow> [] | Some k \<Rightarrow> decimal k)"

definition show_command :: "command \<Rightarrow> string" where
  "show_command c = token c @ show_argument c @ '' ''"

definition show_commands :: "command list \<Rightarrow> string" where
  "show_commands cs = concat (map show_command cs)"

text \<open>What a command means, given the octave and the length in force.\<close>

fun semitone :: "char \<Rightarrow> int" where
  "semitone c = int (length (takeWhile (\<lambda>x. x \<noteq> c) note_distance))"

definition accidentals_value :: "string \<Rightarrow> int" where
  "accidentals_value acc = int (length (filter (\<lambda>a. a = CHR ''+'') acc)) - int (length (filter (\<lambda>a. a = CHR ''-'') acc))"

definition ticks_of :: "int \<Rightarrow> int \<Rightarrow> nat option \<Rightarrow> int" where
  "ticks_of b l n = snd (convert_note_length_to_ticks b (case n of None \<Rightarrow> l | Some k \<Rightarrow> int k))"

fun command_info :: "int \<Rightarrow> int \<times> int \<Rightarrow> command \<Rightarrow> mml_info" where
  "command_info b (oct, l) (Play c acc n) = Mml_Note (semitone c + accidentals_value acc + oct * 12) (ticks_of b l n)"
| "command_info b (oct, l) (Pause n) = Mml_Rest (ticks_of b l n)"
| "command_info b (oct, l) (Set_octave k) = Mml_Octave (int k)"
| "command_info b (oct, l) (Set_length k) = Mml_Length (int k)"
| "command_info b (oct, l) Go_up = Mml_Octave_up (if oct < 10 then oct + 1 else oct)"
| "command_info b (oct, l) Go_down = Mml_Octave_down (if 0 < oct then oct - 1 else oct)"

fun command_effect :: "command \<Rightarrow> int \<times> int \<Rightarrow> int \<times> int" where
  "command_effect (Set_octave k) (oct, l) = (int k, l)"
| "command_effect (Set_length k) (oct, l) = (oct, int k)"
| "command_effect Go_up (oct, l) = (if oct < 10 then oct + 1 else oct, l)"
| "command_effect Go_down (oct, l) = (if 0 < oct then oct - 1 else oct, l)"
| "command_effect _ (oct, l) = (oct, l)"

fun infos :: "int \<Rightarrow> int \<times> int \<Rightarrow> command list \<Rightarrow> mml_info list" where
  "infos b ol [] = []"
| "infos b ol (c # cs) = command_info b ol c # infos b (command_effect c ol) cs"

section \<open>Numbers\<close>

definition digit_string :: "string \<Rightarrow> bool" where
  "digit_string cs \<longleftrightarrow> set cs \<subseteq> set ''0123456789''"

lemma digit_char:
  assumes "k < 10"
  shows "char_of (48 + k :: nat) \<in> set ''0123456789''" "(of_char (char_of (48 + k :: nat) :: char) :: int) = 48 + int k"
proof -
  have "list_all (\<lambda>k. char_of (48 + k :: nat) \<in> set ''0123456789'') [0 ..< 10]" by code_simp
  then show "char_of (48 + k :: nat) \<in> set ''0123456789''" using assms by (simp add: list_all_iff)
  define c :: char where "c = char_of (48 + k)"
  have "(of_char c :: nat) = 48 + k" using assms by (simp add: c_def)
  then have "(of_char c :: int) = 48 + int k" by (metis of_nat_add of_nat_numeral of_nat_of_char)
  then show "(of_char (char_of (48 + k :: nat) :: char) :: int) = 48 + int k" by (simp only: c_def)
qed

lemma digit_type:
  assumes "c \<in> set ''0123456789''"
  shows "get_char_type c = Number_char" "ntlibc_toupper c = c" "ntlibc_isdigit c"
    "c \<notin> {CHR '' '', CHR ''+'', CHR ''-'', CHR ''.''}"
  using assms by (auto simp: get_char_type_def ntlibc_toupper_def ntlibc_isdigit_def)

lemma decimal_digits: "digit_string (decimal n)"
proof (induction n rule: decimal.induct)
  case (1 n)
  show ?case
  proof (cases "n < 10")
    case True
    then show ?thesis using digit_char(1) [of n] by (subst decimal.simps) (simp add: digit_string_def)
  next
    case False
    have "n mod 10 < 10" by simp
    from digit_char(1) [OF this] 1 [OF False] False show ?thesis
      by (subst decimal.simps) (simp add: digit_string_def)
  qed
qed

lemma decimal_nonempty [simp]: "decimal n \<noteq> []"
  by (subst decimal.simps) simp

lemma digits_value_all:
  assumes "digit_string cs"
  shows "digits_value cs = fold (\<lambda>c n. 10 * n + (of_char c - 48)) cs 0"
proof -
  have "takeWhile ntlibc_isdigit cs = cs"
    using assms digit_type(3) by (intro takeWhile_eq_all_conv [THEN iffD2]) (auto simp: digit_string_def)
  then show ?thesis by (simp only: digits_value_def)
qed

lemma digits_value_decimal: "digits_value (decimal n) = int n"
  unfolding digits_value_all [OF decimal_digits]
proof (induction n rule: decimal.induct)
  case (1 n)
  show ?case
  proof (cases "n < 10")
    case True
    then show ?thesis using digit_char(2) [of n] by (subst decimal.simps) simp
  next
    case False
    have "n mod 10 < 10" "10 * int (n div 10) + int (n mod 10) = int n"
      by (simp_all add: zdiv_int zmod_int)
    then show ?thesis using digit_char(2) [of "n mod 10"] 1 [OF False] False
      by (subst decimal.simps) simp
  qed
qed

lemma atoi_decimal: "ntlibc_atoi (decimal n) = int n"
proof -
  have "digit_string cs \<Longrightarrow> atoi_scan cs (ofs, sign, k) = Some (ofs, sign)" for cs ofs sign k
  proof (induction cs)
    case (Cons c cs)
    have "c \<notin> {CHR '' '', CHR ''+'', CHR ''-'', CHR ''.''}" using Cons.prems by (intro digit_type(4)) (simp add: digit_string_def)
    moreover have "digit_string cs" using Cons.prems by (simp add: digit_string_def)
    ultimately show ?case using Cons.IH by simp
  qed simp
  then show ?thesis using decimal_digits [of n] by (simp add: ntlibc_atoi_def digits_value_decimal)
qed

lemma decimal_length: "n < 1000 \<Longrightarrow> length (decimal n) \<le> 3"
  by (subst decimal.simps, subst decimal.simps, subst decimal.simps) simp

section \<open>Reading a token back\<close>

definition blanks :: "string \<Rightarrow> bool" where
  "blanks pad \<longleftrightarrow> (\<forall>c \<in> set pad. is_blank c)"

lemma not_blank: "get_char_type (ntlibc_toupper c) \<noteq> Unknown_char \<Longrightarrow> \<not> is_blank c"
  by (auto simp: is_blank_def get_char_type_def)

lemma get_token_text:
  assumes "drop (tp h) s = pad @ c # cs" "blanks pad" "get_char_type (ntlibc_toupper c) \<noteq> Unknown_char"
    and "scan_token (c # cs) = Inr (r, buf, n)"
  shows "get_token s h = Inr (r, buf, h\<lparr>tp := tp h + length pad + n\<rparr>)"
proof -
  have "tp h \<le> length s" using assms(1) by (metis append_is_Nil_conv drop_all list.distinct(1) nat_le_linear)
  moreover have "takeWhile is_blank (pad @ c # cs) = pad"
    using assms(2) not_blank [OF assms(3)] by (simp add: blanks_def takeWhile_append)
  ultimately show ?thesis using assms(1,4) by (simp add: get_token_def text_rest_def Let_def)
qed

lemma get_token_end:
  assumes "drop (tp h) s = pad" "blanks pad" "tp h \<le> length s" "left h = []" "right h = []"
  shows "get_token s h = Inr (MML_EOT, [], h\<lparr>tp := tp h + length pad\<rparr>)"
proof -
  have "takeWhile is_blank pad = pad" using assms(2) by (simp add: blanks_def)
  then have t: "length (takeWhile is_blank pad) = length pad" by (rule arg_cong)
  show ?thesis using assms(1,3-5) by (simp add: get_token_def text_rest_def Let_def mml_stack_pop_def t)
qed

lemma token_head_run:
  assumes "\<forall>c \<in> set tk. ntlibc_toupper c = c \<and> get_char_type c = t" "\<not> single_char t" "t \<noteq> Unknown_char"
    and "cnt + length tk + 1 < token_size" "get_char_type (ntlibc_toupper x) \<noteq> t"
  shows "token_head t (tk @ x # zs) buf cnt = Inr (MML_OK, buf @ tk, cnt + length tk)"
  using assms by (induction tk arbitrary: buf cnt) auto

text \<open>A run of characters of one type, up to a character of another type that is no accidental.\<close>

lemma scan_run:
  assumes "tk \<noteq> []" "\<forall>c \<in> set tk. ntlibc_toupper c = c \<and> get_char_type c = t" "\<not> single_char t" "t \<noteq> Unknown_char"
    and "length tk \<le> 6" "get_char_type (ntlibc_toupper x) \<noteq> t" "\<not> is_accidental x"
  shows "scan_token (tk @ x # zs) = Inr (MML_OK, tk, length tk)"
proof -
  obtain c cs where tk: "tk = c # cs" using assms(1) by (cases tk) auto
  have "token_head t (tk @ x # zs) [] 0 = Inr (MML_OK, tk, length tk)"
    using token_head_run [OF assms(2,3,4) _ assms(6), of 0 zs "[]"] assms(5) by (simp add: token_size_def)
  moreover have "ntlibc_toupper c = c" "get_char_type c = t" using assms(2) tk by simp_all
  ultimately show ?thesis
    using assms(5,7) unfolding tk by (simp del: token_head.simps add: scan_token_def token_size_def)
qed

lemma note_type:
  assumes "c \<in> set ''CDEFGAB''"
  shows "ntlibc_toupper c = c" "get_char_type c = Note_char" "c \<in> set note_distance"
  using assms by (auto simp: ntlibc_toupper_def get_char_type_def note_distance_def)

lemma accidental_type:
  assumes "a = CHR ''+'' \<or> a = CHR ''-''"
  shows "ntlibc_toupper a = a" "is_accidental a"
  using assms by (elim disjE; simp add: ntlibc_toupper_def get_char_type_def is_accidental_def)+

lemma scan_note:
  assumes "c \<in> set ''CDEFGAB''" "set acc \<subseteq> {CHR ''+'', CHR ''-''}" "length acc \<le> 6" "\<not> is_accidental x"
  shows "scan_token ((c # acc) @ x # zs) = Inr (MML_OK, c # acc, Suc (length acc))"
proof -
  have "takeWhile is_accidental (acc @ x # zs) = acc"
  proof -
    have "\<forall>a \<in> set acc. is_accidental a" using assms(2) by (auto intro: accidental_type(2))
    then show ?thesis using assms(4) by simp
  qed
  moreover have "map ntlibc_toupper acc = acc" using assms(2) by (intro map_idI) (auto intro: accidental_type(1))
  ultimately show ?thesis
    using note_type [OF assms(1)] assms(3) by (simp add: scan_token_def single_char_def token_size_def Let_def)
qed

text \<open>What follows a token: a digit of its number or the blank behind the command.\<close>

definition follower :: "char \<Rightarrow> bool" where
  "follower x \<longleftrightarrow> x = CHR '' '' \<or> x \<in> set ''0123456789''"

lemma follower_type:
  assumes "follower x"
  shows "get_char_type (ntlibc_toupper x) \<in> {Number_char, Unknown_char}" "\<not> is_accidental x"
proof -
  have "x = CHR '' '' \<or> get_char_type (ntlibc_toupper x) = Number_char"
    using assms digit_type(1,2) unfolding follower_def by metis
  moreover have "get_char_type (ntlibc_toupper CHR '' '') = Unknown_char"
    by (simp add: ntlibc_toupper_def get_char_type_def)
  ultimately show t: "get_char_type (ntlibc_toupper x) \<in> {Number_char, Unknown_char}" by auto
  then show "\<not> is_accidental x" by (auto simp: is_accidental_def)
qed

fun command_type :: "command \<Rightarrow> char_type" where
  "command_type (Play c acc n) = Note_char"
| "command_type (Pause n) = Rest_char"
| "command_type (Set_octave k) = Octave_char"
| "command_type (Set_length k) = Length_char"
| "command_type Go_up = Octave_up_char"
| "command_type Go_down = Octave_down_char"

lemma command_type_cases: "command_type c \<notin> {Unknown_char, Number_char}"
  by (cases c) simp_all

lemma scan_command:
  assumes "command_ok c" "follower x"
  shows "scan_token (token c @ x # zs) = Inr (MML_OK, token c, length (token c))"
proof (cases "\<exists>p acc n. c = Play p acc n")
  case True
  then show ?thesis using assms scan_note follower_type(2) by auto
next
  case False
  have "\<not> single_char (command_type c)" using False by (cases c) (simp_all add: single_char_def)
  moreover have "\<forall>x \<in> set (token c). ntlibc_toupper x = x \<and> get_char_type x = command_type c" "token c \<noteq> []" "length (token c) \<le> 6"
    using False by (cases c; simp add: ntlibc_toupper_def get_char_type_def)+
  ultimately show ?thesis
    using follower_type [OF assms(2)] command_type_cases [of c] by (intro scan_run) auto
qed

lemma token_first:
  assumes "command_ok c"
  obtains x xs where "token c = x # xs" "ntlibc_toupper x = x" "get_char_type x = command_type c"
proof (cases c)
  case (Play p acc n)
  then show thesis using that assms note_type by auto
qed (use that in \<open>simp_all add: ntlibc_toupper_def get_char_type_def\<close>)

lemma first_type_token: "command_ok c \<Longrightarrow> first_type (token c) = command_type c"
  by (erule token_first) (simp add: first_type_def)

lemma show_argument_follower:
  obtains x xs where "show_argument c @ '' '' @ zs = x # xs" "follower x"
proof (cases "argument c")
  case None
  then show thesis using that by (simp add: show_argument_def follower_def)
next
  case (Some k)
  obtain x xs where d: "decimal k = x # xs" using decimal_nonempty [of k] by (cases "decimal k") auto
  then have "follower x" using decimal_digits [of k] by (simp add: digit_string_def follower_def)
  then show thesis using that Some d by (simp add: show_argument_def)
qed

text \<open>The token of a command, wherever it stands behind blanks.\<close>

lemma get_command_token:
  assumes "drop (tp h) s = pad @ show_command c @ zs" "blanks pad" "command_ok c"
  shows "get_token s h = Inr (MML_OK, token c, h\<lparr>tp := tp h + length pad + length (token c)\<rparr>)"
proof -
  obtain y ys where f: "show_argument c @ '' '' @ zs = y # ys" "follower y" by (rule show_argument_follower)
  obtain x xs where t: "token c = x # xs" "ntlibc_toupper x = x" "get_char_type x = command_type c"
    using token_first [OF assms(3)] by blast
  have "drop (tp h) s = pad @ x # xs @ y # ys" using assms(1) f(1) t(1) by (simp add: show_command_def)
  then show ?thesis
    using scan_command [OF assms(3) f(2)] t command_type_cases [of c]
    by (intro get_token_text [OF _ assms(2)]) auto
qed

lemma get_number_token:
  assumes "drop (tp h) s = decimal k @ CHR '' '' # zs" "k < 1000"
  shows "get_token s h = Inr (MML_OK, decimal k, h\<lparr>tp := tp h + length (decimal k)\<rparr>)"
proof -
  obtain x xs where d: "decimal k = x # xs" using decimal_nonempty [of k] by (cases "decimal k") auto
  have t: "\<forall>c \<in> set (decimal k). ntlibc_toupper c = c \<and> get_char_type c = Number_char"
    using decimal_digits [of k] digit_type(1,2) unfolding digit_string_def subset_iff by blast
  have "scan_token (decimal k @ CHR '' '' # zs) = Inr (MML_OK, decimal k, length (decimal k))"
    using t decimal_length [OF assms(2)]
    by (intro scan_run) (auto simp: single_char_def is_accidental_def ntlibc_toupper_def get_char_type_def)
  then show ?thesis
    using assms(1) d t get_token_text [of h s "[]" x "xs @ CHR '' '' # zs"] by (simp add: blanks_def)
qed

text \<open>Looking ahead to the next command finds no number.\<close>

lemma peek_command:
  assumes "drop (tp h) s = pad @ show_commands cs" "blanks pad" "\<forall>c \<in> set cs. command_ok c" "tp h \<le> length s"
    and "left h = []" "right h = []"
  obtains r buf m where "get_token s h = Inr (r, buf, h\<lparr>tp := m\<rparr>)" "first_type buf \<noteq> Number_char"
proof (cases cs)
  case Nil
  then show thesis
    using that get_token_end [OF _ assms(2,4,5,6)] assms(1) by (simp add: show_commands_def)
next
  case (Cons c cs')
  have ok: "command_ok c" using assms(3) Cons by simp
  have "drop (tp h) s = pad @ show_command c @ show_commands cs'"
    using assms(1) Cons by (simp add: show_commands_def)
  from get_command_token [OF this assms(2) ok]
  show thesis using that first_type_token [OF ok] command_type_cases [of c] by auto
qed

section \<open>Values\<close>

lemma length_converts:
  assumes "k \<in> lengths"
  shows "convert_note_length_to_ticks b (int k) = (MML_OK, snd (convert_note_length_to_ticks b (int k)))"
  using assms by (auto simp: lengths_def convert_note_length_to_ticks_def)

lemma lengths_small: "k \<in> lengths \<Longrightarrow> k < 1000"
  by (auto simp: lengths_def)

lemma dot_loop_digits: "digit_string cs \<Longrightarrow> dot_loop b cs n t = (MML_OK, t)"
proof (induction cs)
  case (Cons c cs)
  then have "c \<in> set ''0123456789''" "digit_string cs" by (simp_all add: digit_string_def)
  then show ?case using Cons.IH digit_type(4) [of c] by simp
qed simp

lemma number_ticks:
  assumes "k \<in> lengths"
  shows "get_note_ticks h (decimal k) = (MML_OK, ticks_of (bticks h) (note_length h) (Some k))"
proof -
  obtain v where "convert_note_length_to_ticks (bticks h) (int k) = (MML_OK, v)" using length_converts [OF assms] by blast
  then show ?thesis using dot_loop_digits [OF decimal_digits] by (simp add: get_note_ticks_def atoi_decimal ticks_of_def Let_def)
qed

lemma default_ticks:
  "note_length h \<in> int ` lengths \<Longrightarrow> get_note_ticks_default h = (MML_OK, ticks_of (bticks h) (note_length h) None)"
  using length_converts [of _ "bticks h"] by (auto simp: get_note_ticks_default_def ticks_of_def)

lemma accidentals_fold:
  "set acc \<subseteq> {CHR ''+'', CHR ''-''} \<Longrightarrow>
   fold (\<lambda>a n. if a = CHR ''+'' then n + 1 else if a = CHR ''-'' then n - 1 else n) acc n = n + accidentals_value acc"
  by (induction acc arbitrary: n) (auto simp: accidentals_value_def)

lemma note_number:
  assumes "c \<in> set ''CDEFGAB''" "set acc \<subseteq> {CHR ''+'', CHR ''-''}"
  shows "get_note_number h (c # acc) = (MML_OK, semitone c + accidentals_value acc + octave h * 12)"
  using note_type(3) [OF assms(1)] accidentals_fold [OF assms(2)] by (simp add: get_note_number_def)

section \<open>Reading a command back\<close>

text \<open>The parser at the end of what has been read, with the commands still to come behind blanks.\<close>

definition reads_on :: "string \<Rightarrow> command list \<Rightarrow> mml \<Rightarrow> bool" where
  "reads_on s cs h \<longleftrightarrow> (\<exists>pad. drop (tp h) s = pad @ show_commands cs \<and> blanks pad) \<and> tp h \<le> length s \<and>
     state h = Fetch_ready \<and> left h = [] \<and> right h = [] \<and> note_length h \<in> int ` lengths"

abbreviation in_force :: "mml \<Rightarrow> int \<times> int" where
  "in_force h \<equiv> (octave h, note_length h)"

lemma drop_more: "drop i s = a @ b \<Longrightarrow> drop (i + length a) s = b"
  by (metis add.commute append_eq_conv_conj drop_drop)

lemma drop_le:
  assumes "drop i s = a @ b" "i \<le> length s"
  shows "i + length a \<le> length s"
proof -
  have "length (drop i s) = length a + length b" by (simp add: assms(1))
  then show ?thesis using assms(2) by simp
qed

text \<open>Behind a token: a number is read and used, and without one the pointer stays behind the token.\<close>

lemma behind_token:
  assumes "drop (tp h) s = show_argument c @ '' '' @ show_commands cs" "command_ok c" "\<forall>c \<in> set cs. command_ok c"
    and "tp h \<le> length s" "left h = []" "right h = []"
  shows "case argument c of
      Some k \<Rightarrow> get_token s h = Inr (MML_OK, decimal k, h\<lparr>tp := tp h + length (decimal k)\<rparr>) \<and>
        drop (tp h + length (decimal k)) s = '' '' @ show_commands cs \<and> tp h + length (decimal k) \<le> length s
    | None \<Rightarrow> (\<exists>r buf m. get_token s h = Inr (r, buf, h\<lparr>tp := m\<rparr>) \<and> first_type buf \<noteq> Number_char) \<and>
        drop (tp h) s = '' '' @ show_commands cs"
proof (cases "argument c")
  case None
  then have "drop (tp h) s = '' '' @ show_commands cs" using assms(1) by (simp add: show_argument_def)
  moreover have "blanks '' ''" by (simp add: blanks_def is_blank_def ntlibc_toupper_def)
  moreover obtain r buf m where "get_token s h = Inr (r, buf, h\<lparr>tp := m\<rparr>)" "first_type buf \<noteq> Number_char"
    using peek_command [OF calculation assms(3-6)] by blast
  ultimately show ?thesis using None by auto
next
  case (Some k)
  have "k < 1000" using assms(2) Some lengths_small by (cases c) auto
  moreover have d: "drop (tp h) s = decimal k @ CHR '' '' # show_commands cs" using assms(1) Some by (simp add: show_argument_def)
  ultimately show ?thesis using Some get_number_token drop_more [OF d] drop_le [OF d assms(4)] by simp
qed

lemma first_type_decimal: "first_type (decimal k) = Number_char"
proof -
  obtain x xs where d: "decimal k = x # xs" using decimal_nonempty [of k] by (cases "decimal k") auto
  then have "x \<in> set ''0123456789''" using decimal_digits [of k] unfolding digit_string_def by auto
  then show ?thesis using d digit_type(1) by (simp add: first_type_def)
qed

lemma fetch_command_back:
  assumes "drop (tp h) s = show_argument c @ '' '' @ show_commands cs" "command_ok c" "\<forall>c \<in> set cs. command_ok c"
    and "tp h \<le> length s" "left h = []" "right h = []" "state h = Fetch_ready" "note_length h \<in> int ` lengths"
  shows "\<exists>h'. fetch_command s (token c) h = Inr (MML_OK, Some (command_info (bticks h) (in_force h) c), h') \<and>
     reads_on s cs h' \<and> bticks h' = bticks h \<and> in_force h' = command_effect c (in_force h)"
proof -
  have b: "blanks '' ''" by (simp add: blanks_def is_blank_def ntlibc_toupper_def)
  have ft: "first_type (token c) = command_type c" by (rule first_type_token [OF assms(2)])
  note behind = behind_token [OF assms(1-6)]
  show ?thesis
  proof (cases c)
    case (Play p acc n)
    have nn: "get_note_number h' (p # acc) = (MML_OK, semitone p + accidentals_value acc + octave h' * 12)" for h'
      using assms(2) Play by (intro note_number) auto
    show ?thesis
    proof (cases n)
      case None
      then show ?thesis using Play behind ft nn assms default_ticks b
        by (auto simp: fetch_command_def fetch_note_def reads_on_def)
    next
      case (Some k)
      then have "k \<in> lengths" using assms(2) Play by simp
      then show ?thesis using Some Play behind ft nn assms b number_ticks
        by (auto simp: fetch_command_def fetch_note_def reads_on_def first_type_decimal)
    qed
  next
    case (Pause n)
    show ?thesis
    proof (cases n)
      case None
      then show ?thesis using Pause behind ft assms default_ticks b
        by (auto simp: fetch_command_def fetch_rest_def reads_on_def)
    next
      case (Some k)
      then have "k \<in> lengths" using assms(2) Pause by simp
      then show ?thesis using Some Pause behind ft assms b number_ticks
        by (auto simp: fetch_command_def fetch_rest_def reads_on_def first_type_decimal)
    qed
  next
    case (Set_octave k)
    then show ?thesis using behind ft assms b
      by (auto simp: fetch_command_def fetch_number_def reads_on_def first_type_decimal atoi_decimal)
  next
    case (Set_length k)
    then show ?thesis using behind ft assms b
      by (auto simp: fetch_command_def fetch_number_def reads_on_def first_type_decimal atoi_decimal)
  next
    case Go_up
    then show ?thesis using behind ft assms b
      by (auto simp: fetch_command_def reads_on_def octave_up_def)
  next
    case Go_down
    then show ?thesis using behind ft assms b
      by (auto simp: fetch_command_def reads_on_def octave_down_def)
  qed
qed

lemma fetch_back:
  assumes "reads_on s (c # cs) h" "command_ok c" "\<forall>c \<in> set cs. command_ok c"
  shows "\<exists>h'. mml_fetch s h = Inr (MML_OK, Some (command_info (bticks h) (in_force h) c), h') \<and>
     reads_on s cs h' \<and> bticks h' = bticks h \<and> in_force h' = command_effect c (in_force h)"
proof -
  obtain pad where pad: "drop (tp h) s = pad @ show_command c @ show_commands cs" "blanks pad"
    using assms(1) by (auto simp: reads_on_def show_commands_def)
  let ?k = "tp h + length pad + length (token c)"
  have d: "drop (tp h) s = (pad @ token c) @ show_argument c @ '' '' @ show_commands cs"
    using pad(1) by (simp add: show_command_def)
  have k: "drop ?k s = show_argument c @ '' '' @ show_commands cs" "?k \<le> length s"
    using drop_more [OF d] drop_le [OF d] assms(1) by (simp_all add: reads_on_def add.assoc)
  obtain h' where "fetch_command s (token c) (h\<lparr>tp := ?k\<rparr>) = Inr (MML_OK, Some (command_info (bticks h) (in_force h) c), h')"
    "reads_on s cs h'" "bticks h' = bticks h" "in_force h' = command_effect c (in_force h)"
    using fetch_command_back [of "h\<lparr>tp := ?k\<rparr>" s c cs] k assms by (auto simp: reads_on_def)
  then show ?thesis using get_command_token [OF pad assms(2)] assms(1) by (simp add: mml_fetch_def reads_on_def)
qed

lemma fetch_loop_back:
  assumes "reads_on s cs h" "\<forall>c \<in> set cs. command_ok c"
  shows "fetch_loop callback s h x = Some (case fold_res callback (infos (bticks h) (in_force h) cs) x of
     Inl e \<Rightarrow> Inl e | Inr x' \<Rightarrow> Inr (x', MML_EOT))"
  using assms
proof (induction cs arbitrary: h x)
  case Nil
  then obtain m where "get_token s h = Inr (MML_EOT, [], h\<lparr>tp := m\<rparr>)"
    using get_token_end by (fastforce simp: reads_on_def show_commands_def)
  then show ?case using Nil.prems(1) by (subst fetch_loop.simps) (simp add: mml_fetch_def reads_on_def)
next
  case (Cons c cs)
  obtain h' where h': "mml_fetch s h = Inr (MML_OK, Some (command_info (bticks h) (in_force h) c), h')"
    "reads_on s cs h'" "bticks h' = bticks h" "in_force h' = command_effect c (in_force h)"
    using fetch_back [of s c cs h] Cons.prems by auto
  show ?case using Cons.IH [OF h'(2)] Cons.prems(2) h'(1,3,4)
    by (subst fetch_loop.simps) (simp add: bind_res_def split: sum.split)
qed

section \<open>Properties\<close>

text \<open>C33: commands that are written down are parsed back: the callback is made for each of them in
  order, with the note number, the ticks, the octave or the length it means, and the parser then
  is at the end of the text.\<close>

theorem mml_print_parse:
  assumes "\<forall>c \<in> set cs. command_ok c" "opt_length op \<in> int ` lengths"
  shows "fetch_loop callback (show_commands cs) (mml_setup (Some op) h) x =
    Some (case fold_res callback (infos (opt_bticks op) (opt_octave op, opt_length op) cs) x of
      Inl e \<Rightarrow> Inl e
    | Inr x' \<Rightarrow> Inr (x', MML_EOT))"
  using fetch_loop_back [of "show_commands cs" cs "mml_setup (Some op) h" callback x] assms
  by (simp add: mml_setup_def reads_on_def blanks_def Let_def)

theorem mml_print_parse_witness:
  "fetch_loop (\<lambda>i is. Inr (is @ [i])) ''C+4 R8 > E L16 G O3 A0 ''
     (mml_setup (Some default_option) (mml_init 0 0 0)) [] =
   Some (Inr ([Mml_Note 49 480, Mml_Rest 240, Mml_Octave_up 5, Mml_Note 64 240, Mml_Length 16, Mml_Note 67 120,
     Mml_Octave 3, Mml_Note 45 0], MML_EOT))"
proof -
  let ?cs = "[Play CHR ''C'' ''+'' (Some 4), Pause (Some 8), Go_up, Play CHR ''E'' [] None, Set_length 16,
    Play CHR ''G'' [] None, Set_octave 3, Play CHR ''A'' [] (Some 0)]"
  have "show_commands ?cs = ''C+4 R8 > E L16 G O3 A0 ''"
    by code_simp
  then show ?thesis
    using mml_print_parse [of ?cs default_option "\<lambda>i is. Inr (is @ [i])" "mml_init 0 0 0" "[]"]
    by (simp add: default_option_def lengths_def ticks_of_def convert_note_length_to_ticks_def accidentals_value_def
        note_distance_def bind_res_def)
qed

end
