(* ===== verification/Mml_Reader.thy ===== *)
theory Mml_Reader
  imports Ticks Midi_Data Mml_Syntax
begin

text \<open>
  The reader of the music macro language (\<open>src/mmlreader.h\<close>, \<open>src/mmlreader.cpp\<close>), which runs the
  parser of \<open>Mml_Parser\<close> on a text and makes a pattern of what it is called back with.
\<close>

section \<open>The reader\<close>

text \<open>
  The chord is the part of its array in use. The parser's state is set up anew for every text, so
  that what a text has left in it does not matter and is not kept.
\<close>

record mml_reader =
  mml_pattern :: pattern
  mml_position :: position
  ticksPerBar :: u32
  chord :: "u8 list"
  handle :: mml
  mmlopt :: mml_option

definition MAX_CHORD_SIZE :: nat where "MAX_CHORD_SIZE = 8"

text \<open>The constructor leaves the ticks of a bar without a value.\<close>

definition MMLReader :: "u32 \<Rightarrow> mml \<Rightarrow> mml_reader" where
  "MMLReader junk initial =
     \<lparr>mml_pattern = [], mml_position = default_position, ticksPerBar = junk, chord = [],
      handle = initial, mmlopt = default_option\<rparr>"

definition processNote :: "int \<Rightarrow> int \<Rightarrow> mml_reader \<Rightarrow> mml_reader res" where
  "processNote number ticks r =
     (if ticks \<noteq> 0
      then bind_res (Duration 0 (word_of_int ticks) (ticksPerBar r)) (\<lambda>d.
           let add = (\<lambda>p. addNote_at (Note_lasting p 127 d) (mml_position r));
               pat = add number (fold (\<lambda>c. add (int (unat c))) (chord r) (mml_pattern r))
           in bind_res (pos_plus (mml_position r) d) (\<lambda>p.
              Inr (r\<lparr>mml_pattern := pat, mml_position := p, chord := []\<rparr>)))
      else if length (chord r) < MAX_CHORD_SIZE
      then Inr (r\<lparr>chord := chord r @ [word_of_int number]\<rparr>)
      else Inr r)"

definition processRest :: "int \<Rightarrow> mml_reader \<Rightarrow> mml_reader res" where
  "processRest ticks r =
     bind_res (Duration 0 (word_of_int ticks) (ticksPerBar r)) (\<lambda>d.
     bind_res (pos_plus (mml_position r) d) (\<lambda>p.
       Inr (r\<lparr>mml_position := p, chord := []\<rparr>)))"

fun mml_callback :: "mml_info \<Rightarrow> mml_reader \<Rightarrow> mml_reader res" where
  "mml_callback (Mml_Note n t) r = processNote n t r"
| "mml_callback (Mml_Rest t) r = processRest t r"
| "mml_callback _ r = Inr r"

text \<open>The ticks of a bar, in the transport's time signature when it has one.\<close>

definition bar_ticks :: "int \<Rightarrow> time_signature \<Rightarrow> u32 res" where
  "bar_ticks b ts =
     (if ts_valid ts
      then if ts_denominator ts = 0 then Inl (Undefined ''integer division by zero'')
           else Inr (word_of_int b * ts_numerator ts * 4 div ts_denominator ts)
      else Inr (word_of_int (b * 4)))"

text \<open>The result of the last fetch is dropped: a text with an error in it gives the notes before it.\<close>

definition mml_read :: "time_signature \<Rightarrow> string \<Rightarrow> mml_reader \<Rightarrow> (mml_reader \<times> pattern) res option" where
  "mml_read ts txt r =
     (case bind_res (Position 1 0 1) (\<lambda>p. bind_res (bar_ticks (opt_bticks (mmlopt r)) ts) (\<lambda>t. Inr (p, t))) of
        Inl e \<Rightarrow> Some (Inl e)
      | Inr (p, t) \<Rightarrow>
          map_option (\<lambda>f. bind_res f (\<lambda>(r', result). Inr (r', mml_pattern r')))
            (fetch_loop mml_callback txt (mml_setup (Some (mmlopt r)) (handle r))
              (r\<lparr>mml_pattern := [], mml_position := p, ticksPerBar := t\<rparr>)))"

section \<open>What a text means\<close>

text \<open>
  The pitches with the times at which they begin and how long they last, in bars of \<open>D\<close> ticks:
  notes without ticks wait, up to eight of them, and begin and end with the next note; a rest
  drops them.
\<close>

fun mml_notes :: "nat \<Rightarrow> nat \<Rightarrow> u8 list \<Rightarrow> mml_info list \<Rightarrow> (int \<times> rat \<times> rat) list" where
  "mml_notes D now waiting [] = []"
| "mml_notes D now waiting (Mml_Note n t # is) =
     (if t = 0
      then mml_notes D now (if length waiting < 8 then waiting @ [word_of_int n] else waiting) is
      else map (\<lambda>p. (p, 1 + of_nat now / of_nat D, of_int t / of_nat D)) (map (\<lambda>c. int (unat c)) waiting @ [n]) @
           mml_notes D (now + nat t) [] is)"
| "mml_notes D now waiting (Mml_Rest t # is) = mml_notes D (now + nat t) [] is"
| "mml_notes D now waiting (_ # is) = mml_notes D now waiting is"

definition note_view :: "pattern_note \<Rightarrow> int \<times> rat \<times> rat" where
  "note_view n = (note_value (pn_note n), dvalue (pn_position n), dvalue (note_duration (pn_note n)))"

fun info_ticks :: "mml_info \<Rightarrow> nat" where
  "info_ticks (Mml_Note n t) = nat t"
| "info_ticks (Mml_Rest t) = nat t"
| "info_ticks _ = 0"

fun info_ok :: "mml_info \<Rightarrow> bool" where
  "info_ok (Mml_Note n t) = (0 \<le> t)"
| "info_ok (Mml_Rest t) = (0 \<le> t)"
| "info_ok _ = True"

definition at_tick :: "nat \<Rightarrow> nat \<Rightarrow> mml_reader \<Rightarrow> bool" where
  "at_tick D now r \<longleftrightarrow> tick_base D \<and> ticksPerBar r = of_nat D \<and> now < 2 ^ 31 \<and>
     (mml_position r = tick_position D now \<or> now = 0 \<and> mml_position r = mk_dur 1 0 1)"

section \<open>Lemmas\<close>

lemma tick_duration_dvalue:
  assumes "tick_base D" "t < 2 ^ 32"
  shows "dvalue (tick_duration D t) = of_nat t / of_nat D"
proof -
  have D: "0 < D" "D < 2 ^ 32" using assms(1) by (simp_all add: tick_base_def)
  have "t div D < 2 ^ 32" using assms(2) by (meson div_le_dividend le_less_trans)
  moreover have "(of_nat t :: rat) = of_nat (t div D) * of_nat D + of_nat (t mod D)"
    by (metis div_mult_mod_eq of_nat_add of_nat_mult)
  ultimately show ?thesis
    using D mod_tick_base [OF assms(1), of t]
    by (simp add: dvalue_def tick_duration_def unat_u32_of_nat add_divide_distrib)
qed

lemma at_tick_dvalue: "at_tick D now r \<Longrightarrow> dvalue (mml_position r) = 1 + of_nat now / of_nat D"
  using tick_position_dvalue [of D now] by (auto simp: at_tick_def) (simp add: dvalue_def)

lemma at_tick_plus:
  "at_tick D now r \<Longrightarrow> pos_plus (mml_position r) (tick_duration D t) = Inr (tick_position D (now + t))"
  using tick_position_plus [of D now t] first_bar_plus [of D t] by (auto simp: at_tick_def)

lemma fold_addNote:
  "fold (\<lambda>c. addNote_at (Note_lasting (f c) v d) p) cs pat =
     pat @ map (\<lambda>c. \<lparr>pn_note = Note_lasting (f c) v d, pn_position = p\<rparr>) cs"
  by (induction cs arbitrary: pat) (simp_all add: addNote_at_def)

lemma mml_run:
  assumes "at_tick D now r" "\<forall>i \<in> set is. info_ok i" "now + sum_list (map info_ticks is) < 2 ^ 31"
  shows "\<exists>r'. fold_res mml_callback is r = Inr r' \<and>
     map note_view (mml_pattern r') = map note_view (mml_pattern r) @ mml_notes D now (chord r) is"
  using assms
proof (induction "is" arbitrary: now r)
  case Nil
  then show ?case by simp
next
  case (Cons i "is")
  have D: "tick_base D" "ticksPerBar r = of_nat D" using Cons.prems(1) by (simp_all add: at_tick_def)
  have rest: "\<forall>i \<in> set is. info_ok i" using Cons.prems(2) by simp
  have dur: "Duration 0 (word_of_int t) (ticksPerBar r) = Inr (tick_duration D (nat t))" if "0 \<le> t" "nat t < 2 ^ 31" for t
  proof -
    have "(word_of_int t :: u32) = of_nat (nat t)" using that(1) by simp
    then show ?thesis using Duration_ticks [OF D(1), of "nat t"] that(2) D(2) by simp
  qed
  show ?case
  proof (cases i)
    case (Mml_Note n t)
    show ?thesis
    proof (cases "t = 0")
      case True
      define r1 where "r1 = (if length (chord r) < 8 then r\<lparr>chord := chord r @ [word_of_int n]\<rparr> else r)"
      have "mml_callback i r = Inr r1" using True Mml_Note by (simp add: processNote_def r1_def MAX_CHORD_SIZE_def)
      moreover have "at_tick D now r1" using Cons.prems(1) by (simp add: at_tick_def r1_def)
      ultimately show ?thesis
        using Cons.IH [of now r1] rest Cons.prems(3) True Mml_Note by (auto simp: r1_def)
    next
      case False
      let ?d = "tick_duration D (nat t)"
      have t: "0 \<le> t" "nat t < 2 ^ 31" "now + nat t < 2 ^ 31" using Mml_Note Cons.prems by auto
      define r1 where "r1 = r\<lparr>mml_pattern := mml_pattern r @
          map (\<lambda>p. \<lparr>pn_note = Note_lasting p 127 ?d, pn_position = mml_position r\<rparr>) (map (\<lambda>c. int (unat c)) (chord r) @ [n]),
        mml_position := tick_position D (now + nat t), chord := []\<rparr>"
      have "mml_callback i r = Inr r1"
        using Mml_Note False dur [OF t(1,2)] at_tick_plus [OF Cons.prems(1), of "nat t"]
        by (simp add: processNote_def r1_def Let_def fold_addNote) (simp add: addNote_at_def)
      moreover have "at_tick D (now + nat t) r1" using D t(3) by (simp add: at_tick_def r1_def)
      moreover have "of_nat (nat t) = (of_int t :: rat)" using t(1) by simp
      then have "map note_view (mml_pattern r1) = map note_view (mml_pattern r) @
          map (\<lambda>p. (p, 1 + of_nat now / of_nat D, of_int t / of_nat D)) (map (\<lambda>c. int (unat c)) (chord r) @ [n])"
        using at_tick_dvalue [OF Cons.prems(1)] tick_duration_dvalue [OF D(1), of "nat t"] t(2)
        by (simp add: r1_def note_view_def Note_lasting_def)
      ultimately show ?thesis
        using Cons.IH [of "now + nat t" r1] rest Cons.prems(3) False Mml_Note by (auto simp: r1_def)
    qed
  next
    case (Mml_Rest t)
    have t: "0 \<le> t" "nat t < 2 ^ 31" "now + nat t < 2 ^ 31" using Mml_Rest Cons.prems by auto
    define r1 where "r1 = r\<lparr>mml_position := tick_position D (now + nat t), chord := []\<rparr>"
    have "mml_callback i r = Inr r1"
      using Mml_Rest dur [OF t(1,2)] at_tick_plus [OF Cons.prems(1), of "nat t"]
      by (simp add: processRest_def r1_def)
    moreover have "at_tick D (now + nat t) r1" using D t(3) by (simp add: at_tick_def r1_def)
    ultimately show ?thesis
      using Cons.IH [of "now + nat t" r1] rest Cons.prems(3) Mml_Rest by (auto simp: r1_def)
  next
  qed (use Cons.IH [OF Cons.prems(1) rest] Cons.prems(3) in simp_all)
qed

lemma ticks_of_nonneg: "0 \<le> b \<Longrightarrow> 0 \<le> ticks_of b l n"
  by (simp add: ticks_of_def convert_note_length_to_ticks_def signed_divide_int_def sgn_if pos_imp_zdiv_nonneg_iff)

lemma infos_ok: "0 \<le> b \<Longrightarrow> \<forall>i \<in> set (infos b ol cs). info_ok i"
proof (induction cs arbitrary: ol)
  case (Cons c cs)
  obtain oct l where "ol = (oct, l)" by (cases ol)
  moreover have "info_ok (command_info b (oct, l) c)" using Cons.prems by (cases c) (simp_all add: ticks_of_nonneg)
  ultimately show ?case using Cons by simp
qed simp

section \<open>Properties\<close>

text \<open>C34: reading a text of music macro commands in a meter gives its notes in order: notes of no length
  sound together with the next note, every note begins where the notes and rests before it end,
  and lasts its ticks in bars of that meter; a chord an earlier text has left open sounds with the
  first note.\<close>

theorem mml_read_correct:
  assumes "bar_ticks (opt_bticks (mmlopt r)) ts = Inr (of_nat D)" "tick_base D" "0 \<le> opt_bticks (mmlopt r)"
    and "\<forall>c \<in> set cs. command_ok c" "opt_length (mmlopt r) \<in> int ` lengths"
    and "is = infos (opt_bticks (mmlopt r)) (opt_octave (mmlopt r), opt_length (mmlopt r)) cs"
    and "sum_list (map info_ticks is) < 2 ^ 31"
  shows "\<exists>r' pat. mml_read ts (show_commands cs) r = Some (Inr (r', pat)) \<and>
     map note_view pat = mml_notes D 0 (chord r) is"
proof -
  have p: "Position 1 0 1 = Inr (mk_dur 1 0 1)" using Position_ticks [of 1 0 1] by (simp add: tick_base_def)
  let ?r = "r\<lparr>mml_pattern := [], mml_position := mk_dur 1 0 1, ticksPerBar := of_nat D\<rparr>"
  let ?h = "mml_setup (Some (mmlopt r)) (handle r)"
  have "at_tick D 0 ?r" using assms(2) by (simp add: at_tick_def)
  then obtain r' where run: "fold_res mml_callback is ?r = Inr r'"
    "map note_view (mml_pattern r') = mml_notes D 0 (chord r) is"
    using mml_run [of D 0 ?r "is"] infos_ok [OF assms(3)] assms(6,7) by auto
  have "reads_on (show_commands cs) cs ?h"
    using assms(5) by (simp add: mml_setup_def reads_on_def blanks_def Let_def)
  from fetch_loop_back [OF this assms(4), of mml_callback ?r] run
  have "fetch_loop mml_callback (show_commands cs) ?h ?r = Some (Inr (r', MML_EOT))"
    using assms(6) by (simp add: mml_setup_def Let_def)
  then show ?thesis using p assms(1) run(2) by (auto simp: mml_read_def)
qed

theorem mml_read_correct_witness:
  "\<exists>r' pat. mml_read no_time_signature ''C0 E4 R8 G '' (MMLReader 0 (mml_init 0 0 0)) = Some (Inr (r', pat)) \<and>
     map note_view pat = [(48, 1, 1/4), (52, 1, 1/4), (55, 1 + 3/8, 1/8)]"
proof -
  let ?cs = "[Play CHR ''C'' [] (Some 0), Play CHR ''E'' [] (Some 4), Pause (Some 8), Play CHR ''G'' [] None]"
  have t: "show_commands ?cs = ''C0 E4 R8 G ''" by code_simp
  have i: "infos 480 (4, 8) ?cs = [Mml_Note 48 0, Mml_Note 52 480, Mml_Rest 240, Mml_Note 55 240]" by code_simp
  show ?thesis
    using mml_read_correct [of "MMLReader 0 (mml_init 0 0 0)" no_time_signature 1920 ?cs
        "[Mml_Note 48 0, Mml_Note 52 480, Mml_Rest 240, Mml_Note 55 240]"]
    unfolding t
    by (simp del: infos.simps add: i MMLReader_def default_option_def bar_ticks_def no_time_signature_def tick_base_def lengths_def)
qed

end
