(* ===== verification/Osc.thy ===== *)
theory Osc
  imports Script_Values Object_Cache
begin

text \<open>
  Messages of Open Sound Control (\<open>src/oscmessage.h\<close>), the input that receives them
  (\<open>src/oscinput.h\<close>, \<open>src/oscinput.cpp\<close>) and the output that sends them at their time
  (\<open>src/oscoutput.h\<close>, \<open>src/oscoutput.cpp\<close>). The liblo library is not part of the modelled code:
  composing a message and the arguments it is delivered with are parameters, with the
  documented laws in the locale \<open>liblo\<close>.
\<close>

section \<open>Messages\<close>

text \<open>The type characters of a parameter with the value each uses.\<close>

datatype parameter =
    Param_i int
  | Param_f rat
  | Param_s string
  | Param_T
  | Param_F
  | Param_N

record message =
  path :: string
  parameters :: "parameter list"

definition Message :: "string \<Rightarrow> message" where
  "Message p = \<lparr>path = p, parameters = []\<rparr>"

definition addParameter :: "parameter \<Rightarrow> message \<Rightarrow> message" where
  "addParameter p m = m\<lparr>parameters := parameters m @ [p]\<rparr>"

definition addInteger :: "int \<Rightarrow> message \<Rightarrow> message" where "addInteger v = addParameter (Param_i v)"
definition addFloat :: "rat \<Rightarrow> message \<Rightarrow> message" where "addFloat v = addParameter (Param_f v)"
definition addString :: "string \<Rightarrow> message \<Rightarrow> message" where "addString v = addParameter (Param_s v)"
definition addBoolean :: "bool \<Rightarrow> message \<Rightarrow> message" where "addBoolean v = addParameter (if v then Param_T else Param_F)"
definition addNull :: "message \<Rightarrow> message" where "addNull = addParameter Param_N"

definition getParameterCount :: "message \<Rightarrow> int" where
  "getParameterCount m = int (length (parameters m))"

definition getParameter :: "int \<Rightarrow> message \<Rightarrow> parameter res" where
  "getParameter i m =
     (if 0 \<le> i \<and> i < int (length (parameters m)) then Inr (parameters m ! nat i)
      else Inl (Undefined ''index outside a vector''))"

fun parameter_value :: "parameter \<Rightarrow> script_value" where
  "parameter_value (Param_i v) = IntValue v"
| "parameter_value (Param_f v) = FloatValue v"
| "parameter_value (Param_s v) = StringValue v"
| "parameter_value Param_T = BoolValue 1"
| "parameter_value Param_F = BoolValue 0"
| "parameter_value Param_N = NullValue"

definition arg :: "int \<Rightarrow> message \<Rightarrow> script_value res" where
  "arg i m = bind_res (getParameter i m) (\<lambda>p. Inr (parameter_value p))"

record osc_event = event +
  ev_message :: message

text \<open>The event holds a copy of the message with copies of its strings.\<close>

definition Osc_Event :: "int \<Rightarrow> 'a duration_scheme \<Rightarrow> message \<Rightarrow> osc_event" where
  "Osc_Event junk pos m = event.extend (Event_at pos junk) \<lparr>ev_message = m\<rparr>"

section \<open>What liblo does\<close>

text \<open>The memory of an argument, as it reads in each of the types the program reads it in.\<close>

record lo_arg =
  lo_int :: int
  lo_float :: rat
  lo_str :: string

record 'm lo_ops =
  lo_message_new :: 'm
  lo_add_int32 :: "int \<Rightarrow> 'm \<Rightarrow> 'm"
  lo_add_float :: "rat \<Rightarrow> 'm \<Rightarrow> 'm"
  lo_add_string :: "string \<Rightarrow> 'm \<Rightarrow> 'm"
  lo_add_true :: "'m \<Rightarrow> 'm"
  lo_add_false :: "'m \<Rightarrow> 'm"
  lo_add_nil :: "'m \<Rightarrow> 'm"

text \<open>
  A message is delivered to the handler of a server as its type characters, each with its
  argument, in the order in which they were added.
\<close>

locale liblo =
  fixes L :: "'m lo_ops" and delivered :: "'m \<Rightarrow> (char \<times> lo_arg) list"
  assumes delivered_new: "delivered (lo_message_new L) = []"
    and delivered_int32: "\<exists>a. delivered (lo_add_int32 L v m) = delivered m @ [(CHR ''i'', a)] \<and> lo_int a = v"
    and delivered_float: "\<exists>a. delivered (lo_add_float L x m) = delivered m @ [(CHR ''f'', a)] \<and> lo_float a = x"
    and delivered_string: "\<exists>a. delivered (lo_add_string L s m) = delivered m @ [(CHR ''s'', a)] \<and> lo_str a = s"
    and delivered_true: "\<exists>a. delivered (lo_add_true L m) = delivered m @ [(CHR ''T'', a)]"
    and delivered_false: "\<exists>a. delivered (lo_add_false L m) = delivered m @ [(CHR ''F'', a)]"
    and delivered_nil: "\<exists>a. delivered (lo_add_nil L m) = delivered m @ [(CHR ''N'', a)]"

section \<open>The input\<close>

record 'f osc_input =
  serving :: bool
  onReceiveHandler :: "'f script_function option"

definition osc_error :: "int \<Rightarrow> string \<Rightarrow> 'a res" where
  "osc_error num msg = Inl (Logic_error (''osc input error '' @ show_int num @ '': '' @ msg))"

text \<open>
  The constructor hands the library the characters of a string that has been destroyed at the
  end of the statement before.
\<close>

definition Input :: "int \<Rightarrow> string option \<Rightarrow> 'f osc_input res" where
  "Input port protocol =
     (if protocol \<noteq> None then Inl (Logic_error ''OSC protocol not yet implemented'')
      else Inl (Undefined ''use of the characters of a destroyed string''))"

definition handle_arg :: "char \<times> lo_arg \<Rightarrow> message \<Rightarrow> message" where
  "handle_arg ta m =
     (case ta of (t, a) \<Rightarrow>
       if t = CHR ''i'' then addInteger (lo_int a) m
       else if t = CHR ''f'' then addFloat (lo_float a) m
       else if t = CHR ''s'' then addString (lo_str a) m
       else if t = CHR ''T'' then addBoolean True m
       else if t = CHR ''F'' then addBoolean False m
       else if t = CHR ''N'' then addNull m
       else m)"

text \<open>The message and the closure that is dispatched with it; what \<open>handle\<close> returns is undefined.\<close>

definition osc_handle ::
  "string \<Rightarrow> (char \<times> lo_arg) list \<Rightarrow> 'f osc_input \<Rightarrow> message \<times> ('f \<times> message) option"
where
  "osc_handle pth args inp =
     (let m = fold handle_arg args (Message pth)
      in (m, map_option (\<lambda>f. (sq_function f, m)) (onReceiveHandler inp)))"

definition onReceive :: "'f script_function \<Rightarrow> 'f osc_input \<Rightarrow> 'f osc_input res" where
  "onReceive f inp =
     bind_res (store_handler 2 ''onReceive handler should take one argument'' f (onReceiveHandler inp))
       (\<lambda>h. Inr (inp\<lparr>onReceiveHandler := h\<rparr>))"

definition input_cancel :: "'f osc_input \<Rightarrow> 'f osc_input" where
  "input_cancel inp = inp\<lparr>serving := False\<rparr>"

definition osc_input_key :: "(string \<Rightarrow> u64) \<Rightarrow> int \<Rightarrow> string option \<Rightarrow> int" where
  "osc_input_key hash port protocol =
     (case protocol of None \<Rightarrow> port | Some p \<Rightarrow> sint (ucast (hash p) :: u32))"

definition getOscInput ::
  "(string \<Rightarrow> u64) \<Rightarrow> ('f osc_input \<Rightarrow> 'o) \<Rightarrow> ('o \<Rightarrow> 'e \<Rightarrow> 'e) \<Rightarrow> int \<Rightarrow> string option \<Rightarrow> ('o, 'e) cache \<Rightarrow>
     'o res \<times> ('o, 'e) cache"
where
  "getOscInput hash alloc newObject port protocol c =
     (case findObject (osc_input_key hash port protocol) c of
        (Some ob, c1) \<Rightarrow> (Inr ob, c1)
      | (None, c1) \<Rightarrow>
          (case Input port protocol of
             Inl e \<Rightarrow> (Inl e, c1)
           | Inr inp \<Rightarrow> (Inr (alloc inp), registerObject newObject (osc_input_key hash port protocol) (alloc inp) c1)))"

section \<open>The output\<close>

text \<open>\<open>sent\<close> is what has been handed to the library, in order.\<close>

record ('q, 'm) osc_output =
  repositionNeeded :: bool
  cancelled :: bool
  eventBuffer :: "('q, osc_event) event_buffer"
  finished :: bool
  sent :: "(string \<times> 'm) list"

definition Output :: "bool \<Rightarrow> bool \<Rightarrow> 'q \<Rightarrow> ('q, 'm) osc_output res" where
  "Output address_ok thread_ok empty_queue =
     (if \<not> address_ok then Inl (Logic_error ''could not create OSC address'')
      else if \<not> thread_ok then Inl (Logic_error ''could not create OSC output thread'')
      else Inr \<lparr>repositionNeeded = False, cancelled = False, eventBuffer = \<lparr>eventQueue = empty_queue, sortedEvents = []\<rparr>,
             finished = False, sent = []\<rparr>)"

definition osc_schedule ::
  "('q, osc_event) queue_ops \<Rightarrow> int \<Rightarrow> message \<Rightarrow> int \<Rightarrow> int \<Rightarrow> int \<Rightarrow> ('q, 'm) osc_output \<Rightarrow>
     ('q, 'm) osc_output option res"
where
  "osc_schedule Q junk m bar pos d out =
     bind_res (Position (word_of_int bar) (word_of_int pos) (word_of_int d)) (\<lambda>p.
       Inr (map_option (\<lambda>b. out\<lparr>eventBuffer := b\<rparr>) (addEvent Q (Osc_Event junk p m) (eventBuffer out))))"

definition osc_schedule_beat ::
  "('q, osc_event) queue_ops \<Rightarrow> int \<Rightarrow> message \<Rightarrow> int \<Rightarrow> int \<Rightarrow> ('q, 'm) osc_output \<Rightarrow> ('q, 'm) osc_output option res"
where
  "osc_schedule_beat Q junk m bar pos out = osc_schedule Q junk m bar pos 4 out"

definition osc_schedule_bar ::
  "('q, osc_event) queue_ops \<Rightarrow> int \<Rightarrow> message \<Rightarrow> int \<Rightarrow> ('q, 'm) osc_output \<Rightarrow> ('q, 'm) osc_output option res"
where
  "osc_schedule_bar Q junk m bar out = osc_schedule_beat Q junk m bar 0 out"

text \<open>A message to be sent at once is an event in bar zero.\<close>

definition osc_send ::
  "('q, osc_event) queue_ops \<Rightarrow> int \<Rightarrow> message \<Rightarrow> ('q, 'm) osc_output \<Rightarrow> ('q, 'm) osc_output option"
where
  "osc_send Q junk m out =
     map_option (\<lambda>b. out\<lparr>eventBuffer := b\<rparr>) (addEvent Q (Osc_Event junk default_position m) (eventBuffer out))"

definition osc_reposition :: "('q, 'm) osc_output \<Rightarrow> ('q, 'm) osc_output" where
  "osc_reposition out = out\<lparr>repositionNeeded := True\<rparr>"

definition repositionComplete :: "('q, 'm) osc_output \<Rightarrow> bool" where
  "repositionComplete out \<longleftrightarrow> \<not> repositionNeeded out"

definition osc_cancel :: "('q, 'm) osc_output \<Rightarrow> ('q, 'm) osc_output" where
  "osc_cancel out = out\<lparr>cancelled := True\<rparr>"

fun add_param :: "'m lo_ops \<Rightarrow> parameter \<Rightarrow> 'm \<Rightarrow> 'm" where
  "add_param L (Param_i v) = lo_add_int32 L v"
| "add_param L (Param_f v) = lo_add_float L v"
| "add_param L (Param_s v) = lo_add_string L v"
| "add_param L Param_T = lo_add_true L"
| "add_param L Param_F = lo_add_false L"
| "add_param L Param_N = lo_add_nil L"

definition compose :: "'m lo_ops \<Rightarrow> message \<Rightarrow> 'm" where
  "compose L m = fold (add_param L) (parameters m) (lo_message_new L)"

text \<open>The event is not handed to the collector.\<close>

definition send_event ::
  "'m lo_ops \<Rightarrow> osc_event \<Rightarrow> ('c, 'o) collector \<times> (string \<times> 'm) list \<Rightarrow> ('c, 'o) collector \<times> (string \<times> 'm) list"
where
  "send_event L e cs = (fst cs, snd cs @ [(path (ev_message e), compose L (ev_message e))])"

definition WINDOW :: u32 where "WINDOW = 2048"

text \<open>
  One turn of the thread's loop; \<open>rolling\<close> and \<open>pos\<close> are the engine's answer in it. When the
  output has been cancelled the thread leaves the loop and removes the output from the engine.
\<close>

definition osc_turn ::
  "'m lo_ops \<Rightarrow> ('q, osc_event) queue_ops \<Rightarrow> ('c, 'o) queue_ops \<Rightarrow> (osc_event \<Rightarrow> 'o) \<Rightarrow> bool \<Rightarrow> jack_position \<Rightarrow>
     ('q, 'm) osc_output \<Rightarrow> ('c, 'o) collector \<Rightarrow> (('q, 'm) osc_output \<times> ('c, 'o) collector) option"
where
  "osc_turn L Q C up rolling pos out c =
     (if finished out then Some (out, c)
      else if cancelled out then Some (out\<lparr>finished := True\<rparr>, c)
      else map_option (\<lambda>(b, c', s). (out\<lparr>repositionNeeded := False, eventBuffer := b, sent := s\<rparr>, c'))
             (event_loop Q C up rolling pos WINDOW (send_event L) (eventBuffer out) (c, sent out)))"

definition osc_output_key :: "(string \<Rightarrow> u64) \<Rightarrow> string \<Rightarrow> int \<Rightarrow> int" where
  "osc_output_key hash host port = sint (ucast (hash host + word_of_int port) :: u32)"

definition getOscOutput ::
  "(string \<Rightarrow> u64) \<Rightarrow> bool \<Rightarrow> bool \<Rightarrow> 'q \<Rightarrow> (('q, 'm) osc_output \<Rightarrow> 'o) \<Rightarrow> ('o \<Rightarrow> 'e \<Rightarrow> 'e) \<Rightarrow> string \<Rightarrow> int \<Rightarrow>
     ('o, 'e) cache \<Rightarrow> 'o res \<times> ('o, 'e) cache"
where
  "getOscOutput hash address_ok thread_ok empty_queue alloc newObject host port c =
     (case findObject (osc_output_key hash host port) c of
        (Some ob, c1) \<Rightarrow> (Inr ob, c1)
      | (None, c1) \<Rightarrow>
          (case Output address_ok thread_ok empty_queue of
             Inl e \<Rightarrow> (Inl e, c1)
           | Inr out \<Rightarrow> (Inr (alloc out), registerObject newObject (osc_output_key hash host port) (alloc out) c1)))"

section \<open>What goes over the network\<close>

context liblo begin

lemma delivered_param:
  "\<exists>a. delivered (add_param L p m) = delivered m @ [a] \<and> handle_arg a r = addParameter p r"
proof (cases p)
  case (Param_i v)
  obtain a where "delivered (lo_add_int32 L v m) = delivered m @ [(CHR ''i'', a)]" "lo_int a = v"
    using delivered_int32 by blast
  then show ?thesis using Param_i by (simp add: handle_arg_def addInteger_def)
next
  case (Param_f v)
  obtain a where "delivered (lo_add_float L v m) = delivered m @ [(CHR ''f'', a)]" "lo_float a = v"
    using delivered_float by blast
  then show ?thesis using Param_f by (simp add: handle_arg_def addFloat_def)
next
  case (Param_s v)
  obtain a where "delivered (lo_add_string L v m) = delivered m @ [(CHR ''s'', a)]" "lo_str a = v"
    using delivered_string by blast
  then show ?thesis using Param_s by (simp add: handle_arg_def addString_def)
next
  case Param_T
  obtain a where "delivered (lo_add_true L m) = delivered m @ [(CHR ''T'', a)]"
    using delivered_true by blast
  then show ?thesis using Param_T by (simp add: handle_arg_def addBoolean_def)
next
  case Param_F
  obtain a where "delivered (lo_add_false L m) = delivered m @ [(CHR ''F'', a)]"
    using delivered_false by blast
  then show ?thesis using Param_F by (simp add: handle_arg_def addBoolean_def)
next
  case Param_N
  obtain a where "delivered (lo_add_nil L m) = delivered m @ [(CHR ''N'', a)]"
    using delivered_nil by blast
  then show ?thesis using Param_N by (simp add: handle_arg_def addNull_def)
qed

lemma handle_params:
  "fold handle_arg (delivered (fold (add_param L) ps m)) r =
     fold addParameter ps (fold handle_arg (delivered m) r)"
proof (induction ps arbitrary: m)
  case (Cons p ps)
  obtain a where "delivered (add_param L p m) = delivered m @ [a]"
    "handle_arg a (fold handle_arg (delivered m) r) = addParameter p (fold handle_arg (delivered m) r)"
    using delivered_param by blast
  then show ?case using Cons by simp
qed simp

lemma handle_compose: "fold handle_arg (delivered (compose L m)) (Message (path m)) = m"
proof -
  have "fold addParameter ps r = r\<lparr>parameters := parameters r @ ps\<rparr>" for ps and r :: message
    by (induction ps arbitrary: r) (simp_all add: addParameter_def)
  then show ?thesis by (simp add: compose_def handle_params delivered_new Message_def)
qed

end

text \<open>A library that keeps the list of the arguments.\<close>

definition arg_list :: "(char \<times> lo_arg) list lo_ops" where
  "arg_list =
     (let z = \<lparr>lo_int = 0, lo_float = 0, lo_str = []\<rparr> in
      \<lparr>lo_message_new = [], lo_add_int32 = \<lambda>v m. m @ [(CHR ''i'', z\<lparr>lo_int := v\<rparr>)],
       lo_add_float = \<lambda>v m. m @ [(CHR ''f'', z\<lparr>lo_float := v\<rparr>)],
       lo_add_string = \<lambda>v m. m @ [(CHR ''s'', z\<lparr>lo_str := v\<rparr>)], lo_add_true = \<lambda>m. m @ [(CHR ''T'', z)],
       lo_add_false = \<lambda>m. m @ [(CHR ''F'', z)], lo_add_nil = \<lambda>m. m @ [(CHR ''N'', z)]\<rparr>)"

interpretation lo_list: liblo arg_list "\<lambda>m. m"
  by unfold_locales (auto simp: arg_list_def Let_def)

section \<open>Properties\<close>


text \<open>What a turn sends, drops and keeps.\<close>

definition turn_account ::
  "'m lo_ops \<Rightarrow> ('q \<Rightarrow> osc_event list) \<Rightarrow> ('c \<Rightarrow> 'o list) \<Rightarrow> (osc_event \<Rightarrow> 'o) \<Rightarrow> bool \<Rightarrow> jack_position \<Rightarrow>
     ('q, osc_event) event_buffer \<Rightarrow> ('c, 'o) collector \<Rightarrow> (string \<times> 'm) list \<Rightarrow>
     ('q, osc_event) event_buffer \<Rightarrow> ('c, 'o) collector \<Rightarrow> (string \<times> 'm) list \<Rightarrow> bool"
where
  "turn_account L ct cc up rolling pos b0 c0 s0 b c s \<longleftrightarrow>
     (\<exists>es ds. s = s0 @ map (\<lambda>e. (path (ev_message e), compose L (ev_message e))) es \<and>
        pending ct b0 = image_mset ident (mset es) + image_mset ident (mset ds) + pending ct b \<and>
        collected cc c = collected cc c0 + mset (map (\<lambda>d. up (updateFrameOffset pos d)) ds) \<and>
        (\<forall>e \<in> set es. whole e = 0 \<or> rolling \<and> -256 \<le> frameOffset e \<and> frameOffset e < int (unat WINDOW)) \<and>
        (\<forall>d \<in> set ds. rolling \<and> calculateFrameOffset d pos < -256))"

lemma turn_account_next:
  assumes "fifo Q ct" "fifo C cc" "turn_account L ct cc up rolling pos b0 c0 s0 b (fst cs) (snd cs)"
    and "getNextEvent Q C up rolling pos WINDOW b (fst cs) = (r, b', c')"
  shows "turn_account L ct cc up rolling pos b0 c0 s0 b' c'
     (snd cs @ (case r of None \<Rightarrow> [] | Some e \<Rightarrow> [(path (ev_message e), compose L (ev_message e))]))"
proof -
  obtain es ds where a: "snd cs = s0 @ map (\<lambda>e. (path (ev_message e), compose L (ev_message e))) es"
    "pending ct b0 = image_mset ident (mset es) + image_mset ident (mset ds) + pending ct b"
    "collected cc (fst cs) = collected cc c0 + mset (map (\<lambda>d. up (updateFrameOffset pos d)) ds)"
    "\<forall>e \<in> set es. whole e = 0 \<or> rolling \<and> -256 \<le> frameOffset e \<and> frameOffset e < int (unat WINDOW)"
    "\<forall>d \<in> set ds. rolling \<and> calculateFrameOffset d pos < -256"
    using assms(3) unfolding turn_account_def by blast
  obtain ds' where g: "pending ct b = image_mset ident (mset ds') +
      image_mset ident (mset (case r of None \<Rightarrow> [] | Some e \<Rightarrow> [e])) + pending ct b'"
    "collected cc c' = collected cc (fst cs) + mset (map (\<lambda>d. up (updateFrameOffset pos d)) ds')"
    "\<forall>d \<in> set ds'. rolling \<and> calculateFrameOffset d pos < -256"
    "\<forall>e. r = Some e \<longrightarrow> whole e = 0 \<or> rolling \<and> -256 \<le> frameOffset e \<and> frameOffset e < int (unat WINDOW)"
    using event_queues.getNextEvent_outcome [OF event_queues.intro [OF assms(1,2)] assms(4)]
    by (metis (no_types, lifting))
  show ?thesis
    unfolding turn_account_def
    by (rule exI [of _ "es @ (case r of None \<Rightarrow> [] | Some e \<Rightarrow> [e])"], rule exI [of _ "ds @ ds'"])
      (use a g in \<open>auto split: option.splits\<close>)
qed

text \<open>a turn of the output's thread always ends; it sends only events that are due, drops
  only those it is too late for, and loses none of the others; what it has sent is never handed
  to the collector, and a reposition dumps nothing but is answered as complete.\<close>

theorem osc_turn_accounts:
  assumes "fifo Q ct" "fifo C cc" "\<not> finished out" "\<not> cancelled out"
  shows "\<exists>out' c'. osc_turn L Q C up rolling pos out c = Some (out', c') \<and> repositionComplete out' \<and>
     turn_account L ct cc up rolling pos (eventBuffer out) c (sent out) (eventBuffer out') c' (sent out')"
proof -
  let ?I = "\<lambda>b cs. turn_account L ct cc up rolling pos (eventBuffer out) c (sent out) b (fst cs) (snd cs)"
  let ?R = "turn_account L ct cc up rolling pos (eventBuffer out) c (sent out)"
  have "?I (eventBuffer out) (c, sent out)"
    unfolding turn_account_def by (rule exI [of _ "[]"], rule exI [of _ "[]"]) simp
  then have "\<exists>b' c' s'. event_loop Q C up rolling pos WINDOW (send_event L) (eventBuffer out) (c, sent out) =
       Some (b', c', s') \<and> ?R b' c' s'"
  proof (rule event_queues.event_loop_rule [OF event_queues.intro [OF assms(1,2)], where I = ?I and R = ?R], goal_cases)
    case (1 b cs e b' c')
    from turn_account_next [OF assms(1,2) this] show ?case by (simp add: send_event_def)
  next
    case (2 b cs b' c')
    from turn_account_next [OF assms(1,2) this] show ?case by simp
  qed
  then show ?thesis using assms(3,4) by (auto simp: osc_turn_def repositionComplete_def)
qed

section \<open>Witnesses\<close>

definition example_message :: message where
  "example_message = addNull (addBoolean True (addFloat (1/2) (addInteger 7 (addString ''go'' (Message ''/play'')))))"

definition example_output :: "(osc_event list, (char \<times> lo_arg) list) osc_output" where
  "example_output = \<lparr>repositionNeeded = True, cancelled = False,
     eventBuffer = \<lparr>eventQueue = [Osc_Event 0 default_position example_message], sortedEvents = []\<rparr>,
     finished = False, sent = []\<rparr>"


theorem osc_turn_accounts_witness:
  "\<exists>out' c'. osc_turn arg_list (list_queue 8) (list_queue 8) id False example_pos example_output empty_collector =
       Some (out', c') \<and> repositionComplete out' \<and>
     turn_account arg_list (\<lambda>q. q) (\<lambda>q. q) id False example_pos (eventBuffer example_output) empty_collector []
       (eventBuffer out') c' (sent out')"
  using osc_turn_accounts [OF listq.fifo_axioms listq.fifo_axioms, of example_output arg_list 8 8 id False example_pos empty_collector]
  by (simp add: example_output_def)

end
