(* ===== verification/Tlsf_Mapping.thy ===== *)
theory Tlsf_Mapping
  imports Prelude
begin

text \<open>
  The size classes of the two-level segregated fit allocator behind the pool of the process thread
  (\<open>tlsf/tlsf.c\<close>): finding bits, rounding sizes and mapping a size to its class, as compiled by gcc
  for a 64 bit machine. Sizes are 64 bit words; a class is the pair of its first and second level
  indices.
\<close>

section \<open>Finding bits\<close>

text \<open>The compiler's count of leading zeros, of a word that is not zero, and its first set bit from one on.\<close>

definition builtin_clz :: "u32 \<Rightarrow> nat" where
  "builtin_clz w = length (takeWhile (\<lambda>i. \<not> bit w (31 - i)) [0 ..< 32])"

definition builtin_ffs :: "u32 \<Rightarrow> nat" where
  "builtin_ffs w = (if w = 0 then 0 else Suc (length (takeWhile (\<lambda>i. \<not> bit w i) [0 ..< 32])))"

definition tlsf_ffs :: "u32 \<Rightarrow> int" where
  "tlsf_ffs w = int (builtin_ffs w) - 1"

definition tlsf_fls :: "u32 \<Rightarrow> int" where
  "tlsf_fls w = (if w \<noteq> 0 then 32 - int (builtin_clz w) else 0) - 1"

definition tlsf_fls_sizet :: "u64 \<Rightarrow> int" where
  "tlsf_fls_sizet s =
     (let high = ucast (drop_bit 32 s) :: u32
      in if high \<noteq> 0 then 32 + tlsf_fls high else tlsf_fls (ucast s))"

section \<open>Constants\<close>

definition SL_INDEX_COUNT_LOG2 :: nat where "SL_INDEX_COUNT_LOG2 = 5"
definition ALIGN_SIZE_LOG2 :: nat where "ALIGN_SIZE_LOG2 = 3"
definition ALIGN_SIZE :: u64 where "ALIGN_SIZE = push_bit ALIGN_SIZE_LOG2 1"
definition FL_INDEX_MAX :: nat where "FL_INDEX_MAX = 32"
definition SL_INDEX_COUNT :: nat where "SL_INDEX_COUNT = 2 ^ SL_INDEX_COUNT_LOG2"
definition FL_INDEX_SHIFT :: nat where "FL_INDEX_SHIFT = SL_INDEX_COUNT_LOG2 + ALIGN_SIZE_LOG2"
definition FL_INDEX_COUNT :: nat where "FL_INDEX_COUNT = FL_INDEX_MAX - FL_INDEX_SHIFT + 1"
definition SMALL_BLOCK_SIZE :: nat where "SMALL_BLOCK_SIZE = 2 ^ FL_INDEX_SHIFT"

lemmas tlsf_constants = SL_INDEX_COUNT_LOG2_def ALIGN_SIZE_LOG2_def ALIGN_SIZE_def FL_INDEX_MAX_def
  SL_INDEX_COUNT_def FL_INDEX_SHIFT_def FL_INDEX_COUNT_def SMALL_BLOCK_SIZE_def

definition block_header_size :: u64 where "block_header_size = 32"
definition block_header_overhead :: u64 where "block_header_overhead = 8"
definition block_size_min :: u64 where "block_size_min = block_header_size - 8"
definition block_size_max :: u64 where "block_size_max = push_bit FL_INDEX_MAX 1"

section \<open>Sizes\<close>

definition align_up :: "u64 \<Rightarrow> u64 \<Rightarrow> u64" where
  "align_up x align = (x + (align - 1)) AND NOT (align - 1)"

definition align_down :: "u64 \<Rightarrow> u64 \<Rightarrow> u64" where
  "align_down x align = x - (x AND (align - 1))"

definition adjust_request_size :: "u64 \<Rightarrow> u64 \<Rightarrow> u64" where
  "adjust_request_size n align =
     (if n \<noteq> 0 \<and> n < block_size_max then max (align_up n align) block_size_min else 0)"

definition mapping_insert :: "u64 \<Rightarrow> nat \<times> nat" where
  "mapping_insert n =
     (if n < of_nat SMALL_BLOCK_SIZE then (0, unat n div (SMALL_BLOCK_SIZE div SL_INDEX_COUNT))
      else let fl = nat (tlsf_fls_sizet n);
               sl = (ucast (drop_bit (fl - SL_INDEX_COUNT_LOG2) n) :: u32) XOR push_bit SL_INDEX_COUNT_LOG2 1
           in (fl - (FL_INDEX_SHIFT - 1), unat sl))"

definition mapping_search :: "u64 \<Rightarrow> nat \<times> nat" where
  "mapping_search n =
     mapping_insert
       (if of_nat SMALL_BLOCK_SIZE \<le> n
        then n + (push_bit (nat (tlsf_fls_sizet n) - SL_INDEX_COUNT_LOG2) 1 - 1) else n)"

section \<open>Lemmas on bits\<close>

lemma unat_u64_less: "unat (w :: u64) < 2 ^ 64"
  using unsigned_less [of w] by simp

lemma unat_ucast_32: "unat (ucast (w :: u64) :: u32) = unat w mod 2 ^ 32"
  by (simp add: unsigned_ucast_eq take_bit_eq_mod)

lemma ucast_32: "(ucast (w :: u64) :: u32) = of_nat (unat w)"
  by (simp add: word_unat_eq_iff unat_ucast_32 unsigned_of_nat take_bit_eq_mod)

text \<open>The first element a scan of a list of numbers does not pass.\<close>

lemma takeWhile_first:
  assumes "\<exists>i < n. P i"
  shows "\<exists>k. length (takeWhile (\<lambda>i. \<not> P i) [0 ..< n]) = k \<and> k < n \<and> P k \<and> (\<forall>j < k. \<not> P j)"
proof -
  define k where "k = (LEAST i. P i)"
  have k: "P k" "\<And>j. j < k \<Longrightarrow> \<not> P j" "k < n"
    using assms unfolding k_def by (auto intro: LeastI dest: not_less_Least elim: le_less_trans [OF Least_le])
  have "[0 ..< n] = [0 ..< k] @ k # [Suc k ..< n]"
    using k(3) by (metis append_Cons append_Nil less_imp_add_positive upt_add_eq_append upt_conv_Cons zero_le le_add1 less_imp_le_nat le_add_diff_inverse)
  moreover have "takeWhile (\<lambda>i. \<not> P i) ([0 ..< k] @ k # [Suc k ..< n]) = [0 ..< k] @ takeWhile (\<lambda>i. \<not> P i) (k # [Suc k ..< n])"
    using k(2) by (intro takeWhile_append2) simp
  ultimately have "takeWhile (\<lambda>i. \<not> P i) [0 ..< n] = [0 ..< k]" using k(1) by simp
  then show ?thesis using k by simp
qed

lemma word_has_bit:
  fixes w :: u32
  assumes "w \<noteq> 0"
  shows "\<exists>i < 32. bit w i"
proof (rule ccontr)
  assume "\<not> ?thesis"
  then have "w = 0" by (intro bit_word_eqI) auto
  then show False using assms by simp
qed

lemma ffs_first:
  assumes "w \<noteq> 0"
  obtains i where "tlsf_ffs w = int i" "i < 32" "bit w i" "\<forall>j < i. \<not> bit w j"
  using takeWhile_first [OF word_has_bit [OF assms]] assms that by (auto simp: tlsf_ffs_def builtin_ffs_def)

lemma bits_below:
  fixes w :: "'a :: len word"
  assumes "\<And>i. n \<le> i \<Longrightarrow> \<not> bit w i"
  shows "unat w < 2 ^ n"
proof -
  have "bit w i \<Longrightarrow> i < n" for i using assms [of i] by (cases "n \<le> i") auto
  then have "w = take_bit n w" by (intro bit_eqI) (auto simp: bit_take_bit_iff)
  then have "unat w = take_bit n (unat w)" by (metis unsigned_take_bit_eq)
  then show ?thesis by (metis take_bit_nat_less_exp)
qed

lemma bit_above:
  fixes w :: "'a :: len word"
  assumes "bit w n"
  shows "2 ^ n \<le> unat w"
proof (rule ccontr)
  assume "\<not> 2 ^ n \<le> unat w"
  then have "unat w div 2 ^ n = 0" by simp
  then have "\<not> bit (unat w) n" by (simp add: bit_iff_odd)
  then show False using assms by (simp add: bit_unsigned_iff bit_imp_le_length)
qed

lemma fls_last:
  assumes "w \<noteq> 0"
  obtains k where "tlsf_fls w = int k" "k < 32" "2 ^ k \<le> unat w" "unat w < 2 ^ Suc k"
proof -
  obtain i where i: "i < 32" "bit w i" using word_has_bit [OF assms] by blast
  then have "\<exists>j < 32. bit w (31 - j)" by (intro exI [of _ "31 - i"]) auto
  from takeWhile_first [OF this] obtain z where z: "builtin_clz w = z" "z < 32" "bit w (31 - z)"
    "\<forall>j < z. \<not> bit w (31 - j)" by (auto simp: builtin_clz_def)
  have "\<not> bit w n" if "Suc (31 - z) \<le> n" for n
  proof (cases "n < 32")
    case True
    then have "31 - n < z" "31 - (31 - n) = n" using z(2) that by arith+
    then show ?thesis using z(4) by metis
  next
    case False
    then show ?thesis using bit_imp_le_length [of w n] by auto
  qed
  from bits_below [OF this] have "unat w < 2 ^ Suc (31 - z)" by blast
  then show thesis using that [of "31 - z"] z(1,2) bit_above [OF z(3)] assms by (simp add: tlsf_fls_def)
qed


text \<open>The last bit of a size, and the classes of sizes from the first that is not small on.\<close>

lemma fls_sizet_last:
  assumes "s \<noteq> 0"
  obtains k where "tlsf_fls_sizet s = int k" "k < 64" "2 ^ k \<le> unat s" "unat s < 2 ^ Suc k"
proof -
  have "unat (drop_bit 32 s) = unat s div 2 ^ 32" by (simp only: unat_drop_bit_eq) (simp only: drop_bit_eq_div)
  moreover have "unat s div 2 ^ 32 < 2 ^ 32" using unat_u64_less [of s] by (simp add: less_mult_imp_div_less)
  ultimately have "unat (ucast (drop_bit 32 s) :: u32) = unat s div 2 ^ 32" by (simp add: unat_ucast_32)
  then have split: "unat s = unat (ucast (drop_bit 32 s) :: u32) * 2 ^ 32 + unat (ucast s :: u32)"
    by (metis div_mult_mod_eq unat_ucast_32)
  let ?h = "ucast (drop_bit 32 s) :: u32" and ?l = "ucast s :: u32"
  have l: "unat ?l < 2 ^ 32" using unat_u32_less [of ?l] by simp
  show thesis
  proof (cases "?h = 0")
    case True
    then have "unat s = unat ?l" using split by simp
    moreover have "?l \<noteq> 0"
    proof
      assume "?l = 0"
      then have "unat s = 0" using split True by simp
      then show False using assms by (simp add: unat_eq_0)
    qed
    from fls_last [OF this] obtain k where "tlsf_fls ?l = int k" "k < 32" "2 ^ k \<le> unat ?l" "unat ?l < 2 ^ Suc k" by blast
    ultimately show thesis using that [of k] True by (simp add: tlsf_fls_sizet_def)
  next
    case False
    obtain k where k: "tlsf_fls ?h = int k" "k < 32" "2 ^ k \<le> unat ?h" "unat ?h < 2 ^ Suc k" using fls_last [OF False] by blast
    have "2 ^ k * 2 ^ 32 \<le> unat ?h * 2 ^ 32" using k(3) by simp
    moreover have "unat ?h * 2 ^ 32 + 2 ^ 32 \<le> 2 ^ Suc k * 2 ^ 32" using k(4) by simp
    ultimately have "2 ^ (32 + k) \<le> unat s" "unat s < 2 ^ Suc (32 + k)"
      using split l by (simp_all add: power_add)
    then show thesis using that [of "32 + k"] k(1,2) False by (simp add: tlsf_fls_sizet_def)
  qed
qed

section \<open>Classes\<close>

text \<open>The class of a size, and the sizes of a class: from its lower bound on, as many as its width.\<close>

definition class_of :: "nat \<Rightarrow> nat \<times> nat" where
  "class_of n = mapping_insert (of_nat n)"

definition class_width :: "nat \<Rightarrow> nat" where
  "class_width fl = (if fl = 0 then 8 else 2 ^ (fl + 2))"

definition class_lower :: "nat \<times> nat \<Rightarrow> nat" where
  "class_lower c = (if fst c = 0 then 8 * snd c else (32 + snd c) * 2 ^ (fst c + 2))"

definition class_less :: "nat \<times> nat \<Rightarrow> nat \<times> nat \<Rightarrow> bool" where
  "class_less c d \<longleftrightarrow> fst c < fst d \<or> fst c = fst d \<and> snd c < snd d"

definition is_class :: "nat \<times> nat \<Rightarrow> bool" where
  "is_class c \<longleftrightarrow> fst c < FL_INDEX_COUNT \<and> snd c < SL_INDEX_COUNT"

lemma log_unique:
  assumes "2 ^ k \<le> n" "n < 2 ^ Suc k" "2 ^ j \<le> n" "n < (2 :: nat) ^ Suc j"
  shows "k = j"
proof -
  have "(2 :: nat) ^ k < 2 ^ Suc j" "(2 :: nat) ^ j < 2 ^ Suc k" using assms by linarith+
  then show ?thesis by (simp add: power_strict_increasing_iff del: power_Suc)
qed

lemma xor_32:
  assumes "m < 64" "32 \<le> m"
  shows "unat ((of_nat m :: u32) XOR 32) = m - 32"
proof -
  have "list_all (\<lambda>m. unat ((of_nat m :: u32) XOR 32) = m - 32) [32 ..< 64]" by code_simp
  then have "\<forall>m \<in> {32 ..< 64}. unat ((of_nat m :: u32) XOR 32) = m - 32" by (simp only: list_all_iff set_upt)
  then show ?thesis using assms by simp
qed

lemma mapping_small: "unat n < 256 \<Longrightarrow> mapping_insert n = (0, unat n div 8)"
  by (simp add: mapping_insert_def tlsf_constants word_less_nat_alt)

lemma mapping_large:
  assumes "2 ^ k \<le> unat n" "unat n < 2 ^ Suc k" "8 \<le> k"
  shows "mapping_insert n = (k - 7, unat n div 2 ^ (k - 5) - 32)"
proof -
  have "(2 :: nat) ^ 8 \<le> 2 ^ k" using assms(3) by (intro power_increasing) simp_all
  then have large: "\<not> n < 256" using assms(1) by (simp add: word_less_nat_alt)
  then have "n \<noteq> 0" by auto
  then obtain j where "tlsf_fls_sizet n = int j" "2 ^ j \<le> unat n" "unat n < 2 ^ Suc j" using fls_sizet_last by blast
  then have fl: "nat (tlsf_fls_sizet n) = k" using log_unique [OF assms(1,2)] by simp
  have p: "(2 :: nat) ^ k = 32 * 2 ^ (k - 5)"
  proof -
    have "(2 :: nat) ^ k = 2 ^ (5 + (k - 5))" using assms(3) by simp
    then show ?thesis by (simp only: power_add) simp
  qed
  let ?m = "unat n div 2 ^ (k - 5)"
  have m: "32 \<le> ?m" "?m < 64"
    using assms(1,2) p by (simp_all add: less_eq_div_iff_mult_less_eq div_less_iff_less_mult)
  have "unat (drop_bit (k - 5) n) = ?m"
    by (simp only: unat_drop_bit_eq) (simp only: drop_bit_eq_div)
  then have "(ucast (drop_bit (k - 5) n) :: u32) = of_nat ?m" by (simp only: ucast_32)
  then have "unat ((ucast (drop_bit (k - 5) n) :: u32) XOR 32) = ?m - 32" using xor_32 [OF m(2,1)] by simp
  then show ?thesis using large fl by (simp add: mapping_insert_def tlsf_constants Let_def push_bit_eq_mult)
qed

lemma unat_u64_of_nat: "n < 2 ^ 64 \<Longrightarrow> unat (of_nat n :: u64) = n"
  by (simp add: unsigned_of_nat take_bit_nat_eq_self)

lemma has_log:
  assumes "0 < n"
  obtains k where "2 ^ k \<le> n" "n < (2 :: nat) ^ Suc k"
  using ex_power_ivl1 [of 2 n] assms by auto

lemma log_le: "2 ^ k \<le> n \<Longrightarrow> n < (2 :: nat) ^ m \<Longrightarrow> k < m"
  by (meson le_less_trans one_less_numeral_iff power_less_imp_less_exp semiring_norm(76))

lemma le_log: "2 ^ m \<le> n \<Longrightarrow> n < (2 :: nat) ^ Suc k \<Longrightarrow> m \<le> k"
  using log_le [of m n "Suc k"] by simp

lemma class_of_small: "n < 256 \<Longrightarrow> class_of n = (0, n div 8)"
  using mapping_small [of "of_nat n"] by (simp add: class_of_def unat_u64_of_nat)

lemma class_of_large:
  assumes "2 ^ k \<le> n" "n < 2 ^ Suc k" "8 \<le> k" "n < 2 ^ 64"
  shows "class_of n = (k - 7, n div 2 ^ (k - 5) - 32)"
  using mapping_large [of k "of_nat n"] assms by (simp add: class_of_def unat_u64_of_nat)

lemma pow_split:
  assumes "5 \<le> k"
  shows "(2 :: nat) ^ k = 32 * 2 ^ (k - 5)"
proof -
  have "(2 :: nat) ^ k = 2 ^ (5 + (k - 5))" using assms by simp
  then show ?thesis by (simp only: power_add) simp
qed

lemma div_bounds: "0 < q \<Longrightarrow> q * (n div q) \<le> n \<and> n < q * (n div q) + (q :: nat)"
  using mult_div_mod_eq [of q n] mod_less_divisor [of q n] by linarith

lemma class_of_bounds:
  assumes "n < 2 ^ 64"
  shows "class_lower (class_of n) \<le> n" "n < class_lower (class_of n) + class_width (fst (class_of n))" "snd (class_of n) < 32"
proof -
  have "class_lower (class_of n) \<le> n \<and> n < class_lower (class_of n) + class_width (fst (class_of n)) \<and> snd (class_of n) < 32"
  proof (cases "n < 256")
    case True
    then have "n div 8 < 32" by (simp add: div_less_iff_less_mult)
    moreover have "8 * (n div 8) \<le> n" "n < 8 * (n div 8) + 8" using mult_div_mod_eq [of 8 n] by linarith+
    ultimately show ?thesis using class_of_small [OF True] by (simp add: class_lower_def class_width_def)
  next
    case False
    obtain k where k: "2 ^ k \<le> n" "n < 2 ^ Suc k" using has_log [of n] False by auto
    have k8: "8 \<le> k" using le_log [of 8 n k] False k(2) by simp
    let ?q = "2 ^ (k - 5) :: nat"
    have "32 \<le> n div ?q" "n div ?q < 64"
      using k pow_split [of k] k8 by (simp_all add: less_eq_div_iff_mult_less_eq div_less_iff_less_mult)
    moreover have "?q * (n div ?q) \<le> n \<and> n < ?q * (n div ?q) + ?q"
      by (rule div_bounds) simp
    moreover have "k - 7 + 2 = k - 5" using k8 by simp
    ultimately show ?thesis
      using class_of_large [OF k k8 assms] k8 by (simp add: class_lower_def class_width_def mult.commute)
  qed
  then show "class_lower (class_of n) \<le> n" "n < class_lower (class_of n) + class_width (fst (class_of n))"
    "snd (class_of n) < 32" by simp_all
qed

lemma class_of_is_class:
  assumes "n < 2 ^ 32"
  shows "is_class (class_of n)"
proof (cases "n < 256")
  case True
  then show ?thesis using class_of_small [OF True] class_of_bounds(3) [of n] by (simp add: is_class_def tlsf_constants)
next
  case False
  obtain k where k: "2 ^ k \<le> n" "n < 2 ^ Suc k" using has_log [of n] False by auto
  have "8 \<le> k" using le_log [of 8 n k] False k(2) by simp
  moreover have "k < 32" using log_le [OF k(1) assms] .
  ultimately show ?thesis
    using class_of_large [OF k] class_of_bounds(3) [of n] assms by (simp add: is_class_def tlsf_constants)
qed

lemma class_lower_mono:
  assumes "\<not> class_less d c" "snd c < 32"
  shows "class_lower c \<le> class_lower d"
proof (cases "fst c = fst d")
  case True
  then show ?thesis using assms by (simp add: class_less_def class_lower_def)
next
  case False
  then have lt: "fst c < fst d" using assms(1) by (simp add: class_less_def)
  have "class_lower c \<le> 64 * 2 ^ (fst c + 2)" using assms(2) by (auto simp: class_lower_def)
  also have "\<dots> = 32 * 2 ^ (Suc (fst c) + 2)" by simp
  also have "\<dots> \<le> 32 * 2 ^ (fst d + 2)" using lt by (intro mult_left_mono power_increasing) simp_all
  also have "\<dots> \<le> class_lower d" using lt by (simp add: class_lower_def)
  finally show ?thesis .
qed

text \<open>Searching rounds up to a class all of whose sizes are large enough.\<close>

lemma mapping_search_large:
  assumes "2 ^ k \<le> n" "n < 2 ^ Suc k" "8 \<le> k" "n < 2 ^ 63"
  shows "mapping_search (of_nat n) = class_of (n + 2 ^ (k - 5) - 1)"
proof -
  have n: "unat (of_nat n :: u64) = n" using unat_u64_of_nat [of n] assms(4) by simp
  have "(2 :: nat) ^ 8 \<le> 2 ^ k" using assms(3) by (intro power_increasing) simp_all
  then have large: "\<not> (of_nat n :: u64) < 256" using assms(1) n by (simp add: word_less_nat_alt)
  then have "(of_nat n :: u64) \<noteq> 0" by auto
  then obtain j where j: "tlsf_fls_sizet (of_nat n) = int j" "2 ^ j \<le> n" "n < 2 ^ Suc j"
    using fls_sizet_last [of "of_nat n"] n by metis
  then have "nat (tlsf_fls_sizet (of_nat n)) = k" using log_unique [OF assms(1,2)] by simp
  moreover have "(of_nat n :: u64) + (push_bit (k - 5) 1 - 1) = of_nat (n + 2 ^ (k - 5) - 1)"
  proof -
    have "n + 2 ^ (k - 5) - 1 = n + (2 ^ (k - 5) - 1)" by simp
    moreover have "(of_nat (2 ^ (k - 5) - 1) :: u64) = 2 ^ (k - 5) - 1" by (simp add: of_nat_diff)
    ultimately show ?thesis by (simp only: of_nat_add push_bit_eq_mult mult_1)
  qed
  ultimately show ?thesis using large by (simp add: mapping_search_def class_of_def tlsf_constants not_less)
qed

lemma mapping_search_small: "n < 256 \<Longrightarrow> mapping_search (of_nat n) = class_of n"
  by (simp add: mapping_search_def class_of_def tlsf_constants word_less_nat_alt unat_u64_of_nat not_less [symmetric])

lemma mapping_search_rounds_up:
  assumes "n < 2 ^ 62" "8 dvd n"
  shows "n \<le> class_lower (mapping_search (of_nat n))" "snd (mapping_search (of_nat n)) < 32"
proof -
  have "n \<le> class_lower (mapping_search (of_nat n)) \<and> snd (mapping_search (of_nat n)) < 32"
  proof (cases "n < 256")
    case True
    then show ?thesis
      using class_of_small [OF True] class_of_bounds(3) [of n] mapping_search_small [OF True] assms(2)
      by (simp add: class_lower_def)
  next
    case False
    obtain k where k: "2 ^ k \<le> n" "n < 2 ^ Suc k" using has_log [of n] False by auto
    have k8: "8 \<le> k" using le_log [of 8 n k] False k(2) by simp
    have k62: "k < 62" using log_le [OF k(1) assms(1)] .
    let ?q = "2 ^ (k - 5) :: nat" and ?m = "n + 2 ^ (k - 5) - 1"
    have qk: "(2 :: nat) ^ k = 32 * ?q" using pow_split [of k] k8 by simp
    have q: "0 < ?q" by simp
    have "?q \<le> 2 ^ k" using qk by simp
    moreover have "(2 :: nat) ^ Suc (Suc k) = 2 ^ Suc k + 2 ^ k + 2 ^ k" by simp
    ultimately have m: "?m < 2 ^ Suc (Suc k) \<and> n \<le> ?m" using k(2) q by linarith
    have "(2 :: nat) ^ Suc (Suc k) \<le> 2 ^ 64" using k62 by (intro power_increasing) simp_all
    then have m64: "?m < 2 ^ 64" using m by linarith
    have "n \<le> class_lower (class_of ?m)"
    proof (cases "?m < 2 ^ Suc k")
      case True
      have "class_of ?m = (k - 7, ?m div ?q - 32)" using class_of_large [of k ?m] k m True k8 m64 by linarith
      moreover have "32 \<le> ?m div ?q" using k m qk by (simp add: less_eq_div_iff_mult_less_eq)
      moreover have "k - 7 + 2 = k - 5" using k8 by simp
      moreover have "n \<le> ?q * (?m div ?q)"
        using mult_div_mod_eq [of ?q ?m] mod_less_divisor [OF q, of ?m] by linarith
      ultimately show ?thesis using k8 by (simp add: class_lower_def mult.commute)
    next
      case False
      then have "class_of ?m = (Suc k - 7, ?m div 2 ^ (Suc k - 5) - 32)"
        using class_of_large [of "Suc k" ?m] m k8 m64 by linarith
      moreover have "Suc k - 7 + 2 = Suc k - 5" using k8 by simp
      then have "(32 :: nat) * 2 ^ (Suc k - 7 + 2) = 2 ^ Suc k"
        using pow_split [of "Suc k"] k8 by (simp only: refl)
      ultimately have "2 ^ Suc k \<le> class_lower (class_of ?m)" using k8 by (simp add: class_lower_def add_mult_distrib)
      then show ?thesis using k(2) by linarith
    qed
    then show ?thesis using mapping_search_large [OF k k8] class_of_bounds(3) [OF m64] assms(1) by simp
  qed
  then show "n \<le> class_lower (mapping_search (of_nat n))" "snd (mapping_search (of_nat n)) < 32" by simp_all
qed

lemma search_fits:
  assumes "n < 2 ^ 62" "8 dvd n" "m < 2 ^ 64" "\<not> class_less (class_of m) (mapping_search (of_nat n))"
  shows "n \<le> m"
  using mapping_search_rounds_up [OF assms(1,2)] class_lower_mono [OF assms(4)] class_of_bounds(1) [OF assms(3)] by simp

text \<open>A size of a class before another lies below it.\<close>

lemma class_less_below:
  assumes "class_less (class_of m) c" "m < 2 ^ 64"
  shows "m < class_lower c"
proof -
  let ?d = "class_of m"
  have d: "m < class_lower ?d + class_width (fst ?d)" "snd ?d < 32" using class_of_bounds [OF assms(2)] by simp_all
  have "class_lower ?d + class_width (fst ?d) \<le> class_lower c"
  proof (cases "fst ?d = fst c")
    case True
    then have "Suc (snd ?d) \<le> snd c" using assms(1) by (simp add: class_less_def)
    then have "(33 + snd ?d) * 2 ^ (fst c + 2) \<le> (32 + snd c) * 2 ^ (fst c + 2)" by (intro mult_right_mono) simp_all
    then show ?thesis using True \<open>Suc (snd ?d) \<le> snd c\<close> by (auto simp: class_lower_def class_width_def algebra_simps)
  next
    case False
    then have lt: "fst ?d < fst c" using assms(1) by (simp add: class_less_def)
    have "class_lower ?d + class_width (fst ?d) \<le> 64 * 2 ^ (fst ?d + 2)"
    proof -
      have "(33 + snd ?d) * 2 ^ (fst ?d + 2) \<le> 64 * 2 ^ (fst ?d + 2)" using d(2) by (intro mult_right_mono) simp_all
      then show ?thesis using d(2) by (auto simp: class_lower_def class_width_def algebra_simps)
    qed
    also have "\<dots> = 32 * 2 ^ (Suc (fst ?d) + 2)" by simp
    also have "\<dots> \<le> 32 * 2 ^ (fst c + 2)" using lt by (intro mult_left_mono power_increasing) simp_all
    also have "\<dots> \<le> class_lower c" using lt by (simp add: class_lower_def)
    finally show ?thesis .
  qed
  then show ?thesis using d(1) by simp
qed

text \<open>Rounding up to a class costs at most a thirty-second of the size.\<close>

lemma mapping_search_bound:
  assumes "0 < n" "8 dvd n" "n \<le> 2 ^ 31"
  shows "is_class (mapping_search (of_nat n))" "class_lower (mapping_search (of_nat n)) \<le> n + n div 32"
proof -
  have "is_class (mapping_search (of_nat n)) \<and> class_lower (mapping_search (of_nat n)) \<le> n + n div 32"
  proof (cases "n < 256")
    case True
    then show ?thesis
      using mapping_search_small [OF True] class_of_is_class [of n] class_of_bounds(1) [of n] by simp
  next
    case False
    obtain k where k: "2 ^ k \<le> n" "n < 2 ^ Suc k" using has_log [OF assms(1)] by blast
    have k8: "8 \<le> k" using le_log [of 8 n k] False k(2) by simp
    have "n < 2 ^ 32" using assms(3) by simp
    then have k32: "k < 32" using log_le [OF k(1)] by blast
    let ?q = "2 ^ (k - 5) :: nat"
    have q: "?q \<le> n div 32" using pow_split [of k] k8 k(1) by (simp add: less_eq_div_iff_mult_less_eq)
    moreover have "n div 32 \<le> 2 ^ 26" using assms(3) by simp
    ultimately have m: "n + ?q - 1 < 2 ^ 32" using assms(3) by simp
    have "mapping_search (of_nat n) = class_of (n + ?q - 1)" using mapping_search_large [OF k k8] assms(3) by simp
    moreover have "class_lower (class_of (n + ?q - 1)) \<le> n + ?q - 1" using class_of_bounds(1) [of "n + ?q - 1"] m by simp
    ultimately show ?thesis using class_of_is_class [OF m] q by simp
  qed
  then show "is_class (mapping_search (of_nat n))" "class_lower (mapping_search (of_nat n)) \<le> n + n div 32" by simp_all
qed

end
