(* ===== verification/Tlsf.thy ===== *)
theory Tlsf
  imports Tlsf_Mapping
begin

text \<open>
  The allocator's control structure and its operations (\<open>tlsf/tlsf.c\<close>), and the pool of the process
  thread (\<open>src/memorypool.h\<close>). Addresses are natural numbers; the memory is the four fields of the
  block header at every address, of which only those of existing blocks mean anything. A field that
  has not been written has the value the memory happened to have. Possibly null blocks are options.
  A failed assertion is a fault, and so is an index outside an array.
\<close>

section \<open>State\<close>

record tlsf =
  block_null :: nat
  fl_bitmap :: u32
  sl_bitmap :: "u32 list"
  blocks :: "nat list list"
  prev_phys :: "nat \<Rightarrow> nat"
  bsize :: "nat \<Rightarrow> u64"
  next_free :: "nat \<Rightarrow> nat"
  prev_free :: "nat \<Rightarrow> nat"

type_synonym 'a tl = "(tlsf, 'a) act"

definition tlsf_assert :: "bool \<Rightarrow> string \<Rightarrow> unit tl" where
  "tlsf_assert b msg = (if b then ret () else throw (Undefined msg))"

section \<open>Block headers\<close>

definition block_header_free_bit :: u64 where "block_header_free_bit = push_bit 0 1"
definition block_header_prev_free_bit :: u64 where "block_header_prev_free_bit = push_bit 1 1"
definition block_start_offset :: nat where "block_start_offset = 16"

definition field_size :: "u64 \<Rightarrow> u64" where
  "field_size f = f AND NOT (block_header_free_bit OR block_header_prev_free_bit)"

definition block_size :: "nat \<Rightarrow> tlsf \<Rightarrow> u64" where
  "block_size b s = field_size (bsize s b)"

definition update_field :: "(u64 \<Rightarrow> u64) \<Rightarrow> nat \<Rightarrow> unit tl" where
  "update_field f b = modify (\<lambda>s. s\<lparr>bsize := (bsize s)(b := f (bsize s b))\<rparr>)"

definition block_set_size :: "nat \<Rightarrow> u64 \<Rightarrow> unit tl" where
  "block_set_size b n =
     update_field (\<lambda>old. n OR (old AND (block_header_free_bit OR block_header_prev_free_bit))) b"

definition block_is_last :: "nat \<Rightarrow> tlsf \<Rightarrow> bool" where
  "block_is_last b s \<longleftrightarrow> block_size b s = 0"

definition block_is_free :: "nat \<Rightarrow> tlsf \<Rightarrow> bool" where
  "block_is_free b s \<longleftrightarrow> bsize s b AND block_header_free_bit \<noteq> 0"

definition block_set_free :: "nat \<Rightarrow> unit tl" where
  "block_set_free = update_field (\<lambda>f. f OR block_header_free_bit)"

definition block_set_used :: "nat \<Rightarrow> unit tl" where
  "block_set_used = update_field (\<lambda>f. f AND NOT block_header_free_bit)"

definition block_is_prev_free :: "nat \<Rightarrow> tlsf \<Rightarrow> bool" where
  "block_is_prev_free b s \<longleftrightarrow> bsize s b AND block_header_prev_free_bit \<noteq> 0"

definition block_set_prev_free :: "nat \<Rightarrow> unit tl" where
  "block_set_prev_free = update_field (\<lambda>f. f OR block_header_prev_free_bit)"

definition block_set_prev_used :: "nat \<Rightarrow> unit tl" where
  "block_set_prev_used = update_field (\<lambda>f. f AND NOT block_header_prev_free_bit)"

definition block_from_ptr :: "nat \<Rightarrow> nat" where
  "block_from_ptr p = p - block_start_offset"

definition block_to_ptr :: "nat \<Rightarrow> nat" where
  "block_to_ptr b = b + block_start_offset"

definition offset_to_block :: "nat \<Rightarrow> int \<Rightarrow> nat" where
  "offset_to_block p n = nat (int p + n)"

definition block_prev :: "nat \<Rightarrow> nat tl" where
  "block_prev b =
     then_do (gets (block_is_prev_free b)) (\<lambda>pf.
     then_do (tlsf_assert pf ''previous block must be free'') (\<lambda>_.
       gets (\<lambda>s. prev_phys s b)))"

definition block_next :: "nat \<Rightarrow> nat tl" where
  "block_next b =
     then_do (gets (\<lambda>s. offset_to_block (block_to_ptr b) (uint (block_size b s) - uint block_header_overhead))) (\<lambda>n.
     then_do (gets (block_is_last b)) (\<lambda>l.
     then_do (tlsf_assert (\<not> l) ''the last block has no next'') (\<lambda>_.
       ret n)))"

definition block_link_next :: "nat \<Rightarrow> nat tl" where
  "block_link_next b =
     then_do (block_next b) (\<lambda>n.
     then_do (modify (\<lambda>s. s\<lparr>prev_phys := (prev_phys s)(n := b)\<rparr>)) (\<lambda>_.
       ret n))"

definition block_mark_as_free :: "nat \<Rightarrow> unit tl" where
  "block_mark_as_free b =
     then_do (block_link_next b) (\<lambda>n.
     then_do (block_set_prev_free n) (\<lambda>_.
       block_set_free b))"

definition block_mark_as_used :: "nat \<Rightarrow> unit tl" where
  "block_mark_as_used b =
     then_do (block_next b) (\<lambda>n.
     then_do (block_set_prev_used n) (\<lambda>_.
       block_set_used b))"

text \<open>An address rounded up to a power of two.\<close>

definition align_ptr :: "nat \<Rightarrow> nat \<Rightarrow> nat" where
  "align_ptr p align = (p + (align - 1)) div align * align"

section \<open>Free lists\<close>

definition index_at :: "'a list \<Rightarrow> nat \<Rightarrow> 'a tl" where
  "index_at xs i = (if i < length xs then ret (xs ! i) else throw (Undefined ''array index out of range''))"

definition list_head :: "nat \<times> nat \<Rightarrow> nat tl" where
  "list_head c =
     then_do (gets blocks) (\<lambda>bs.
     then_do (index_at bs (fst c)) (\<lambda>row.
       index_at row (snd c)))"

definition search_suitable_block :: "nat \<times> nat \<Rightarrow> (nat option \<times> nat \<times> nat) tl" where
  "search_suitable_block c =
     then_do (gets sl_bitmap) (\<lambda>sls.
     then_do (index_at sls (fst c)) (\<lambda>w.
       let sl_map = w AND push_bit (snd c) (NOT 0) in
       if sl_map \<noteq> 0
       then (let d = (fst c, nat (tlsf_ffs sl_map)) in then_do (list_head d) (\<lambda>b. ret (Some b, d)))
       else then_do (gets fl_bitmap) (\<lambda>fls.
         let fl_map = fls AND push_bit (fst c + 1) (NOT 0) in
         if fl_map = 0 then ret (None, c)
         else (let fl = nat (tlsf_ffs fl_map) in
           then_do (index_at sls fl) (\<lambda>sl_map.
           then_do (tlsf_assert (sl_map \<noteq> 0) ''second level bitmap is null'') (\<lambda>_.
             let d = (fl, nat (tlsf_ffs sl_map)) in then_do (list_head d) (\<lambda>b. ret (Some b, d))))))))"

definition set_next_free :: "nat \<Rightarrow> nat \<Rightarrow> unit tl" where
  "set_next_free b x = modify (\<lambda>s. s\<lparr>next_free := (next_free s)(b := x)\<rparr>)"

definition set_prev_free :: "nat \<Rightarrow> nat \<Rightarrow> unit tl" where
  "set_prev_free b x = modify (\<lambda>s. s\<lparr>prev_free := (prev_free s)(b := x)\<rparr>)"

definition set_head :: "nat \<times> nat \<Rightarrow> nat \<Rightarrow> unit tl" where
  "set_head c b = modify (\<lambda>s. s\<lparr>blocks := (blocks s)[fst c := (blocks s ! fst c)[snd c := b]]\<rparr>)"

definition clear_bits :: "nat \<times> nat \<Rightarrow> unit tl" where
  "clear_bits c =
     modify (\<lambda>s.
       let w = sl_bitmap s ! fst c AND NOT (push_bit (snd c) 1);
           s1 = s\<lparr>sl_bitmap := (sl_bitmap s)[fst c := w]\<rparr>
       in if w = 0 then s1\<lparr>fl_bitmap := fl_bitmap s1 AND NOT (push_bit (fst c) 1)\<rparr> else s1)"

definition remove_free_block :: "nat \<Rightarrow> nat \<times> nat \<Rightarrow> unit tl" where
  "remove_free_block b c =
     then_do (gets (\<lambda>s. (prev_free s b, next_free s b))) (\<lambda>(prev, n).
     then_do (tlsf_assert (prev \<noteq> 0) ''prev_free field can not be null'') (\<lambda>_.
     then_do (tlsf_assert (n \<noteq> 0) ''next_free field can not be null'') (\<lambda>_.
     then_do (set_prev_free n prev) (\<lambda>_.
     then_do (set_next_free prev n) (\<lambda>_.
     then_do (list_head c) (\<lambda>h.
       if h = b
       then then_do (set_head c n) (\<lambda>_.
            then_do (gets block_null) (\<lambda>z.
              if n = z then clear_bits c else ret ()))
       else ret ()))))))"

definition set_bits :: "nat \<times> nat \<Rightarrow> unit tl" where
  "set_bits c =
     modify (\<lambda>s. s\<lparr>fl_bitmap := fl_bitmap s OR push_bit (fst c) 1,
       sl_bitmap := (sl_bitmap s)[fst c := sl_bitmap s ! fst c OR push_bit (snd c) 1]\<rparr>)"

definition insert_free_block :: "nat \<Rightarrow> nat \<times> nat \<Rightarrow> unit tl" where
  "insert_free_block b c =
     then_do (list_head c) (\<lambda>current.
     then_do (tlsf_assert (current \<noteq> 0) ''free list cannot have a null entry'') (\<lambda>_.
     then_do (tlsf_assert (b \<noteq> 0) ''cannot insert a null entry into the free list'') (\<lambda>_.
     then_do (set_next_free b current) (\<lambda>_.
     then_do (gets block_null) (\<lambda>z.
     then_do (set_prev_free b z) (\<lambda>_.
     then_do (set_prev_free current b) (\<lambda>_.
     then_do (tlsf_assert (block_to_ptr b = align_ptr (block_to_ptr b) (unat ALIGN_SIZE)) ''block not aligned properly'') (\<lambda>_.
     then_do (set_head c b) (\<lambda>_.
       set_bits c)))))))))"

definition block_remove :: "nat \<Rightarrow> unit tl" where
  "block_remove b = then_do (gets (block_size b)) (\<lambda>n. remove_free_block b (mapping_insert n))"

definition block_insert :: "nat \<Rightarrow> unit tl" where
  "block_insert b = then_do (gets (block_size b)) (\<lambda>n. insert_free_block b (mapping_insert n))"

section \<open>Splitting and merging\<close>

definition block_can_split :: "nat \<Rightarrow> u64 \<Rightarrow> tlsf \<Rightarrow> bool" where
  "block_can_split b n s \<longleftrightarrow> block_header_size + n \<le> block_size b s"

definition block_split :: "nat \<Rightarrow> u64 \<Rightarrow> nat tl" where
  "block_split b n =
     (let remaining = offset_to_block (block_to_ptr b) (uint n - uint block_header_overhead) in
     then_do (gets (\<lambda>s. block_size b s - (n + block_header_overhead))) (\<lambda>remain_size.
     then_do (tlsf_assert (block_to_ptr remaining = align_ptr (block_to_ptr remaining) (unat ALIGN_SIZE))
       ''remaining block not aligned properly'') (\<lambda>_.
     then_do (gets (block_size b)) (\<lambda>old.
     then_do (tlsf_assert (old = remain_size + n + block_header_overhead) ''block sizes'') (\<lambda>_.
     then_do (block_set_size remaining remain_size) (\<lambda>_.
     then_do (gets (block_size remaining)) (\<lambda>m.
     then_do (tlsf_assert (block_size_min \<le> m) ''block split with invalid size'') (\<lambda>_.
     then_do (block_set_size b n) (\<lambda>_.
     then_do (block_mark_as_free remaining) (\<lambda>_.
       ret remaining))))))))))"

definition block_absorb :: "nat \<Rightarrow> nat \<Rightarrow> nat tl" where
  "block_absorb prev b =
     then_do (gets (block_is_last prev)) (\<lambda>l.
     then_do (tlsf_assert (\<not> l) ''previous block can't be last'') (\<lambda>_.
     then_do (gets (block_size b)) (\<lambda>n.
     then_do (update_field (\<lambda>f. f + (n + block_header_overhead)) prev) (\<lambda>_.
     then_do (block_link_next prev) (\<lambda>_.
       ret prev)))))"

definition block_merge_prev :: "nat \<Rightarrow> nat tl" where
  "block_merge_prev b =
     then_do (gets (block_is_prev_free b)) (\<lambda>pf.
       if pf
       then then_do (block_prev b) (\<lambda>prev.
            then_do (tlsf_assert (prev \<noteq> 0) ''prev physical block can't be null'') (\<lambda>_.
            then_do (gets (block_is_free prev)) (\<lambda>f.
            then_do (tlsf_assert f ''prev block is not free though marked as such'') (\<lambda>_.
            then_do (block_remove prev) (\<lambda>_.
              block_absorb prev b)))))
       else ret b)"

definition block_merge_next :: "nat \<Rightarrow> nat tl" where
  "block_merge_next b =
     then_do (block_next b) (\<lambda>n.
     then_do (tlsf_assert (n \<noteq> 0) ''next physical block can't be null'') (\<lambda>_.
     then_do (gets (block_is_free n)) (\<lambda>f.
       if f
       then then_do (gets (block_is_last b)) (\<lambda>l.
            then_do (tlsf_assert (\<not> l) ''previous block can't be last'') (\<lambda>_.
            then_do (block_remove n) (\<lambda>_.
              block_absorb b n)))
       else ret b)))"

definition block_trim_free :: "nat \<Rightarrow> u64 \<Rightarrow> unit tl" where
  "block_trim_free b n =
     then_do (gets (block_is_free b)) (\<lambda>f.
     then_do (tlsf_assert f ''block must be free'') (\<lambda>_.
     then_do (gets (block_can_split b n)) (\<lambda>can.
       if can
       then then_do (block_split b n) (\<lambda>remaining.
            then_do (block_link_next b) (\<lambda>_.
            then_do (block_set_prev_free remaining) (\<lambda>_.
              block_insert remaining)))
       else ret ())))"

definition block_trim_used :: "nat \<Rightarrow> u64 \<Rightarrow> unit tl" where
  "block_trim_used b n =
     then_do (gets (block_is_free b)) (\<lambda>f.
     then_do (tlsf_assert (\<not> f) ''block must be used'') (\<lambda>_.
     then_do (gets (block_can_split b n)) (\<lambda>can.
       if can
       then then_do (block_split b n) (\<lambda>remaining.
            then_do (block_set_prev_used remaining) (\<lambda>_.
            then_do (block_merge_next remaining) (\<lambda>remaining.
              block_insert remaining)))
       else ret ())))"

definition block_trim_free_leading :: "nat \<Rightarrow> u64 \<Rightarrow> nat tl" where
  "block_trim_free_leading b n =
     then_do (gets (block_can_split b n)) (\<lambda>can.
       if can
       then then_do (block_split b (n - block_header_overhead)) (\<lambda>remaining.
            then_do (block_set_prev_free remaining) (\<lambda>_.
            then_do (block_link_next b) (\<lambda>_.
            then_do (block_insert b) (\<lambda>_.
              ret remaining))))
       else ret b)"

definition block_locate_free :: "u64 \<Rightarrow> nat option tl" where
  "block_locate_free n =
     (if n = 0 then ret None
      else then_do (search_suitable_block (mapping_search n)) (\<lambda>(b, c).
        case b of
          None \<Rightarrow> ret None
        | Some b \<Rightarrow>
            then_do (gets (block_size b)) (\<lambda>m.
            then_do (tlsf_assert (n \<le> m) ''block is too small'') (\<lambda>_.
            then_do (remove_free_block b c) (\<lambda>_.
              ret (Some b))))))"

definition block_prepare_used :: "nat option \<Rightarrow> u64 \<Rightarrow> nat tl" where
  "block_prepare_used block n =
     (case block of
        None \<Rightarrow> ret 0
      | Some b \<Rightarrow>
          then_do (tlsf_assert (n \<noteq> 0) ''size must be non-zero'') (\<lambda>_.
          then_do (block_trim_free b n) (\<lambda>_.
          then_do (block_mark_as_used b) (\<lambda>_.
            ret (block_to_ptr b)))))"

section \<open>The allocator's interface\<close>

definition control_construct :: "nat \<Rightarrow> unit tl" where
  "control_construct mem =
     modify (\<lambda>s. s\<lparr>block_null := mem, next_free := (next_free s)(mem := mem), prev_free := (prev_free s)(mem := mem),
       fl_bitmap := 0, sl_bitmap := replicate FL_INDEX_COUNT 0,
       blocks := replicate FL_INDEX_COUNT (replicate SL_INDEX_COUNT mem)\<rparr>)"

text \<open>The control structure: a header, the bitmaps and the heads, padded to eight bytes.\<close>

definition tlsf_size :: u64 where
  "tlsf_size = 32 + 4 + of_nat FL_INDEX_COUNT * 4 + of_nat FL_INDEX_COUNT * of_nat SL_INDEX_COUNT * 8"

definition tlsf_pool_overhead :: u64 where
  "tlsf_pool_overhead = 2 * block_header_overhead"

definition tlsf_add_pool :: "nat \<Rightarrow> u64 \<Rightarrow> nat option tl" where
  "tlsf_add_pool mem bytes =
     (let pool_bytes = align_down (bytes - tlsf_pool_overhead) ALIGN_SIZE in
      if mem mod unat ALIGN_SIZE \<noteq> 0 then ret None
      else if pool_bytes < block_size_min \<or> block_size_max < pool_bytes then ret None
      else let b = offset_to_block mem (- uint block_header_overhead) in
        then_do (block_set_size b pool_bytes) (\<lambda>_.
        then_do (block_set_free b) (\<lambda>_.
        then_do (block_set_prev_used b) (\<lambda>_.
        then_do (block_insert b) (\<lambda>_.
        then_do (block_link_next b) (\<lambda>n.
        then_do (block_set_size n 0) (\<lambda>_.
        then_do (block_set_used n) (\<lambda>_.
        then_do (block_set_prev_free n) (\<lambda>_.
          ret (Some mem))))))))))"

definition tlsf_remove_pool :: "nat \<Rightarrow> unit tl" where
  "tlsf_remove_pool pool =
     (let b = offset_to_block pool (- uint block_header_overhead) in
     then_do (gets (block_is_free b)) (\<lambda>f.
     then_do (tlsf_assert f ''block should be free'') (\<lambda>_.
     then_do (block_next b) (\<lambda>n.
     then_do (gets (\<lambda>s. (block_is_free n s, block_size n s))) (\<lambda>(nf, m).
     then_do (tlsf_assert (\<not> nf) ''next block should not be free'') (\<lambda>_.
     then_do (tlsf_assert (m = 0) ''next block size should be zero'') (\<lambda>_.
       block_remove b)))))))"

definition tlsf_get_pool :: "nat \<Rightarrow> nat" where
  "tlsf_get_pool t = t + unat tlsf_size"

definition tlsf_create :: "nat \<Rightarrow> nat option tl" where
  "tlsf_create mem =
     (if mem mod unat ALIGN_SIZE \<noteq> 0 then ret None
      else then_do (control_construct mem) (\<lambda>_. ret (Some mem)))"

definition tlsf_create_with_pool :: "nat \<Rightarrow> u64 \<Rightarrow> nat option tl" where
  "tlsf_create_with_pool mem bytes =
     then_do (tlsf_create mem) (\<lambda>t.
     then_do (tlsf_add_pool (mem + unat tlsf_size) (bytes - tlsf_size)) (\<lambda>_.
       ret t))"

definition tlsf_malloc :: "u64 \<Rightarrow> nat tl" where
  "tlsf_malloc n =
     (let adjust = adjust_request_size n ALIGN_SIZE in
      then_do (block_locate_free adjust) (\<lambda>b. block_prepare_used b adjust))"

definition gap_minimum :: u64 where "gap_minimum = block_header_size"

text \<open>The first aligned address with a gap before it that is empty or large enough for a block.\<close>

definition aligned_start :: "nat \<Rightarrow> nat \<Rightarrow> nat" where
  "aligned_start p align =
     (let aligned = align_ptr p align; gap = aligned - p in
      if gap \<noteq> 0 \<and> gap < unat gap_minimum
      then align_ptr (aligned + max (unat gap_minimum - gap) align) align
      else aligned)"

definition tlsf_memalign :: "u64 \<Rightarrow> u64 \<Rightarrow> nat tl" where
  "tlsf_memalign align n =
     (let adjust = adjust_request_size n ALIGN_SIZE;
          size_with_gap = adjust_request_size (adjust + align + gap_minimum) align;
          aligned_size = (if adjust \<noteq> 0 \<and> ALIGN_SIZE < align then size_with_gap else adjust) in
      then_do (block_locate_free aligned_size) (\<lambda>block.
        case block of
          None \<Rightarrow> block_prepare_used None adjust
        | Some b \<Rightarrow>
            let gap = of_nat (aligned_start (block_to_ptr b) (unat align) - block_to_ptr b) in
            if gap = 0 then block_prepare_used (Some b) adjust
            else then_do (tlsf_assert (gap_minimum \<le> gap) ''gap size too small'') (\<lambda>_.
                 then_do (block_trim_free_leading b gap) (\<lambda>b'.
                   block_prepare_used (Some b') adjust))))"

definition tlsf_free :: "nat \<Rightarrow> unit tl" where
  "tlsf_free p =
     (if p = 0 then ret ()
      else let b = block_from_ptr p in
        then_do (gets (block_is_free b)) (\<lambda>f.
        then_do (tlsf_assert (\<not> f) ''block already marked as free'') (\<lambda>_.
        then_do (block_mark_as_free b) (\<lambda>_.
        then_do (block_merge_prev b) (\<lambda>b1.
        then_do (block_merge_next b1) (\<lambda>b2.
          block_insert b2))))))"

text \<open>The contents of the blocks are not part of the state, so that nothing is copied.\<close>

definition tlsf_realloc :: "nat \<Rightarrow> u64 \<Rightarrow> nat tl" where
  "tlsf_realloc p n =
     (if p \<noteq> 0 \<and> n = 0 then then_do (tlsf_free p) (\<lambda>_. ret 0)
      else if p = 0 then tlsf_malloc n
      else let b = block_from_ptr p; adjust = adjust_request_size n ALIGN_SIZE in
        then_do (block_next b) (\<lambda>nx.
        then_do (gets (\<lambda>s. (block_size b s, block_size nx s, block_is_free b s, block_is_free nx s))) (\<lambda>(cursize, nsize, f, nf).
        then_do (tlsf_assert (\<not> f) ''block already marked as free'') (\<lambda>_.
          if cursize < adjust \<and> (\<not> nf \<or> cursize + nsize + block_header_overhead < adjust)
          then then_do (tlsf_malloc n) (\<lambda>q.
               if q \<noteq> 0 then then_do (tlsf_free p) (\<lambda>_. ret q) else ret 0)
          else then_do (if cursize < adjust then then_do (block_merge_next b) (\<lambda>_. block_mark_as_used b) else ret ()) (\<lambda>_.
               then_do (block_trim_used b adjust) (\<lambda>_.
                 ret p))))))"

text \<open>The walk over the blocks of a pool, which hands each of them to a function.\<close>

partial_function (option) walk_loop :: "(nat \<Rightarrow> u64 \<Rightarrow> bool \<Rightarrow> 'u \<Rightarrow> 'u) \<Rightarrow> tlsf \<Rightarrow> nat \<Rightarrow> 'u \<Rightarrow> 'u res option" where
  "walk_loop walker s b user =
     (if b = 0 \<or> block_is_last b s then Some (Inr user)
      else (case fst (block_next b s) of
              Inl e \<Rightarrow> Some (Inl e)
            | Inr n \<Rightarrow> walk_loop walker s n (walker (block_to_ptr b) (block_size b s) (\<not> block_is_free b s) user)))"

definition tlsf_walk_pool :: "nat \<Rightarrow> (nat \<Rightarrow> u64 \<Rightarrow> bool \<Rightarrow> 'u \<Rightarrow> 'u) \<Rightarrow> tlsf \<Rightarrow> 'u \<Rightarrow> 'u res option" where
  "tlsf_walk_pool pool walker s user =
     walk_loop walker s (offset_to_block pool (- uint block_header_overhead)) user"

definition tlsf_block_size :: "nat \<Rightarrow> tlsf \<Rightarrow> u64" where
  "tlsf_block_size p s = (if p \<noteq> 0 then block_size (block_from_ptr p) s else 0)"

section \<open>The pool of the process thread\<close>

definition MemoryPool :: "nat \<Rightarrow> u64 \<Rightarrow> nat option tl" where
  "MemoryPool buff n = tlsf_create_with_pool buff n"

definition pool_malloc :: "u64 \<Rightarrow> nat tl" where
  "pool_malloc = tlsf_malloc"

definition pool_free :: "nat \<Rightarrow> unit tl" where
  "pool_free = tlsf_free"

definition processPool :: "nat \<Rightarrow> nat option tl" where
  "processPool buff = MemoryPool buff 32768"

end
