(* ===== verification/Tlsf_Lists.thy ===== *)
theory Tlsf_Lists
  imports Tlsf
begin

text \<open>
  The free lists of the allocator: for every class a doubly linked list of the free blocks whose
  size it holds, and the two levels of bitmaps that say which lists are not empty. The searches,
  insertions and removals of \<open>tlsf/tlsf.c\<close> keep the lists in step with the set of free blocks, a map
  from addresses to sizes.
\<close>

section \<open>Doubly linked lists\<close>

text \<open>The segment of a list from one block on, up to but without another, with the blocks before both.\<close>

fun dseg :: "tlsf \<Rightarrow> nat \<Rightarrow> nat \<Rightarrow> nat list \<Rightarrow> nat \<Rightarrow> nat \<Rightarrow> bool" where
  "dseg s p x [] q y \<longleftrightarrow> p = q \<and> x = y"
| "dseg s p x (z # zs) q y \<longleftrightarrow> x = z \<and> prev_free s z = p \<and> dseg s z (next_free s z) zs q y"

lemma dseg_append: "dseg s p x (xs @ ys) q y \<longleftrightarrow> (\<exists>q' y'. dseg s p x xs q' y' \<and> dseg s q' y' ys q y)"
  by (induction xs arbitrary: p x) auto

lemma dseg_frame:
  assumes "\<forall>z \<in> set zs. next_free t z = next_free s z \<and> prev_free t z = prev_free s z"
  shows "dseg t p x zs q y \<longleftrightarrow> dseg s p x zs q y"
  using assms by (induction zs arbitrary: p x) auto

lemma dseg_update:
  assumes "next_free t = (next_free s)(a := c)" "prev_free t = (prev_free s)(b := d)" "a \<notin> set zs" "b \<notin> set zs"
  shows "dseg t p x zs q y \<longleftrightarrow> dseg s p x zs q y"
  by (rule dseg_frame) (use assms in auto)

lemma dseg_ends:
  assumes "dseg s p x xs q y"
  shows "q = last (p # xs)" "x = hd (xs @ [y])"
  using assms by (induction xs arbitrary: p x) auto

definition dlist :: "tlsf \<Rightarrow> nat \<Rightarrow> nat list \<Rightarrow> bool" where
  "dlist s x xs \<longleftrightarrow> (\<exists>q. dseg s (block_null s) x xs q (block_null s)) \<and> distinct xs \<and> block_null s \<notin> set xs"

text \<open>A list from which a block is taken, by its neighbours in it.\<close>

lemma dseg_unlink:
  assumes "dseg s z0 x (xs @ b # ys) q z0" "distinct (z0 # xs @ b # ys)"
    and "next_free t = (next_free s)(prev_free s b := next_free s b)"
    and "prev_free t = (prev_free s)(next_free s b := prev_free s b)"
  shows "dseg t z0 (hd (xs @ ys @ [z0])) (xs @ ys) (last (z0 # xs @ ys)) z0"
proof -
  have 1: "dseg s z0 x xs (prev_free s b) b" and 2: "dseg s b (next_free s b) ys q z0"
    using assms(1) by (auto simp: dseg_append dest: dseg_ends)
  define P where "P = last (z0 # xs)"
  define N where "N = hd (ys @ [z0])"
  have ends: "prev_free s b = P" "next_free s b = N" using dseg_ends [OF 1] dseg_ends [OF 2] by (simp_all add: P_def N_def)
  have t: "next_free t = (next_free s)(P := N)" "prev_free t = (prev_free s)(N := P)" using assms(3,4) ends by simp_all
  have P: "P \<in> insert z0 (set xs)" and N: "N \<in> insert z0 (set ys)"
    unfolding P_def N_def by (cases xs rule: rev_cases; simp) (cases ys; simp)
  have right: "dseg t P N ys (last (P # ys)) z0"
  proof (cases ys)
    case Nil
    then show ?thesis by (simp add: N_def)
  next
    case (Cons z zs)
    have z: "N = z" "dseg s z (next_free s z) zs q z0" using 2 Cons ends(2) by (simp_all add: N_def)
    have "z \<noteq> P" "P \<notin> set zs" "N \<notin> set zs" using P z(1) assms(2) Cons by auto
    then have "dseg t z (next_free s z) zs q z0" "next_free t z = next_free s z" "prev_free t z = P"
      using z dseg_update [OF t, of zs] t by auto
    then show ?thesis using Cons z(1) dseg_ends(1) [OF z(2)] by simp
  qed
  have left: "dseg t z0 (hd (xs @ [N])) xs P N"
  proof (cases xs rule: rev_cases)
    case Nil
    then show ?thesis by (simp add: P_def)
  next
    case (snoc us u)
    have u: "dseg s z0 x us (prev_free s u) u" "P = u"
      using 1 snoc by (auto simp: dseg_append P_def dest: dseg_ends)
    have "u \<noteq> N" "P \<notin> set us" "N \<notin> set us" using N u(2) assms(2) snoc by auto
    then have "dseg t z0 x us (prev_free s u) u" "next_free t u = N" "prev_free t u = prev_free s u"
      using u dseg_update [OF t, of us] t by auto
    then show ?thesis using snoc u(2) dseg_ends(2) [OF u(1)] by (cases us) (auto simp: dseg_append)
  qed
  have "last (P # ys) = last (z0 # xs @ ys)" "hd (xs @ [N]) = hd (xs @ ys @ [z0])"
    unfolding P_def N_def by (cases ys; simp) (cases xs; cases ys; simp)
  then show ?thesis unfolding dseg_append using left right by metis
qed

lemma dlist_unlink:
  assumes "dlist s x (xs @ b # ys)" "block_null t = block_null s"
    and "next_free t = (next_free s)(prev_free s b := next_free s b)"
    and "prev_free t = (prev_free s)(next_free s b := prev_free s b)"
  shows "dlist t (hd (xs @ ys @ [block_null s])) (xs @ ys)"
proof -
  obtain q where "dseg s (block_null s) x (xs @ b # ys) q (block_null s)" and "distinct (block_null s # xs @ b # ys)"
    using assms(1) by (auto simp: dlist_def)
  from dseg_unlink [OF this assms(3,4)] this(2) show ?thesis using assms(2) by (auto simp: dlist_def)
qed

lemma dlist_link:
  assumes "dlist s x xs" "b \<noteq> block_null s" "b \<notin> set xs" "block_null t = block_null s"
    and "next_free t = (next_free s)(b := x)" "prev_free t = (prev_free s)(b := block_null s, x := b)"
  shows "dlist t b (b # xs)"
proof -
  let ?z = "block_null s"
  obtain q where q: "dseg s ?z x xs q ?z" and d: "distinct xs" "?z \<notin> set xs" using assms(1) by (auto simp: dlist_def)
  have "dseg t b x xs (last (b # xs)) ?z"
  proof (cases xs)
    case Nil
    then show ?thesis using q by simp
  next
    case (Cons z zs)
    then have z: "x = z" "dseg s z (next_free s z) zs q ?z" using q by simp_all
    have "\<forall>w \<in> set zs. next_free t w = next_free s w \<and> prev_free t w = prev_free s w"
      using assms(3,5,6) d z(1) Cons by auto
    then have "dseg t z (next_free s z) zs q ?z" using z(2) dseg_frame by blast
    then show ?thesis using Cons z(1) assms(3,5,6) dseg_ends(1) [OF z(2)] by auto
  qed
  moreover have "x \<noteq> b"
    using dseg_ends(2) [OF q] assms(2,3) by (cases xs) auto
  ultimately show ?thesis using assms d by (auto simp: dlist_def)
qed

lemma dlist_frame:
  assumes "dlist s x xs" "block_null t = block_null s"
    and "\<forall>z \<in> set xs. next_free t z = next_free s z \<and> prev_free t z = prev_free s z"
  shows "dlist t x xs"
  using assms dseg_frame [OF assms(3)] by (auto simp: dlist_def)

lemma dlist_head: "dlist s x xs \<Longrightarrow> x = hd (xs @ [block_null s])"
  by (auto simp: dlist_def dest: dseg_ends)

lemma dlist_neighbours:
  assumes "dlist s x (xs @ b # ys)"
  shows "prev_free s b = last (block_null s # xs)" "next_free s b = hd (ys @ [block_null s])"
  using assms by (auto simp: dlist_def dseg_append dest: dseg_ends)

section \<open>The lists of all classes\<close>

definition shape :: "tlsf \<Rightarrow> bool" where
  "shape s \<longleftrightarrow> block_null s \<noteq> 0 \<and> length (sl_bitmap s) = FL_INDEX_COUNT \<and> length (blocks s) = FL_INDEX_COUNT \<and>
     (\<forall>row \<in> set (blocks s). length row = SL_INDEX_COUNT)"

abbreviation head_at :: "tlsf \<Rightarrow> nat \<times> nat \<Rightarrow> nat" where
  "head_at s c \<equiv> blocks s ! fst c ! snd c"

definition list_ok :: "tlsf \<Rightarrow> (nat \<rightharpoonup> nat) \<Rightarrow> nat list \<Rightarrow> nat \<times> nat \<Rightarrow> bool" where
  "list_ok s M xs c \<longleftrightarrow> dlist s (head_at s c) xs \<and> set xs = {b. \<exists>n. M b = Some n \<and> class_of n = c} \<and>
     (bit (sl_bitmap s ! fst c) (snd c) \<longleftrightarrow> xs \<noteq> [])"

definition first_level_ok :: "tlsf \<Rightarrow> bool" where
  "first_level_ok s \<longleftrightarrow> (\<forall>i. bit (fl_bitmap s) i \<longleftrightarrow> i < FL_INDEX_COUNT \<and> sl_bitmap s ! i \<noteq> 0)"

definition free_lists :: "tlsf \<Rightarrow> (nat \<rightharpoonup> nat) \<Rightarrow> bool" where
  "free_lists s M \<longleftrightarrow> shape s \<and> (\<exists>F. \<forall>c. is_class c \<longrightarrow> list_ok s M (F c) c) \<and> first_level_ok s \<and>
     (\<forall>b n. M b = Some n \<longrightarrow> b \<noteq> 0 \<and> n < 2 ^ 32)"

definition same_layout :: "tlsf \<Rightarrow> tlsf \<Rightarrow> bool" where
  "same_layout s t \<longleftrightarrow> prev_phys t = prev_phys s \<and> bsize t = bsize s \<and> block_null t = block_null s"

lemma same_layout_refl [simp]: "same_layout s s"
  by (simp add: same_layout_def)

lemma list_head_run: "shape s \<Longrightarrow> is_class c \<Longrightarrow> list_head c s = (Inr (head_at s c), s)"
  by (simp add: shape_def is_class_def list_head_def index_at_def)

lemma bits_run:
  "set_next_free b x s = (Inr (), s\<lparr>next_free := (next_free s)(b := x)\<rparr>)"
  "set_prev_free b x s = (Inr (), s\<lparr>prev_free := (prev_free s)(b := x)\<rparr>)"
  "set_head c b s = (Inr (), s\<lparr>blocks := (blocks s)[fst c := (blocks s ! fst c)[snd c := b]]\<rparr>)"
  by (simp_all add: set_next_free_def set_prev_free_def set_head_def)

lemma assert_run [simp]: "b \<Longrightarrow> tlsf_assert b msg s = (Inr (), s)"
  by (simp add: tlsf_assert_def)

lemma remove_run:
  assumes "shape s" "is_class c" "prev_free s b \<noteq> 0" "next_free s b \<noteq> 0"
    and "s1 = s\<lparr>prev_free := (prev_free s)(next_free s b := prev_free s b),
                next_free := (next_free s)(prev_free s b := next_free s b)\<rparr>"
  shows "remove_free_block b c s =
     (if head_at s c = b
      then if next_free s b = block_null s then clear_bits c (snd (set_head c (next_free s b) s1))
           else (Inr (), snd (set_head c (next_free s b) s1))
      else (Inr (), s1))"
proof -
  have "shape s1" using assms(1,5) by (simp add: shape_def)
  then have "list_head c s1 = (Inr (head_at s c), s1)" using list_head_run [OF _ assms(2)] assms(5) by simp
  then show ?thesis
    using assms(3,4) unfolding remove_free_block_def assms(5) by (simp add: bits_run)
qed

lemma insert_run:
  assumes "shape s" "is_class c" "head_at s c \<noteq> 0" "b \<noteq> 0" "8 dvd b"
  shows "insert_free_block b c s =
     set_bits c (snd (set_head c b (s\<lparr>next_free := (next_free s)(b := head_at s c),
       prev_free := (prev_free s)(b := block_null s, head_at s c := b)\<rparr>)))"
proof -
  have "block_to_ptr b = align_ptr (block_to_ptr b) (unat ALIGN_SIZE)"
    using assms(5) by (auto simp: block_to_ptr_def align_ptr_def block_start_offset_def tlsf_constants push_bit_eq_mult)
  then show ?thesis
    using list_head_run [OF assms(1,2)] assms(3,4) unfolding insert_free_block_def by (simp add: bits_run)
qed

text \<open>Changing the head of one class.\<close>

lemma head_update:
  assumes "shape s" "is_class c" "is_class d" "t = s\<lparr>blocks := (blocks s)[fst c := (blocks s ! fst c)[snd c := b]]\<rparr>"
  shows "head_at t d = (if d = c then b else head_at s d)" "shape t"
proof -
  have "length (blocks s ! fst c) = SL_INDEX_COUNT" using assms(1,2) by (auto simp: shape_def is_class_def)
  then show "head_at t d = (if d = c then b else head_at s d)"
    using assms by (auto simp: shape_def is_class_def nth_list_update prod_eq_iff)
  show "shape t"
    using assms \<open>length (blocks s ! fst c) = SL_INDEX_COUNT\<close> by (auto simp: shape_def dest!: set_update_subset_insert [THEN subsetD])
qed

lemma bit_one: "bit (push_bit j 1 :: u32) i \<longleftrightarrow> i = j \<and> j < 32" "bit (2 ^ j :: u32) i \<longleftrightarrow> i = j \<and> j < 32"
  by (auto simp: bit_simps)

text \<open>Changing the bit of one class, with the bitmap of the first level kept in step.\<close>

lemma clear_bits_run:
  assumes "shape s" "is_class c" "first_level_ok s"
  obtains t where "clear_bits c s = (Inr (), t)" "shape t" "first_level_ok t"
    "same_layout s t" "next_free t = next_free s" "prev_free t = prev_free s" "blocks t = blocks s"
    "\<And>d. is_class d \<Longrightarrow> bit (sl_bitmap t ! fst d) (snd d) \<longleftrightarrow> d \<noteq> c \<and> bit (sl_bitmap s ! fst d) (snd d)"
proof -
  define w where "w = sl_bitmap s ! fst c AND NOT (push_bit (snd c) 1)"
  define t where "t = (if w = 0 then s\<lparr>sl_bitmap := (sl_bitmap s)[fst c := w], fl_bitmap := fl_bitmap s AND NOT (push_bit (fst c) 1)\<rparr>
    else s\<lparr>sl_bitmap := (sl_bitmap s)[fst c := w]\<rparr>)"
  have len: "fst c < length (sl_bitmap s)" "fst c < 32" using assms(1,2) by (simp_all add: shape_def is_class_def tlsf_constants)
  have "clear_bits c s = (Inr (), t)" by (simp add: clear_bits_def w_def t_def Let_def)
  moreover have "shape t" using assms(1) by (simp add: t_def shape_def)
  moreover have sl: "sl_bitmap t = (sl_bitmap s)[fst c := w]" by (simp add: t_def)
  have fl: "bit (fl_bitmap t) i \<longleftrightarrow> (if i = fst c then bit (fl_bitmap s) i \<and> w \<noteq> 0 else bit (fl_bitmap s) i)" for i
    using len(2) by (auto simp: t_def bit_and_iff bit_not_iff bit_one dest: bit_imp_le_length)
  have "first_level_ok t"
    unfolding first_level_ok_def
  proof
    fix i
    have "w \<noteq> 0 \<Longrightarrow> sl_bitmap s ! fst c \<noteq> 0" by (auto simp: w_def)
    then show "bit (fl_bitmap t) i \<longleftrightarrow> i < FL_INDEX_COUNT \<and> sl_bitmap t ! i \<noteq> 0"
      using assms(2,3) len(1) by (auto simp: fl sl first_level_ok_def is_class_def nth_list_update)
  qed
  moreover have "bit (sl_bitmap t ! fst d) (snd d) \<longleftrightarrow> d \<noteq> c \<and> bit (sl_bitmap s ! fst d) (snd d)" if "is_class d" for d
  proof -
    have "snd d < 32" using that by (simp add: is_class_def tlsf_constants)
    then show ?thesis
      using len(1) by (auto simp: sl w_def nth_list_update bit_and_iff bit_not_iff bit_one prod_eq_iff)
  qed
  ultimately show thesis using that [of t] by (simp add: same_layout_def t_def)
qed

lemma set_bits_run:
  assumes "shape s" "is_class c" "first_level_ok s"
  obtains t where "set_bits c s = (Inr (), t)" "shape t" "first_level_ok t"
    "same_layout s t" "next_free t = next_free s" "prev_free t = prev_free s" "blocks t = blocks s"
    "\<And>d. is_class d \<Longrightarrow> bit (sl_bitmap t ! fst d) (snd d) \<longleftrightarrow> d = c \<or> bit (sl_bitmap s ! fst d) (snd d)"
proof -
  define w where "w = sl_bitmap s ! fst c OR push_bit (snd c) 1"
  define t where "t = s\<lparr>fl_bitmap := fl_bitmap s OR push_bit (fst c) 1, sl_bitmap := (sl_bitmap s)[fst c := w]\<rparr>"
  have len: "fst c < length (sl_bitmap s)" "fst c < 32" "snd c < 32"
    using assms(1,2) by (simp_all add: shape_def is_class_def tlsf_constants)
  have "set_bits c s = (Inr (), t)" by (simp add: set_bits_def w_def t_def)
  moreover have "shape t" using assms(1) by (simp add: t_def shape_def)
  moreover have "w \<noteq> 0"
  proof
    assume "w = 0"
    moreover have "bit w (snd c)" using len(3) by (simp add: w_def bit_or_iff bit_one)
    ultimately show False by simp
  qed
  then have "first_level_ok t"
    using assms(2,3) len(1,2) by (auto simp: t_def first_level_ok_def is_class_def nth_list_update bit_or_iff bit_one)
  moreover have "bit (sl_bitmap t ! fst d) (snd d) \<longleftrightarrow> d = c \<or> bit (sl_bitmap s ! fst d) (snd d)" if "is_class d" for d
  proof -
    have "snd d < 32" using that by (simp add: is_class_def tlsf_constants)
    then show ?thesis
      using len(1) by (auto simp: t_def w_def nth_list_update bit_or_iff bit_one prod_eq_iff)
  qed
  ultimately show thesis using that [of t] by (simp add: same_layout_def t_def)
qed

section \<open>Removing, inserting and searching\<close>

text \<open>A list of another class is not touched by what happens to the links of blocks it does not hold.\<close>

lemma list_ok_frame:
  assumes "list_ok s M xs d" "block_null t = block_null s" "head_at t d = head_at s d"
    and "next_free t = (next_free s)(a := n)" "prev_free t = (prev_free s)(b := p)"
    and "a \<notin> set xs" "b \<notin> set xs"
    and "bit (sl_bitmap t ! fst d) (snd d) \<longleftrightarrow> bit (sl_bitmap s ! fst d) (snd d)"
    and "{b. \<exists>n. M' b = Some n \<and> class_of n = d} = {b. \<exists>n. M b = Some n \<and> class_of n = d}"
  shows "list_ok t M' xs d"
proof -
  have "dlist t (head_at s d) xs"
    by (rule dlist_frame [of s]) (use assms in \<open>auto simp: list_ok_def\<close>)
  then show ?thesis using assms by (simp add: list_ok_def)
qed

lemma remove_free_block_keeps:
  assumes "free_lists s M" "M b = Some n"
  obtains t where "remove_free_block b (class_of n) s = (Inr (), t)" "free_lists t (M(b := None))" "same_layout s t"
proof -
  let ?c = "class_of n" and ?z = "block_null s"
  have sh: "shape s" and fo: "first_level_ok s" and n: "n < 2 ^ 32" using assms by (auto simp: free_lists_def)
  have M: "b' \<noteq> 0 \<and> n' < 2 ^ 32" if "M b' = Some n'" for b' n' using assms(1) that by (auto simp: free_lists_def)
  obtain F where F: "is_class c \<Longrightarrow> list_ok s M (F c) c" for c using assms(1) by (auto simp: free_lists_def)
  have c: "is_class ?c" using class_of_is_class [OF n] .
  have "b \<in> set (F ?c)" using F [OF c] assms(2) by (auto simp: list_ok_def)
  then obtain xs ys where xs: "F ?c = xs @ b # ys" by (meson split_list)
  have dl: "dlist s (head_at s ?c) (xs @ b # ys)" using F [OF c] xs by (simp add: list_ok_def)
  then have dis: "distinct (xs @ b # ys)" "?z \<notin> set (xs @ b # ys)" by (simp_all add: dlist_def)
  define P where "P = prev_free s b"
  define N where "N = next_free s b"
  have P: "P = last (?z # xs)" and N: "N = hd (ys @ [?z])" using dlist_neighbours [OF dl] by (simp_all add: P_def N_def)
  have Pin: "P \<in> insert ?z (set xs)" and Nin: "N \<in> insert ?z (set ys)"
    unfolding P N by (cases xs rule: rev_cases; simp) (cases ys; simp)
  have nz: "w \<noteq> 0" if "w \<in> insert ?z (set (F ?c))" for w
    using that sh M F [OF c] by (auto simp: shape_def list_ok_def)
  have nn: "P \<noteq> 0" "N \<noteq> 0" using nz [of P] nz [of N] Pin Nin xs by auto
  define s1 where "s1 = s\<lparr>prev_free := (prev_free s)(N := P), next_free := (next_free s)(P := N)\<rparr>"
  define s2 where "s2 = (if head_at s ?c = b then snd (set_head ?c N s1) else s1)"
  have s1: "shape s1" "first_level_ok s1" using sh fo by (simp_all add: s1_def shape_def first_level_ok_def)
  have s2: "shape s2" "first_level_ok s2" "block_null s2 = ?z" "same_layout s s2" "sl_bitmap s2 = sl_bitmap s"
    "next_free s2 = (next_free s)(P := N)" "prev_free s2 = (prev_free s)(N := P)"
    using s1 head_update(2) [OF s1(1) c c]
    by (auto simp: s2_def bits_run s1_def same_layout_def first_level_ok_def)
  have hd: "head_at s ?c = b \<longleftrightarrow> xs = []" using dlist_head [OF dl] dis by (cases xs) auto
  have head: "head_at s2 d = (if d = ?c then hd (xs @ ys @ [?z]) else head_at s d)" if "is_class d" for d
  proof (cases "xs = []")
    case True
    then show ?thesis using head_update(1) [OF s1(1) c that] hd by (simp add: s2_def bits_run N) (simp add: s1_def)
  next
    case False
    then show ?thesis using dlist_head [OF dl] hd by (simp add: s2_def s1_def)
  qed
  obtain t where t: "remove_free_block b ?c s = (Inr (), t)" "shape t" "first_level_ok t" "same_layout s2 t"
    "next_free t = next_free s2" "prev_free t = prev_free s2" "blocks t = blocks s2"
    "\<And>d. is_class d \<Longrightarrow> bit (sl_bitmap t ! fst d) (snd d) \<longleftrightarrow> (d \<noteq> ?c \<or> xs @ ys \<noteq> []) \<and> bit (sl_bitmap s2 ! fst d) (snd d)"
  proof -
    have r: "remove_free_block b ?c s =
        (if head_at s ?c = b then if N = ?z then clear_bits ?c s2 else (Inr (), s2) else (Inr (), s2))"
      using remove_run [OF sh c, of b s1] nn by (simp add: P_def N_def s1_def s2_def)
    have e: "N = ?z \<longleftrightarrow> ys = []" using N dis by (cases ys) auto
    show thesis
    proof (cases "xs @ ys = []")
      case True
      obtain t where "clear_bits ?c s2 = (Inr (), t)" "shape t" "first_level_ok t" "same_layout s2 t"
        "next_free t = next_free s2" "prev_free t = prev_free s2" "blocks t = blocks s2"
        "\<And>d. is_class d \<Longrightarrow> bit (sl_bitmap t ! fst d) (snd d) \<longleftrightarrow> d \<noteq> ?c \<and> bit (sl_bitmap s2 ! fst d) (snd d)"
        using clear_bits_run [OF s2(1) c s2(2)] by blast
      then show thesis using that [of t] True r hd e by simp
    next
      case False
      then show thesis using that [of s2] r hd e s2(1,2) by auto
    qed
  qed
  have hdt: "head_at t d = (if d = ?c then hd (xs @ ys @ [?z]) else head_at s d)" if "is_class d" for d
    using head [OF that] t(7) by simp
  have "list_ok t (M(b := None)) ((F(?c := xs @ ys)) d) d" if d: "is_class d" for d
  proof (cases "d = ?c")
    case True
    have "dlist t (hd (xs @ ys @ [?z])) (xs @ ys)"
      using dlist_unlink [OF dl, of t] t(4-6) s2 by (simp add: same_layout_def P_def N_def)
    moreover have "set (xs @ ys) = {b'. \<exists>n'. (M(b := None)) b' = Some n' \<and> class_of n' = ?c}"
      using F [OF c] xs dis by (auto simp: list_ok_def)
    moreover have "bit (sl_bitmap s ! fst ?c) (snd ?c)" using F [OF c] xs by (simp add: list_ok_def)
    ultimately show ?thesis using True hdt [OF d] t(8) [OF d] s2(5) by (auto simp: list_ok_def)
  next
    case False
    have dj: "w \<notin> set (F d)" if "w \<in> insert ?z (set (F ?c))" for w
      using that F [OF d] F [OF c] False by (auto simp: list_ok_def dlist_def)
    have "list_ok t (M(b := None)) (F d) d"
    proof (rule list_ok_frame [OF F [OF d]])
      show "P \<notin> set (F d)" "N \<notin> set (F d)" using dj Pin Nin xs by auto
      show "{b'. \<exists>n'. (M(b := None)) b' = Some n' \<and> class_of n' = d} = {b'. \<exists>n'. M b' = Some n' \<and> class_of n' = d}"
        using False assms(2) by auto
    qed (use t s2 hdt [OF d] False d in \<open>auto simp: same_layout_def\<close>)
    then show ?thesis using False by simp
  qed
  then have "free_lists t (M(b := None))"
    using t(2,3) M unfolding free_lists_def by (metis fun_upd_apply option.distinct(1))
  moreover have "same_layout s t" using t(4) s2(4) by (simp add: same_layout_def)
  ultimately show thesis using that t(1) by blast
qed

lemma insert_free_block_keeps:
  assumes "free_lists s M" "M b = None" "n < 2 ^ 32" "8 dvd b" "b \<noteq> 0" "b \<noteq> block_null s"
  obtains t where "insert_free_block b (class_of n) s = (Inr (), t)" "free_lists t (M(b \<mapsto> n))" "same_layout s t"
proof -
  let ?c = "class_of n" and ?z = "block_null s"
  have sh: "shape s" and fo: "first_level_ok s" using assms by (simp_all add: free_lists_def)
  have M: "b' \<noteq> 0 \<and> n' < 2 ^ 32" if "M b' = Some n'" for b' n' using assms(1) that by (auto simp: free_lists_def)
  obtain F where F: "is_class c \<Longrightarrow> list_ok s M (F c) c" for c using assms(1) by (auto simp: free_lists_def)
  have c: "is_class ?c" using class_of_is_class [OF assms(3)] .
  let ?h = "head_at s ?c"
  have dl: "dlist s ?h (F ?c)" using F [OF c] by (simp add: list_ok_def)
  have h: "?h \<in> insert ?z (set (F ?c))" using dlist_head [OF dl] by (cases "F ?c") auto
  then have h0: "?h \<noteq> 0" using sh M F [OF c] by (auto simp: shape_def list_ok_def)
  define s1 where "s1 = s\<lparr>next_free := (next_free s)(b := ?h), prev_free := (prev_free s)(b := ?z, ?h := b)\<rparr>"
  define s2 where "s2 = snd (set_head ?c b s1)"
  have s1: "shape s1" "first_level_ok s1" using sh fo by (simp_all add: s1_def shape_def first_level_ok_def)
  have s2: "shape s2" "first_level_ok s2" "same_layout s s2" "sl_bitmap s2 = sl_bitmap s"
    "next_free s2 = next_free s1" "prev_free s2 = prev_free s1"
    using s1 head_update(2) [OF s1(1) c c] by (auto simp: s2_def bits_run s1_def same_layout_def first_level_ok_def)
  obtain t where t: "set_bits ?c s2 = (Inr (), t)" "shape t" "first_level_ok t" "same_layout s2 t"
    "next_free t = next_free s2" "prev_free t = prev_free s2" "blocks t = blocks s2"
    "\<And>d. is_class d \<Longrightarrow> bit (sl_bitmap t ! fst d) (snd d) \<longleftrightarrow> d = ?c \<or> bit (sl_bitmap s2 ! fst d) (snd d)"
    using set_bits_run [OF s2(1) c s2(2)] by blast
  have hdt: "head_at t d = (if d = ?c then b else head_at s d)" if "is_class d" for d
    using head_update(1) [OF s1(1) c that] t(7) by (simp add: s2_def bits_run) (simp add: s1_def)
  have bF: "b \<notin> set (F d)" if "is_class d" for d using F [OF that] assms(2) by (auto simp: list_ok_def)
  have "list_ok t (M(b \<mapsto> n)) ((F(?c := b # F ?c)) d) d" if d: "is_class d" for d
  proof (cases "d = ?c")
    case True
    have "dlist t b (b # F ?c)"
      using dlist_link [OF dl assms(6) bF [OF c], of t] t(4-6) s2 by (simp add: same_layout_def s1_def)
    moreover have "set (b # F ?c) = {b'. \<exists>n'. (M(b \<mapsto> n)) b' = Some n' \<and> class_of n' = ?c}"
      using F [OF c] assms(2) by (auto simp: list_ok_def)
    ultimately show ?thesis using True hdt [OF d] t(8) [OF d] by (auto simp: list_ok_def)
  next
    case False
    have dj: "w \<notin> set (F d)" if "w \<in> insert b (insert ?z (set (F ?c)))" for w
      using that F [OF d] F [OF c] False bF [OF d] by (auto simp: list_ok_def dlist_def)
    have "dlist t (head_at s d) (F d)"
    proof (rule dlist_frame [of s])
      show "dlist s (head_at s d) (F d)" using F [OF d] by (simp add: list_ok_def)
      have "?h \<notin> set (F d)" "b \<notin> set (F d)" using dj h by auto
      then show "\<forall>w \<in> set (F d). next_free t w = next_free s w \<and> prev_free t w = prev_free s w"
        using t(5,6) s2(5,6) by (auto simp: s1_def)
    qed (use t(4) s2(3) in \<open>simp add: same_layout_def\<close>)
    moreover have "{b'. \<exists>n'. (M(b \<mapsto> n)) b' = Some n' \<and> class_of n' = d} = {b'. \<exists>n'. M b' = Some n' \<and> class_of n' = d}"
      using False assms(2) by auto
    ultimately show ?thesis using False F [OF d] hdt [OF d] t(8) [OF d] s2(4) by (simp add: list_ok_def)
  qed
  then have "free_lists t (M(b \<mapsto> n))"
    using t(2,3) M assms(3,5) unfolding free_lists_def by (metis fun_upd_apply option.inject)
  moreover have "same_layout s t" using t(4) s2(3) by (simp add: same_layout_def)
  moreover have "insert_free_block b ?c s = (Inr (), t)"
    using insert_run [OF sh c h0 assms(5,4)] t(1) by (simp add: s2_def s1_def)
  ultimately show thesis using that by blast
qed

text \<open>The outcome of a search: the first block of the first class from the given one on that has one.\<close>

definition found :: "(nat \<rightharpoonup> nat) \<Rightarrow> nat \<times> nat \<Rightarrow> nat option \<times> nat \<times> nat \<Rightarrow> bool" where
  "found M c r \<longleftrightarrow>
     (case r of
        (None, d) \<Rightarrow> d = c \<and> (\<forall>b n. M b = Some n \<longrightarrow> class_less (class_of n) c)
      | (Some b, d) \<Rightarrow> (\<exists>n. M b = Some n \<and> class_of n = d \<and> \<not> class_less d c) \<and>
          (\<forall>b n. M b = Some n \<longrightarrow> \<not> class_less (class_of n) c \<longrightarrow> \<not> class_less (class_of n) d))"

lemma bit_from: "bit (push_bit j (NOT 0) :: u32) i \<longleftrightarrow> j \<le> i \<and> i < 32"
  by (auto simp: bit_simps)

lemma no_bits: "(w :: u32) = 0 \<longleftrightarrow> (\<forall>i. \<not> bit w i)"
  by (auto intro: bit_word_eqI)

lemma search_finds:
  assumes "free_lists s M" "is_class c"
  obtains r where "search_suitable_block c s = (Inr r, s)" "found M c r"
proof -
  have sh: "shape s" and fo: "first_level_ok s" using assms by (simp_all add: free_lists_def)
  obtain F where F: "is_class c \<Longrightarrow> list_ok s M (F c) c" for c using assms(1) by (auto simp: free_lists_def)
  have cls: "is_class (class_of n)" if "M b = Some n" for b n
    using that assms(1) class_of_is_class by (auto simp: free_lists_def)
  have bit: "bit (sl_bitmap s ! fst d) (snd d) \<longleftrightarrow> (\<exists>b n. M b = Some n \<and> class_of n = d)" if "is_class d" for d
  proof -
    have "F d \<noteq> [] \<longleftrightarrow> (\<exists>b. b \<in> set (F d))" by (cases "F d") auto
    then show ?thesis using F [OF that] by (auto simp: list_ok_def)
  qed
  have head: "\<exists>n. M (head_at s d) = Some n \<and> class_of n = d" if "is_class d" "bit (sl_bitmap s ! fst d) (snd d)" for d
  proof -
    have "head_at s d \<in> set (F d)"
      using F [OF that(1)] that(2) dlist_head [of s "head_at s d" "F d"] by (cases "F d") (auto simp: list_ok_def)
    then show ?thesis using F [OF that(1)] by (auto simp: list_ok_def)
  qed
  have len: "fst c < length (sl_bitmap s)" using sh assms(2) by (simp add: shape_def is_class_def)
  define sl_map where "sl_map = sl_bitmap s ! fst c AND NOT (mask (snd c))"
  have sl: "bit sl_map i \<longleftrightarrow> bit (sl_bitmap s ! fst c) i \<and> snd c \<le> i" for i
    by (auto simp: sl_map_def bit_and_iff bit_from bit_not_iff bit_mask_iff dest: bit_imp_le_length)
  show thesis
  proof (cases "sl_map = 0")
    case False
    obtain i where i: "tlsf_ffs sl_map = int i" "i < 32" "bit sl_map i" "\<forall>j < i. \<not> bit sl_map j"
      using ffs_first [OF False] by blast
    let ?d = "(fst c, i)"
    have d: "is_class ?d" using assms(2) i(2) by (simp add: is_class_def tlsf_constants)
    have run: "search_suitable_block c s = (Inr (Some (head_at s ?d), ?d), s)"
      using len False i(1) list_head_run [OF sh d]
      by (simp add: search_suitable_block_def index_at_def sl_map_def [symmetric] Let_def)
    have "\<not> class_less (class_of n) ?d" if "M b = Some n" "\<not> class_less (class_of n) c" for b n
    proof
      assume l: "class_less (class_of n) ?d"
      then have "fst (class_of n) = fst c" "snd (class_of n) < i" "snd c \<le> snd (class_of n)"
        using that(2) by (auto simp: class_less_def)
      moreover have "bit (sl_bitmap s ! fst (class_of n)) (snd (class_of n))" using bit [OF cls [OF that(1)]] that(1) by blast
      ultimately show False using i(4) sl by metis
    qed
    moreover have "\<not> class_less ?d c" using i(3) sl by (simp add: class_less_def)
    moreover have "\<exists>n. M (head_at s ?d) = Some n \<and> class_of n = ?d" using head [OF d] i(3) sl by simp
    ultimately show thesis using that [OF run] by (auto simp: found_def)
  next
    case True
    have below: "fst c < fst (class_of n)" if "M b = Some n" "\<not> class_less (class_of n) c" for b n
    proof (rule ccontr)
      assume "\<not> fst c < fst (class_of n)"
      then have "fst (class_of n) = fst c" "snd c \<le> snd (class_of n)" using that(2) by (auto simp: class_less_def)
      moreover have "bit (sl_bitmap s ! fst (class_of n)) (snd (class_of n))" using bit [OF cls [OF that(1)]] that(1) by blast
      ultimately show False using True sl by (metis no_bits)
    qed
    define fl_map where "fl_map = fl_bitmap s AND NOT (mask (Suc (fst c)))"
    have fl: "bit fl_map i \<longleftrightarrow> fst c < i \<and> i < FL_INDEX_COUNT \<and> sl_bitmap s ! i \<noteq> 0" for i
    proof -
      have "FL_INDEX_COUNT \<le> 32" by (simp add: tlsf_constants)
      then have "bit fl_map i \<longleftrightarrow> bit (fl_bitmap s) i \<and> fst c < i"
        by (auto simp: fl_map_def bit_and_iff bit_not_iff bit_mask_iff dest: bit_imp_le_length)
      then show ?thesis using fo by (auto simp: first_level_ok_def)
    qed
    have up: "bit fl_map (fst (class_of n))" if "M b = Some n" "\<not> class_less (class_of n) c" for b n
    proof -
      have "bit (sl_bitmap s ! fst (class_of n)) (snd (class_of n))" using bit [OF cls [OF that(1)]] that(1) by blast
      then have "sl_bitmap s ! fst (class_of n) \<noteq> 0" by (metis no_bits)
      then show ?thesis using below [OF that] cls [OF that(1)] fl by (simp add: is_class_def)
    qed
    show thesis
    proof (cases "fl_map = 0")
      case none: True
      then have "search_suitable_block c s = (Inr (None, c), s)"
        using len True by (simp add: search_suitable_block_def index_at_def sl_map_def [symmetric] fl_map_def [symmetric] Let_def)
      moreover have "found M c (None, c)" using up none by (fastforce simp: found_def no_bits)
      ultimately show thesis using that by blast
    next
      case False
      obtain f where f: "tlsf_ffs fl_map = int f" "f < 32" "bit fl_map f" "\<forall>j < f. \<not> bit fl_map j"
        using ffs_first [OF False] by blast
      have f': "fst c < f" "f < FL_INDEX_COUNT" "sl_bitmap s ! f \<noteq> 0" using f(3) fl by simp_all
      obtain i where i: "tlsf_ffs (sl_bitmap s ! f) = int i" "i < 32" "bit (sl_bitmap s ! f) i"
        "\<forall>j < i. \<not> bit (sl_bitmap s ! f) j" using ffs_first [OF f'(3)] by blast
      let ?d = "(f, i)"
      have d: "is_class ?d" using f'(2) i(2) by (simp add: is_class_def tlsf_constants)
      have "f < length (sl_bitmap s)" using f'(2) sh by (simp add: shape_def)
      then have run: "search_suitable_block c s = (Inr (Some (head_at s ?d), ?d), s)"
        using len True False f(1) f'(3) i(1) list_head_run [OF sh d]
        by (simp add: search_suitable_block_def index_at_def sl_map_def [symmetric] fl_map_def [symmetric] Let_def)
      have "\<not> class_less (class_of n) ?d" if "M b = Some n" "\<not> class_less (class_of n) c" for b n
      proof
        assume l: "class_less (class_of n) ?d"
        have b: "bit (sl_bitmap s ! fst (class_of n)) (snd (class_of n))" using bit [OF cls [OF that(1)]] that(1) by blast
        show False
        proof (cases "fst (class_of n) < f")
          case True
          then show False using up [OF that] f(4) by blast
        next
          case False
          then have "fst (class_of n) = f" "snd (class_of n) < i" using l by (auto simp: class_less_def)
          then show False using b i(4) by metis
        qed
      qed
      moreover have "\<not> class_less ?d c" using f'(1) by (simp add: class_less_def)
      moreover have "\<exists>n. M (head_at s ?d) = Some n \<and> class_of n = ?d" using head [OF d] i(3) by simp
      ultimately show thesis using that [OF run] by (auto simp: found_def)
    qed
  qed
qed

end
