(* ===== verification/Tlsf_Pool.thy ===== *)
theory Tlsf_Pool
  imports Tlsf_Lists
begin

text \<open>
  The blocks of a pool, one behind the other, and what allocating and freeing do to them. The
  abstract state of a pool is the list of its blocks' sizes and of whether they are free.
\<close>

section \<open>Headers\<close>

definition header :: "nat \<Rightarrow> bool \<Rightarrow> bool \<Rightarrow> u64" where
  "header n f p = of_nat n OR of_bool f OR (of_bool p * 2)"

lemma bit_two: "bit (2 :: u64) i \<longleftrightarrow> i = 1" "bit (2 :: int) i \<longleftrightarrow> i = 1"
proof -
  show 2: "bit (2 :: int) i \<longleftrightarrow> i = 1" using bit_exp_iff [of 1 i, where 'a = int] by auto
  then show "bit (2 :: u64) i \<longleftrightarrow> i = 1" by auto
qed

lemma bit_header: "bit (header n f p) i \<longleftrightarrow> i < 64 \<and> (bit n i \<or> f \<and> i = 0 \<or> p \<and> i = 1)"
  by (auto simp: header_def bit_or_iff bit_two bit_of_nat_iff bit_1_iff dest: bit_imp_le_length)

lemma flag_bits: "bit block_header_free_bit i \<longleftrightarrow> i = 0" "bit block_header_prev_free_bit i \<longleftrightarrow> i = 1"
  by (auto simp: block_header_free_bit_def block_header_prev_free_bit_def bit_two bit_1_iff)

lemma aligned_bits: "8 dvd n \<Longrightarrow> \<not> bit n 0 \<and> \<not> bit n (1 :: nat)" for n :: nat
  by (auto simp: bit_iff_odd elim!: dvdE)

lemma field_size_header: "8 dvd n \<Longrightarrow> field_size (header n f p) = of_nat n"
  by (rule bit_word_eqI)
    (use aligned_bits [of n] in \<open>auto simp: field_size_def bit_and_iff bit_or_iff bit_not_iff flag_bits bit_header bit_of_nat_iff intro!: gr0I\<close>)

lemma header_flags:
  assumes "8 dvd n"
  shows "header n f p AND block_header_free_bit \<noteq> 0 \<longleftrightarrow> f" "header n f p AND block_header_prev_free_bit \<noteq> 0 \<longleftrightarrow> p"
proof -
  have w: "w \<noteq> 0 \<longleftrightarrow> (\<exists>i. bit w i)" for w :: u64 by (auto intro: bit_word_eqI)
  show "header n f p AND block_header_free_bit \<noteq> 0 \<longleftrightarrow> f" "header n f p AND block_header_prev_free_bit \<noteq> 0 \<longleftrightarrow> p"
    unfolding w bit_and_iff flag_bits using aligned_bits [OF assms] by (auto simp: bit_header)
qed

lemma header_set:
  assumes "8 dvd n"
  shows "header n f p OR block_header_free_bit = header n True p"
    "header n f p AND NOT block_header_free_bit = header n False p"
    "header n f p OR block_header_prev_free_bit = header n f True"
    "header n f p AND NOT block_header_prev_free_bit = header n f False"
  by (rule bit_word_eqI; use aligned_bits [OF assms] in \<open>auto simp: bit_and_iff bit_or_iff bit_not_iff flag_bits bit_header intro!: gr0I\<close>)+

lemma header_set_size:
  assumes "8 dvd n"
  shows "of_nat n OR (w AND (block_header_free_bit OR block_header_prev_free_bit)) = header n (bit w 0) (bit w 1)"
  by (rule bit_word_eqI) (auto simp: bit_and_iff bit_or_iff flag_bits bit_header bit_of_nat_iff)

lemma header_bits: "8 dvd n \<Longrightarrow> bit (header n f p) 0 \<longleftrightarrow> f" "8 dvd n \<Longrightarrow> bit (header n f p) 1 \<longleftrightarrow> p"
  using aligned_bits [of n] by (auto simp: bit_header)

lemma header_plus:
  assumes "8 dvd n" "8 dvd m"
  shows "header n f p + of_nat m = header (n + m) f p"
proof -
  have "header k f p = of_nat k + (of_bool f + of_bool p * 2)" if "8 dvd k" for k
  proof -
    have "(of_nat k :: u64) AND (of_bool f OR of_bool p * 2) = 0"
      by (rule bit_word_eqI) (use aligned_bits [OF that] in \<open>auto simp: bit_and_iff bit_or_iff bit_of_nat_iff bit_two bit_1_iff intro!: gr0I\<close>)
    moreover have "(of_bool f OR of_bool p * 2 :: u64) = of_bool f + of_bool p * 2" by (cases f; cases p) simp_all
    ultimately show ?thesis using disjunctive_add_eq_or [of "of_nat k :: u64" "of_bool f OR of_bool p * 2"] by (simp add: header_def)
  qed
  then show ?thesis using assms by simp
qed

section \<open>The layout of a pool\<close>

type_synonym pool = "(nat \<times> bool) list"

definition sizes_ok :: "nat \<Rightarrow> bool" where
  "sizes_ok n \<longleftrightarrow> 8 dvd n \<and> 24 \<le> n"

text \<open>The address behind the last block, and the last block when it is free.\<close>

fun after :: "nat \<Rightarrow> pool \<Rightarrow> nat" where
  "after a [] = a"
| "after a ((n, f) # bs) = after (a + 8 + n) bs"

fun last_free :: "nat option \<Rightarrow> nat \<Rightarrow> pool \<Rightarrow> nat option" where
  "last_free pf a [] = pf"
| "last_free pf a ((n, f) # bs) = last_free (if f then Some a else None) (a + 8 + n) bs"

definition header_ok :: "tlsf \<Rightarrow> nat option \<Rightarrow> nat \<Rightarrow> nat \<Rightarrow> bool \<Rightarrow> bool" where
  "header_ok s pf a n f \<longleftrightarrow>
     bsize s a = header n f (pf \<noteq> None) \<and> (\<forall>p. pf = Some p \<longrightarrow> prev_phys s a = p)"

fun seg :: "tlsf \<Rightarrow> nat option \<Rightarrow> nat \<Rightarrow> pool \<Rightarrow> bool" where
  "seg s pf a [] \<longleftrightarrow> True"
| "seg s pf a ((n, f) # bs) \<longleftrightarrow>
     header_ok s pf a n f \<and> sizes_ok n \<and> seg s (if f then Some a else None) (a + 8 + n) bs"

text \<open>A block of no size ends the pool.\<close>

definition layout :: "tlsf \<Rightarrow> nat option \<Rightarrow> nat \<Rightarrow> pool \<Rightarrow> bool" where
  "layout s pf a bs \<longleftrightarrow> seg s pf a bs \<and> header_ok s (last_free pf a bs) (after a bs) 0 False"

fun frees :: "nat \<Rightarrow> pool \<Rightarrow> nat \<rightharpoonup> nat" where
  "frees a [] = Map.empty"
| "frees a ((n, f) # bs) = (if f then (frees (a + 8 + n) bs)(a \<mapsto> n) else frees (a + 8 + n) bs)"

text \<open>
  A pool while an operation works on it: its headers are those of one list of blocks, its free
  lists those of another. Between operations the two are the same, and no two free blocks are next
  to each other.
\<close>

definition pool_state :: "tlsf \<Rightarrow> nat \<Rightarrow> pool \<Rightarrow> pool \<Rightarrow> bool" where
  "pool_state s a bs ls \<longleftrightarrow>
     layout s None a bs \<and> free_lists s (frees a ls) \<and> 8 dvd a \<and> block_null s < a \<and> after a bs < a + 2 ^ 32"

definition spread :: "pool \<Rightarrow> bool" where
  "spread bs \<longleftrightarrow> successively (\<lambda>b c. \<not> (snd b \<and> snd c)) bs"

definition pool_ok :: "tlsf \<Rightarrow> nat \<Rightarrow> pool \<Rightarrow> bool" where
  "pool_ok s a bs \<longleftrightarrow> pool_state s a bs bs \<and> spread bs"

lemma after_append [simp]: "after a (us @ vs) = after (after a us) vs"
  by (induction us arbitrary: a) auto

lemma last_free_append [simp]: "last_free pf a (us @ vs) = last_free (last_free pf a us) (after a us) vs"
  by (induction us arbitrary: a pf) auto

lemma seg_append [simp]: "seg s pf a (us @ vs) \<longleftrightarrow> seg s pf a us \<and> seg s (last_free pf a us) (after a us) vs"
  by (induction us arbitrary: a pf) auto

lemma after_le: "a \<le> after a bs"
proof (induction a bs rule: after.induct)
  case (2 a n f bs)
  then show ?case by simp
qed simp

lemma frees_range:
  assumes "frees a bs x = Some n"
  shows "a \<le> x" "x + 8 + n \<le> after a bs"
proof -
  have "a \<le> x \<and> x + 8 + n \<le> after a bs"
    using assms
  proof (induction bs arbitrary: a)
    case (Cons b bs)
    obtain m f where b: "b = (m, f)" by (cases b)
    show ?case
    proof (cases "f \<and> x = a")
      case True
      then show ?thesis using Cons.prems b after_le [of "a + 8 + m" bs] by simp
    next
      case False
      then have "frees (a + 8 + m) bs x = Some n" using Cons.prems b by (auto split: if_splits)
      from Cons.IH [OF this] show ?thesis using b by simp
    qed
  qed simp
  then show "a \<le> x" "x + 8 + n \<le> after a bs" by simp_all
qed

lemma frees_append: "frees a (us @ vs) = (\<lambda>x. if x < after a us then frees a us x else frees (after a us) vs x)"
proof (induction us arbitrary: a)
  case Nil
  have "frees a vs x = None" if "x < a" for x
    using frees_range(1) [of a vs x] that by (cases "frees a vs x") auto
  then show ?case by (auto simp: fun_eq_iff)
next
  case (Cons b us)
  obtain m f where b: "b = (m, f)" by (cases b)
  have "a < after (a + 8 + m) us" using after_le [of "a + 8 + m" us] by simp
  then show ?case using Cons.IH [of "a + 8 + m"] b by (auto simp: fun_eq_iff)
qed

lemma frees_aligned: "seg s pf a bs \<Longrightarrow> 8 dvd a \<Longrightarrow> frees a bs x = Some n \<Longrightarrow> 8 dvd x \<and> sizes_ok n"
  by (induction bs arbitrary: a pf) (auto simp: sizes_ok_def split: if_splits)

lemma seg_aligned: "seg s pf a bs \<Longrightarrow> 8 dvd a \<Longrightarrow> 8 dvd after a bs"
  by (induction bs arbitrary: a pf) (auto simp: sizes_ok_def)

text \<open>Making a block used takes it out of the free blocks.\<close>

lemma frees_mid:
  "frees a (us @ (n, f) # vs) = (frees a (us @ (n, False) # vs))(after a us := if f then Some n else None)"
proof -
  have "frees (after a us + 8 + n) vs (after a us) = None"
    using frees_range(1) [of "after a us + 8 + n" vs "after a us"] by (cases "frees (after a us + 8 + n) vs (after a us)") auto
  then show ?thesis by (auto simp: frees_append fun_eq_iff)
qed

lemma free_block_at:
  assumes "frees a bs x = Some n"
  obtains us vs where "bs = us @ (n, True) # vs" "x = after a us"
proof -
  have "\<exists>us vs. bs = us @ (n, True) # vs \<and> x = after a us"
    using assms
  proof (induction bs arbitrary: a)
    case (Cons b bs)
    obtain m f where b: "b = (m, f)" by (cases b)
    show ?case
    proof (cases "f \<and> x = a")
      case True
      then show ?thesis using Cons.prems b by (intro exI [of _ "[]"] exI [of _ bs]) simp
    next
      case False
      then have "frees (a + 8 + m) bs x = Some n" using Cons.prems b by (auto split: if_splits)
      from Cons.IH [OF this] obtain us vs where "bs = us @ (n, True) # vs" "x = after (a + 8 + m) us" by blast
      then have "b # bs = ((m, f) # us) @ (n, True) # vs" "x = after a ((m, f) # us)" using b by simp_all
      then show ?thesis by blast
    qed
  qed simp
  then show thesis using that by blast
qed

lemma seg_frame:
  assumes "seg s pf a bs" "\<forall>x. a \<le> x \<longrightarrow> x < after a bs \<longrightarrow> bsize t x = bsize s x \<and> prev_phys t x = prev_phys s x"
  shows "seg t pf a bs"
  using assms
proof (induction bs arbitrary: a pf)
  case (Cons b bs)
  obtain m f where b: "b = (m, f)" by (cases b)
  have "a < after (a + 8 + m) bs" using after_le [of "a + 8 + m" bs] by simp
  then show ?case using Cons b by (auto simp: header_ok_def)
qed simp

text \<open>The header a list of blocks starts with, which may be that of the end.\<close>

definition first_block :: "pool \<Rightarrow> nat \<times> bool" where
  "first_block vs = (case vs of [] \<Rightarrow> (0, False) | b # _ \<Rightarrow> b)"

lemma layout_first: "layout s pf a vs \<Longrightarrow> header_ok s pf a (fst (first_block vs)) (snd (first_block vs))"
  by (cases vs) (auto simp: layout_def first_block_def)

lemma first_block_aligned: "layout s pf a vs \<Longrightarrow> 8 dvd fst (first_block vs)"
  by (cases vs) (auto simp: layout_def first_block_def sizes_ok_def)

lemma layout_behind:
  assumes "layout s pf a vs" "header_ok t pf' a (fst (first_block vs)) (snd (first_block vs))"
    and "\<forall>x > a. bsize t x = bsize s x \<and> prev_phys t x = prev_phys s x"
  shows "layout t pf' a vs"
proof (cases vs)
  case Nil
  then show ?thesis using assms by (simp add: layout_def first_block_def)
next
  case (Cons b bs)
  obtain m f where b: "b = (m, f)" by (cases b)
  have "seg t (if f then Some a else None) (a + 8 + m) bs"
    using seg_frame [of s _ "a + 8 + m" bs t] assms(1,3) Cons b by (simp add: layout_def)
  then show ?thesis
    using assms Cons b after_le [of "a + 8 + m" bs] by (auto simp: layout_def first_block_def header_ok_def)
qed

text \<open>Replacing blocks in the middle of a pool by others that take up the same room.\<close>

lemma layout_replace:
  assumes "layout s None a (us @ mid @ vs)" "c = after (after a us) mid" "after (after a us) mid' = c" "mid' \<noteq> []"
    and "seg t (last_free None a us) (after a us) mid'"
    and "header_ok t (last_free (last_free None a us) (after a us) mid') c (fst (first_block vs)) (snd (first_block vs))"
    and "\<forall>x. x < after a us \<or> c < x \<longrightarrow> bsize t x = bsize s x \<and> prev_phys t x = prev_phys s x"
  shows "layout t None a (us @ mid' @ vs)"
proof -
  have "seg t None a us" using seg_frame [of s None a us t] assms(1,7) by (simp add: layout_def)
  moreover have "layout s (last_free (last_free None a us) (after a us) mid) c vs" using assms(1,2) by (simp add: layout_def)
  from layout_behind [OF this assms(6)] have "layout t (last_free (last_free None a us) (after a us) mid') c vs"
    using assms(7) by simp
  ultimately show ?thesis using assms(3,5) by (simp add: layout_def)
qed

section \<open>Operations on headers\<close>

definition same_lists :: "tlsf \<Rightarrow> tlsf \<Rightarrow> bool" where
  "same_lists s t \<longleftrightarrow> block_null t = block_null s \<and> fl_bitmap t = fl_bitmap s \<and> sl_bitmap t = sl_bitmap s \<and>
     blocks t = blocks s \<and> next_free t = next_free s \<and> prev_free t = prev_free s"

lemma free_lists_cong:
  assumes "free_lists s M" "same_lists s t"
  shows "free_lists t M"
proof -
  have "dseg t p x xs q y \<longleftrightarrow> dseg s p x xs q y" for p x xs q y
    using assms(2) by (intro dseg_frame) (simp add: same_lists_def)
  then have "dlist t x xs \<longleftrightarrow> dlist s x xs" for x xs using assms(2) by (simp add: dlist_def same_lists_def)
  then show ?thesis
    using assms by (simp add: free_lists_def list_ok_def shape_def first_level_ok_def same_lists_def)
qed

lemma of_nat_u64:
  assumes "n < 2 ^ 63"
  shows "uint (of_nat n :: u64) = int n" "unat (of_nat n :: u64) = n"
  using assms by (simp_all add: uint_nat unat_u64_of_nat)

lemma of_nat_le: "n < 2 ^ 63 \<Longrightarrow> m < 2 ^ 63 \<Longrightarrow> (of_nat n :: u64) \<le> of_nat m \<longleftrightarrow> n \<le> m"
  by (simp add: word_le_nat_alt of_nat_u64)

lemma header_reads:
  assumes "bsize s b = header n f p" "8 dvd n"
  shows "block_size b s = of_nat n" "block_is_free b s \<longleftrightarrow> f" "block_is_prev_free b s \<longleftrightarrow> p"
  using assms by (simp_all add: block_size_def block_is_free_def block_is_prev_free_def field_size_header header_flags)

lemma update_field_run: "update_field f b s = (Inr (), s\<lparr>bsize := (bsize s)(b := f (bsize s b))\<rparr>)"
  by (simp add: update_field_def)

lemma block_next_run:
  assumes "bsize s b = header n f p" "8 dvd n" "0 < n" "n < 2 ^ 63"
  shows "block_next b s = (Inr (b + 8 + n), s)"
proof -
  have "(of_nat n :: u64) \<noteq> 0" using of_nat_u64 [OF assms(4)] assms(3) by auto
  then show ?thesis
    using header_reads [OF assms(1,2)] of_nat_u64 [OF assms(4)]
    by (simp add: block_next_def offset_to_block_def block_to_ptr_def block_start_offset_def block_header_overhead_def
        block_is_last_def)
qed

lemma block_link_next_run:
  assumes "bsize s b = header n f p" "8 dvd n" "0 < n" "n < 2 ^ 63"
  shows "block_link_next b s = (Inr (b + 8 + n), s\<lparr>prev_phys := (prev_phys s)(b + 8 + n := b)\<rparr>)"
  using block_next_run [OF assms] by (simp add: block_link_next_def)

lemma mark_as_free_run:
  assumes "bsize s b = header n f p" "8 dvd n" "0 < n" "n < 2 ^ 63" "c = b + 8 + n" "bsize s c = header m g q" "8 dvd m"
  shows "block_mark_as_free b s =
     (Inr (), s\<lparr>prev_phys := (prev_phys s)(c := b), bsize := (bsize s)(c := header m g True, b := header n True p)\<rparr>)"
  using block_link_next_run [OF assms(1-4)] assms
  by (simp add: block_mark_as_free_def block_set_prev_free_def block_set_free_def update_field_run header_set)

lemma mark_as_used_run:
  assumes "bsize s b = header n f p" "8 dvd n" "0 < n" "n < 2 ^ 63" "c = b + 8 + n" "bsize s c = header m g q" "8 dvd m"
  shows "block_mark_as_used b s =
     (Inr (), s\<lparr>bsize := (bsize s)(c := header m g False, b := header n False p)\<rparr>)"
  using block_next_run [OF assms(1-4)] assms
  by (simp add: block_mark_as_used_def block_set_prev_used_def block_set_used_def update_field_run header_set)

lemma block_split_run:
  assumes "bsize s b = header n f p" "8 dvd n" "n < 2 ^ 63" "c = b + 8 + n" "bsize s c = header m g q" "8 dvd m"
    and "8 dvd k" "k + 32 \<le> n" "8 dvd b" "r = b + 8 + k"
  shows "\<exists>h. block_split b (of_nat k) s = (Inr r, s\<lparr>prev_phys := (prev_phys s)(c := r),
     bsize := (bsize s)(b := header k f p, c := header m g True, r := header (n - k - 8) True h)\<rparr>)"
proof -
  let ?n = "n - k - 8"
  have rem: "offset_to_block (block_to_ptr b) (uint (of_nat k :: u64) - uint block_header_overhead) = r"
    using assms(3,8,10)
    by (simp add: of_nat_u64 offset_to_block_def block_to_ptr_def block_start_offset_def block_header_overhead_def)
  have n8: "8 dvd ?n" using assms(2,7) by simp
  have ne: "r \<noteq> b" "r \<noteq> c" "b \<noteq> c" using assms(4,8,10) by auto
  have rs: "of_nat n - (of_nat k + block_header_overhead) = (of_nat ?n :: u64)"
    using assms(8) by (simp add: block_header_overhead_def of_nat_diff)
  have "8 dvd r + 16" using assms(7,9,10) by simp
  then have al: "block_to_ptr r = align_ptr (block_to_ptr r) (unat ALIGN_SIZE)"
    by (auto simp: block_to_ptr_def align_ptr_def block_start_offset_def tlsf_constants push_bit_eq_mult)
  have min: "block_size_min \<le> of_nat ?n"
    using of_nat_le [of 24 ?n] assms(3,8) by (simp add: block_size_min_def block_header_size_def)
  define h where "h = bit (bsize s r) 1"
  define s1 where "s1 = s\<lparr>bsize := (bsize s)(r := header ?n (bit (bsize s r) 0) h)\<rparr>"
  have 1: "block_set_size r (of_nat ?n) s = (Inr (), s1)"
    using header_set_size [OF n8] by (simp add: block_set_size_def update_field_run s1_def h_def)
  have r1: "block_size r s1 = of_nat ?n" using n8 by (intro header_reads) (simp add: s1_def)
  define s2 where "s2 = s1\<lparr>bsize := (bsize s1)(b := header k f p)\<rparr>"
  have 2: "block_set_size b (of_nat k) s1 = (Inr (), s2)"
    using header_set_size [OF assms(7), of "bsize s b"] assms(1,2) ne header_bits [OF assms(2), of f p]
    by (simp add: block_set_size_def update_field_run s2_def s1_def)
  have "block_mark_as_free r s2 = (Inr (), s2\<lparr>prev_phys := (prev_phys s2)(c := r),
      bsize := (bsize s2)(c := header m g True, r := header ?n True h)\<rparr>)"
    by (rule mark_as_free_run [where q = q and f = "bit (bsize s r) 0"]) (use assms ne n8 in \<open>auto simp: s2_def s1_def\<close>)
  moreover have "s2\<lparr>prev_phys := (prev_phys s2)(c := r), bsize := (bsize s2)(c := header m g True, r := header ?n True h)\<rparr> =
      s\<lparr>prev_phys := (prev_phys s)(c := r), bsize := (bsize s)(b := header k f p, c := header m g True, r := header ?n True h)\<rparr>"
    using ne by (auto simp: s2_def s1_def fun_upd_twist fun_eq_iff)
  ultimately have 3: "block_mark_as_free r s2 = (Inr (), s\<lparr>prev_phys := (prev_phys s)(c := r),
      bsize := (bsize s)(b := header k f p, c := header m g True, r := header ?n True h)\<rparr>)" by simp
  have b0: "block_size b s = of_nat n" using header_reads [OF assms(1,2)] by simp
  have sz: "(of_nat n :: u64) = of_nat ?n + of_nat k + block_header_overhead"
    using rs by (simp add: block_header_overhead_def algebra_simps)
  have "block_split b (of_nat k) s = (Inr r, s\<lparr>prev_phys := (prev_phys s)(c := r),
      bsize := (bsize s)(b := header k f p, c := header m g True, r := header ?n True h)\<rparr>)"
    unfolding block_split_def Let_def rem using al 1 2 3 r1 min assert_run [OF sz, of "''block sizes''" s]
    by (simp add: b0 rs)
  then show ?thesis by blast
qed

section \<open>Operations on the layout\<close>

lemma layout_mid:
  assumes "layout s None a (us @ (n, f) # vs)" "b = after a us" "c = b + 8 + n"
    and "(m, g) = first_block vs"
  shows "header_ok s (last_free None a us) b n f" "sizes_ok n" "header_ok s (if f then Some b else None) c m g" "8 dvd m"
    "bsize s c = header m g f"
proof -
  have l: "layout s (if f then Some b else None) c vs" using assms(1-3) by (cases f) (simp_all add: layout_def)
  show "header_ok s (if f then Some b else None) c m g" "8 dvd m"
    using layout_first [OF l] first_block_aligned [OF l] assms(4) by (metis fst_conv snd_conv)+
  then show "bsize s c = header m g f" by (auto simp: header_ok_def)
  show "header_ok s (last_free None a us) b n f" "sizes_ok n" using assms(1,2) by (simp_all add: layout_def)
qed

text \<open>One block is replaced by others: only the headers between it and the next change.\<close>

lemma layout_mid_replace:
  assumes "layout s None a (us @ (n, f) # vs)" "b = after a us" "c = b + 8 + n" "(m, g) = first_block vs"
    and "after b mid' = c" "mid' \<noteq> []" "seg t (last_free None a us) b mid'"
    and "header_ok t (last_free (last_free None a us) b mid') c m g"
    and "\<forall>x. x < b \<or> c < x \<longrightarrow> bsize t x = bsize s x \<and> prev_phys t x = prev_phys s x"
  shows "layout t None a (us @ mid' @ vs)"
  using layout_replace [of s a us "[(n, f)]" vs c mid' t] assms(1-3,5-9) arg_cong [OF assms(4), of fst] arg_cong [OF assms(4), of snd]
  by simp

lemma lay_used:
  assumes "layout s None a (us @ (n, f) # vs)" "n < 2 ^ 63"
  shows "\<exists>t. block_mark_as_used (after a us) s = (Inr (), t) \<and> layout t None a (us @ (n, False) # vs) \<and> same_lists s t"
proof -
  define b where "b = after a us"
  define c where "c = b + 8 + n"
  obtain m g where mg: "(m, g) = first_block vs" by (metis surj_pair)
  note l = layout_mid [OF assms(1) b_def c_def mg]
  let ?p = "last_free None a us \<noteq> None"
  define t where "t = s\<lparr>bsize := (bsize s)(c := header m g False, b := header n False ?p)\<rparr>"
  have "block_mark_as_used b s = (Inr (), t)"
    using mark_as_used_run [of s b n f ?p c m g f] l assms(2) by (simp add: header_ok_def sizes_ok_def t_def c_def)
  moreover have "layout t None a (us @ [(n, False)] @ vs)"
    by (rule layout_mid_replace [OF assms(1) b_def c_def mg])
      (use l in \<open>auto simp: t_def header_ok_def c_def\<close>)
  ultimately show ?thesis by (auto simp: b_def same_lists_def t_def)
qed

lemma lay_free:
  assumes "layout s None a (us @ (n, f) # vs)" "n < 2 ^ 63"
  shows "\<exists>t. block_mark_as_free (after a us) s = (Inr (), t) \<and> layout t None a (us @ (n, True) # vs) \<and> same_lists s t"
proof -
  define b where "b = after a us"
  define c where "c = b + 8 + n"
  obtain m g where mg: "(m, g) = first_block vs" by (metis surj_pair)
  note l = layout_mid [OF assms(1) b_def c_def mg]
  let ?p = "last_free None a us \<noteq> None"
  define t where "t = s\<lparr>prev_phys := (prev_phys s)(c := b), bsize := (bsize s)(c := header m g True, b := header n True ?p)\<rparr>"
  have "block_mark_as_free b s = (Inr (), t)"
    using mark_as_free_run [of s b n f ?p c m g f] l assms(2) by (simp add: header_ok_def sizes_ok_def t_def c_def)
  moreover have "layout t None a (us @ [(n, True)] @ vs)"
    by (rule layout_mid_replace [OF assms(1) b_def c_def mg])
      (use l in \<open>auto simp: t_def header_ok_def c_def\<close>)
  ultimately show ?thesis by (auto simp: b_def same_lists_def t_def)
qed

lemma lay_absorb:
  assumes "layout s None a (us @ (n, f) # (k, f) # vs)" "n + 8 + k < 2 ^ 63"
  shows "\<exists>t. block_absorb (after a us) (after a us + 8 + n) s = (Inr (after a us), t) \<and>
     layout t None a (us @ (n + 8 + k, f) # vs) \<and> same_lists s t"
proof -
  define b where "b = after a us"
  define d where "d = b + 8 + n"
  define c where "c = b + 8 + (n + 8 + k)"
  let ?p = "last_free None a us"
  have ls: "layout s (if f then Some d else None) c vs" "header_ok s ?p b n f" "sizes_ok n" "sizes_ok k"
    "header_ok s (if f then Some b else None) d k f"
    using assms(1) by (cases f; simp add: layout_def b_def d_def c_def ac_simps)+
  obtain m g where mg: "(m, g) = first_block vs" by (metis surj_pair)
  have m: "header_ok s (if f then Some d else None) c m g" "8 dvd m"
    using layout_first [OF ls(1)] first_block_aligned [OF ls(1)] mg by (metis fst_conv snd_conv)+
  have n8: "8 dvd n" "8 dvd k" "0 < n" "24 \<le> n" "8 dvd n + 8 + k" using ls(3,4) by (auto simp: sizes_ok_def intro!: dvd_add)
  define s1 where "s1 = s\<lparr>bsize := (bsize s)(b := header (n + 8 + k) f (?p \<noteq> None))\<rparr>"
  define t where "t = s1\<lparr>prev_phys := (prev_phys s1)(c := b)\<rparr>"
  have rd: "block_size d s = of_nat k" using header_reads [of s d k] ls(5) n8 by (simp add: header_ok_def)
  have last: "\<not> block_is_last b s"
    using header_reads [of s b n] ls(2) n8 of_nat_u64(2) [of n] assms(2)
    by (auto simp: header_ok_def block_is_last_def)
  have plus: "header n f p + (of_nat k + block_header_overhead) = header (n + 8 + k) f p" for p
  proof -
    have "(of_nat k + block_header_overhead :: u64) = of_nat (8 + k)" by (simp add: block_header_overhead_def)
    moreover have "8 dvd 8 + k" using n8 by simp
    ultimately show ?thesis by (simp only: header_plus [OF n8(1)] add.assoc)
  qed
  have upd: "update_field (\<lambda>f. f + (of_nat k + block_header_overhead)) b s = (Inr (), s1)"
    using ls(2) plus by (simp add: update_field_run s1_def header_ok_def)
  have link: "block_link_next b s1 = (Inr c, t)"
    using block_link_next_run [of s1 b "n + 8 + k" f "?p \<noteq> None"] n8 assms(2)
    by (simp add: s1_def t_def c_def)
  have "block_absorb b d s = (Inr b, t)"
    using last rd upd link by (simp add: block_absorb_def)
  moreover have "layout t None a (us @ [(n + 8 + k, f)] @ vs)"
  proof (rule layout_replace [where mid = "[(n, f), (k, f)]" and c = c])
    show "header_ok t (last_free (last_free None a us) (after a us) [(n + 8 + k, f)]) c (fst (first_block vs)) (snd (first_block vs))"
      using m mg [symmetric] by (auto simp: t_def s1_def header_ok_def b_def c_def)
  qed (use assms(1) ls n8 in \<open>auto simp: t_def s1_def header_ok_def b_def c_def d_def sizes_ok_def\<close>)
  ultimately show ?thesis by (auto simp: b_def d_def same_lists_def t_def s1_def)
qed

text \<open>Splitting: the two blocks' headers, the flag of the second that of the block before it still to be set.\<close>

lemma lay_split:
  assumes "layout s None a (us @ (n, f) # vs)" "8 dvd a" "n < 2 ^ 63" "sizes_ok k" "k + 32 \<le> n"
    and "b = after a us" "r = b + 8 + k"
  shows "\<exists>t. block_split b (of_nat k) s = (Inr r, t) \<and> same_lists s t \<and> block_null t = block_null s \<and>
     bsize t b = header k f (last_free None a us \<noteq> None) \<and> (\<exists>h. bsize t r = header (n - k - 8) True h) \<and>
     (\<forall>t'. same_lists t t' \<longrightarrow> bsize t' = (bsize t)(r := header (n - k - 8) True f) \<longrightarrow>
        prev_phys t' = (if f then (prev_phys t)(r := b) else prev_phys t) \<longrightarrow>
        layout t' None a (us @ (k, f) # (n - k - 8, True) # vs))"
proof -
  define c where "c = b + 8 + n"
  obtain m g where mg: "(m, g) = first_block vs" by (metis surj_pair)
  note l = layout_mid [OF assms(1,6) c_def mg]
  let ?p = "last_free None a us \<noteq> None" and ?n = "n - k - 8"
  have "8 dvd b" using seg_aligned [of s None a us] assms(1,2,6) by (simp add: layout_def)
  then obtain h where h: "block_split b (of_nat k) s = (Inr r, s\<lparr>prev_phys := (prev_phys s)(c := r),
      bsize := (bsize s)(b := header k f ?p, c := header m g True, r := header ?n True h)\<rparr>)"
    using block_split_run [of s b n f ?p c m g f k r] l(1,2,4,5) assms(3-5,7) by (auto simp: header_ok_def sizes_ok_def c_def)
  define t where "t = s\<lparr>prev_phys := (prev_phys s)(c := r),
      bsize := (bsize s)(b := header k f ?p, c := header m g True, r := header ?n True h)\<rparr>"
  have ne: "b \<noteq> c" "b \<noteq> r" "r \<noteq> c" "b < r" "r < c" using assms(5,7) by (auto simp: c_def)
  have "layout t' None a (us @ [(k, f), (?n, True)] @ vs)"
    if "bsize t' = (bsize t)(r := header ?n True f)"
      "prev_phys t' = (if f then (prev_phys t)(r := b) else prev_phys t)" for t'
  proof (rule layout_mid_replace [OF assms(1,6) c_def mg])
    have "sizes_ok ?n" using l(2) assms(4,5) by (auto simp: sizes_ok_def)
    then show "seg t' (last_free None a us) b [(k, f), (?n, True)]"
      using l(1) that ne assms(4,7) by (auto simp: header_ok_def t_def)
  qed (use that ne assms(5,7) in \<open>auto simp: header_ok_def t_def c_def\<close>)
  then show ?thesis using h ne by (intro exI [of _ t]) (auto simp: t_def same_lists_def)
qed

end
