(* ===== verification/Tlsf_Alloc.thy ===== *)
theory Tlsf_Alloc
  imports Tlsf_Pool
begin

text \<open>
  Allocating and freeing in a pool of the allocator (\<open>tlsf/tlsf.c\<close>): \<open>tlsf_malloc\<close> and \<open>tlsf_free\<close>
  refine operations on the list of blocks.
\<close>

section \<open>Steps on a pool\<close>

lemma layout_same:
  assumes "layout s pf a bs" "same_layout s t"
  shows "layout t pf a bs"
proof -
  have "header_ok t p x n f \<longleftrightarrow> header_ok s p x n f" for p x n f using assms(2) by (simp add: header_ok_def same_layout_def)
  moreover have "seg t pf a bs" using seg_frame [of s pf a bs t] assms by (simp add: layout_def same_layout_def)
  ultimately show ?thesis using assms(1) by (simp add: layout_def)
qed

lemma frees_at: "frees a (us @ (n, f) # vs) (after a us) = (if f then Some n else None)"
  by (subst frees_mid) simp

lemma frees_used: "(frees a (us @ (n, True) # vs))(after a us := None) = frees a (us @ (n, False) # vs)"
  using frees_at [of a us n False vs] by (subst frees_mid) (simp add: fun_upd_idem)

lemma frees_free: "(frees a (us @ (n, False) # vs))(after a us \<mapsto> n) = frees a (us @ (n, True) # vs)"
  by (subst (2) frees_mid) simp

lemma frees_split: "frees a (us @ (k + 8 + m, False) # vs) = frees a (us @ (k, False) # (m, False) # vs)"
  by (simp add: frees_append fun_eq_iff ac_simps)

lemma pool_state_bounds:
  assumes "pool_state s a bs ls" "bs = us @ (n, f) # vs"
  shows "n < 2 ^ 32" "sizes_ok n" "8 dvd after a us" "a \<le> after a us" "block_null s < after a us"
    "bsize s (after a us) = header n f (last_free None a us \<noteq> None)"
proof -
  have l: "layout s None a (us @ (n, f) # vs)" and b: "after a bs < a + 2 ^ 32" "8 dvd a" "block_null s < a"
    using assms by (simp_all add: pool_state_def)
  show "sizes_ok n" "8 dvd after a us" "bsize s (after a us) = header n f (last_free None a us \<noteq> None)"
    using l seg_aligned [of s None a us] b(2) by (simp_all add: layout_def header_ok_def)
  show a: "a \<le> after a us" by (rule after_le)
  then show "block_null s < after a us" using b(3) by simp
  show "n < 2 ^ 32" using after_le [of "after a us + 8 + n" vs] b(1) a assms(2) by simp
qed

lemma pool_state_reads:
  assumes "pool_state s a (us @ (n, f) # vs) ls"
  shows "block_size (after a us) s = of_nat n" "block_is_free (after a us) s \<longleftrightarrow> f"
    "block_is_prev_free (after a us) s \<longleftrightarrow> last_free None a us \<noteq> None"
  using header_reads [OF pool_state_bounds(6) [OF assms refl]] pool_state_bounds(2) [OF assms refl]
  by (simp_all add: sizes_ok_def)

text \<open>What is read of the header behind a block.\<close>

lemma next_reads:
  assumes "pool_state s a (us @ (n, f) # vs) ls"
  shows "block_size (after a us + 8 + n) s = of_nat (fst (first_block vs))"
    "block_is_free (after a us + 8 + n) s \<longleftrightarrow> snd (first_block vs)"
proof -
  have l: "layout s None a (us @ (n, f) # vs)" using assms by (simp add: pool_state_def)
  note m = layout_mid [OF l refl refl prod.collapse]
  show "block_size (after a us + 8 + n) s = of_nat (fst (first_block vs))"
    "block_is_free (after a us + 8 + n) s \<longleftrightarrow> snd (first_block vs)"
    using header_reads [OF m(5,4)] by simp_all
qed

lemma pool_state_remove:
  assumes "pool_state s a bs (us @ (n, True) # vs)"
  shows "\<exists>t. remove_free_block (after a us) (class_of n) s = (Inr (), t) \<and> pool_state t a bs (us @ (n, False) # vs)"
proof -
  obtain t where t: "remove_free_block (after a us) (class_of n) s = (Inr (), t)"
    "free_lists t ((frees a (us @ (n, True) # vs))(after a us := None))" "same_layout s t"
    using remove_free_block_keeps [of s "frees a (us @ (n, True) # vs)" "after a us" n] assms frees_at
    by (auto simp: pool_state_def)
  then show ?thesis
    using assms layout_same by (auto simp: pool_state_def frees_used same_layout_def)
qed

lemma pool_state_insert:
  assumes "pool_state s a bs (us @ (n, False) # vs)" "n < 2 ^ 32" "8 dvd after a us"
  shows "\<exists>t. insert_free_block (after a us) (class_of n) s = (Inr (), t) \<and> pool_state t a bs (us @ (n, True) # vs)"
proof -
  have "after a us \<noteq> 0" "after a us \<noteq> block_null s" using assms(1) after_le [of a us] by (auto simp: pool_state_def)
  then obtain t where t: "insert_free_block (after a us) (class_of n) s = (Inr (), t)"
    "free_lists t ((frees a (us @ (n, False) # vs))(after a us \<mapsto> n))" "same_layout s t"
    using insert_free_block_keeps [of s "frees a (us @ (n, False) # vs)" "after a us" n] assms frees_at
    by (auto simp: pool_state_def)
  then show ?thesis
    using assms layout_same by (auto simp: pool_state_def frees_free same_layout_def)
qed

lemma block_remove_run:
  assumes "pool_state s a (us' @ (n, f) # vs') (us @ (n, True) # vs)" "after a us' = after a us"
  shows "\<exists>t. block_remove (after a us) s = (Inr (), t) \<and> pool_state t a (us' @ (n, f) # vs') (us @ (n, False) # vs)"
  using pool_state_reads(1) [OF assms(1)] pool_state_remove [OF assms(1)] assms(2)
  by (simp add: block_remove_def class_of_def)

lemma block_insert_run:
  assumes "pool_state s a (us @ (n, True) # vs) (us @ (n, False) # vs)"
  shows "\<exists>t. block_insert (after a us) s = (Inr (), t) \<and> pool_state t a (us @ (n, True) # vs) (us @ (n, True) # vs)"
  using pool_state_reads(1) [OF assms(1)] pool_state_insert [OF assms] pool_state_bounds(1,3) [OF assms refl]
  by (simp add: block_insert_def class_of_def)

text \<open>Changes of the layout leave the free lists as they are.\<close>

lemma pool_state_relay:
  assumes "pool_state s a bs ls" "layout t None a bs'" "same_lists s t" "after a bs' = after a bs" "frees a ls' = frees a ls"
  shows "pool_state t a bs' ls'"
  using assms free_lists_cong by (auto simp: pool_state_def same_lists_def)

section \<open>Allocating\<close>

text \<open>What is made of a free block when as much as \<open>k\<close> of it is used.\<close>

definition carve :: "bool \<Rightarrow> nat \<Rightarrow> nat \<Rightarrow> pool" where
  "carve f k m = (if k + 32 \<le> m then [(k, f), (m - k - 8, True)] else [(m, f)])"

lemma can_split:
  assumes "block_size b s = of_nat m" "m < 2 ^ 32" "k < 2 ^ 32"
  shows "block_can_split b (of_nat k) s \<longleftrightarrow> k + 32 \<le> m"
proof -
  have "block_header_size + of_nat k = (of_nat (k + 32) :: u64)" by (simp add: block_header_size_def)
  then show ?thesis using assms of_nat_le [of "k + 32" m] unfolding block_can_split_def by (simp del: of_nat_add)
qed

lemma same_lists_trans: "same_lists s t \<Longrightarrow> same_lists t u \<Longrightarrow> same_lists s u"
  by (simp add: same_lists_def)

lemma trim_free_run:
  assumes "pool_state s a (us @ (m, True) # vs) (us @ (m, False) # vs)" "sizes_ok k" "k \<le> m"
  shows "\<exists>t. block_trim_free (after a us) (of_nat k) s = (Inr (), t) \<and>
     pool_state t a (us @ carve True k m @ vs) (us @ carve False k m @ vs)"
proof -
  note b = pool_state_bounds [OF assms(1) refl] and rd = pool_state_reads [OF assms(1)]
  have can: "block_can_split (after a us) (of_nat k) s \<longleftrightarrow> k + 32 \<le> m"
    using can_split [OF rd(1) b(1)] assms(3) b(1) by simp
  show ?thesis
  proof (cases "k + 32 \<le> m")
    case False
    then show ?thesis using assms(1) rd(2) can by (auto simp: block_trim_free_def carve_def)
  next
    case True
    let ?b = "after a us" and ?n = "m - k - 8"
    let ?r = "?b + 8 + k"
    have l: "layout s None a (us @ (m, True) # vs)" "8 dvd a" using assms(1) by (simp_all add: pool_state_def)
    obtain t h where t: "block_split ?b (of_nat k) s = (Inr ?r, t)" "same_lists s t"
      "bsize t ?b = header k True (last_free None a us \<noteq> None)" "bsize t ?r = header ?n True h"
      "\<And>t'. same_lists t t' \<Longrightarrow> bsize t' = (bsize t)(?r := header ?n True True) \<Longrightarrow>
        prev_phys t' = (prev_phys t)(?r := ?b) \<Longrightarrow> layout t' None a (us @ (k, True) # (?n, True) # vs)"
      using lay_split [OF l _ assms(2) True, of ?b ?r] b(1) by auto
    define t' where "t' = t\<lparr>prev_phys := (prev_phys t)(?r := ?b), bsize := (bsize t)(?r := header ?n True True)\<rparr>"
    have k: "8 dvd k" "0 < k" "k < 2 ^ 63" "8 dvd ?n" "?n < 2 ^ 32" using assms(2) b(1,2) True by (auto simp: sizes_ok_def)
    have run: "block_link_next ?b t = (Inr ?r, t\<lparr>prev_phys := (prev_phys t)(?r := ?b)\<rparr>)"
      "block_set_prev_free ?r (t\<lparr>prev_phys := (prev_phys t)(?r := ?b)\<rparr>) = (Inr (), t')"
      using block_link_next_run [OF t(3) k(1-3)] t(4) header_set(3) [OF k(4)]
      by (simp_all add: block_set_prev_free_def update_field_run t'_def)
    have st: "same_lists s t'" using t(2) by (simp add: same_lists_def t'_def)
    have "same_lists t t'" by (simp add: same_lists_def t'_def)
    then have lay: "layout t' None a (us @ (k, True) # (?n, True) # vs)" by (rule t(5)) (simp_all add: t'_def)
    have m: "m = k + 8 + ?n" using True by simp
    have "pool_state t' a (us @ (k, True) # (?n, True) # vs) (us @ (k, False) # (?n, False) # vs)"
    proof (rule pool_state_relay [OF assms(1) lay st])
      show "frees a (us @ (k, False) # (?n, False) # vs) = frees a (us @ (m, False) # vs)"
        by (subst (2) m) (rule frees_split [symmetric])
    qed (use True in \<open>simp add: ac_simps\<close>)
    then have ps: "pool_state t' a ((us @ [(k, True)]) @ (?n, True) # vs) ((us @ [(k, False)]) @ (?n, False) # vs)" by simp
    obtain t'' where t'': "insert_free_block ?r (class_of ?n) t' = (Inr (), t'')"
      "pool_state t'' a ((us @ [(k, True)]) @ (?n, True) # vs) ((us @ [(k, False)]) @ (?n, True) # vs)"
      using pool_state_insert [OF ps k(5)] b(3) k(1) by auto
    have "block_insert ?r t' = (Inr (), t'')"
      using t''(1) header_reads(1) [of t' ?r ?n True True] k(4) by (simp add: block_insert_def t'_def class_of_def)
    then have "block_trim_free ?b (of_nat k) s = (Inr (), t'')"
      using rd(2) can True t(1) run by (simp add: block_trim_free_def)
    then show ?thesis using t''(2) True by (auto simp: carve_def)
  qed
qed

text \<open>The size a request is rounded up to.\<close>

definition request_size :: "nat \<Rightarrow> nat" where
  "request_size n = max 24 ((n + 7) div 8 * 8)"

lemma request_size_ok: "sizes_ok (request_size n)" "n \<le> request_size n"
  by (auto simp: request_size_def sizes_ok_def max_def)

lemma request_size_le: "n \<le> 2 ^ 31 \<Longrightarrow> request_size n \<le> 2 ^ 31"
  by (simp add: request_size_def)

lemma align_up_8:
  assumes "n < 2 ^ 32"
  shows "align_up (of_nat n) ALIGN_SIZE = of_nat ((n + 7) div 8 * 8)"
proof -
  have "w AND NOT (mask 3) = push_bit 3 (drop_bit 3 w)" for w :: u64
    by (rule bit_word_eqI) (auto simp only: bit_and_iff bit_not_iff bit_mask_iff bit_push_bit_iff bit_drop_bit_eq possible_bit_word o_def le_add_diff_inverse)
  moreover have "drop_bit 3 (of_nat (n + 7) :: u64) = of_nat ((n + 7) div 8)"
  proof -
    have "unat (drop_bit 3 (of_nat (n + 7) :: u64)) = drop_bit 3 (unat (of_nat (n + 7) :: u64))" by (rule unat_drop_bit_eq)
    also have "\<dots> = (n + 7) div 8" using assms of_nat_u64(2) [of "n + 7"] by (simp del: of_nat_add add: drop_bit_eq_div)
    also have "\<dots> = unat (of_nat ((n + 7) div 8) :: u64)" using assms of_nat_u64(2) [of "(n + 7) div 8"] by simp
    finally show ?thesis by (simp only: word_unat_eq_iff)
  qed
  moreover have "ALIGN_SIZE - 1 = mask 3" "(of_nat n + mask 3 :: u64) = of_nat (n + 7)"
    by (simp_all add: tlsf_constants push_bit_eq_mult mask_eq_exp_minus_1)
  moreover have "push_bit 3 (of_nat ((n + 7) div 8) :: u64) = of_nat ((n + 7) div 8 * 8)" by (simp add: push_bit_eq_mult)
  ultimately show ?thesis by (simp only: align_up_def)
qed

lemma adjust_request:
  assumes "0 < n" "n < 2 ^ 32"
  shows "adjust_request_size (of_nat n) ALIGN_SIZE = of_nat (request_size n)"
proof -
  let ?a = "(n + 7) div 8 * 8"
  have "?a < 2 ^ 33" using assms(2) by (simp, linarith?)
  then have "max (of_nat ?a) (of_nat 24) = (of_nat (max 24 ?a) :: u64)"
    using of_nat_le [of ?a 24] by (auto simp: max_def simp del: of_nat_mult)
  moreover have "(of_nat n :: u64) \<noteq> 0" using assms of_nat_u64(2) [of n] by auto
  moreover have "(of_nat n :: u64) < block_size_max"
    using assms of_nat_u64(2) [of n] by (simp add: block_size_max_def tlsf_constants push_bit_eq_mult word_less_nat_alt)
  ultimately show ?thesis
    using align_up_8 [OF assms(2)] unfolding adjust_request_size_def request_size_def
    by (simp add: block_size_min_def block_header_size_def del: of_nat_mult)
qed

lemma spread_carve: "spread (us @ (m, True) # vs) \<Longrightarrow> spread (us @ carve False k m @ vs)"
  by (auto simp: spread_def carve_def successively_append_iff successively_Cons)

lemma free_in_pool: "(m, True) \<in> set bs \<Longrightarrow> \<exists>x. frees a bs x = Some m"
  by (metis frees_at split_list)

lemma prepare_used_run:
  assumes "pool_state s a (us @ (m, True) # vs) (us @ (m, False) # vs)" "sizes_ok k" "k \<le> m"
  shows "\<exists>t. block_prepare_used (Some (after a us)) (of_nat k) s = (Inr (after a us + 16), t) \<and>
     pool_state t a (us @ carve False k m @ vs) (us @ carve False k m @ vs)"
proof -
  obtain t where t: "block_trim_free (after a us) (of_nat k) s = (Inr (), t)"
    "pool_state t a (us @ carve True k m @ vs) (us @ carve False k m @ vs)" using trim_free_run [OF assms] by blast
  obtain j ws where c: "carve f k m = (j, f) # ws" "j < 2 ^ 63" for f
  proof (cases "k + 32 \<le> m")
    case True
    then show thesis using that [of k "[(m - k - 8, True)]"] pool_state_bounds(1) [OF assms(1) refl] assms(3) by (simp add: carve_def)
  next
    case False
    then show thesis using that [of m "[]"] pool_state_bounds(1) [OF assms(1) refl] by (simp add: carve_def)
  qed
  have "layout t None a (us @ (j, True) # ws @ vs)" using t(2) c(1) by (simp add: pool_state_def)
  from lay_used [OF this c(2)] obtain u where u: "block_mark_as_used (after a us) t = (Inr (), u)"
    "layout u None a (us @ (j, False) # ws @ vs)" "same_lists t u" by blast
  have "pool_state u a (us @ carve False k m @ vs) (us @ carve False k m @ vs)"
    by (rule pool_state_relay [OF t(2)]) (use u c(1) in simp_all)
  moreover have "(of_nat k :: u64) \<noteq> 0"
    using of_nat_u64(2) [of k] assms(2,3) pool_state_bounds(1) [OF assms(1) refl] by (auto simp: sizes_ok_def)
  ultimately show ?thesis
    using t(1) u(1) by (simp add: block_prepare_used_def block_to_ptr_def block_start_offset_def)
qed

lemma locate_run:
  assumes "pool_ok s a bs" "sizes_ok k" "k \<le> 2 ^ 31"
  obtains us m vs t where "bs = us @ (m, True) # vs" "k \<le> m" "block_locate_free (of_nat k) s = (Inr (Some (after a us)), t)"
    "pool_state t a (us @ (m, True) # vs) (us @ (m, False) # vs)"
  | "block_locate_free (of_nat k) s = (Inr None, s)" "\<forall>m. (m, True) \<in> set bs \<longrightarrow> m < k + k div 32"
proof -
  have k: "8 dvd k" "0 < k" "(of_nat k :: u64) \<noteq> 0" using assms(2,3) of_nat_u64(2) [of k] by (auto simp: sizes_ok_def)
  have ps: "pool_state s a bs bs" using assms(1) by (simp add: pool_ok_def)
  let ?c = "mapping_search (of_nat k)"
  have fl: "free_lists s (frees a bs)" using ps by (simp add: pool_state_def)
  obtain r where r: "search_suitable_block ?c s = (Inr r, s)" "found (frees a bs) ?c r"
    using search_finds [OF fl mapping_search_bound(1) [OF k(2,1) assms(3)]] by blast
  have small: "m < 2 ^ 32" if "frees a bs x = Some m" for x m using fl that by (auto simp: free_lists_def)
  obtain ob d where rd: "r = (ob, d)" by (cases r)
  show thesis
  proof (cases ob)
    case None
    have "m < k + k div 32" if free: "(m, True) \<in> set bs" for m
    proof -
      obtain x where x: "frees a bs x = Some m" using free_in_pool [OF free] by blast
      then have "class_less (class_of m) ?c" using r(2) rd None by (auto simp: found_def)
      then have "m < class_lower ?c" using class_less_below small [OF x] by simp
      then show ?thesis using mapping_search_bound(2) [OF k(2,1) assms(3)] by simp
    qed
    then show thesis using that(2) r(1) rd None k(3) by (simp add: block_locate_free_def)
  next
    case (Some b)
    then obtain m where m: "frees a bs b = Some m" "class_of m = d" "\<not> class_less d ?c" using r(2) rd by (auto simp: found_def)
    obtain us vs where us: "bs = us @ (m, True) # vs" "b = after a us" using free_block_at [OF m(1)] by blast
    have fit: "k \<le> m" using search_fits [of k m] m(2,3) k(1) assms(3) small [OF m(1)] by simp
    have ps': "pool_state s a (us @ (m, True) # vs) (us @ (m, True) # vs)" using ps us(1) by simp
    obtain t where t: "remove_free_block b d s = (Inr (), t)" "pool_state t a (us @ (m, True) # vs) (us @ (m, False) # vs)"
      using pool_state_remove [OF ps'] m(2) us(2) by auto
    have "block_size b s = of_nat m" using pool_state_reads(1) [OF ps'] us(2) by simp
    then have "block_locate_free (of_nat k) s = (Inr (Some b), t)"
      using r(1) rd Some t(1) k(3) fit of_nat_le [of k m] small [OF m(1)] assms(3)
      by (simp add: block_locate_free_def)
    then show thesis using that(1) us fit t(2) by blast
  qed
qed

lemma malloc_outcome:
  assumes "pool_ok s a bs" "0 < n" "n \<le> 2 ^ 31"
  obtains us m vs t where "bs = us @ (m, True) # vs" "request_size n \<le> m" "tlsf_malloc (of_nat n) s = (Inr (after a us + 16), t)"
    "pool_ok t a (us @ carve False (request_size n) m @ vs)"
  | "tlsf_malloc (of_nat n) s = (Inr 0, s)" "\<forall>m. (m, True) \<in> set bs \<longrightarrow> m < request_size n + request_size n div 32"
proof -
  let ?k = "request_size n"
  have adj: "adjust_request_size (of_nat n) ALIGN_SIZE = of_nat ?k" using adjust_request assms(2,3) by simp
  show thesis
  proof (rule locate_run [OF assms(1) request_size_ok(1) request_size_le [OF assms(3)]])
    fix us m vs t
    assume l: "bs = us @ (m, True) # vs" "?k \<le> m" "block_locate_free (of_nat ?k) s = (Inr (Some (after a us)), t)"
      "pool_state t a (us @ (m, True) # vs) (us @ (m, False) # vs)"
    obtain u where u: "block_prepare_used (Some (after a us)) (of_nat ?k) t = (Inr (after a us + 16), u)"
      "pool_state u a (us @ carve False ?k m @ vs) (us @ carve False ?k m @ vs)"
      using prepare_used_run [OF l(4) request_size_ok(1) l(2)] by blast
    have "tlsf_malloc (of_nat n) s = (Inr (after a us + 16), u)" using adj l(3) u(1) by (simp add: tlsf_malloc_def Let_def)
    moreover have "pool_ok u a (us @ carve False ?k m @ vs)"
      using u(2) assms(1) l(1) spread_carve by (simp add: pool_ok_def)
    ultimately show thesis using that(1) l(1,2) by blast
  next
    assume "block_locate_free (of_nat ?k) s = (Inr None, s)" "\<forall>m. (m, True) \<in> set bs \<longrightarrow> m < ?k + ?k div 32"
    then show thesis using that(2) adj by (simp add: tlsf_malloc_def block_prepare_used_def Let_def)
  qed
qed

section \<open>Freeing\<close>

text \<open>A block that becomes free is joined with the free blocks before and behind it.\<close>

definition join_prev :: "pool \<Rightarrow> nat \<Rightarrow> pool \<times> nat" where
  "join_prev us n = (if us \<noteq> [] \<and> snd (last us) then (butlast us, fst (last us) + 8 + n) else (us, n))"

definition join_next :: "nat \<Rightarrow> pool \<Rightarrow> nat \<times> pool" where
  "join_next n vs = (case vs of (m, True) # ws \<Rightarrow> (n + 8 + m, ws) | _ \<Rightarrow> (n, vs))"

definition coalesce :: "pool \<Rightarrow> nat \<Rightarrow> pool \<Rightarrow> pool" where
  "coalesce us n vs =
     (let (us', n1) = join_prev us n; (n2, vs') = join_next n1 vs in us' @ (n2, True) # vs')"

lemma last_free_eq: "last_free pf a us =
  (if us = [] then pf else if snd (last us) then Some (after a (butlast us)) else None)"
proof (cases us rule: rev_cases)
  case (snoc ws w)
  then show ?thesis by (cases w) simp
qed simp

lemma absorb_run:
  assumes "pool_state s a (us @ (m, True) # (n, True) # vs) (us @ (m, False) # (n, False) # vs)"
  shows "\<exists>t. block_absorb (after a us) (after a us + 8 + m) s = (Inr (after a us), t) \<and>
     pool_state t a (us @ (m + 8 + n, True) # vs) (us @ (m + 8 + n, False) # vs)"
proof -
  have l: "layout s None a (us @ (m, True) # (n, True) # vs)" using assms by (simp add: pool_state_def)
  have "after a us + 8 + m + 8 + n \<le> after a (us @ (m, True) # (n, True) # vs)"
    using after_le [of "after a us + 8 + m + 8 + n" vs] by simp
  then have "m + 8 + n < 2 ^ 63" using assms after_le [of a us] by (simp add: pool_state_def)
  then obtain t where t: "block_absorb (after a us) (after a us + 8 + m) s = (Inr (after a us), t)"
    "layout t None a (us @ (m + 8 + n, True) # vs)" "same_lists s t" using lay_absorb [OF l] by blast
  have "pool_state t a (us @ (m + 8 + n, True) # vs) (us @ (m + 8 + n, False) # vs)"
    by (rule pool_state_relay [OF assms t(2,3) _ frees_split]) (simp add: ac_simps)
  then show ?thesis using t(1) by blast
qed

lemma merge_prev_run:
  assumes "pool_state s a (us @ (n, True) # vs) (us @ (n, False) # vs)" "join_prev us n = (us', n1)"
  shows "\<exists>t. block_merge_prev (after a us) s = (Inr (after a us'), t) \<and>
     pool_state t a (us' @ (n1, True) # vs) (us' @ (n1, False) # vs)"
proof (cases "us \<noteq> [] \<and> snd (last us)")
  case False
  then have "last_free None a us = None" by (auto simp: last_free_eq)
  then show ?thesis
    using assms False pool_state_reads(3) [OF assms(1)] by (auto simp: join_prev_def block_merge_prev_def)
next
  case True
  then obtain ws m where us: "us = ws @ [(m, True)]" by (cases us rule: rev_cases) auto
  have e: "us' = ws" "n1 = m + 8 + n" using assms(2) us by (simp_all add: join_prev_def)
  have ps: "pool_state s a (ws @ (m, True) # (n, True) # vs) (ws @ (m, True) # (n, False) # vs)" using assms(1) us by simp
  have "last_free None a us = Some (after a ws)" using us by simp
  then have pf: "block_is_prev_free (after a us) s" "prev_phys s (after a us) = after a ws"
    using pool_state_reads(3) [OF assms(1)] assms(1) by (simp_all add: pool_state_def layout_def header_ok_def)
  have nz: "after a ws \<noteq> 0" "block_is_free (after a ws) s"
    using pool_state_bounds(5) [OF ps refl] pool_state_reads(2) [OF ps] by simp_all
  obtain t where t: "block_remove (after a ws) s = (Inr (), t)"
    "pool_state t a (ws @ (m, True) # (n, True) # vs) (ws @ (m, False) # (n, False) # vs)"
    using block_remove_run [OF ps] by blast
  obtain u where u: "block_absorb (after a ws) (after a us) t = (Inr (after a ws), u)"
    "pool_state u a (ws @ (m + 8 + n, True) # vs) (ws @ (m + 8 + n, False) # vs)"
    using absorb_run [OF t(2)] us by auto
  show ?thesis using pf nz t(1) u e by (simp add: block_merge_prev_def block_prev_def)
qed

lemma merge_next_run:
  assumes "pool_state s a (us @ (n, True) # vs) (us @ (n, False) # vs)" "join_next n vs = (n1, vs')"
  shows "\<exists>t. block_merge_next (after a us) s = (Inr (after a us), t) \<and>
     pool_state t a (us @ (n1, True) # vs') (us @ (n1, False) # vs')"
proof -
  let ?b = "after a us" and ?c = "after a us + 8 + n"
  note b = pool_state_bounds [OF assms(1) refl]
  have l: "layout s None a (us @ (n, True) # vs)" using assms(1) by (simp add: pool_state_def)
  obtain m g where mg: "(m, g) = first_block vs" by (metis surj_pair)
  note h = layout_mid [OF l refl refl mg]
  have nx: "block_next ?b s = (Inr ?c, s)"
    using block_next_run [OF b(6)] b(1,2) by (simp add: sizes_ok_def)
  have last: "\<not> block_is_last ?b s"
    using pool_state_reads(1) [OF assms(1)] of_nat_u64(2) [of n] b(1,2) by (auto simp: block_is_last_def sizes_ok_def)
  have f: "block_is_free ?c s \<longleftrightarrow> g" using header_reads(2) [OF h(5,4)] .
  show ?thesis
  proof (cases g)
    case False
    then have "join_next n vs = (n, vs)" using mg by (auto simp: join_next_def first_block_def split: list.splits bool.splits)
    then show ?thesis using assms nx f False by (auto simp: block_merge_next_def)
  next
    case True
    then obtain ws where vs: "vs = (m, True) # ws" using mg by (cases vs) (auto simp: first_block_def)
    have e: "n1 = n + 8 + m" "vs' = ws" using assms(2) vs by (simp_all add: join_next_def)
    have ps: "pool_state s a ((us @ [(n, True)]) @ (m, True) # ws) ((us @ [(n, False)]) @ (m, True) # ws)"
      using assms(1) vs by simp
    obtain t where t: "block_remove ?c s = (Inr (), t)"
      "pool_state t a (us @ (n, True) # (m, True) # ws) (us @ (n, False) # (m, False) # ws)"
      using block_remove_run [OF ps] by auto
    obtain u where u: "block_absorb ?b ?c t = (Inr ?b, u)"
      "pool_state u a (us @ (n + 8 + m, True) # ws) (us @ (n + 8 + m, False) # ws)"
      using absorb_run [OF t(2)] by blast
    show ?thesis using nx f True last t(1) u e by (simp add: block_merge_next_def)
  qed
qed

lemma spread_coalesce:
  assumes "spread (us @ (n, False) # vs)"
  shows "spread (coalesce us n vs)"
proof -
  obtain us' n1 where 1: "join_prev us n = (us', n1)" by (metis surj_pair)
  obtain n2 vs' where 2: "join_next n1 vs = (n2, vs')" by (metis surj_pair)
  have u: "spread us" "spread vs" using assms by (auto simp: spread_def successively_append_iff successively_Cons)
  have l: "spread us' \<and> (us' = [] \<or> \<not> snd (last us'))"
  proof (cases us rule: rev_cases)
    case Nil
    then show ?thesis using 1 by (auto simp: join_prev_def spread_def)
  next
    case (snoc ws w)
    then show ?thesis using 1 u(1) by (auto simp: join_prev_def spread_def successively_append_iff split: if_splits)
  qed
  have r: "spread vs' \<and> (vs' = [] \<or> \<not> snd (hd vs'))"
    using 2 u(2) by (auto simp: join_next_def spread_def successively_Cons split: list.splits bool.splits)
  show ?thesis using 1 2 l r by (auto simp: coalesce_def spread_def successively_append_iff successively_Cons)
qed

lemma free_outcome:
  assumes "pool_ok s a (us @ (n, False) # vs)"
  obtains t where "tlsf_free (after a us + 16) s = (Inr (), t)" "pool_ok t a (coalesce us n vs)"
proof -
  have ps: "pool_state s a (us @ (n, False) # vs) (us @ (n, False) # vs)" and sp: "spread (us @ (n, False) # vs)"
    using assms by (simp_all add: pool_ok_def)
  note b = pool_state_bounds [OF ps refl]
  obtain us' n1 where 1: "join_prev us n = (us', n1)" by (metis surj_pair)
  obtain n2 vs' where 2: "join_next n1 vs = (n2, vs')" by (metis surj_pair)
  have l: "layout s None a (us @ (n, False) # vs)" using ps by (simp add: pool_state_def)
  obtain t0 where t0: "block_mark_as_free (after a us) s = (Inr (), t0)"
    "layout t0 None a (us @ (n, True) # vs)" "same_lists s t0" using lay_free [OF l] b(1) by auto
  have p0: "pool_state t0 a (us @ (n, True) # vs) (us @ (n, False) # vs)"
    by (rule pool_state_relay [OF ps t0(2,3)]) simp_all
  obtain t1 where t1: "block_merge_prev (after a us) t0 = (Inr (after a us'), t1)"
    "pool_state t1 a (us' @ (n1, True) # vs) (us' @ (n1, False) # vs)" using merge_prev_run [OF p0 1] by blast
  obtain t2 where t2: "block_merge_next (after a us') t1 = (Inr (after a us'), t2)"
    "pool_state t2 a (us' @ (n2, True) # vs') (us' @ (n2, False) # vs')" using merge_next_run [OF t1(2) 2] by blast
  obtain t where t: "block_insert (after a us') t2 = (Inr (), t)"
    "pool_state t a (us' @ (n2, True) # vs') (us' @ (n2, True) # vs')" using block_insert_run [OF t2(2)] by blast
  have "tlsf_free (after a us + 16) s = (Inr (), t)"
    using pool_state_reads(2) [OF ps] t0(1) t1(1) t2(1) t(1)
    by (simp add: tlsf_free_def block_from_ptr_def block_start_offset_def Let_def)
  moreover have "coalesce us n vs = us' @ (n2, True) # vs'" using 1 2 by (simp add: coalesce_def)
  then have "pool_ok t a (coalesce us n vs)" using t(2) spread_coalesce [OF sp] by (simp add: pool_ok_def)
  ultimately show thesis using that by blast
qed

end
