(* ===== verification/Tlsf_Init.thy ===== *)
theory Tlsf_Init
  imports Tlsf_Alloc
begin

text \<open>
  The pool a new allocator starts with (\<open>tlsf_create_with_pool\<close> of \<open>tlsf/tlsf.c\<close>), and growing and
  shrinking blocks in place (\<open>tlsf_realloc\<close>).
\<close>

section \<open>A new pool\<close>

lemma empty_lists:
  assumes "mem \<noteq> 0" "control_construct mem s = (Inr (), t)"
  shows "free_lists t Map.empty" "block_null t = mem" "bsize t = bsize s" "prev_phys t = prev_phys s"
proof -
  have t: "t = s\<lparr>block_null := mem, next_free := (next_free s)(mem := mem), prev_free := (prev_free s)(mem := mem),
       fl_bitmap := 0, sl_bitmap := replicate FL_INDEX_COUNT 0,
       blocks := replicate FL_INDEX_COUNT (replicate SL_INDEX_COUNT mem)\<rparr>"
    using assms(2) by (simp add: control_construct_def)
  have "list_ok t Map.empty [] c" if "is_class c" for c
    using that t by (simp add: list_ok_def dlist_def is_class_def)
  then have "\<exists>F. \<forall>c. is_class c \<longrightarrow> list_ok t Map.empty (F c) c" by (intro exI [of _ "\<lambda>_. []"]) simp
  moreover have "shape t" using assms(1) t by (simp add: shape_def)
  moreover have "first_level_ok t" using t by (auto simp: first_level_ok_def)
  ultimately show "free_lists t Map.empty" by (simp add: free_lists_def)
  show "block_null t = mem" "bsize t = bsize s" "prev_phys t = prev_phys s" using t by simp_all
qed

lemma align_down_8:
  assumes "n < 2 ^ 63"
  shows "align_down (of_nat n) ALIGN_SIZE = of_nat (n div 8 * 8)"
proof -
  have "ALIGN_SIZE - 1 = mask 3" by (simp add: tlsf_constants push_bit_eq_mult mask_eq_exp_minus_1)
  moreover have "(of_nat n :: u64) AND mask 3 = of_nat (n mod 8)"
    by (simp only: take_bit_eq_mask [symmetric] take_bit_of_nat) (simp add: take_bit_eq_mod)
  moreover have "(of_nat n :: u64) = of_nat (n div 8 * 8) + of_nat (n mod 8)"
    by (simp only: of_nat_add [symmetric]) simp
  ultimately show ?thesis by (simp only: align_down_def add_diff_cancel_right')
qed

definition control_size :: nat where "control_size = 6536"

lemma tlsf_size_value: "tlsf_size = of_nat control_size"
  by (simp add: tlsf_size_def tlsf_constants control_size_def)

text \<open>What is left for blocks of the memory handed over.\<close>

definition pool_room :: "nat \<Rightarrow> nat" where
  "pool_room bytes = (bytes - control_size - 16) div 8 * 8"

lemma create_outcome:
  assumes "0 < mem" "8 dvd mem" "control_size + 40 \<le> bytes" "bytes < 2 ^ 32"
  obtains t where "tlsf_create_with_pool mem (of_nat bytes) s = (Inr (Some mem), t)"
    "pool_ok t (mem + control_size - 8) [(pool_room bytes, True)]" "block_null t = mem"
proof -
  let ?n = "pool_room bytes" and ?b = "mem + control_size - 8"
  let ?c = "?b + 8 + ?n"
  have n: "sizes_ok ?n" "?n < 2 ^ 32" "?n + 16 \<le> bytes"
    using assms(3,4) by (auto simp: pool_room_def control_size_def sizes_ok_def)
  have b8: "8 dvd ?b" using assms(2) by (auto simp: control_size_def elim!: dvdE)
  obtain s0 where s0: "control_construct mem s = (Inr (), s0)" by (simp add: control_construct_def)
  note e = empty_lists [OF _ s0]
  have create: "tlsf_create mem s = (Inr (Some mem), s0)"
    using assms(2) s0 by (auto simp: tlsf_create_def tlsf_constants push_bit_eq_mult)
  have sub: "(of_nat bytes - tlsf_size :: u64) = of_nat (bytes - control_size)"
    using assms(3) by (simp add: tlsf_size_value of_nat_diff)
  have pb: "align_down (of_nat (bytes - control_size) - tlsf_pool_overhead) ALIGN_SIZE = of_nat ?n"
  proof -
    have "(of_nat (bytes - control_size) - tlsf_pool_overhead :: u64) = of_nat (bytes - control_size - 16)"
      using assms(3) by (simp add: tlsf_pool_overhead_def block_header_overhead_def of_nat_diff)
    then show ?thesis using align_down_8 [of "bytes - control_size - 16"] assms(4) by (simp only: pool_room_def) simp
  qed
  have lim: "\<not> (of_nat ?n < block_size_min \<or> block_size_max < (of_nat ?n :: u64))"
    using n of_nat_u64(2) [of ?n]
    by (simp add: block_size_min_def block_header_size_def block_size_max_def tlsf_constants push_bit_eq_mult
        word_less_nat_alt sizes_ok_def)
  have al: "(mem + unat tlsf_size) mod unat ALIGN_SIZE = 0" "offset_to_block (mem + unat tlsf_size) (- uint block_header_overhead) = ?b"
  proof -
    have "unat tlsf_size = control_size" by (simp add: tlsf_size_value control_size_def)
    then show "(mem + unat tlsf_size) mod unat ALIGN_SIZE = 0"
      "offset_to_block (mem + unat tlsf_size) (- uint block_header_overhead) = ?b"
      using assms(2) by (auto simp: tlsf_constants push_bit_eq_mult control_size_def offset_to_block_def block_header_overhead_def elim!: dvdE)
  qed
  define s1 where "s1 = s0\<lparr>bsize := (bsize s0)(?b := header ?n True False)\<rparr>"
  have n8: "8 dvd ?n" "0 < ?n" "?n < 2 ^ 63" using n by (simp_all add: sizes_ok_def)
  have run1: "then_do (block_set_size ?b (of_nat ?n)) (\<lambda>_. then_do (block_set_free ?b) (\<lambda>_.
      then_do (block_set_prev_used ?b) k)) s0 = k () s1" for k :: "unit \<Rightarrow> nat option tl"
    using header_set_size [OF n8(1)] header_set [OF n8(1)]
    by (simp add: block_set_size_def block_set_free_def block_set_prev_used_def then_do_def update_field_run s1_def)
  have fl: "free_lists s1 Map.empty"
    using free_lists_cong [OF e(1)] assms(1) by (simp add: same_lists_def s1_def)
  obtain s2 where s2: "insert_free_block ?b (class_of ?n) s1 = (Inr (), s2)" "free_lists s2 [?b \<mapsto> ?n]" "same_layout s1 s2"
    using insert_free_block_keeps [OF fl _ n(2) b8] e(2) assms(1) by (auto simp: s1_def control_size_def)
  have h2: "bsize s2 ?b = header ?n True False" using s2(3) by (simp add: same_layout_def s1_def)
  have ins: "block_insert ?b s1 = (Inr (), s2)"
    using s2(1) header_reads(1) [of s1 ?b ?n True False] n8(1) by (simp add: block_insert_def s1_def class_of_def)
  define t where "t = s2\<lparr>prev_phys := (prev_phys s2)(?c := ?b), bsize := (bsize s2)(?c := header 0 False True)\<rparr>"
  have run2: "then_do (block_link_next ?b) (\<lambda>m. then_do (block_set_size m 0) (\<lambda>_. then_do (block_set_used m) (\<lambda>_.
      then_do (block_set_prev_free m) k))) s2 = k () t" for k :: "unit \<Rightarrow> nat option tl"
    using block_link_next_run [OF h2 n8] header_set_size [of 0] header_set [of 0]
    by (simp add: block_set_size_def block_set_used_def block_set_prev_free_def then_do_def update_field_run t_def)
  have "tlsf_add_pool (mem + unat tlsf_size) (of_nat bytes - tlsf_size) s0 = (Inr (Some (mem + unat tlsf_size)), t)"
    unfolding tlsf_add_pool_def sub pb Let_def al(2) using al(1) lim run1 ins run2 by simp
  then have "tlsf_create_with_pool mem (of_nat bytes) s = (Inr (Some mem), t)"
    using create by (simp add: tlsf_create_with_pool_def)
  moreover have "pool_ok t ?b [(?n, True)]"
  proof -
    have "free_lists t [?b \<mapsto> ?n]" using free_lists_cong [OF s2(2)] by (simp add: same_lists_def t_def)
    moreover have "block_null t = mem" using s2(3) e(2) assms(1) by (simp add: same_layout_def t_def s1_def)
    ultimately show ?thesis
      using h2 n n8 b8 assms
      by (auto simp: pool_ok_def pool_state_def layout_def header_ok_def t_def spread_def control_size_def)
  qed
  moreover have "block_null t = mem" using s2(3) e(2) assms(1) by (simp add: same_layout_def t_def s1_def)
  ultimately show thesis using that by blast
qed

end
