(* ===== verification/Tlsf_Safety.thy ===== *)
theory Tlsf_Safety
  imports Tlsf_Init
begin

text \<open>
  A client of the pool (\<open>tlsf/tlsf.c\<close>, \<open>src/memorypool.h\<close>): it allocates, frees what it has been given
  and writes to it. The allocator never faults, and what it hands out lies in the pool and does not
  overlap.
\<close>

section \<open>Used blocks\<close>

definition flip :: "pool \<Rightarrow> pool" where
  "flip = map (apsnd Not)"

definition useds :: "nat \<Rightarrow> pool \<Rightarrow> nat \<rightharpoonup> nat" where
  "useds a bs = frees a (flip bs)"

lemma flip_simps [simp]: "flip [] = []" "flip ((n, f) # bs) = (n, \<not> f) # flip bs" "flip (us @ vs) = flip us @ flip vs"
  "flip (flip bs) = bs"
  by (simp_all add: flip_def map_idI apsnd_def map_prod_def split_beta o_def)

lemma after_flip [simp]: "after a (flip bs) = after a bs"
  by (induction a bs rule: after.induct) simp_all

lemma useds_range: "useds a bs x = Some n \<Longrightarrow> a \<le> x \<and> x + 8 + n \<le> after a bs"
  using frees_range [of a "flip bs" x n] by (simp add: useds_def)

lemma used_block_at:
  assumes "useds a bs x = Some n"
  obtains us vs where "bs = us @ (n, False) # vs" "x = after a us"
proof -
  obtain us vs where u: "flip bs = us @ (n, True) # vs" "x = after a us"
    using free_block_at assms unfolding useds_def by blast
  from u(1) have "flip (flip bs) = flip us @ (n, False) # flip vs" by (simp del: flip_simps(4))
  then show thesis using that [of "flip us" "flip vs"] u(2) by simp
qed

text \<open>Blocks that are used at the same time do not overlap.\<close>

lemma useds_apart:
  assumes "useds a bs x = Some n" "useds a bs y = Some m" "x < y"
  shows "x + 8 + n \<le> y"
proof -
  obtain us vs where u: "bs = us @ (n, False) # vs" "x = after a us" using used_block_at [OF assms(1)] by blast
  have "useds a bs y = frees (x + 8 + n) (flip vs) y"
    using assms(3) u by (simp add: useds_def frees_append)
  then show ?thesis using frees_range(1) [of "x + 8 + n" "flip vs" y m] assms(2) by simp
qed

lemma useds_carve:
  "useds a (us @ carve False k m @ vs) =
     (useds a (us @ (m, True) # vs))(after a us \<mapsto> (if k + 32 \<le> m then k else m))"
proof (cases "k + 32 \<le> m")
  case True
  then have m: "m = k + 8 + (m - k - 8)" by simp
  have "frees a (flip us @ (k, True) # (m - k - 8, False) # flip vs) =
      (frees a (flip us @ (k, False) # (m - k - 8, False) # flip vs))(after a us \<mapsto> k)"
    using frees_free [of a "flip us" k "(m - k - 8, False) # flip vs"] by simp
  also have "frees a (flip us @ (k, False) # (m - k - 8, False) # flip vs) = frees a (flip us @ (m, False) # flip vs)"
    by (metis m frees_split)
  finally have "frees a (flip us @ (k, True) # (m - k - 8, False) # flip vs) = (frees a (flip us @ (m, False) # flip vs))(after a us \<mapsto> k)" .
  then show ?thesis using True unfolding useds_def carve_def by (simp add: fun_upd_def)
next
  case False
  then show ?thesis using frees_free [of a "flip us" m "flip vs"] by (simp add: useds_def carve_def)
qed

lemma useds_coalesce: "useds a (coalesce us n vs) = (useds a (us @ (n, False) # vs))(after a us := None)"
proof -
  obtain us' n1 where 1: "join_prev us n = (us', n1)" by (metis surj_pair)
  obtain n2 vs' where 2: "join_next n1 vs = (n2, vs')" by (metis surj_pair)
  have prev: "frees a (flip us' @ (n1, False) # ws) = frees a (flip us @ (n, False) # ws)" for ws
  proof (cases us rule: rev_cases)
    case Nil
    then show ?thesis using 1 by (simp add: join_prev_def)
  next
    case (snoc zs z)
    then show ?thesis using 1 frees_split [of a "flip zs" "fst z" n ws]
      by (cases z) (auto simp: join_prev_def split: if_splits)
  qed
  have "useds a (coalesce us n vs) = frees a (flip us' @ (n2, False) # flip vs')"
    using 1 2 by (simp add: coalesce_def useds_def)
  also have "\<dots> = frees a (flip us' @ (n1, False) # flip vs)"
    using 2 frees_split [of a "flip us'" n1] by (auto simp: join_next_def split: list.splits bool.splits)
  also have "\<dots> = frees a (flip us @ (n, False) # flip vs)" by (rule prev)
  also have "\<dots> = (useds a (us @ (n, False) # vs))(after a us := None)"
    using frees_used [of a "flip us" n "flip vs"] by (simp add: useds_def)
  finally show ?thesis .
qed

lemma after_carve: "after a (us @ carve f k m @ vs) = after a (us @ (m, g) # vs)"
  by (auto simp: carve_def ac_simps)

lemma after_coalesce: "after a (coalesce us n vs) = after a (us @ (n, f) # vs)"
proof -
  obtain us' n1 where 1: "join_prev us n = (us', n1)" by (metis surj_pair)
  obtain n2 vs' where 2: "join_next n1 vs = (n2, vs')" by (metis surj_pair)
  have "after a us' + 8 + n1 = after a us + 8 + n"
    using 1 by (cases us rule: rev_cases) (auto simp: join_prev_def split: if_splits)
  then have "after (after a us' + 8 + n1) vs = after (after a us + 8 + n) vs" by (rule arg_cong)
  moreover have "after (after a us' + 8 + n2) vs' = after (after a us' + 8 + n1) vs"
    using 2 by (auto simp: join_next_def ac_simps split: list.splits bool.splits)
  ultimately show ?thesis using 1 2 by (simp add: coalesce_def)
qed

section \<open>What a client may write\<close>

text \<open>
  The memory of a used block: its two list pointers, and the header field of the block behind it
  that lies in it.
\<close>

definition scribble :: "nat \<Rightarrow> nat \<Rightarrow> nat \<Rightarrow> nat \<Rightarrow> tlsf \<Rightarrow> tlsf" where
  "scribble b x y z s =
     (let c = b + 8 + unat (block_size b s)
      in s\<lparr>next_free := (next_free s)(b := x), prev_free := (prev_free s)(b := y), prev_phys := (prev_phys s)(c := z)\<rparr>)"

lemma scribble_keeps:
  assumes "pool_ok s a (us @ (n, False) # vs)"
  shows "pool_ok (scribble (after a us) x y z s) a (us @ (n, False) # vs)"
proof -
  let ?b = "after a us" and ?bs = "us @ (n, False) # vs"
  let ?c = "?b + 8 + n" and ?t = "scribble ?b x y z s"
  have ps: "pool_state s a ?bs ?bs" using assms by (simp add: pool_ok_def)
  note b = pool_state_bounds [OF ps refl]
  have "unat (block_size ?b s) = n" using pool_state_reads(1) [OF ps] b(1) of_nat_u64(2) [of n] by simp
  then have t: "?t = s\<lparr>next_free := (next_free s)(?b := x), prev_free := (prev_free s)(?b := y), prev_phys := (prev_phys s)(?c := z)\<rparr>"
    by (simp add: scribble_def Let_def)
  have l: "layout s None a ?bs" and fl: "free_lists s (frees a ?bs)" using ps by (simp_all add: pool_state_def)
  obtain m g where mg: "(m, g) = first_block vs" by (metis surj_pair)
  note h = layout_mid [OF l refl refl mg]
  have "layout ?t None a (us @ [(n, False)] @ vs)"
    by (rule layout_mid_replace [OF l refl refl mg]) (use h in \<open>auto simp: t header_ok_def\<close>)
  moreover have "free_lists ?t (frees a ?bs)"
  proof -
    obtain F where F: "is_class c \<Longrightarrow> list_ok s (frees a ?bs) (F c) c" for c using fl by (auto simp: free_lists_def)
    have "list_ok ?t (frees a ?bs) (F c) c" if c: "is_class c" for c
    proof (rule list_ok_frame [OF F [OF c]])
      show "?b \<notin> set (F c)" "?b \<notin> set (F c)" using F [OF c] frees_at [of a us n False vs] by (auto simp: list_ok_def)
    qed (simp_all add: t)
    then have "\<exists>F. \<forall>c. is_class c \<longrightarrow> list_ok ?t (frees a ?bs) (F c) c" by blast
    then show ?thesis using fl by (simp add: free_lists_def t shape_def first_level_ok_def)
  qed
  ultimately show ?thesis using assms by (simp add: pool_ok_def pool_state_def t)
qed

section \<open>Runs of a client\<close>

text \<open>The client's state is what it has been given and not yet given back, with the sizes it has asked for.\<close>

inductive client_step :: "tlsf \<times> (nat \<rightharpoonup> nat) \<Rightarrow> tlsf \<times> (nat \<rightharpoonup> nat) \<Rightarrow> bool" where
  allocate: "0 < n \<Longrightarrow> n \<le> 2 ^ 31 \<Longrightarrow> tlsf_malloc (of_nat n) s = (r, t) \<Longrightarrow>
     client_step (s, L) (t, case r of Inl e \<Rightarrow> L | Inr p \<Rightarrow> if p = 0 then L else L(p \<mapsto> n))"
| release: "L p = Some n \<Longrightarrow> tlsf_free p s = (r, t) \<Longrightarrow> client_step (s, L) (t, L(p := None))"
| scribbles: "L p = Some n \<Longrightarrow> client_step (s, L) (scribble (block_from_ptr p) x y z s, L)"

inductive_cases client_stepE: "client_step (s, L) (t, K)"

definition client_ok :: "nat \<Rightarrow> nat \<Rightarrow> tlsf \<times> (nat \<rightharpoonup> nat) \<Rightarrow> bool" where
  "client_ok a e sL \<longleftrightarrow>
     (\<exists>bs. pool_ok (fst sL) a bs \<and> after a bs = e \<and>
        (\<forall>p. snd sL p \<noteq> None \<longleftrightarrow> 16 \<le> p \<and> useds a bs (p - 16) \<noteq> None) \<and>
        (\<forall>p n m. snd sL p = Some n \<longrightarrow> useds a bs (p - 16) = Some m \<longrightarrow> n \<le> m))"

lemma client_block:
  assumes "pool_ok s a bs" "L p = Some n"
    and "\<forall>p. L p \<noteq> None \<longleftrightarrow> 16 \<le> p \<and> useds a bs (p - 16) \<noteq> None"
    and "\<forall>p n m. L p = Some n \<longrightarrow> useds a bs (p - 16) = Some m \<longrightarrow> n \<le> m"
  obtains us m vs where "bs = us @ (m, False) # vs" "p = after a us + 16" "n \<le> m"
proof -
  have "16 \<le> p" "useds a bs (p - 16) \<noteq> None" using assms(2,3) by (metis option.distinct(1))+
  then obtain m where m: "useds a bs (p - 16) = Some m" by blast
  obtain us vs where us: "bs = us @ (m, False) # vs" "p - 16 = after a us" using used_block_at [OF m] by blast
  moreover have "p = after a us + 16" using us(2) \<open>16 \<le> p\<close> by simp
  moreover have "n \<le> m" using assms(2,4) m by blast
  ultimately show thesis using that by blast
qed

lemma client_step_ok:
  assumes "client_step sL tK" "client_ok a e sL"
  shows "client_ok a e tK"
  using assms(1)
proof cases
  case (allocate n s r t L)
  obtain bs where bs: "pool_ok s a bs" "after a bs = e" "\<forall>p. L p \<noteq> None \<longleftrightarrow> 16 \<le> p \<and> useds a bs (p - 16) \<noteq> None"
    "\<forall>p n m. L p = Some n \<longrightarrow> useds a bs (p - 16) = Some m \<longrightarrow> n \<le> m"
    using assms(2) allocate(1) by (auto simp: client_ok_def)
  show ?thesis
  proof (rule malloc_outcome [OF bs(1) allocate(3,4)])
    fix us m vs u
    assume m: "bs = us @ (m, True) # vs" "request_size n \<le> m" "tlsf_malloc (of_nat n) s = (Inr (after a us + 16), u)"
      "pool_ok u a (us @ carve False (request_size n) m @ vs)"
    let ?k = "if request_size n + 32 \<le> m then request_size n else m"
    have tK: "tK = (u, L(after a us + 16 \<mapsto> n))" using allocate m(3) by auto
    have U: "useds a (us @ carve False (request_size n) m @ vs) = (useds a bs)(after a us \<mapsto> ?k)"
      using useds_carve [of a us "request_size n" m vs] m(1) by simp
    have k: "n \<le> ?k" using request_size_ok(2) [of n] m(2) by auto
    have eq: "16 \<le> p \<and> p - 16 = after a us \<longleftrightarrow> p = after a us + 16" for p by auto
    show ?thesis
      unfolding client_ok_def tK fst_conv snd_conv
    proof (intro exI [of _ "us @ carve False (request_size n) m @ vs"] conjI)
      show "after a (us @ carve False (request_size n) m @ vs) = e" using bs(2) m(1) after_carve by metis
      show "\<forall>p. (L(after a us + 16 \<mapsto> n)) p \<noteq> None \<longleftrightarrow> 16 \<le> p \<and> useds a (us @ carve False (request_size n) m @ vs) (p - 16) \<noteq> None"
        unfolding U using bs(3) eq by auto
      show "\<forall>p n' m'. (L(after a us + 16 \<mapsto> n)) p = Some n' \<longrightarrow>
          useds a (us @ carve False (request_size n) m @ vs) (p - 16) = Some m' \<longrightarrow> n' \<le> m'"
        unfolding U using bs(3,4) eq k by (metis diff_add_inverse2 fun_upd_apply option.inject option.distinct(1))
    qed (rule m(4))
  next
    assume "tlsf_malloc (of_nat n) s = (Inr 0, s)"
    then have "tK = (s, L)" using allocate by auto
    then show ?thesis using bs by (auto simp: client_ok_def)
  qed
next
  case (release L p n s r t)
  obtain bs where bs: "pool_ok s a bs" "after a bs = e" "\<forall>p. L p \<noteq> None \<longleftrightarrow> 16 \<le> p \<and> useds a bs (p - 16) \<noteq> None"
    "\<forall>p n m. L p = Some n \<longrightarrow> useds a bs (p - 16) = Some m \<longrightarrow> n \<le> m"
    using assms(2) release(1) by (auto simp: client_ok_def)
  obtain us m vs where u: "bs = us @ (m, False) # vs" "p = after a us + 16" "n \<le> m"
    using client_block [OF bs(1) release(3) bs(3,4)] by blast
  obtain t' where t': "tlsf_free p s = (Inr (), t')" "pool_ok t' a (coalesce us m vs)"
    using free_outcome bs(1) u by blast
  have U: "useds a (coalesce us m vs) = (useds a bs)(after a us := None)" using useds_coalesce u(1) by simp
  have eq: "16 \<le> q \<and> q - 16 = after a us \<longleftrightarrow> q = p" for q using u(2) by auto
  have "after a (coalesce us m vs) = e" using bs(2) u(1) after_coalesce by metis
  moreover have "\<forall>q. (L(p := None)) q \<noteq> None \<longleftrightarrow> 16 \<le> q \<and> useds a (coalesce us m vs) (q - 16) \<noteq> None"
    unfolding U using bs(3) eq by auto
  moreover have "\<forall>q n' m'. (L(p := None)) q = Some n' \<longrightarrow> useds a (coalesce us m vs) (q - 16) = Some m' \<longrightarrow> n' \<le> m'"
    unfolding U using bs(4) by (auto split: if_splits)
  moreover have "tK = (t', L(p := None))" using release t'(1) by auto
  ultimately show ?thesis unfolding client_ok_def using t'(2) by (metis fst_conv snd_conv)
next
  case (scribbles L p n s x y z)
  obtain bs where bs: "pool_ok s a bs" "after a bs = e" "\<forall>p. L p \<noteq> None \<longleftrightarrow> 16 \<le> p \<and> useds a bs (p - 16) \<noteq> None"
    "\<forall>p n m. L p = Some n \<longrightarrow> useds a bs (p - 16) = Some m \<longrightarrow> n \<le> m"
    using assms(2) scribbles(1) by (auto simp: client_ok_def)
  obtain us m vs where u: "bs = us @ (m, False) # vs" "p = after a us + 16" "n \<le> m"
    using client_block [OF bs(1) scribbles(3) bs(3,4)] by blast
  have "pool_ok (scribble (block_from_ptr p) x y z s) a bs"
    using scribble_keeps bs(1) u by (simp add: block_from_ptr_def block_start_offset_def)
  then show ?thesis using scribbles(2) bs by (auto simp: client_ok_def)
qed

lemma client_runs_ok: "client_step\<^sup>*\<^sup>* sL tK \<Longrightarrow> client_ok a e sL \<Longrightarrow> client_ok a e tK"
  by (induction rule: rtranclp_induct) (auto intro: client_step_ok)

lemma client_of_new_pool:
  assumes "0 < mem" "8 dvd mem" "control_size + 40 \<le> bytes" "bytes < 2 ^ 32"
    and "MemoryPool mem (of_nat bytes) s0 = (Inr (Some mem), s)" "client_step\<^sup>*\<^sup>* (s, Map.empty) (t, L)"
  obtains bs where "pool_ok t (mem + control_size - 8) bs"
    "after (mem + control_size - 8) bs = mem + control_size - 8 + 8 + pool_room bytes"
    "\<forall>p. L p \<noteq> None \<longleftrightarrow> 16 \<le> p \<and> useds (mem + control_size - 8) bs (p - 16) \<noteq> None"
    "\<forall>p n m. L p = Some n \<longrightarrow> useds (mem + control_size - 8) bs (p - 16) = Some m \<longrightarrow> n \<le> m"
proof -
  let ?a = "mem + control_size - 8" and ?n = "pool_room bytes"
  obtain s' where s': "tlsf_create_with_pool mem (of_nat bytes) s0 = (Inr (Some mem), s')" "pool_ok s' ?a [(?n, True)]"
    using create_outcome [OF assms(1-4)] by blast
  then have "s' = s" using assms(5) by (simp add: MemoryPool_def)
  then have "client_ok ?a (?a + 8 + ?n) (s, Map.empty)"
    using s'(2) unfolding client_ok_def by (intro exI [of _ "[(?n, True)]"]) (simp add: useds_def)
  from client_runs_ok [OF assms(6) this] show thesis using that by (auto simp: client_ok_def)
qed

section \<open>Properties\<close>

text \<open>C6: a request takes a free block that is large enough, makes one of the rounded size of its front
  and leaves the rest free if it can hold a block of its own; it fails, without any change, only
  when every free block is smaller than the rounded size and a thirty-second of it. Every other
  block stays as it is.\<close>

theorem tlsf_malloc_refines:
  assumes "pool_ok s a bs" "0 < n" "n \<le> 2 ^ 31"
  shows "\<exists>p t. tlsf_malloc (of_nat n) s = (Inr p, t) \<and>
     (if p = 0
      then t = s \<and> (\<forall>m. (m, True) \<in> set bs \<longrightarrow> m < request_size n + request_size n div 32)
      else \<exists>us m vs. bs = us @ (m, True) # vs \<and> request_size n \<le> m \<and> p = after a us + 16 \<and>
        pool_ok t a (us @ carve False (request_size n) m @ vs))"
proof (rule malloc_outcome [OF assms])
  fix us m vs t
  assume "bs = us @ (m, True) # vs" "request_size n \<le> m" "tlsf_malloc (of_nat n) s = (Inr (after a us + 16), t)"
    "pool_ok t a (us @ carve False (request_size n) m @ vs)"
  then show ?thesis by auto
qed simp

text \<open>C7: freeing a used block makes it free and joins it with the free blocks before and behind it; every
  other block stays as it is, and no free block is left next to another.\<close>

theorem tlsf_free_refines:
  assumes "pool_ok s a (us @ (n, False) # vs)"
  shows "\<exists>t. tlsf_free (after a us + 16) s = (Inr (), t) \<and> pool_ok t a (coalesce us n vs)"
  using free_outcome [OF assms] by blast

lemma coalesce_carve:
  assumes "spread (us @ (m, True) # vs)" "k \<le> m"
  shows "\<exists>n ws. carve False k m = (n, False) # ws \<and> coalesce us n (ws @ vs) = us @ (m, True) # vs"
proof -
  have u: "\<not> (us \<noteq> [] \<and> snd (last us))" "vs = [] \<or> \<not> snd (hd vs)"
    using assms(1) by (auto simp: spread_def successively_append_iff successively_Cons)
  have j: "join_prev us n = (us, n)" for n using u(1) by (auto simp: join_prev_def)
  have v: "join_next n vs = (n, vs)" for n using u(2) by (auto simp: join_next_def split: list.splits bool.splits)
  show ?thesis
  proof (cases "k + 32 \<le> m")
    case True
    then have "coalesce us k ([(m - k - 8, True)] @ vs) = us @ (m, True) # vs" by (simp add: coalesce_def j join_next_def)
    then show ?thesis using True by (auto simp: carve_def)
  next
    case False
    then show ?thesis using v by (simp add: carve_def coalesce_def j)
  qed
qed

text \<open>freeing what has just been allocated brings back the blocks there were before.\<close>

theorem tlsf_malloc_free_roundtrip:
  assumes "pool_ok s a bs" "0 < n" "n \<le> 2 ^ 31" "tlsf_malloc (of_nat n) s = (Inr p, t)" "p \<noteq> 0"
  shows "\<exists>u. tlsf_free p t = (Inr (), u) \<and> pool_ok u a bs"
proof (rule malloc_outcome [OF assms(1-3)])
  fix us m vs t'
  assume m: "bs = us @ (m, True) # vs" "request_size n \<le> m" "tlsf_malloc (of_nat n) s = (Inr (after a us + 16), t')"
    "pool_ok t' a (us @ carve False (request_size n) m @ vs)"
  have "spread (us @ (m, True) # vs)" using assms(1) m(1) by (simp add: pool_ok_def)
  from coalesce_carve [OF this m(2)] obtain k ws where k: "carve False (request_size n) m = (k, False) # ws"
    "coalesce us k (ws @ vs) = us @ (m, True) # vs" by blast
  have "pool_ok t' a (us @ (k, False) # ws @ vs)" using m(4) k(1) by simp
  from free_outcome [OF this] show ?thesis using m(1,3) k(2) assms(4) by auto
next
  assume "tlsf_malloc (of_nat n) s = (Inr 0, s)"
  then show ?thesis using assms(4,5) by simp
qed

text \<open>C5: whatever a client of a new pool allocates, frees and writes to in what it has been given, the
  allocator never faults on it: what the client holds lies in the pool's memory, does not overlap
  and can be freed, and every request is answered.\<close>

theorem tlsf_client_safe:
  assumes "0 < mem" "8 dvd mem" "control_size + 40 \<le> bytes" "bytes < 2 ^ 32"
    and "MemoryPool mem (of_nat bytes) s0 = (Inr (Some mem), s)" "client_step\<^sup>*\<^sup>* (s, Map.empty) (t, L)"
  shows "(\<forall>p n. L p = Some n \<longrightarrow> mem + control_size \<le> p \<and> p + n \<le> mem + bytes) \<and>
     (\<forall>p q n m. L p = Some n \<longrightarrow> L q = Some m \<longrightarrow> p < q \<longrightarrow> p + n \<le> q) \<and>
     (\<forall>p n. L p = Some n \<longrightarrow> (\<exists>u. pool_free p t = (Inr (), u))) \<and>
     (\<forall>n. 0 < n \<longrightarrow> n \<le> 2 ^ 31 \<longrightarrow> (\<exists>p u. pool_malloc (of_nat n) t = (Inr p, u)))"
proof -
  let ?a = "mem + control_size - 8" and ?n = "pool_room bytes"
  obtain bs where bs: "pool_ok t ?a bs" "after ?a bs = ?a + 8 + ?n"
    "\<forall>p. L p \<noteq> None \<longleftrightarrow> 16 \<le> p \<and> useds ?a bs (p - 16) \<noteq> None"
    "\<forall>p n m. L p = Some n \<longrightarrow> useds ?a bs (p - 16) = Some m \<longrightarrow> n \<le> m"
    using client_of_new_pool [OF assms] by blast
  have block: "\<exists>us m vs. bs = us @ (m, False) # vs \<and> p = after ?a us + 16 \<and> n \<le> m \<and> useds ?a bs (p - 16) = Some m"
    if held: "L p = Some n" for p n
  proof -
    obtain us m vs where u: "bs = us @ (m, False) # vs" "p = after ?a us + 16" "n \<le> m"
      using client_block [OF bs(1) held bs(3,4)] by blast
    moreover have "useds ?a bs (after ?a us) = Some m"
      using u(1) frees_at [of ?a "flip us" m True "flip vs"] by (simp add: useds_def)
    ultimately show ?thesis by simp blast
  qed
  have "mem + control_size \<le> p \<and> p + n \<le> mem + bytes" if held: "L p = Some n" for p n
  proof -
    obtain m where m: "n \<le> m" "useds ?a bs (p - 16) = Some m" "16 \<le> p" using block [OF held] by auto
    then have "?a \<le> p - 16" "p - 16 + 8 + m \<le> ?a + 8 + ?n" using useds_range [OF m(2)] bs(2) by simp_all
    moreover have "?n + control_size + 16 \<le> bytes" using assms(3) by (simp add: pool_room_def)
    ultimately show ?thesis using m(1,3) unfolding control_size_def by arith
  qed
  moreover have "p + n \<le> q" if held: "L p = Some n" "L q = Some k" "p < q" for p q n k
  proof -
    obtain m where m: "n \<le> m" "useds ?a bs (p - 16) = Some m" "16 \<le> p" using block [OF held(1)] by auto
    obtain j where j: "useds ?a bs (q - 16) = Some j" "16 \<le> q" using block [OF held(2)] by auto
    have "p - 16 < q - 16" using held(3) m(3) by simp
    from useds_apart [OF m(2) j(1) this] show ?thesis using m(1,3) by simp
  qed
  moreover have "\<exists>u. pool_free p t = (Inr (), u)" if "L p = Some n" for p n
    using block [OF that] free_outcome bs(1) unfolding pool_free_def by metis
  moreover have "\<exists>p u. pool_malloc (of_nat n) t = (Inr p, u)" if "0 < n" "n \<le> 2 ^ 31" for n
    using malloc_outcome [OF bs(1) that] unfolding pool_malloc_def by metis
  ultimately show ?thesis by blast
qed

text \<open>a request of nearly four gigabytes is rounded up to a class there is no list for, and the search
  reads past the end of the bitmaps.\<close>

theorem huge_request_out_of_bounds:
  assumes "2 ^ 32 - 2 ^ 26 < n" "n < 2 ^ 32" "shape s"
  shows "tlsf_malloc (of_nat n) s = (Inl (Undefined ''array index out of range''), s)"
proof -
  let ?k = "request_size n"
  have k: "n \<le> ?k" "?k \<le> 2 ^ 32" using request_size_ok(2) [of n] assms(1,2) by (simp_all add: request_size_def)
  have "fst (mapping_search (of_nat ?k)) = 25"
  proof (cases "?k < 2 ^ 32")
    case True
    have "mapping_search (of_nat ?k) = class_of (?k + 2 ^ (31 - 5) - 1)"
      by (rule mapping_search_large) (use k assms(1) True in simp_all)
    also have "\<dots> = (32 - 7, (?k + 2 ^ (31 - 5) - 1) div 2 ^ (32 - 5) - 32)"
      by (rule class_of_large) (use k assms(1) True in simp_all)
    finally show ?thesis by simp
  next
    case False
    have "mapping_search (of_nat ?k) = class_of (?k + 2 ^ (32 - 5) - 1)"
      by (rule mapping_search_large) (use k False in simp_all)
    also have "\<dots> = (32 - 7, (?k + 2 ^ (32 - 5) - 1) div 2 ^ (32 - 5) - 32)"
      by (rule class_of_large) (use k False in simp_all)
    finally show ?thesis by simp
  qed
  then have "search_suitable_block (mapping_search (of_nat ?k)) s = (Inl (Undefined ''array index out of range''), s)"
    using assms(3) by (simp add: search_suitable_block_def index_at_def shape_def tlsf_constants)
  moreover have "(of_nat ?k :: u64) \<noteq> 0" using k assms(1) of_nat_u64(2) [of ?k] by auto
  ultimately show ?thesis
    using adjust_request [of n] assms(1,2) by (simp add: tlsf_malloc_def block_locate_free_def Let_def)
qed

section \<open>Witnesses\<close>

definition example_memory :: tlsf where
  "example_memory = \<lparr>block_null = 0, fl_bitmap = 0, sl_bitmap = [], blocks = [], prev_phys = (\<lambda>_. 0),
     bsize = (\<lambda>_. 0), next_free = (\<lambda>_. 0), prev_free = (\<lambda>_. 0)\<rparr>"

lemma example_pool:
  obtains s where "MemoryPool 4096 32768 example_memory = (Inr (Some 4096), s)" "pool_ok s 10624 [(26216, True)]"
  using create_outcome [of 4096 32768 example_memory]
  by (auto simp: control_size_def pool_room_def MemoryPool_def)

lemma one_free_block: "[(m, True)] = us @ (n, True) # vs \<longleftrightarrow> us = [] \<and> n = m \<and> vs = []"
  by (cases us) auto

lemma example_size: "request_size 100 = 104"
  by (simp add: request_size_def)

lemma example_block:
  obtains s t where "MemoryPool 4096 32768 example_memory = (Inr (Some 4096), s)" "pool_ok s 10624 [(26216, True)]"
    "tlsf_malloc 100 s = (Inr 10640, t)" "pool_ok t 10624 [(104, False), (26104, True)]"
proof -
  obtain s where s: "MemoryPool 4096 32768 example_memory = (Inr (Some 4096), s)" "pool_ok s 10624 [(26216, True)]"
    using example_pool by blast
  show thesis
    by (rule malloc_outcome [OF s(2), of 100]) (use that s in \<open>auto simp: one_free_block example_size carve_def\<close>)
qed

theorem tlsf_malloc_refines_witness:
  "\<exists>s t. MemoryPool 4096 32768 example_memory = (Inr (Some 4096), s) \<and> tlsf_malloc 100 s = (Inr 10640, t) \<and>
     pool_ok t 10624 [(104, False), (26104, True)]"
proof -
  obtain s where s: "MemoryPool 4096 32768 example_memory = (Inr (Some 4096), s)" "pool_ok s 10624 [(26216, True)]"
    using example_pool by blast
  from tlsf_malloc_refines [OF s(2), of 100]
  have "\<exists>t. tlsf_malloc 100 s = (Inr 10640, t) \<and> pool_ok t 10624 [(104, False), (26104, True)]"
    by (auto simp: one_free_block example_size carve_def split: if_splits)
  then show ?thesis using s(1) by blast
qed

theorem tlsf_free_refines_witness:
  "\<exists>s t u. MemoryPool 4096 32768 example_memory = (Inr (Some 4096), s) \<and> tlsf_malloc 100 s = (Inr 10640, t) \<and>
     tlsf_free 10640 t = (Inr (), u) \<and> pool_ok u 10624 [(26216, True)]"
proof -
  obtain s t where st: "MemoryPool 4096 32768 example_memory = (Inr (Some 4096), s)" "tlsf_malloc 100 s = (Inr 10640, t)"
    "pool_ok t 10624 ([] @ (104, False) # [(26104, True)])" by (rule example_block) simp
  from tlsf_free_refines [OF st(3)] obtain u where "tlsf_free 10640 t = (Inr (), u)" "pool_ok u 10624 [(26216, True)]"
    by (auto simp: coalesce_def join_prev_def join_next_def)
  then show ?thesis using st by blast
qed

theorem tlsf_malloc_free_roundtrip_witness:
  "\<exists>s t u. MemoryPool 4096 32768 example_memory = (Inr (Some 4096), s) \<and> tlsf_malloc 100 s = (Inr 10640, t) \<and>
     tlsf_free 10640 t = (Inr (), u) \<and> pool_ok u 10624 [(26216, True)]"
proof -
  obtain s t where st: "MemoryPool 4096 32768 example_memory = (Inr (Some 4096), s)" "pool_ok s 10624 [(26216, True)]"
    "tlsf_malloc 100 s = (Inr 10640, t)" using example_block by blast
  from tlsf_malloc_free_roundtrip [OF st(2), of 100 10640 t] show ?thesis using st(1,3) by auto
qed

theorem tlsf_client_safe_witness:
  "\<exists>s t. MemoryPool 4096 32768 example_memory = (Inr (Some 4096), s) \<and>
     client_step\<^sup>*\<^sup>* (s, Map.empty) (t, [10640 \<mapsto> 100]) \<and> (\<exists>u. pool_free 10640 t = (Inr (), u))"
proof -
  obtain s t where st: "MemoryPool 4096 32768 example_memory = (Inr (Some 4096), s)" "tlsf_malloc 100 s = (Inr 10640, t)"
    using example_block by blast
  have "client_step (s, Map.empty) (t, [10640 \<mapsto> 100])"
    using client_step.allocate [of 100 s "Inr 10640" t Map.empty] st(2) by simp
  then have run: "client_step\<^sup>*\<^sup>* (s, Map.empty) (t, [10640 \<mapsto> 100])" by (simp add: r_into_rtranclp)
  from tlsf_client_safe [OF _ _ _ _ _ run, of 4096 32768 example_memory] st(1)
  have "\<exists>u. pool_free 10640 t = (Inr (), u)" by (simp add: control_size_def)
  then show ?thesis using st(1) run by blast
qed

theorem huge_request_out_of_bounds_witness:
  "\<exists>s. MemoryPool 4096 32768 example_memory = (Inr (Some 4096), s) \<and>
     tlsf_malloc (2 ^ 32 - 1) s = (Inl (Undefined ''array index out of range''), s)"
proof -
  obtain s where s: "MemoryPool 4096 32768 example_memory = (Inr (Some 4096), s)" "pool_ok s 10624 [(26216, True)]"
    using example_pool by blast
  have "shape s" using s(2) by (simp add: pool_ok_def pool_state_def free_lists_def)
  from huge_request_out_of_bounds [OF _ _ this, of "2 ^ 32 - 1"] show ?thesis using s(1) by auto
qed

end
