(* ===== verification/Tlsf_Walk.thy ===== *)
theory Tlsf_Walk
  imports Tlsf_Safety
begin

text \<open>
  The walk over the blocks of a pool (\<open>tlsf_walk_pool\<close> of \<open>tlsf/tlsf.c\<close>) returns and sees every block
  once; the allocator's own checks, of a pool and of the free lists, pass in every state its
  operations reach. The checks count what they find wrong, but an assertion comes before the count.
\<close>

section \<open>The allocator's checks of itself\<close>

record integrity =
  prev_status :: int
  istatus :: int

definition tlsf_insist :: "bool \<Rightarrow> string \<Rightarrow> int \<Rightarrow> int tl" where
  "tlsf_insist x msg status =
     then_do (tlsf_assert x msg) (\<lambda>_. ret (if x then status else status - 1))"

text \<open>The function the walk hands the blocks to; a fault in it ends the walk.\<close>

definition integrity_walker :: "tlsf \<Rightarrow> nat \<Rightarrow> u64 \<Rightarrow> bool \<Rightarrow> integrity res \<Rightarrow> integrity res" where
  "integrity_walker s p n used r =
     bind_res r (\<lambda>integ.
       let b = block_from_ptr p in
       bind_res (fst (then_do (tlsf_insist (prev_status integ = of_bool (block_is_prev_free b s)) ''prev status incorrect'' 0) (\<lambda>status.
           tlsf_insist (n = block_size b s) ''block size incorrect'' status) s)) (\<lambda>status.
       Inr \<lparr>prev_status = of_bool (block_is_free b s), istatus = istatus integ + status\<rparr>))"

definition tlsf_check_pool :: "nat \<Rightarrow> tlsf \<Rightarrow> int res option" where
  "tlsf_check_pool pool s =
     map_option (\<lambda>r. bind_res r (\<lambda>integ. bind_res integ (\<lambda>i. Inr (istatus i))))
       (tlsf_walk_pool pool (integrity_walker s) s (Inr \<lparr>prev_status = 0, istatus = 0\<rparr>))"

text \<open>One free block of the list of a class.\<close>

definition check_block :: "nat \<times> nat \<Rightarrow> nat \<Rightarrow> int \<Rightarrow> int tl" where
  "check_block c b status =
     then_do (gets (block_is_free b)) (\<lambda>f.
     then_do (tlsf_insist f ''block should be free'' status) (\<lambda>status.
     then_do (gets (block_is_prev_free b)) (\<lambda>pf.
     then_do (tlsf_insist (\<not> pf) ''blocks should have coalesced'' status) (\<lambda>status.
     then_do (block_next b) (\<lambda>nx.
     then_do (gets (\<lambda>s. (block_is_free nx s, block_is_prev_free nx s, block_size b s))) (\<lambda>(nf, npf, n).
     then_do (tlsf_insist (\<not> nf) ''blocks should have coalesced'' status) (\<lambda>status.
     then_do (tlsf_insist npf ''block should be free'' status) (\<lambda>status.
     then_do (tlsf_insist (block_size_min \<le> n) ''block not minimum size'' status) (\<lambda>status.
       tlsf_insist (mapping_insert n = c) ''block size indexed in wrong list'' status)))))))))"

partial_function (option) check_list :: "tlsf \<Rightarrow> nat \<times> nat \<Rightarrow> nat \<Rightarrow> int \<Rightarrow> int res option" where
  "check_list s c b status =
     (if b = block_null s then Some (Inr status)
      else (case fst (check_block c b status s) of
              Inl e \<Rightarrow> Some (Inl e)
            | Inr st \<Rightarrow> check_list s c (next_free s b) st))"

definition check_class :: "tlsf \<Rightarrow> nat \<times> nat \<Rightarrow> int \<Rightarrow> int res option" where
  "check_class s c status =
     (let fl_map = fl_bitmap s AND push_bit (fst c) 1;
          sl_list = sl_bitmap s ! fst c;
          sl_map = sl_list AND push_bit (snd c) 1;
          block = blocks s ! fst c ! snd c
      in case fst (then_do (if fl_map = 0 then tlsf_insist (sl_map = 0) ''second-level map must be null'' status else ret status) (\<lambda>status.
                   if sl_map = 0 then tlsf_insist (block = block_null s) ''block list must be null'' status
                   else then_do (tlsf_insist (sl_list \<noteq> 0) ''no free blocks in second-level map'' status) (\<lambda>status.
                        tlsf_insist (block \<noteq> block_null s) ''block should not be null'' status)) s) of
           Inl e \<Rightarrow> Some (Inl e)
         | Inr st \<Rightarrow> if sl_map = 0 then Some (Inr st) else check_list s c block st)"

fun check_classes :: "tlsf \<Rightarrow> (nat \<times> nat) list \<Rightarrow> int \<Rightarrow> int res option" where
  "check_classes s [] status = Some (Inr status)"
| "check_classes s (c # cs) status =
     (case check_class s c status of
        None \<Rightarrow> None
      | Some (Inl e) \<Rightarrow> Some (Inl e)
      | Some (Inr st) \<Rightarrow> check_classes s cs st)"

definition tlsf_check :: "tlsf \<Rightarrow> int res option" where
  "tlsf_check s = check_classes s (concat (map (\<lambda>i. map (Pair i) [0 ..< SL_INDEX_COUNT]) [0 ..< FL_INDEX_COUNT])) 0"

section \<open>The walk\<close>

fun blocks_at :: "nat \<Rightarrow> pool \<Rightarrow> (nat \<times> nat \<times> bool) list" where
  "blocks_at a [] = []"
| "blocks_at a ((n, f) # bs) = (a, n, f) # blocks_at (a + 8 + n) bs"

lemma frees_blocks_at: "frees a bs x = Some n \<longleftrightarrow> (x, n, True) \<in> set (blocks_at a bs)"
proof (induction a bs rule: blocks_at.induct)
  case (2 a n' f bs)
  have "frees (a + 8 + n') bs a = None" using frees_range(1) [of "a + 8 + n'" bs a] by fastforce
  then show ?case using 2 by auto
qed simp

lemma walk_end:
  assumes "layout s pf a []"
  shows "walk_loop walker s a user = Some (Inr user)"
proof -
  have "block_size a s = 0" using header_reads(1) [of s a 0] assms by (auto simp: layout_def header_ok_def)
  then show ?thesis by (simp add: walk_loop.simps block_is_last_def)
qed

lemma walk_blocks:
  assumes "layout s pf a bs" "0 < a" "after a bs < 2 ^ 63"
  shows "walk_loop walker s a user =
    Some (Inr (fold (\<lambda>(b, n, f). walker (b + 16) (of_nat n) (\<not> f)) (blocks_at a bs) user))"
  using assms
proof (induction bs arbitrary: pf a user)
  case Nil
  then show ?case by (simp add: walk_end)
next
  case (Cons b bs)
  obtain n f where b: "b = (n, f)" by (metis surj_pair)
  have h: "header_ok s pf a n f" "sizes_ok n" and l: "layout s (if f then Some a else None) (a + 8 + n) bs"
    using Cons.prems(1) by (simp_all add: b layout_def)
  have n: "8 dvd n" "0 < n" "n < 2 ^ 63"
    using h(2) Cons.prems(3) after_le [of "a + 8 + n" bs] by (auto simp: b sizes_ok_def)
  obtain p where hd: "bsize s a = header n f p" using h(1) by (auto simp: header_ok_def)
  note rd = header_reads [OF hd n(1)] and nx = block_next_run [OF hd n]
  have "\<not> block_is_last a s" using rd(1) of_nat_u64(2) [OF n(3)] n(2) by (auto simp: block_is_last_def)
  then have "walk_loop walker s a user = walk_loop walker s (a + 8 + n) (walker (a + 16) (of_nat n) (\<not> f) user)"
    using nx rd Cons.prems(2) by (simp add: walk_loop.simps [of walker s a] block_to_ptr_def block_start_offset_def)
  also have "\<dots> = Some (Inr (fold (\<lambda>(b, n, f). walker (b + 16) (of_nat n) (\<not> f)) (blocks_at (a + 8 + n) bs)
      (walker (a + 16) (of_nat n) (\<not> f) user)))"
    by (rule Cons.IH [OF l]) (use Cons.prems(3) in \<open>simp_all add: b\<close>)
  finally show ?case by (simp add: b)
qed

section \<open>The checks pass\<close>

lemma insist_run [simp]: "x \<Longrightarrow> tlsf_insist x msg k s = (Inr k, s)"
  by (simp add: tlsf_insist_def)

lemma integrity_fold:
  assumes "layout s pf a bs"
  shows "fold (\<lambda>(b, n, f). integrity_walker s (b + 16) (of_nat n) (\<not> f)) (blocks_at a bs)
      (Inr \<lparr>prev_status = of_bool (pf \<noteq> None), istatus = k\<rparr>) =
    Inr \<lparr>prev_status = of_bool (last_free pf a bs \<noteq> None), istatus = k\<rparr>"
  using assms
proof (induction bs arbitrary: pf a)
  case (Cons b bs)
  obtain n f where b: "b = (n, f)" by (metis surj_pair)
  have h: "header_ok s pf a n f" "sizes_ok n" and l: "layout s (if f then Some a else None) (a + 8 + n) bs"
    using Cons.prems(1) by (simp_all add: b layout_def)
  have "8 dvd n" using h(2) by (simp add: sizes_ok_def)
  then have rd: "block_size a s = of_nat n" "block_is_free a s \<longleftrightarrow> f" "block_is_prev_free a s \<longleftrightarrow> pf \<noteq> None"
    using header_reads [of s a n f "pf \<noteq> None"] h(1) by (simp_all add: header_ok_def)
  have "integrity_walker s (a + 16) (of_nat n) (\<not> f) (Inr \<lparr>prev_status = of_bool (pf \<noteq> None), istatus = k\<rparr>) =
      Inr \<lparr>prev_status = of_bool ((if f then Some a else None) \<noteq> None), istatus = k\<rparr>"
    using rd by (simp add: integrity_walker_def block_from_ptr_def block_start_offset_def bind_res_def)
  then show ?case using Cons.IH [OF l] by (simp add: b)
qed simp

lemma check_block_run:
  assumes "pool_ok s a (us @ (n, True) # vs)"
  shows "check_block (class_of n) (after a us) k s = (Inr k, s)"
proof -
  let ?bs = "us @ (n, True) # vs"
  have ps: "pool_state s a ?bs ?bs" and sp: "spread ?bs" using assms by (simp_all add: pool_ok_def)
  note b = pool_state_bounds [OF ps refl] and rd = pool_state_reads [OF ps] and nx = next_reads [OF ps]
  have pf: "last_free None a us = None"
    using sp by (cases us rule: rev_cases) (auto simp: spread_def successively_append_iff)
  have nf: "\<not> snd (first_block vs)" using sp by (cases vs) (auto simp: spread_def successively_append_iff first_block_def)
  have l: "layout s None a ?bs" using ps by (simp add: pool_state_def)
  have npf: "block_is_prev_free (after a us + 8 + n) s"
    using header_reads(3) [OF layout_mid(5,4) [OF l refl refl prod.collapse]] by simp
  have "block_next (after a us) s = (Inr (after a us + 8 + n), s)"
    using block_next_run [OF b(6)] b(1,2) by (simp add: sizes_ok_def)
  moreover have "block_size_min \<le> of_nat n"
    using of_nat_le [of 24 n] b(1,2) by (simp add: block_size_min_def block_header_size_def sizes_ok_def)
  ultimately show ?thesis using rd pf nf npf nx by (simp add: check_block_def class_of_def)
qed

lemma check_list_run:
  assumes "dseg s p x xs q (block_null s)" "block_null s \<notin> set xs" "\<forall>b \<in> set xs. check_block c b k s = (Inr k, s)"
  shows "check_list s c x k = Some (Inr k)"
  using assms by (induction xs arbitrary: p x) (auto simp: check_list.simps [of s c])

lemma and_bit: "w AND push_bit i 1 = 0 \<longleftrightarrow> \<not> bit w i" if "i < 32" for w :: u32
proof
  assume "w AND push_bit i 1 = 0"
  then have "\<not> bit (w AND push_bit i 1) i" by simp
  then show "\<not> bit w i" using that by (simp only: bit_and_iff bit_push_bit_iff) simp
next
  assume "\<not> bit w i"
  then show "w AND push_bit i 1 = 0" by (intro bit_word_eqI) (auto simp: bit_and_iff bit_exp_iff)
qed

lemma check_class_run:
  assumes "pool_ok s a bs" "is_class c"
  shows "check_class s c k = Some (Inr k)"
proof -
  have fl: "free_lists s (frees a bs)" using assms(1) by (simp add: pool_ok_def pool_state_def)
  obtain xs where xs: "list_ok s (frees a bs) xs c" using fl assms(2) unfolding free_lists_def by blast
  have dl: "dlist s (head_at s c) xs" and set: "set xs = {b. \<exists>n. frees a bs b = Some n \<and> class_of n = c}"
    and sl: "bit (sl_bitmap s ! fst c) (snd c) \<longleftrightarrow> xs \<noteq> []" using xs by (simp_all add: list_ok_def)
  have c: "fst c < 25" "snd c < 32" using assms(2) by (simp_all add: is_class_def tlsf_constants)
  have m: "fl_bitmap s AND push_bit (fst c) 1 = 0 \<longleftrightarrow> sl_bitmap s ! fst c = 0"
    "sl_bitmap s ! fst c AND push_bit (snd c) 1 = 0 \<longleftrightarrow> xs = []"
    using and_bit [of "fst c" "fl_bitmap s"] and_bit [OF c(2)] fl c sl
    by (simp_all add: free_lists_def first_level_ok_def tlsf_constants)
  have z: "block_null s \<notin> set xs" and hd: "head_at s c = hd (xs @ [block_null s])"
    using dl dlist_head [OF dl] by (simp_all add: dlist_def)
  show ?thesis
  proof (cases "xs = []")
    case True
    then show ?thesis using m hd by (simp add: check_class_def Let_def)
  next
    case False
    have "check_block c b k s = (Inr k, s)" if "b \<in> set xs" for b
    proof -
      from that obtain n where n: "frees a bs b = Some n" "class_of n = c" unfolding set by blast
      obtain us vs where "bs = us @ (n, True) # vs" "b = after a us" using free_block_at [OF n(1)] by blast
      then show ?thesis using check_block_run assms(1) n(2) by blast
    qed
    then have "check_list s c (head_at s c) k = Some (Inr k)"
      using check_list_run z dl unfolding dlist_def by metis
    moreover have "sl_bitmap s ! fst c \<noteq> 0" using sl False by auto
    moreover have "head_at s c \<noteq> block_null s" using hd z False by (cases xs) auto
    ultimately show ?thesis using m False by (simp add: check_class_def Let_def)
  qed
qed

lemma check_classes_run: "pool_ok s a bs \<Longrightarrow> \<forall>c \<in> set cs. is_class c \<Longrightarrow> check_classes s cs k = Some (Inr k)"
  by (induction cs) (simp_all add: check_class_run)

lemma walk_pool_run:
  assumes "pool_ok s a bs" "a < 2 ^ 62"
  shows "tlsf_walk_pool (a + 8) walker s user =
    Some (Inr (fold (\<lambda>(b, n, f). walker (b + 16) (of_nat n) (\<not> f)) (blocks_at a bs) user))"
proof -
  have "layout s None a bs" "0 < a" "after a bs < 2 ^ 63"
    using assms by (auto simp: pool_ok_def pool_state_def)
  from walk_blocks [OF this] show ?thesis
    by (simp add: tlsf_walk_pool_def offset_to_block_def block_header_overhead_def)
qed

text \<open>the walk over a pool returns, and hands every block to the function once, in the order of the
  addresses, with its size and whether it is used.\<close>

theorem tlsf_walk_pool_blocks:
  assumes "pool_ok s a bs" "a < 2 ^ 62"
  shows "tlsf_walk_pool (a + 8) walker s user =
    Some (Inr (fold (\<lambda>(b, n, f). walker (b + 16) (of_nat n) (\<not> f)) (blocks_at a bs) user))"
  using walk_pool_run [OF assms] .

text \<open>C8: the allocator's own checks return and find nothing wrong after anything a client of a new pool does:
  every pool they walk has matching headers, and the free lists and bitmaps are exact.\<close>

theorem tlsf_checks_pass:
  assumes "0 < mem" "mem < 2 ^ 61" "8 dvd mem" "control_size + 40 \<le> bytes" "bytes < 2 ^ 32"
    and "MemoryPool mem (of_nat bytes) s0 = (Inr (Some mem), s)" "client_step\<^sup>*\<^sup>* (s, Map.empty) (t, L)"
  shows "tlsf_check t = Some (Inr 0) \<and> tlsf_check_pool (tlsf_get_pool mem) t = Some (Inr 0)"
proof -
  let ?a = "mem + control_size - 8"
  obtain bs where bs: "pool_ok t ?a bs" by (rule client_of_new_pool [OF assms(1,3-7)])
  have a: "?a + 8 = mem + control_size" "?a < 2 ^ 62" using assms(2) by (simp_all add: control_size_def)
  have "layout t None ?a bs" using bs by (simp add: pool_ok_def pool_state_def)
  note tlsf_walk = walk_pool_run [OF bs a(2)] and ok = integrity_fold [OF this, of 0]
  have "tlsf_check_pool (?a + 8) t = Some (Inr 0)"
    using ok unfolding tlsf_check_pool_def tlsf_walk by (simp add: bind_res_def)
  moreover have "tlsf_check t = Some (Inr 0)"
    unfolding tlsf_check_def by (rule check_classes_run [OF bs]) (auto simp: is_class_def)
  moreover have "tlsf_get_pool mem = ?a + 8"
    using of_nat_u64(2) [of control_size] a(1) by (simp add: tlsf_get_pool_def tlsf_size_value control_size_def)
  ultimately show ?thesis by simp
qed

theorem tlsf_checks_pass_witness:
  "\<exists>s t. MemoryPool 4096 32768 example_memory = (Inr (Some 4096), s) \<and> tlsf_malloc 100 s = (Inr 10640, t) \<and>
     tlsf_check t = Some (Inr 0) \<and> tlsf_check_pool (tlsf_get_pool 4096) t = Some (Inr 0)"
proof -
  obtain s t where st: "MemoryPool 4096 32768 example_memory = (Inr (Some 4096), s)" "tlsf_malloc 100 s = (Inr 10640, t)"
    using example_block by blast
  have "client_step (s, Map.empty) (t, [10640 \<mapsto> 100])"
    using client_step.allocate [of 100 s "Inr 10640" t Map.empty] st(2) by simp
  then have run: "client_step\<^sup>*\<^sup>* (s, Map.empty) (t, [10640 \<mapsto> 100])" by (simp add: r_into_rtranclp)
  from tlsf_checks_pass [OF _ _ _ _ _ _ run, of 4096 32768 example_memory] st(1)
  have "tlsf_check t = Some (Inr 0) \<and> tlsf_check_pool (tlsf_get_pool 4096) t = Some (Inr 0)" by (simp add: control_size_def)
  then show ?thesis using st by blast
qed

theorem tlsf_walk_pool_blocks_witness:
  "\<exists>s t. MemoryPool 4096 32768 example_memory = (Inr (Some 4096), s) \<and> tlsf_malloc 100 s = (Inr 10640, t) \<and>
     tlsf_walk_pool 10632 (\<lambda>p n used. Cons (p, unat n, used)) t [] =
       Some (Inr [(10752, 26104, False), (10640, 104, True)])"
proof -
  obtain s t where st: "MemoryPool 4096 32768 example_memory = (Inr (Some 4096), s)" "tlsf_malloc 100 s = (Inr 10640, t)"
    "pool_ok t 10624 [(104, False), (26104, True)]" by (rule example_block)
  from tlsf_walk_pool_blocks [OF st(3), of "\<lambda>p n used. Cons (p, unat n, used)" "[]"]
  have "tlsf_walk_pool 10632 (\<lambda>p n used. Cons (p, unat n, used)) t [] =
       Some (Inr [(10752, 26104, False), (10640, 104, True)])" by simp
  then show ?thesis using st by blast
qed

end
