(* ===== verification/Tlsf_Realloc.thy ===== *)
theory Tlsf_Realloc
  imports Tlsf_Safety
begin

text \<open>
  Resizing a block (\<open>tlsf_realloc\<close> of \<open>tlsf/tlsf.c\<close>): in place where the block or a free one behind it
  has room, otherwise by allocating anew.
\<close>

section \<open>Shrinking and growing in place\<close>

definition shrink :: "nat \<Rightarrow> nat \<Rightarrow> pool \<Rightarrow> pool" where
  "shrink k m vs =
     (if k + 32 \<le> m then let (j, ws) = join_next (m - k - 8) vs in (k, False) # (j, True) # ws else (m, False) # vs)"

lemma trim_used_run:
  assumes "pool_state s a (us @ (m, False) # vs) (us @ (m, False) # vs)" "sizes_ok k" "k \<le> m"
  shows "\<exists>t. block_trim_used (after a us) (of_nat k) s = (Inr (), t) \<and>
     pool_state t a (us @ shrink k m vs) (us @ shrink k m vs)"
proof -
  note b = pool_state_bounds [OF assms(1) refl] and rd = pool_state_reads [OF assms(1)]
  have can: "block_can_split (after a us) (of_nat k) s \<longleftrightarrow> k + 32 \<le> m"
    using can_split [OF rd(1) b(1)] assms(3) b(1) by simp
  show ?thesis
  proof (cases "k + 32 \<le> m")
    case False
    then show ?thesis using assms(1) rd(2) can by (auto simp: block_trim_used_def shrink_def)
  next
    case True
    let ?b = "after a us" and ?n = "m - k - 8"
    let ?r = "?b + 8 + k"
    have l: "layout s None a (us @ (m, False) # vs)" "8 dvd a" using assms(1) by (simp_all add: pool_state_def)
    obtain t h where t: "block_split ?b (of_nat k) s = (Inr ?r, t)" "same_lists s t" "bsize t ?r = header ?n True h"
      "\<And>t'. same_lists t t' \<Longrightarrow> bsize t' = (bsize t)(?r := header ?n True False) \<Longrightarrow>
        prev_phys t' = prev_phys t \<Longrightarrow> layout t' None a (us @ (k, False) # (?n, True) # vs)"
      using lay_split [OF l _ assms(2) True, of ?b ?r] b(1) by auto
    define t' where "t' = t\<lparr>bsize := (bsize t)(?r := header ?n True False)\<rparr>"
    have n8: "8 dvd ?n" using assms(2) b(2) True by (auto simp: sizes_ok_def)
    have run: "block_set_prev_used ?r t = (Inr (), t')"
      using t(3) header_set(4) [OF n8] by (simp add: block_set_prev_used_def update_field_run t'_def)
    have "same_lists t t'" "same_lists s t'" using t(2) by (simp_all add: same_lists_def t'_def)
    then have lay: "layout t' None a (us @ (k, False) # (?n, True) # vs)" by (intro t(4)) (simp_all add: t'_def)
    have m: "m = k + 8 + ?n" using True by simp
    have "pool_state t' a (us @ (k, False) # (?n, True) # vs) (us @ (k, False) # (?n, False) # vs)"
    proof (rule pool_state_relay [OF assms(1) lay \<open>same_lists s t'\<close>])
      show "frees a (us @ (k, False) # (?n, False) # vs) = frees a (us @ (m, False) # vs)" by (metis m frees_split)
    qed (use True in \<open>simp add: ac_simps\<close>)
    then have ps: "pool_state t' a ((us @ [(k, False)]) @ (?n, True) # vs) ((us @ [(k, False)]) @ (?n, False) # vs)" by simp
    obtain j ws where j: "join_next ?n vs = (j, ws)" by (metis surj_pair)
    obtain t1 where t1: "block_merge_next ?r t' = (Inr ?r, t1)"
      "pool_state t1 a ((us @ [(k, False)]) @ (j, True) # ws) ((us @ [(k, False)]) @ (j, False) # ws)"
      using merge_next_run [OF ps j] by auto
    obtain t2 where t2: "block_insert ?r t1 = (Inr (), t2)"
      "pool_state t2 a ((us @ [(k, False)]) @ (j, True) # ws) ((us @ [(k, False)]) @ (j, True) # ws)"
      using block_insert_run [OF t1(2)] by auto
    have "block_trim_used ?b (of_nat k) s = (Inr (), t2)"
      using rd(2) can True t(1) run t1(1) t2(1) by (simp add: block_trim_used_def)
    then show ?thesis using t2(2) True j by (auto simp: shrink_def)
  qed
qed

text \<open>Taking in the free block behind a used one, whose header then is the used one's again.\<close>

lemma lay_absorb_used:
  assumes "layout s None a (us @ (n, False) # (k, True) # vs)" "n + 8 + k < 2 ^ 63"
  shows "\<exists>t u. block_absorb (after a us) (after a us + 8 + n) s = (Inr (after a us), t) \<and>
     block_mark_as_used (after a us) t = (Inr (), u) \<and>
     layout u None a (us @ (n + 8 + k, False) # vs) \<and> same_lists s u"
proof -
  define b where "b = after a us"
  define d where "d = b + 8 + n"
  define c where "c = b + 8 + (n + 8 + k)"
  let ?p = "last_free None a us \<noteq> None"
  have ls: "layout s (Some d) c vs" "header_ok s (last_free None a us) b n False" "sizes_ok n" "sizes_ok k"
    "header_ok s None d k True"
    using assms(1) by (simp add: layout_def b_def d_def c_def ac_simps)+
  obtain m g where mg: "(m, g) = first_block vs" by (metis surj_pair)
  have m: "header_ok s (Some d) c m g" "8 dvd m"
    using layout_first [OF ls(1)] first_block_aligned [OF ls(1)] mg by (metis fst_conv snd_conv)+
  have n8: "8 dvd n" "8 dvd k" "0 < n" "8 dvd n + 8 + k" using ls(3,4) by (auto simp: sizes_ok_def intro!: dvd_add)
  define s1 where "s1 = s\<lparr>bsize := (bsize s)(b := header (n + 8 + k) False ?p)\<rparr>"
  define t where "t = s1\<lparr>prev_phys := (prev_phys s1)(c := b)\<rparr>"
  define u where "u = t\<lparr>bsize := (bsize t)(c := header m g False, b := header (n + 8 + k) False ?p)\<rparr>"
  have rd: "block_size d s = of_nat k" using header_reads [of s d k] ls(5) n8 by (simp add: header_ok_def)
  have last: "\<not> block_is_last b s"
    using header_reads [of s b n] ls(2) n8 of_nat_u64(2) [of n] assms(2) by (auto simp: header_ok_def block_is_last_def)
  have plus: "header n False p + (of_nat k + block_header_overhead) = header (n + 8 + k) False p" for p
  proof -
    have "(of_nat k + block_header_overhead :: u64) = of_nat (8 + k)" by (simp add: block_header_overhead_def)
    moreover have "8 dvd 8 + k" using n8 by simp
    ultimately show ?thesis by (simp only: header_plus [OF n8(1)] add.assoc)
  qed
  have upd: "update_field (\<lambda>f. f + (of_nat k + block_header_overhead)) b s = (Inr (), s1)"
    using ls(2) plus by (simp add: update_field_run s1_def header_ok_def)
  have link: "block_link_next b s1 = (Inr c, t)"
    using block_link_next_run [of s1 b "n + 8 + k" False ?p] n8 assms(2) by (simp add: s1_def t_def c_def)
  have "block_absorb b d s = (Inr b, t)" using last rd upd link by (simp add: block_absorb_def)
  moreover have "block_mark_as_used b t = (Inr (), u)"
    using mark_as_used_run [of t b "n + 8 + k" False ?p c m g True] n8 assms(2) m
    by (simp add: t_def s1_def u_def c_def header_ok_def)
  moreover have "layout u None a (us @ [(n + 8 + k, False)] @ vs)"
  proof (rule layout_replace [where mid = "[(n, False), (k, True)]" and c = c])
    show "header_ok u (last_free (last_free None a us) (after a us) [(n + 8 + k, False)]) c (fst (first_block vs)) (snd (first_block vs))"
      using mg [symmetric] by (simp add: u_def header_ok_def b_def c_def)
  qed (use assms(1) ls n8 in \<open>auto simp: u_def t_def s1_def header_ok_def b_def c_def d_def sizes_ok_def\<close>)
  ultimately show ?thesis by (intro exI [of _ t] exI [of _ u]) (auto simp: b_def d_def same_lists_def t_def s1_def u_def)
qed

lemma grow_run:
  assumes "pool_state s a (us @ (n, False) # (k, True) # vs) (us @ (n, False) # (k, True) # vs)"
  shows "\<exists>t u. block_merge_next (after a us) s = (Inr (after a us), t) \<and> block_mark_as_used (after a us) t = (Inr (), u) \<and>
     pool_state u a (us @ (n + 8 + k, False) # vs) (us @ (n + 8 + k, False) # vs)"
proof -
  let ?b = "after a us" and ?c = "after a us + 8 + n"
  have ps: "pool_state s a ((us @ [(n, False)]) @ (k, True) # vs) ((us @ [(n, False)]) @ (k, True) # vs)" using assms by simp
  note b = pool_state_bounds [OF assms refl]
  have nx: "block_next ?b s = (Inr ?c, s)" using block_next_run [OF b(6)] b(1,2) by (simp add: sizes_ok_def)
  have last: "\<not> block_is_last ?b s"
    using pool_state_reads(1) [OF assms] of_nat_u64(2) [of n] b(1,2) by (auto simp: block_is_last_def sizes_ok_def)
  have f: "block_is_free ?c s" using pool_state_reads(2) [OF ps] by simp
  obtain t0 where t0: "block_remove ?c s = (Inr (), t0)"
    "pool_state t0 a (us @ (n, False) # (k, True) # vs) (us @ (n, False) # (k, False) # vs)"
    using block_remove_run [OF ps] by auto
  have "?b + 8 + n + 8 + k \<le> after a (us @ (n, False) # (k, True) # vs)"
    using after_le [of "?b + 8 + n + 8 + k" vs] by simp
  then have "n + 8 + k < 2 ^ 63" using assms after_le [of a us] by (simp add: pool_state_def)
  then obtain t u where t: "block_absorb ?b ?c t0 = (Inr ?b, t)" "block_mark_as_used ?b t = (Inr (), u)"
    "layout u None a (us @ (n + 8 + k, False) # vs)" "same_lists t0 u"
    using lay_absorb_used [of t0 a us n k vs] t0(2) by (auto simp: pool_state_def)
  have "pool_state u a (us @ (n + 8 + k, False) # vs) (us @ (n + 8 + k, False) # vs)"
    by (rule pool_state_relay [OF t0(2) t(3,4) _ frees_split]) (simp add: ac_simps)
  moreover have "block_merge_next ?b s = (Inr ?b, t)" using nx f last t0(1) t(1) by (simp add: block_merge_next_def)
  ultimately show ?thesis using t(2) by blast
qed

lemma useds_shrink:
  "useds a (us @ shrink k m vs) = (useds a (us @ (m, False) # vs))(after a us \<mapsto> (if k + 32 \<le> m then k else m))"
proof (cases "k + 32 \<le> m")
  case True
  obtain j ws where j: "join_next (m - k - 8) vs = (j, ws)" by (metis surj_pair)
  have m: "m = k + 8 + (m - k - 8)" using True by simp
  have split: "frees a (us' @ (j, False) # flip ws) = frees a (us' @ (m - k - 8, False) # flip vs)" for us'
    using j frees_split [of a us' "m - k - 8"] by (auto simp: join_next_def split: list.splits bool.splits)
  have used: "frees a (flip us @ (i, True) # zs) = (frees a (flip us @ (i, False) # zs))(after a us \<mapsto> i)" for i zs
    using frees_free [of a "flip us" i zs] by simp
  have "frees a (flip us @ (k, True) # (j, False) # flip ws) =
      (frees a (flip us @ (k, False) # (m - k - 8, False) # flip vs))(after a us \<mapsto> k)"
    using used [of k "(j, False) # flip ws"] split [of "flip us @ [(k, False)]"] by simp
  also have "frees a (flip us @ (k, False) # (m - k - 8, False) # flip vs) = frees a (flip us @ (m, False) # flip vs)"
    by (metis m frees_split)
  finally have "frees a (flip us @ (k, True) # (j, False) # flip ws) = (frees a (flip us @ (m, False) # flip vs))(after a us \<mapsto> k)" .
  then show ?thesis using True j used [of m "flip vs"] by (simp add: useds_def shrink_def)
next
  case False
  have "useds a (us @ (m, False) # vs) (after a us) = Some m"
    using frees_at [of a "flip us" m True "flip vs"] by (simp add: useds_def)
  then show ?thesis using False by (simp add: shrink_def fun_upd_idem)
qed

lemma spread_shrink:
  assumes "spread (us @ (m, False) # vs)"
  shows "spread (us @ shrink k m vs)"
  using assms
  by (auto simp: shrink_def spread_def successively_append_iff successively_Cons join_next_def Let_def
      split: list.splits bool.splits prod.splits)


lemma useds_grown:
  "useds a (us @ (n + 8 + k, False) # vs) = (useds a (us @ (n, False) # (k, True) # vs))(after a us \<mapsto> n + 8 + k)"
proof -
  let ?us = "flip us" and ?vs = "flip vs"
  have "frees a (?us @ (n + 8 + k, True) # ?vs) = (frees a (?us @ (n + 8 + k, False) # ?vs))(after a us \<mapsto> n + 8 + k)"
    using frees_free [of a ?us "n + 8 + k" ?vs] by simp
  also have "frees a (?us @ (n + 8 + k, False) # ?vs) = frees a (?us @ (n, False) # (k, False) # ?vs)"
    by (rule frees_split)
  also have "(frees a (?us @ (n, False) # (k, False) # ?vs))(after a us \<mapsto> n + 8 + k) =
      (frees a (?us @ (n, True) # (k, False) # ?vs))(after a us \<mapsto> n + 8 + k)"
    using frees_free [of a ?us n "(k, False) # ?vs"] by (metis after_flip fun_upd_upd)
  finally show ?thesis by (simp add: useds_def)
qed

lemma spread_grown: "spread (us @ (n, False) # (k, True) # vs) \<Longrightarrow> spread (us @ (n + 8 + k, False) # vs)"
  by (auto simp: spread_def successively_append_iff successively_Cons)

section \<open>The two ways of resizing\<close>

text \<open>The room there is for a block where it lies.\<close>

definition room_at :: "nat \<Rightarrow> pool \<Rightarrow> nat" where
  "room_at m vs = (case vs of (w, True) # _ \<Rightarrow> m + 8 + w | _ \<Rightarrow> m)"

text \<open>What the code has read before it decides.\<close>

lemma realloc_reads:
  assumes "pool_ok s a (us @ (m, False) # vs)" "0 < n" "n \<le> 2 ^ 31"
  shows "tlsf_realloc (after a us + 16) (of_nat n) s =
     (let b = after a us; k = request_size n in
      if room_at m vs < k \<and> m < k
      then then_do (tlsf_malloc (of_nat n)) (\<lambda>q. if q \<noteq> 0 then then_do (tlsf_free (b + 16)) (\<lambda>_. ret q) else ret 0) s
      else then_do (if m < k then then_do (block_merge_next b) (\<lambda>_. block_mark_as_used b) else ret ()) (\<lambda>_.
           then_do (block_trim_used b (of_nat k)) (\<lambda>_. ret (b + 16))) s)"
proof -
  let ?b = "after a us" and ?k = "request_size n"
  have ps: "pool_state s a (us @ (m, False) # vs) (us @ (m, False) # vs)" using assms(1) by (simp add: pool_ok_def)
  note b = pool_state_bounds [OF ps refl] and rd = pool_state_reads [OF ps] and nx = next_reads [OF ps]
  have k: "?k \<le> 2 ^ 31" using request_size_le assms(3) by simp
  have n0: "(of_nat n :: u64) \<noteq> 0" using assms(2,3) of_nat_u64(2) [of n] by auto
  have adj: "adjust_request_size (of_nat n) ALIGN_SIZE = of_nat ?k" using adjust_request assms(2,3) by simp
  have nxt: "block_next ?b s = (Inr (?b + 8 + m), s)" using block_next_run [OF b(6)] b(1,2) by (simp add: sizes_ok_def)
  have lt: "(of_nat m :: u64) < of_nat ?k \<longleftrightarrow> m < ?k"
    using of_nat_le [of ?k m] b(1) k by (simp add: linorder_not_le [symmetric])
  have room: "(\<not> snd (first_block vs) \<or> of_nat m + of_nat (fst (first_block vs)) + block_header_overhead < (of_nat ?k :: u64))
      \<longleftrightarrow> room_at m vs < ?k" if "m < ?k"
  proof (cases "snd (first_block vs)")
    case True
    then obtain w ws where v: "vs = (w, True) # ws" by (cases vs) (auto simp: first_block_def)
    have "w < 2 ^ 32"
      using pool_state_bounds(1) [OF ps, of "us @ [(m, False)]" w True ws] v by simp
    then have "\<not> (of_nat ?k :: u64) \<le> of_nat (m + w + 8) \<longleftrightarrow> \<not> ?k \<le> m + w + 8"
      using of_nat_le [of ?k "m + w + 8"] k b(1) by simp
    then show ?thesis using v by (simp add: first_block_def room_at_def block_header_overhead_def linorder_not_le ac_simps)
  next
    case False
    then show ?thesis using that by (auto simp: first_block_def room_at_def split: list.splits bool.splits)
  qed
  show ?thesis
    using nxt rd nx n0 adj lt room
    by (auto simp: tlsf_realloc_def block_from_ptr_def block_start_offset_def Let_def tlsf_assert_def)
qed

lemma realloc_in_place:
  assumes "pool_ok s a (us @ (m, False) # vs)" "0 < n" "n \<le> 2 ^ 31" "request_size n \<le> max m (room_at m vs)"
  shows "\<exists>t bs k. tlsf_realloc (after a us + 16) (of_nat n) s = (Inr (after a us + 16), t) \<and> pool_ok t a bs \<and>
     request_size n \<le> k \<and> useds a bs = (useds a (us @ (m, False) # vs))(after a us \<mapsto> k)"
proof -
  let ?b = "after a us" and ?k = "request_size n"
  have ps: "pool_state s a (us @ (m, False) # vs) (us @ (m, False) # vs)" and sp: "spread (us @ (m, False) # vs)"
    using assms(1) by (simp_all add: pool_ok_def)
  show ?thesis
  proof (cases "?k \<le> m")
    case True
    obtain t where t: "block_trim_used ?b (of_nat ?k) s = (Inr (), t)"
      "pool_state t a (us @ shrink ?k m vs) (us @ shrink ?k m vs)"
      using trim_used_run [OF ps request_size_ok(1) True] by blast
    moreover have "tlsf_realloc (?b + 16) (of_nat n) s = (Inr (?b + 16), t)"
      using realloc_reads [OF assms(1-3)] t(1) True by (simp add: Let_def)
    moreover have "pool_ok t a (us @ shrink ?k m vs)" using t(2) spread_shrink [OF sp] by (simp add: pool_ok_def)
    moreover have "?k \<le> (if ?k + 32 \<le> m then ?k else m)" using True by simp
    ultimately show ?thesis using useds_shrink by blast
  next
    case False
    then obtain w ws where v: "vs = (w, True) # ws" "?k \<le> m + 8 + w"
      using assms(4) by (auto simp: room_at_def split: list.splits bool.splits)
    obtain t u where t: "block_merge_next ?b s = (Inr ?b, t)" "block_mark_as_used ?b t = (Inr (), u)"
      "pool_state u a (us @ (m + 8 + w, False) # ws) (us @ (m + 8 + w, False) # ws)"
      using grow_run ps unfolding v(1) by blast
    obtain x where x: "block_trim_used ?b (of_nat ?k) u = (Inr (), x)"
      "pool_state x a (us @ shrink ?k (m + 8 + w) ws) (us @ shrink ?k (m + 8 + w) ws)"
      using trim_used_run [OF t(3) request_size_ok(1) v(2)] by blast
    have "spread (us @ (m + 8 + w, False) # ws)" using sp unfolding v(1) by (rule spread_grown)
    then have "pool_ok x a (us @ shrink ?k (m + 8 + w) ws)" using x(2) spread_shrink by (simp add: pool_ok_def)
    moreover have "tlsf_realloc (?b + 16) (of_nat n) s = (Inr (?b + 16), x)"
      using realloc_reads [OF assms(1-3)] t x(1) v False by (simp add: Let_def room_at_def)
    moreover have "?k \<le> (if ?k + 32 \<le> m + 8 + w then ?k else m + 8 + w)" using v(2) by simp
    moreover have "useds a (us @ shrink ?k (m + 8 + w) ws) =
        (useds a (us @ (m, False) # vs))(?b \<mapsto> (if ?k + 32 \<le> m + 8 + w then ?k else m + 8 + w))"
      using useds_shrink useds_grown v(1) by (metis fun_upd_upd)
    ultimately show ?thesis by blast
  qed
qed

lemma useds_at: "useds a (us @ (m, f) # vs) (after a us) = (if f then None else Some m)"
  using frees_at [of a "flip us" m "\<not> f" "flip vs"] by (simp add: useds_def)

lemma room_at_le: "m \<le> room_at m vs"
  by (auto simp: room_at_def split: list.splits bool.splits)

lemma realloc_moved:
  assumes "pool_ok s a (us @ (m, False) # vs)" "0 < n" "n \<le> 2 ^ 31" "room_at m vs < request_size n"
  shows "(\<exists>q t bs k. tlsf_realloc (after a us + 16) (of_nat n) s = (Inr q, t) \<and> pool_ok t a bs \<and> 16 \<le> q \<and>
      request_size n \<le> k \<and> useds a bs = (useds a (us @ (m, False) # vs))(after a us := None, q - 16 \<mapsto> k)) \<or>
    (tlsf_realloc (after a us + 16) (of_nat n) s = (Inr 0, s) \<and>
      (\<forall>j. (j, True) \<in> set (us @ (m, False) # vs) \<longrightarrow> j < request_size n + request_size n div 32))"
proof -
  let ?b = "after a us" and ?k = "request_size n" and ?bs = "us @ (m, False) # vs"
  have run: "tlsf_realloc (?b + 16) (of_nat n) s =
      then_do (tlsf_malloc (of_nat n)) (\<lambda>q. if q \<noteq> 0 then then_do (tlsf_free (?b + 16)) (\<lambda>_. ret q) else ret 0) s"
    using realloc_reads [OF assms(1-3)] assms(4) room_at_le [of m vs] by (simp add: Let_def)
  show ?thesis
  proof (rule malloc_outcome [OF assms(1-3)])
    fix us' j vs' t
    assume f: "?bs = us' @ (j, True) # vs'" "?k \<le> j" "tlsf_malloc (of_nat n) s = (Inr (after a us' + 16), t)"
      "pool_ok t a (us' @ carve False ?k j @ vs')"
    let ?c = "after a us'" and ?ds = "us' @ carve False ?k j @ vs'" and ?l = "if ?k + 32 \<le> j then ?k else j"
    have U: "useds a ?ds = (useds a ?bs)(?c \<mapsto> ?l)" using useds_carve f(1) by simp
    have apart: "?b \<noteq> ?c" using useds_at [of a us m False vs] useds_at [of a us' j True vs'] f(1) by auto
    then have "useds a ?ds ?b = Some m" using U useds_at [of a us m False vs] by simp
    from used_block_at [OF this] obtain xs ys where x: "?ds = xs @ (m, False) # ys" "?b = after a xs" by blast
    obtain u where u: "tlsf_free (?b + 16) t = (Inr (), u)" "pool_ok u a (coalesce xs m ys)"
      using free_outcome f(4) x by metis
    have "useds a (coalesce xs m ys) = (useds a ?bs)(?b := None, ?c \<mapsto> ?l)"
      using useds_coalesce [of a xs m ys] U x apart by (simp add: fun_upd_twist)
    moreover have "tlsf_realloc (?b + 16) (of_nat n) s = (Inr (?c + 16), u)" using run f(3) u(1) by simp
    moreover have "?k \<le> ?l" using f(2) by simp
    ultimately show ?thesis using u(2)
      by (intro disjI1 exI [of _ "?c + 16"] exI [of _ u] exI [of _ "coalesce xs m ys"] exI [of _ ?l]) simp
  next
    assume "tlsf_malloc (of_nat n) s = (Inr 0, s)" "\<forall>j. (j, True) \<in> set ?bs \<longrightarrow> j < ?k + ?k div 32"
    then show ?thesis using run by simp
  qed
qed

section \<open>Properties\<close>

text \<open>C9: resizing a block leaves the others as they are, and the resized one can hold the new size: it stays
  where it lies if it is large enough or the free block behind it makes it so; otherwise it moves, unless
  every free block is too small for the search, and then nothing changes.\<close>

theorem tlsf_realloc_correct:
  assumes "pool_ok s a (us @ (m, False) # vs)" "0 < n" "n \<le> 2 ^ 31"
  shows "\<exists>q t. tlsf_realloc (after a us + 16) (of_nat n) s = (Inr q, t) \<and>
     (request_size n \<le> room_at m vs \<longrightarrow> q = after a us + 16) \<and>
     (if q = 0
      then t = s \<and> (\<forall>j. (j, True) \<in> set (us @ (m, False) # vs) \<longrightarrow> j < request_size n + request_size n div 32)
      else \<exists>bs k. pool_ok t a bs \<and> request_size n \<le> k \<and>
        useds a bs = (useds a (us @ (m, False) # vs))(after a us := None, q - 16 \<mapsto> k))"
proof (cases "request_size n \<le> room_at m vs")
  case True
  then have "request_size n \<le> max m (room_at m vs)" by simp
  from realloc_in_place [OF assms this] obtain t bs k where
    "tlsf_realloc (after a us + 16) (of_nat n) s = (Inr (after a us + 16), t)" "pool_ok t a bs"
    "request_size n \<le> k" "useds a bs = (useds a (us @ (m, False) # vs))(after a us \<mapsto> k)" by blast
  then show ?thesis
    by (intro exI [of _ "after a us + 16"] exI [of _ t] conjI) (auto intro!: exI [of _ bs] exI [of _ k])
next
  case False
  then have "room_at m vs < request_size n" by simp
  from realloc_moved [OF assms this] show ?thesis
  proof (elim disjE exE conjE)
    fix q t bs k
    assume "tlsf_realloc (after a us + 16) (of_nat n) s = (Inr q, t)" "pool_ok t a bs" "16 \<le> q" "request_size n \<le> k"
      "useds a bs = (useds a (us @ (m, False) # vs))(after a us := None, q - 16 \<mapsto> k)"
    then show ?thesis using False by (intro exI [of _ q] exI [of _ t] conjI) auto
  qed (use False in simp)
qed


section \<open>Witnesses\<close>

theorem tlsf_realloc_correct_witness:
  "\<exists>s t u bs k. MemoryPool 4096 32768 example_memory = (Inr (Some 4096), s) \<and> tlsf_malloc 100 s = (Inr 10640, t) \<and>
     tlsf_realloc 10640 200 t = (Inr 10640, u) \<and> pool_ok u 10624 bs \<and> 200 \<le> k \<and> useds 10624 bs = [10624 \<mapsto> k]"
proof -
  obtain s t where st: "MemoryPool 4096 32768 example_memory = (Inr (Some 4096), s)" "tlsf_malloc 100 s = (Inr 10640, t)"
    "pool_ok t 10624 ([] @ (104, False) # [(26104, True)])" by (rule example_block) simp
  have k: "request_size 200 = 200" by (simp add: request_size_def)
  from tlsf_realloc_correct [OF st(3), of 200] obtain u bs k where
    "tlsf_realloc 10640 200 t = (Inr 10640, u)" "pool_ok u 10624 bs" "200 \<le> k" "useds 10624 bs = [10624 \<mapsto> k]"
    by (auto simp: k room_at_def useds_def)
  then show ?thesis using st by blast
qed


end
