(* ===== verification/Sq_Object.thy ===== *)
theory Sq_Object
  imports Prelude
begin

unbundle bit_operations_syntax

text \<open>
  Objects of the scripting language as its runtime keeps them (\<open>squirrel/include/squirrel.h\<close>,
  \<open>squirrel/squirrel/sqobject.h\<close>): a type and 64 bits, compared bit by bit, and the hash values the
  tables are built on. What lies behind a pointer (the hash and the characters of a string, the
  object a weak reference stands for) is a heap the definitions are given.
\<close>

datatype sqtype = OT_NULL | OT_INTEGER | OT_FLOAT | OT_BOOL | OT_STRING | OT_TABLE | OT_ARRAY | OT_USERDATA
  | OT_CLOSURE | OT_NATIVECLOSURE | OT_GENERATOR | OT_USERPOINTER | OT_THREAD | OT_FUNCPROTO | OT_CLASS
  | OT_INSTANCE | OT_WEAKREF | OT_OUTER

record sqobject =
  o_type :: sqtype
  o_raw :: u64

record sqheap =
  str_hash :: "u64 \<Rightarrow> u64"
  str_val :: "u64 \<Rightarrow> string"
  weak_obj :: "u64 \<Rightarrow> sqobject"

definition null_object :: sqobject where
  "null_object = \<lparr>o_type = OT_NULL, o_raw = 0\<rparr>"

definition is_null :: "sqobject \<Rightarrow> bool" where
  "is_null o' \<longleftrightarrow> o_type o' = OT_NULL"

definition same_object :: "sqobject \<Rightarrow> sqobject \<Rightarrow> bool" where
  "same_object a b \<longleftrightarrow> o_raw a = o_raw b \<and> o_type a = o_type b"

definition realval :: "sqheap \<Rightarrow> sqobject \<Rightarrow> sqobject" where
  "realval H o' = (if o_type o' \<noteq> OT_WEAKREF then o' else weak_obj H (o_raw o'))"

text \<open>
  The integer a single precision number is truncated to, by its bits; a number that is too large
  gives the integer the processor's conversion gives.
\<close>

definition float_integer :: "u32 \<Rightarrow> u64" where
  "float_integer w =
     (let e = unat (drop_bit 23 w AND 255); m = unat (w AND mask 23) + 2 ^ 23;
          n = (if e < 127 then 0 else if e < 150 then m div 2 ^ (150 - e) else m * 2 ^ (e - 150))
      in if 190 \<le> e then push_bit 63 1 else if bit w 31 then - of_nat n else of_nat n)"

definition hashptr :: "u64 \<Rightarrow> u64" where
  "hashptr p = signed_drop_bit 3 p"

definition HashObj :: "sqheap \<Rightarrow> sqobject \<Rightarrow> u64" where
  "HashObj H key =
     (case o_type key of
        OT_STRING \<Rightarrow> str_hash H (o_raw key)
      | OT_FLOAT \<Rightarrow> float_integer (ucast (o_raw key))
      | OT_BOOL \<Rightarrow> o_raw key
      | OT_INTEGER \<Rightarrow> o_raw key
      | _ \<Rightarrow> hashptr (o_raw key))"

text \<open>The hash value of a string, of whose characters a long one contributes only some.\<close>

function hashstr_loop :: "nat \<Rightarrow> nat \<Rightarrow> char list \<Rightarrow> u64 \<Rightarrow> u64" where
  "hashstr_loop st l cs h =
     (if st = 0 \<or> l < st then h
      else case cs of
        [] \<Rightarrow> h
      | c # cs \<Rightarrow> hashstr_loop st (l - st) cs
          (h XOR (push_bit 5 h + drop_bit 2 h + ucast (scast (of_char c :: 8 word) :: 16 word))))"
  by pat_completeness auto
termination by (relation "measure (\<lambda>(st, l, cs, h). l)") auto

declare hashstr_loop.simps [simp del]

definition hashstr :: "string \<Rightarrow> u64" where
  "hashstr s = (let l = length s in hashstr_loop ((l div 32) OR 1) l s (of_nat l))"

lemma same_object_iff [simp]: "same_object a b \<longleftrightarrow> a = b"
  by (auto simp: same_object_def)

lemma is_null_null [simp]: "is_null null_object"
  by (simp add: is_null_def null_object_def)

text \<open>A place in a table with as many places: the low bits of the hash.\<close>

definition main_place :: "sqheap \<Rightarrow> nat \<Rightarrow> sqobject \<Rightarrow> nat" where
  "main_place H n key = unat (HashObj H key AND (of_nat n - 1))"

lemma main_place_less:
  assumes "0 < n" "n < 2 ^ 63"
  shows "main_place H n key < n"
proof -
  have "(of_nat n - 1 :: u64) = of_nat (n - 1)" using assms(1) by (simp add: of_nat_diff)
  moreover have "unat (HashObj H key AND (of_nat n - 1)) \<le> unat (of_nat n - 1 :: u64)"
    using word_and_le1 [of "HashObj H key" "of_nat n - 1"] by (simp add: word_le_nat_alt)
  moreover have "unat (of_nat (n - 1) :: u64) = n - 1"
    using assms(2) by (simp add: unsigned_of_nat take_bit_nat_eq_self)
  ultimately show ?thesis using assms(1) by (simp add: main_place_def)
qed

text \<open>Steps that may fault or not return.\<close>

definition run_then :: "'a res option \<Rightarrow> ('a \<Rightarrow> 'b res option) \<Rightarrow> 'b res option" where
  "run_then r f = (case r of None \<Rightarrow> None | Some (Inl e) \<Rightarrow> Some (Inl e) | Some (Inr a) \<Rightarrow> f a)"

lemma run_then_simps [simp]:
  "run_then None f = None" "run_then (Some (Inl e)) f = Some (Inl e)" "run_then (Some (Inr a)) f = f a"
  by (simp_all add: run_then_def)

end
