(* ===== verification/Sq_Table.thy ===== *)
theory Sq_Table
  imports Sq_Object
begin

text \<open>
  The hash tables of the scripting language (\<open>squirrel/squirrel/sqtable.h\<close>, \<open>sqtable.cpp\<close>): every
  object, namespace and hash of a script is one. The nodes are one array; a key whose main place is
  taken goes to a free place and is chained to it, and a key that is not in its own main place makes
  way. Places are indices into the array. Reference counts and the chain of the collector are left
  out.
\<close>

record hash_node =
  nval :: sqobject
  nkey :: sqobject
  nnext :: "nat option"

record sqtable =
  firstfree :: nat
  nodes :: "hash_node list"
  usednodes :: int
  delegate :: u64

definition MINPOWER2 :: nat where "MINPOWER2 = 4"

definition empty_node :: hash_node where
  "empty_node = \<lparr>nval = null_object, nkey = null_object, nnext = None\<rparr>"

definition AllocNodes :: "nat \<Rightarrow> sqtable \<Rightarrow> sqtable" where
  "AllocNodes n t = t\<lparr>nodes := replicate n empty_node, firstfree := n - 1\<rparr>"

function pow2size :: "nat \<Rightarrow> nat \<Rightarrow> nat" where
  "pow2size n p = (if p < n \<and> 0 < p then pow2size n (2 * p) else p)"
  by pat_completeness auto
termination by (relation "measure (\<lambda>(n, p). n - p)") auto

declare pow2size.simps [simp del]

definition table_create :: "nat \<Rightarrow> sqtable" where
  "table_create n =
     AllocNodes (pow2size n MINPOWER2) \<lparr>firstfree = 0, nodes = [], usednodes = 0, delegate = 0\<rparr>"

text \<open>The search along a chain.\<close>

partial_function (option) get_node :: "hash_node list \<Rightarrow> sqobject \<Rightarrow> nat \<Rightarrow> nat option option" where
  "get_node ns key n =
     (if same_object (nkey (ns ! n)) key then Some (Some n)
      else (case nnext (ns ! n) of None \<Rightarrow> Some None | Some m \<Rightarrow> get_node ns key m))"

declare get_node.simps [code]

abbreviation key_place :: "sqheap \<Rightarrow> sqtable \<Rightarrow> sqobject \<Rightarrow> nat" where
  "key_place H t key \<equiv> main_place H (length (nodes t)) key"

definition table_Get :: "sqheap \<Rightarrow> sqtable \<Rightarrow> sqobject \<Rightarrow> sqobject option option" where
  "table_Get H t key =
     (if is_null key then Some None
      else map_option (map_option (\<lambda>n. realval H (nval (nodes t ! n)))) (get_node (nodes t) key (key_place H t key)))"

text \<open>The search by characters, which the lexer makes for its keywords; they hold no zero character.\<close>

partial_function (option) get_str_node :: "sqheap \<Rightarrow> hash_node list \<Rightarrow> string \<Rightarrow> nat \<Rightarrow> nat option option" where
  "get_str_node H ns key n =
     (if o_type (nkey (ns ! n)) = OT_STRING \<and> str_val H (o_raw (nkey (ns ! n))) = key then Some (Some n)
      else (case nnext (ns ! n) of None \<Rightarrow> Some None | Some m \<Rightarrow> get_str_node H ns key m))"

declare get_str_node.simps [code]

definition table_GetStr :: "sqheap \<Rightarrow> sqtable \<Rightarrow> string \<Rightarrow> sqobject option option" where
  "table_GetStr H t key =
     map_option (map_option (\<lambda>n. realval H (nval (nodes t ! n))))
       (get_str_node H (nodes t) key (unat (hashstr key AND (of_nat (length (nodes t)) - 1))))"

definition table_Set :: "sqheap \<Rightarrow> sqtable \<Rightarrow> sqobject \<Rightarrow> sqobject \<Rightarrow> (bool \<times> sqtable) option" where
  "table_Set H t key val =
     map_option (\<lambda>r. case r of
         Some n \<Rightarrow> (True, t\<lparr>nodes := (nodes t)[n := (nodes t ! n)\<lparr>nval := val\<rparr>]\<rparr>)
       | None \<Rightarrow> (False, t))
       (get_node (nodes t) key (key_place H t key))"

text \<open>The node before a colliding one in its own chain.\<close>

partial_function (option) previous_node :: "hash_node list \<Rightarrow> nat \<Rightarrow> nat \<Rightarrow> nat res option" where
  "previous_node ns mp othern =
     (case nnext (ns ! othern) of
        None \<Rightarrow> Some (Inl (Undefined ''assertion othern->next != NULL''))
      | Some m \<Rightarrow> if m = mp then Some (Inr othern) else previous_node ns mp m)"

declare previous_node.simps [code]

text \<open>
  The place for a key that is not in the table, its main place or one that is free; a key that is
  there but does not belong there is moved to the free place.
\<close>

definition take_place :: "sqheap \<Rightarrow> sqtable \<Rightarrow> nat \<Rightarrow> (nat \<times> hash_node list) res option" where
  "take_place H t mp =
     (let ns = nodes t in
      if is_null (nkey (ns ! mp)) then Some (Inr (mp, ns))
      else let n = firstfree t; othern = key_place H t (nkey (ns ! mp)) in
        if n < mp \<and> othern \<noteq> mp
        then run_then (previous_node ns mp othern) (\<lambda>p.
          let ns1 = ns[p := (ns ! p)\<lparr>nnext := Some n\<rparr>];
              ns2 = ns1[n := \<lparr>nval = nval (ns1 ! mp), nkey = nkey (ns1 ! mp), nnext = nnext (ns1 ! mp)\<rparr>]
          in Some (Inr (mp, ns2[mp := empty_node])))
        else let ns1 = ns[n := (ns ! n)\<lparr>nnext := nnext (ns ! mp)\<rparr>]
          in Some (Inr (n, ns1[mp := (ns1 ! mp)\<lparr>nnext := Some n\<rparr>])))"

text \<open>The next free place, searched downwards.\<close>

fun correct_firstfree :: "hash_node list \<Rightarrow> nat \<Rightarrow> nat option" where
  "correct_firstfree ns i =
     (if is_null (nkey (ns ! i)) \<and> nnext (ns ! i) = None then Some i
      else (case i of 0 \<Rightarrow> None | Suc j \<Rightarrow> correct_firstfree ns j))"

declare correct_firstfree.simps [simp del]

text \<open>Moving everything to a new array; the keys are inserted by a function that is given.\<close>

type_synonym inserter = "sqtable \<Rightarrow> sqobject \<Rightarrow> sqobject \<Rightarrow> (bool \<times> sqtable) res option"

fun reinsert :: "inserter \<Rightarrow> hash_node list \<Rightarrow> sqtable \<Rightarrow> sqtable res option" where
  "reinsert ins [] t = Some (Inr t)"
| "reinsert ins (old # ns) t =
     (if \<not> is_null (nkey old)
      then run_then (ins t (nkey old) (nval old)) (\<lambda>(_, u). reinsert ins ns u)
      else reinsert ins ns t)"

definition new_size :: "bool \<Rightarrow> sqtable \<Rightarrow> nat option" where
  "new_size force t =
     (let oldsize = max 4 (length (nodes t)); nelems = usednodes t in
      if int (oldsize - oldsize div 4) \<le> nelems then Some (oldsize * 2)
      else if nelems \<le> int (oldsize div 4) \<and> MINPOWER2 < oldsize then Some (oldsize div 2)
      else if force then Some oldsize
      else None)"

definition Rehash :: "inserter \<Rightarrow> bool \<Rightarrow> sqtable \<Rightarrow> sqtable res option" where
  "Rehash ins force t =
     (case new_size force t of
        None \<Rightarrow> Some (Inr t)
      | Some n \<Rightarrow>
          if length (nodes t) < 4 then Some (Inl (Undefined ''array index out of range''))
          else reinsert ins (nodes t) ((AllocNodes n t)\<lparr>usednodes := 0\<rparr>))"

text \<open>
  Inserting and rehashing call each other. The first argument bounds the depth of the calls; a table
  that is rehashed has room for what is inserted then, so that two levels are enough.
\<close>

fun NewSlot_depth :: "nat \<Rightarrow> sqheap \<Rightarrow> inserter" where
  "NewSlot_depth 0 H t key val = None"
| "NewSlot_depth (Suc d) H t key val =
     (if is_null key then Some (Inl (Undefined ''assertion type(key) != OT_NULL''))
      else case get_node (nodes t) key (key_place H t key) of
        None \<Rightarrow> None
      | Some (Some n) \<Rightarrow> Some (Inr (False, t\<lparr>nodes := (nodes t)[n := (nodes t ! n)\<lparr>nval := val\<rparr>]\<rparr>))
      | Some None \<Rightarrow>
          run_then (take_place H t (key_place H t key)) (\<lambda>(mp, ns).
            let ns1 = ns[mp := (ns ! mp)\<lparr>nkey := key\<rparr>] in
            case correct_firstfree ns1 (firstfree t) of
              Some i \<Rightarrow> Some (Inr (True, t\<lparr>nodes := ns1[mp := (ns1 ! mp)\<lparr>nval := val\<rparr>],
                firstfree := i, usednodes := usednodes t + 1\<rparr>))
            | None \<Rightarrow>
                run_then (Rehash (NewSlot_depth d H) True (t\<lparr>nodes := ns1, firstfree := 0\<rparr>)) (\<lambda>u.
                  NewSlot_depth d H u key val)))"

declare NewSlot_depth.simps(2) [simp del]

definition NewSlot :: "sqheap \<Rightarrow> inserter" where
  "NewSlot = NewSlot_depth 2"

definition table_Remove :: "sqheap \<Rightarrow> sqtable \<Rightarrow> sqobject \<Rightarrow> sqtable res option" where
  "table_Remove H t key =
     (case get_node (nodes t) key (key_place H t key) of
        None \<Rightarrow> None
      | Some None \<Rightarrow> Some (Inr t)
      | Some (Some n) \<Rightarrow>
          Rehash (NewSlot H) False (t\<lparr>nodes := (nodes t)[n := (nodes t ! n)\<lparr>nval := null_object, nkey := null_object\<rparr>],
            usednodes := usednodes t - 1\<rparr>))"

text \<open>The next entry from a place on, with the place behind it.\<close>

definition table_Next :: "sqheap \<Rightarrow> bool \<Rightarrow> sqtable \<Rightarrow> nat \<Rightarrow> (nat \<times> sqobject \<times> sqobject) option" where
  "table_Next H getweakrefs t idx =
     (case dropWhile (\<lambda>i. is_null (nkey (nodes t ! i))) [idx ..< length (nodes t)] of
        [] \<Rightarrow> None
      | i # _ \<Rightarrow> let n = nodes t ! i in
          Some (Suc i, nkey n, if getweakrefs then nval n else realval H (nval n)))"

definition ClearNodes :: "sqtable \<Rightarrow> sqtable" where
  "ClearNodes t = t\<lparr>nodes := map (\<lambda>n. n\<lparr>nkey := null_object, nval := null_object\<rparr>) (nodes t)\<rparr>"

definition table_Finalize :: "sqtable \<Rightarrow> sqtable" where
  "table_Finalize t = (ClearNodes t)\<lparr>delegate := 0\<rparr>"

definition table_Clear :: "sqheap \<Rightarrow> sqtable \<Rightarrow> sqtable res option" where
  "table_Clear H t = Rehash (NewSlot H) True ((ClearNodes t)\<lparr>usednodes := 0\<rparr>)"

lemma table_Next_progress:
  assumes "table_Next H b t i = Some (j, r)"
  shows "i < j" "j \<le> length (nodes t)"
proof -
  obtain x xs where x: "dropWhile (\<lambda>i. is_null (nkey (nodes t ! i))) [i ..< length (nodes t)] = x # xs" "j = Suc x"
    using assms by (auto simp: table_Next_def Let_def split: list.splits)
  have "x \<in> set [i ..< length (nodes t)]"
    by (rule set_dropWhileD [where P = "\<lambda>i. is_null (nkey (nodes t ! i))"]) (simp add: x(1))
  then show "i < j" "j \<le> length (nodes t)" using x(2) by auto
qed

text \<open>The copy is filled entry by entry.\<close>

function clone_loop :: "sqheap \<Rightarrow> sqtable \<Rightarrow> nat \<Rightarrow> sqtable \<Rightarrow> sqtable res option" where
  "clone_loop H t ridx nt =
     (case table_Next H True t ridx of
        None \<Rightarrow> Some (Inr nt)
      | Some (i, key, val) \<Rightarrow> run_then (NewSlot H nt key val) (\<lambda>(_, u). clone_loop H t i u))"
  by pat_completeness auto
termination
  by (relation "measure (\<lambda>(H, t, ridx, nt). length (nodes t) - ridx)")
    (use table_Next_progress in \<open>fastforce intro: diff_less_mono2\<close>)+

declare clone_loop.simps [simp del]

definition table_Clone :: "sqheap \<Rightarrow> sqtable \<Rightarrow> sqtable res option" where
  "table_Clone H t =
     run_then (clone_loop H t 0 (table_create (length (nodes t)))) (\<lambda>nt. Some (Inr (nt\<lparr>delegate := delegate t\<rparr>)))"

end
