(* ===== verification/Sq_Chains.thy ===== *)
theory Sq_Chains
  imports Sq_Table
begin

text \<open>
  The chains of a table, as a relation between places: from one node to the next. A node that others
  are chained to lies above the free places, no two chains meet and none is a ring, and every key
  lies on the chain that starts in its main place. Nodes are seen here through two functions, the
  key and the next node of a place.
\<close>

section \<open>Chains\<close>

definition links :: "nat \<Rightarrow> (nat \<Rightarrow> nat option) \<Rightarrow> (nat \<times> nat) set" where
  "links L N = {(i, j). i < L \<and> N i = Some j}"

definition chains_ok :: "nat \<Rightarrow> (sqobject \<Rightarrow> nat) \<Rightarrow> (nat \<Rightarrow> sqobject) \<Rightarrow> (nat \<Rightarrow> nat option) \<Rightarrow> nat \<Rightarrow> bool" where
  "chains_ok L P K N ff \<longleftrightarrow>
     ff < L \<and> acyclic (links L N) \<and>
     (\<forall>i j. (i, j) \<in> links L N \<longrightarrow> j < L \<and> ff \<le> j \<and> (j = ff \<longrightarrow> \<not> is_null (K ff))) \<and>
     (\<forall>i i' j. (i, j) \<in> links L N \<longrightarrow> (i', j) \<in> links L N \<longrightarrow> i = i') \<and>
     (\<forall>i < L. \<not> is_null (K i) \<longrightarrow> (P (K i), i) \<in> (links L N)\<^sup>*) \<and>
     (\<forall>i < L. \<forall>j < L. \<not> is_null (K i) \<longrightarrow> K i = K j \<longrightarrow> i = j) \<and>
     (\<forall>i < L. \<not> is_null (K i) \<longrightarrow> \<not> is_null (K (P (K i))) \<longrightarrow> P (K (P (K i))) = P (K i))"

lemma chains_okD:
  assumes "chains_ok L P K N ff"
  shows "ff < L" "acyclic (links L N)"
    "(i, j) \<in> links L N \<Longrightarrow> j < L" "(i, j) \<in> links L N \<Longrightarrow> ff \<le> j"
    "(i, ff) \<in> links L N \<Longrightarrow> \<not> is_null (K ff)"
    "(i, j) \<in> links L N \<Longrightarrow> (i', j) \<in> links L N \<Longrightarrow> i = i'"
    "i < L \<Longrightarrow> \<not> is_null (K i) \<Longrightarrow> (P (K i), i) \<in> (links L N)\<^sup>*"
    "i < L \<Longrightarrow> j < L \<Longrightarrow> \<not> is_null (K i) \<Longrightarrow> K i = K j \<Longrightarrow> i = j"
    "i < L \<Longrightarrow> \<not> is_null (K i) \<Longrightarrow> \<not> is_null (K (P (K i))) \<Longrightarrow> P (K (P (K i))) = P (K i)"
  using assms unfolding chains_ok_def by blast+

lemma finite_links: "finite (links L N)"
proof (rule finite_subset)
  show "links L N \<subseteq> (\<lambda>i. (i, the (N i))) ` {..< L}" by (auto simp: links_def image_iff)
qed simp

lemma chains_wf: "chains_ok L P K N ff \<Longrightarrow> wf ((links L N)\<inverse>)"
  by (intro finite_acyclic_wf_converse finite_links) (rule chains_okD(2))

lemma rtrancl_less:
  assumes "(i, j) \<in> (links L N)\<^sup>*" "i < L" "\<And>a b. (a, b) \<in> links L N \<Longrightarrow> b < L"
  shows "j < L"
  using assms by (induction rule: rtrancl_induct) auto

text \<open>A relation that maps into an acyclic one is acyclic.\<close>

lemma acyclic_map:
  assumes "acyclic r" "\<And>i j. (i, j) \<in> r' \<Longrightarrow> (f i, f j) \<in> r"
  shows "acyclic r'"
proof (rule acyclicI, intro allI notI)
  fix x assume "(x, x) \<in> r'\<^sup>+"
  moreover have "(a, b) \<in> r'\<^sup>+ \<Longrightarrow> (f a, f b) \<in> r\<^sup>+" for a b
    by (induction rule: trancl_induct) (auto intro: assms(2) trancl_into_trancl)
  ultimately show False using assms(1) unfolding acyclic_def by blast
qed

text \<open>A node put behind another one.\<close>

lemma acyclic_subdivide:
  assumes "acyclic r" "m \<noteq> n" "\<And>i. (i, n) \<notin> r" "\<And>j. (n, j) \<notin> r"
    and "r' \<subseteq> (r - {(m, x)}) \<union> {(m, n), (n, x)}" "(m, x) \<in> r \<or> r' \<subseteq> r \<union> {(m, n)}"
  shows "acyclic r'"
proof (cases "(m, x) \<in> r")
  case True
  let ?r0 = "r - {(m, x)}"
  have n0: "(y, n) \<in> ?r0\<^sup>* \<Longrightarrow> y = n" for y using assms(3) by (metis DiffD1 rtranclE)
  have sub: "?r0\<^sup>* \<subseteq> r\<^sup>*" by (rule rtrancl_mono) blast
  have xn: "x \<noteq> n" using assms(3) True by blast
  have "acyclic ?r0" using assms(1) by (rule acyclic_subset) blast
  then have 1: "acyclic (insert (n, x) ?r0)" using n0 xn by (auto simp: acyclic_insert)
  have "(n, m) \<notin> (insert (n, x) ?r0)\<^sup>*"
  proof
    assume "(n, m) \<in> (insert (n, x) ?r0)\<^sup>*"
    then consider "(n, m) \<in> ?r0\<^sup>*" | "(x, m) \<in> ?r0\<^sup>*" by (auto simp: rtrancl_insert)
    then show False
    proof cases
      case 1
      then show ?thesis using assms(2,4) by (metis DiffD1 converse_rtranclE)
    next
      case 2
      then have "(m, m) \<in> r\<^sup>+" using sub True by (meson rtrancl_into_trancl2 subsetD)
      then show ?thesis using assms(1) unfolding acyclic_def by blast
    qed
  qed
  then have "acyclic (insert (m, n) (insert (n, x) ?r0))" using 1 by (simp add: acyclic_insert)
  then show ?thesis by (rule acyclic_subset) (use assms(5) in blast)
next
  case False
  have "(n, m) \<notin> r\<^sup>*" using assms(2,4) by (metis converse_rtranclE)
  then have "acyclic (insert (m, n) r)" using assms(1) by (simp add: acyclic_insert)
  then show ?thesis by (rule acyclic_subset) (use assms(6) False in blast)
qed

section \<open>Inserting\<close>

text \<open>Places that are not in any chain: they have no key, no next node and nothing before them.\<close>

lemma free_place:
  assumes "chains_ok L P K N ff" "is_null (K ff)" "N ff = None"
  shows "(i, ff) \<notin> links L N" "(ff, j) \<notin> links L N" "i < L \<Longrightarrow> \<not> is_null (K i) \<Longrightarrow> P (K i) \<noteq> ff"
    "(i, j) \<in> links L N \<Longrightarrow> ff < j"
proof -
  show in0: "(i, ff) \<notin> links L N" for i using chains_okD(5) [OF assms(1)] assms(2) by blast
  have out: "(ff, x) \<notin> links L N" for x using assms(3) by (simp add: links_def)
  show "(ff, j) \<notin> links L N" by (rule out)
  show "P (K i) \<noteq> ff" if i: "i < L" "\<not> is_null (K i)"
  proof
    assume eq: "P (K i) = ff"
    then have "(ff, i) \<in> (links L N)\<^sup>*" using chains_okD(7) [OF assms(1) i] by simp
    then have "i = ff" by (cases rule: converse_rtranclE) (use out in auto)
    then show False using i assms(2) by simp
  qed
  show "(i, j) \<in> links L N \<Longrightarrow> ff < j" using chains_okD(4) [OF assms(1)] in0 by (metis order_le_imp_less_or_eq)
qed

text \<open>Below the free places every key is in its main place.\<close>

lemma low_main:
  assumes "chains_ok L P K N ff" "is_null (K ff)" "N ff = None" "i \<le> ff" "\<not> is_null (K i)"
  shows "P (K i) = i"
proof -
  have "(P (K i), i) \<in> (links L N)\<^sup>*" using chains_okD(1,7) [OF assms(1)] assms(4,5) by simp
  then show ?thesis using free_place(4) [OF assms(1-3)] assms(4) by (metis leD rtranclE)
qed

text \<open>The main place is free.\<close>

lemma insert_main:
  assumes "chains_ok L P K N ff" "is_null (K m)" "m < L" "P k = m" "\<not> is_null k" "\<And>i. i < L \<Longrightarrow> K i \<noteq> k"
  shows "chains_ok L P (K(m := k)) N ff"
proof -
  note ok = chains_okD [OF assms(1)]
  show ?thesis
    unfolding chains_ok_def
  proof (intro conjI allI impI)
    fix i j assume "(i, j) \<in> links L N"
    then show "j < L" "ff \<le> j" "j = ff \<Longrightarrow> \<not> is_null ((K(m := k)) ff)"
      using ok(3,4,5) assms(5) by auto
  next
    fix i assume "i < L" "\<not> is_null ((K(m := k)) i)"
    then show "(P ((K(m := k)) i), i) \<in> (links L N)\<^sup>*" using ok(7) assms(4) by auto
  next
    fix i j assume "i < L" "j < L" "\<not> is_null ((K(m := k)) i)" "(K(m := k)) i = (K(m := k)) j"
    then show "i = j" using ok(8) assms(6) by (auto split: if_splits)
  next
    fix i assume "i < L" "\<not> is_null ((K(m := k)) i)" "\<not> is_null ((K(m := k)) (P ((K(m := k)) i)))"
    then show "P ((K(m := k)) (P ((K(m := k)) i))) = P ((K(m := k)) i)"
      using ok(9) [of i] assms(4) by (auto split: if_splits)
  qed (use ok in blast)+
qed

text \<open>The main place is taken by a key that belongs there, and the new one goes behind it.\<close>

lemma insert_behind:
  assumes "chains_ok L P K N ff" "is_null (K ff)" "N ff = None"
    and "m < L" "P k = m" "\<not> is_null k" "\<And>i. i < L \<Longrightarrow> K i \<noteq> k" "\<not> is_null (K m)" "P (K m) = m"
  shows "chains_ok L P (K(ff := k)) (N(ff := N m, m := Some ff)) ff"
proof -
  note ok = chains_okD [OF assms(1)] and free = free_place [OF assms(1-3)]
  let ?N = "N(ff := N m, m := Some ff)" and ?K = "K(ff := k)"
  let ?l = "links L N" and ?l' = "links L ?N"
  have ne: "m \<noteq> ff" using assms(2,8) by blast
  have old: "(i, j) \<in> ?l \<Longrightarrow> i \<noteq> m \<Longrightarrow> (i, j) \<in> ?l'" for i j using assms(3) by (auto simp: links_def)
  have new: "(i, j) \<in> ?l' \<longleftrightarrow> (i, j) = (m, ff) \<or> i = ff \<and> (m, j) \<in> ?l \<or> i \<noteq> m \<and> (i, j) \<in> ?l" for i j
    using ne ok(1) assms(3,4) by (auto simp: links_def)
  have step: "(i, j) \<in> ?l \<Longrightarrow> (i, j) \<in> ?l'\<^sup>*" for i j
    using new by (cases "i = m") (blast intro: converse_rtrancl_into_rtrancl)+
  have reach: "(i, j) \<in> ?l\<^sup>* \<Longrightarrow> (i, j) \<in> ?l'\<^sup>*" for i j
    by (induction rule: rtrancl_induct) (blast intro: rtrancl_trans step)+
  have acyc: "acyclic ?l'"
  proof (cases "N m")
    case None
    show ?thesis
      by (rule acyclic_subdivide [OF ok(2) ne, of ?l' m]) (use free(1,2) new None assms(4) in \<open>auto simp: links_def\<close>)
  next
    case (Some x)
    show ?thesis
      by (rule acyclic_subdivide [OF ok(2) ne, of ?l' x]) (use free(1,2) new Some assms(4) in \<open>auto simp: links_def\<close>)
  qed
  show ?thesis
    unfolding chains_ok_def
  proof (intro conjI allI impI)
    fix i j assume "(i, j) \<in> ?l'"
    then show "j < L" "ff \<le> j" "j = ff \<Longrightarrow> \<not> is_null (?K ff)"
      using new ok(1,3,4) assms(6) by auto
  next
    fix i i' j assume "(i, j) \<in> ?l'" "(i', j) \<in> ?l'"
    then show "i = i'" unfolding new using free(1) ok(6) by blast
  next
    fix i assume i: "i < L" "\<not> is_null (?K i)"
    show "(P (?K i), i) \<in> ?l'\<^sup>*"
    proof (cases "i = ff")
      case True
      then show ?thesis using new assms(5) by auto
    next
      case False
      then show ?thesis using ok(7) i reach by auto
    qed
  next
    fix i j assume "i < L" "j < L" "\<not> is_null (?K i)" "?K i = ?K j"
    then show "i = j" using ok(8) assms(7) by (auto split: if_splits)
  next
    fix i assume i: "i < L" "\<not> is_null (?K i)" "\<not> is_null (?K (P (?K i)))"
    show "P (?K (P (?K i))) = P (?K i)"
    proof (cases "i = ff")
      case True
      then show ?thesis using ne assms(5,9) by simp
    next
      case False
      then show ?thesis using ok(9) [of i] free(3) [of i] i by auto
    qed
  qed (use ok(1) acyc in auto)
qed

text \<open>The main place is taken by a key that does not belong there, and is moved to the free place.\<close>

lemma insert_moving:
  assumes "chains_ok L P K N ff" "is_null (K ff)" "N ff = None"
    and "m < L" "P k = m" "\<not> is_null k" "\<And>i. i < L \<Longrightarrow> K i \<noteq> k" "\<not> is_null (K m)" "P (K m) \<noteq> m"
    and "(p, m) \<in> links L N" "p < L"
  shows "chains_ok L P (K(ff := K m, m := k)) (N(p := Some ff, ff := N m, m := None)) ff"
proof -
  note ok = chains_okD [OF assms(1)] and free = free_place [OF assms(1-3)]
  let ?N = "N(p := Some ff, ff := N m, m := None)" and ?K = "K(ff := K m, m := k)"
  let ?l = "links L N" and ?l' = "links L ?N"
  have ne: "m \<noteq> ff" using assms(2,8) by blast
  have pm: "p \<noteq> m" using ok(2) assms(10) unfolding acyclic_def by blast
  have pf: "p \<noteq> ff" using free(2) assms(10) by blast
  have np: "N p = Some m" using assms(10) by (simp add: links_def)
  have nm: "(m, m) \<notin> ?l" using ok(2) unfolding acyclic_def by blast
  have new: "(i, j) \<in> ?l' \<longleftrightarrow> (i, j) = (p, ff) \<or> i = ff \<and> (m, j) \<in> ?l \<or> i \<noteq> m \<and> i \<noteq> p \<and> (i, j) \<in> ?l" for i j
    using ne pm pf ok(1) assms(3,4,11) by (auto simp: links_def)
  have into: "(i, m) \<in> ?l \<Longrightarrow> i = p" for i using ok(6) assms(10) by blast
  have from_p: "(p, j) \<in> ?l \<Longrightarrow> j = m" for j using np by (simp add: links_def)
  have reach: "(i, j) \<in> ?l\<^sup>* \<Longrightarrow> i \<noteq> m \<Longrightarrow> (i, if j = m then ff else j) \<in> ?l'\<^sup>*" for i j
  proof (induction rule: rtrancl_induct)
    case base
    then show ?case by simp
  next
    case (step a b)
    have ab: "(if a = m then ff else a, if b = m then ff else b) \<in> ?l'"
    proof (cases "a = m")
      case True
      then show ?thesis using step(2) nm new by auto
    next
      case False
      show ?thesis
      proof (cases "b = m")
        case True
        then show ?thesis using into step(2) new False by auto
      next
        case b: False
        then have "a \<noteq> p" using from_p step(2) by blast
        then show ?thesis using new step(2) False b by auto
      qed
    qed
    then show ?case using step.IH step.prems by (meson rtrancl.rtrancl_into_rtrancl)
  qed
  have acyc: "acyclic ?l'"
  proof (rule acyclic_map [OF ok(2), of _ "id(ff := m)"])
    fix i j assume "(i, j) \<in> ?l'"
    then show "((id(ff := m)) i, (id(ff := m)) j) \<in> ?l" using new free(1,2) assms(10) pf by auto
  qed
  have none: "P (K i) \<noteq> m" if "i < L" "\<not> is_null (K i)" for i
    using ok(9) [OF that] assms(8,9) by metis
  show ?thesis
    unfolding chains_ok_def
  proof (intro conjI allI impI)
    fix i j assume "(i, j) \<in> ?l'"
    then show "j < L" "ff \<le> j" "j = ff \<Longrightarrow> \<not> is_null (?K ff)"
      using new ok(1,3,4) assms(8) ne by auto
  next
    fix i i' j assume "(i, j) \<in> ?l'" "(i', j) \<in> ?l'"
    then show "i = i'" unfolding new using free(1) ok(6) by blast
  next
    fix i assume i: "i < L" "\<not> is_null (?K i)"
    consider "i = m" | "i = ff" | "i \<noteq> m" "i \<noteq> ff" by blast
    then show "(P (?K i), i) \<in> ?l'\<^sup>*"
    proof cases
      case 2
      then show ?thesis using reach [OF ok(7) [OF assms(4,8)]] assms(9) ne by simp
    next
      case 3
      then show ?thesis using reach [OF ok(7) [of i] none [of i]] i by simp
    qed (use assms(5) in simp)
  next
    fix i j assume "i < L" "j < L" "\<not> is_null (?K i)" "?K i = ?K j"
    then show "i = j" using ok(8) assms(4,7,8) ne by (auto split: if_splits)
  next
    fix i assume i: "i < L" "\<not> is_null (?K i)" "\<not> is_null (?K (P (?K i)))"
    consider "i = m" | "i = ff" | "i \<noteq> m" "i \<noteq> ff" by blast
    then show "P (?K (P (?K i))) = P (?K i)"
    proof cases
      case 2
      then show ?thesis using i ok(9) [OF assms(4,8)] free(3) [OF assms(4,8)] assms(9) ne by auto
    next
      case 3
      then show ?thesis using i ok(9) [of i] free(3) [of i] none [of i] by auto
    qed (use assms(5) in simp)
  qed (use ok(1) acyc in auto)
qed

text \<open>A key that is taken away leaves its node in the chain.\<close>

lemma remove_key:
  assumes "chains_ok L P K N ff" "is_null (K ff)" "N ff = None"
  shows "chains_ok L P (K(m := null_object)) N ff"
proof -
  note ok = chains_okD [OF assms(1)] and free = free_place [OF assms(1-3)]
  show ?thesis
    unfolding chains_ok_def
  proof (intro conjI allI impI)
    fix i j assume "(i, j) \<in> links L N"
    then show "j < L" "ff \<le> j" "j = ff \<Longrightarrow> \<not> is_null ((K(m := null_object)) ff)"
      using ok(3,4) free(1) by auto
  next
    fix i j assume "i < L" "j < L" "\<not> is_null ((K(m := null_object)) i)" "(K(m := null_object)) i = (K(m := null_object)) j"
    then show "i = j" using ok(8) by (auto split: if_splits)
  qed (use ok in \<open>auto split: if_splits\<close>)
qed

text \<open>The free place moves down.\<close>

lemma lower_free:
  assumes "chains_ok L P K N ff" "i \<le> ff" "is_null (K i)" "N i = None"
  shows "chains_ok L P K N i"
proof -
  note ok = chains_okD [OF assms(1)]
  have "j < L \<and> i \<le> j \<and> (j = i \<longrightarrow> \<not> is_null (K i))" if "(a, j) \<in> links L N" for a j
    using ok(3-5) [of a] that assms(2,3) by (metis order.trans order_antisym)
  moreover have "i < L" using ok(1) assms(2) by simp
  ultimately show ?thesis using assms(1) unfolding chains_ok_def by blast
qed

end
