(* ===== verification/Sq_Table_Map.thy ===== *)
theory Sq_Table_Map
  imports Sq_Chains
begin

text \<open>
  A table implements a map from keys to values: searching, inserting with the rehashing it may need,
  removing, clearing, copying and iterating, each of which returns.
\<close>

section \<open>The map of a table\<close>

abbreviation keys :: "hash_node list \<Rightarrow> nat \<Rightarrow> sqobject" where
  "keys ns \<equiv> \<lambda>i. nkey (ns ! i)"

abbreviation vals :: "hash_node list \<Rightarrow> nat \<Rightarrow> sqobject" where
  "vals ns \<equiv> \<lambda>i. nval (ns ! i)"

abbreviation nexts :: "hash_node list \<Rightarrow> nat \<Rightarrow> nat option" where
  "nexts ns \<equiv> \<lambda>i. nnext (ns ! i)"

fun table_map :: "hash_node list \<Rightarrow> sqobject \<rightharpoonup> sqobject" where
  "table_map [] = Map.empty"
| "table_map (n # ns) = (if is_null (nkey n) then table_map ns else (table_map ns)(nkey n \<mapsto> nval n))"

definition entries :: "nat \<Rightarrow> (nat \<Rightarrow> sqobject) \<Rightarrow> (nat \<Rightarrow> sqobject) \<Rightarrow> (sqobject \<times> sqobject) set" where
  "entries L K V = {(k, v). \<exists>i < L. \<not> is_null (K i) \<and> K i = k \<and> V i = v}"

definition key_distinct :: "hash_node list \<Rightarrow> bool" where
  "key_distinct ns \<longleftrightarrow> (\<forall>i < length ns. \<forall>j < length ns. \<not> is_null (keys ns i) \<longrightarrow> keys ns i = keys ns j \<longrightarrow> i = j)"

lemma key_distinct_Cons:
  "key_distinct (n # ns) \<Longrightarrow> key_distinct ns"
  "key_distinct (n # ns) \<Longrightarrow> \<not> is_null (nkey n) \<Longrightarrow> i < length ns \<Longrightarrow> nkey (ns ! i) \<noteq> nkey n"
proof -
  assume d: "key_distinct (n # ns)"
  show "key_distinct ns" using d unfolding key_distinct_def by (metis Suc_less_eq length_Cons nat.inject nth_Cons_Suc)
  assume "\<not> is_null (nkey n)" "i < length ns"
  then show "nkey (ns ! i) \<noteq> nkey n"
    using d unfolding key_distinct_def by (metis Suc_less_eq length_Cons nat.distinct(1) nth_Cons_0 nth_Cons_Suc zero_less_Suc)
qed

lemma table_map_None: "(\<forall>i < length ns. nkey (ns ! i) \<noteq> k) \<Longrightarrow> table_map ns k = None"
proof (induction ns)
  case (Cons n ns)
  have "nkey n \<noteq> k" using Cons.prems by force
  moreover have "\<forall>i < length ns. nkey (ns ! i) \<noteq> k" using Cons.prems by force
  ultimately show ?case using Cons.IH by auto
qed simp

lemma table_map_iff:
  assumes "key_distinct ns"
  shows "table_map ns k = Some v \<longleftrightarrow> (k, v) \<in> entries (length ns) (keys ns) (vals ns)"
  using assms
proof (induction ns)
  case (Cons n ns)
  have cons: "(k, v) \<in> entries (length (n # ns)) (keys (n # ns)) (vals (n # ns)) \<longleftrightarrow>
      \<not> is_null (nkey n) \<and> nkey n = k \<and> nval n = v \<or> (k, v) \<in> entries (length ns) (keys ns) (vals ns)"
    by (auto simp: entries_def less_Suc_eq_0_disj)
  have no: "(nkey n, v) \<notin> entries (length ns) (keys ns) (vals ns)" if "\<not> is_null (nkey n)"
    using key_distinct_Cons(2) [OF Cons.prems that] by (auto simp: entries_def)
  show ?case
    using Cons.IH key_distinct_Cons(1) [OF Cons.prems] no unfolding cons by auto
qed (simp add: entries_def)

lemma table_map_at:
  "key_distinct ns \<Longrightarrow> i < length ns \<Longrightarrow> \<not> is_null (nkey (ns ! i)) \<Longrightarrow> table_map ns (nkey (ns ! i)) = Some (nval (ns ! i))"
  by (auto simp: table_map_iff entries_def)

lemma map_eqI: "(\<And>k v. m k = Some v \<longleftrightarrow> m' k = Some v) \<Longrightarrow> m = m'" for m :: "'a \<rightharpoonup> 'b"
  by (metis ext not_None_eq option.exhaust)

definition used :: "hash_node list \<Rightarrow> nat set" where
  "used ns = {i. i < length ns \<and> \<not> is_null (nkey (ns ! i))}"

lemma card_used:
  assumes "key_distinct ns"
  shows "card (dom (table_map ns)) = card (used ns)" "card (used ns) \<le> length ns"
proof -
  have "dom (table_map ns) = keys ns ` used ns"
    using assms by (auto simp: dom_def table_map_iff entries_def used_def)
  moreover have "inj_on (keys ns) (used ns)"
    using assms by (auto simp: key_distinct_def used_def inj_on_def)
  ultimately show "card (dom (table_map ns)) = card (used ns)" by (simp add: card_image)
  have "used ns \<subseteq> {..< length ns}" by (auto simp: used_def)
  then show "card (used ns) \<le> length ns" by (metis card_lessThan card_mono finite_lessThan)
qed

lemma finite_table_map [simp]: "finite (dom (table_map ns))"
  by (induction ns) auto

section \<open>Sound tables\<close>

definition table_chains :: "sqheap \<Rightarrow> hash_node list \<Rightarrow> nat \<Rightarrow> bool" where
  "table_chains H ns ff \<longleftrightarrow> chains_ok (length ns) (main_place H (length ns)) (keys ns) (nexts ns) ff"

definition table_ok :: "sqheap \<Rightarrow> sqtable \<Rightarrow> bool" where
  "table_ok H t \<longleftrightarrow>
     (\<exists>j \<ge> 2. length (nodes t) = 2 ^ j) \<and> table_chains H (nodes t) (firstfree t) \<and>
     is_null (nkey (nodes t ! firstfree t)) \<and> nnext (nodes t ! firstfree t) = None \<and>
     usednodes t = int (card (dom (table_map (nodes t))))"

lemma chains_distinct: "table_chains H ns ff \<Longrightarrow> key_distinct ns"
  using chains_okD(8) unfolding table_chains_def key_distinct_def by blast

lemma table_ok_length:
  assumes "table_ok H t"
  shows "4 \<le> length (nodes t)"
proof -
  obtain j where j: "2 \<le> j" "length (nodes t) = 2 ^ j" using assms by (auto simp: table_ok_def)
  have "(2 :: nat) ^ 2 \<le> 2 ^ j" using j(1) by (intro power_increasing) simp_all
  then show ?thesis using j(2) by simp
qed

text \<open>A table no key has been taken from since it was made.\<close>

definition no_gaps :: "sqtable \<Rightarrow> bool" where
  "no_gaps t \<longleftrightarrow> (\<forall>i < length (nodes t). is_null (nkey (nodes t ! i)) \<longrightarrow> nnext (nodes t ! i) = None \<and> i \<le> firstfree t)"

section \<open>Searching\<close>

lemma get_node_run:
  assumes "table_chains H ns ff" "i < length ns"
  shows "(\<exists>j. get_node ns key i = Some (Some j) \<and> (i, j) \<in> (links (length ns) (nexts ns))\<^sup>* \<and> nkey (ns ! j) = key \<and> j < length ns) \<or>
    get_node ns key i = Some None \<and> (\<forall>j. (i, j) \<in> (links (length ns) (nexts ns))\<^sup>* \<longrightarrow> nkey (ns ! j) \<noteq> key)"
proof -
  let ?l = "links (length ns) (nexts ns)"
  have ok: "chains_ok (length ns) (main_place H (length ns)) (keys ns) (nexts ns) ff"
    using assms(1) by (simp add: table_chains_def)
  show ?thesis
    using assms(2)
  proof (induction i rule: wf_induct_rule [OF chains_wf [OF ok]])
    case (1 i)
    show ?case
    proof (cases "nkey (ns ! i) = key")
      case True
      then show ?thesis using 1(2) by (auto simp: get_node.simps [of ns key i])
    next
      case False
      show ?thesis
      proof (cases "nnext (ns ! i)")
        case None
        then have "(i, m) \<notin> ?l" for m by (simp add: links_def)
        then have "(i, j) \<in> ?l\<^sup>* \<Longrightarrow> j = i" for j by (metis converse_rtranclE)
        then show ?thesis using False None by (auto simp: get_node.simps [of ns key i])
      next
        case (Some m)
        then have m: "(i, m) \<in> ?l" using 1(2) by (simp add: links_def)
        have "m < length ns" using chains_okD(3) [OF ok m] .
        moreover have "get_node ns key i = get_node ns key m"
          using False Some by (simp add: get_node.simps [of ns key i])
        moreover have "(i, j) \<in> ?l\<^sup>* \<longleftrightarrow> j = i \<or> (m, j) \<in> ?l\<^sup>*" for j
          using m Some by (auto elim: converse_rtranclE simp: links_def intro: converse_rtrancl_into_rtrancl)
        ultimately show ?thesis using 1(1) [of m] m False by auto
      qed
    qed
  qed
qed

lemma get_node_place:
  assumes "table_chains H ns ff" "\<not> is_null key" "length ns < 2 ^ 63"
  shows "i < length ns \<Longrightarrow> nkey (ns ! i) = key \<Longrightarrow> get_node ns key (main_place H (length ns) key) = Some (Some i)"
    "\<forall>i < length ns. nkey (ns ! i) \<noteq> key \<Longrightarrow> get_node ns key (main_place H (length ns) key) = Some None"
proof -
  have ok: "chains_ok (length ns) (main_place H (length ns)) (keys ns) (nexts ns) ff"
    using assms(1) by (simp add: table_chains_def)
  have h: "main_place H (length ns) key < length ns"
    by (rule main_place_less) (use assms(3) chains_okD(1) [OF ok] in auto)
  note run = get_node_run [OF assms(1) h, of key]
  show "get_node ns key (main_place H (length ns) key) = Some None" if "\<forall>i < length ns. nkey (ns ! i) \<noteq> key"
    using run that by blast
  show "get_node ns key (main_place H (length ns) key) = Some (Some i)" if i: "i < length ns" "nkey (ns ! i) = key"
  proof -
    have "(main_place H (length ns) key, i) \<in> (links (length ns) (nexts ns))\<^sup>*"
      using chains_okD(7) [OF ok i(1)] i(2) assms(2) by simp
    then obtain j where "get_node ns key (main_place H (length ns) key) = Some (Some j)" "nkey (ns ! j) = key" "j < length ns"
      using run i(2) by blast
    then show ?thesis using chains_okD(8) [OF ok, of j i] i assms(2) by simp
  qed
qed

lemma table_Get_map:
  assumes "table_ok H t" "length (nodes t) < 2 ^ 63"
  shows "table_Get H t key = Some (if is_null key then None else map_option (realval H) (table_map (nodes t) key))"
proof (cases "is_null key")
  case False
  have ch: "table_chains H (nodes t) (firstfree t)" using assms(1) by (simp add: table_ok_def)
  show ?thesis
  proof (cases "\<exists>i < length (nodes t). nkey (nodes t ! i) = key")
    case True
    then obtain i where i: "i < length (nodes t)" "nkey (nodes t ! i) = key" by blast
    then show ?thesis
      using get_node_place(1) [OF ch False assms(2) i] table_map_at [OF chains_distinct [OF ch] i(1)] False
      by (simp add: table_Get_def)
  next
    case none: False
    then show ?thesis
      using get_node_place(2) [OF ch False assms(2)] table_map_None [of "nodes t" key] False by (simp add: table_Get_def)
  qed
qed (simp add: table_Get_def)

lemma previous_node_run:
  assumes "(i, m) \<in> (links (length ns) (nexts ns))\<^sup>*" "i \<noteq> m"
  shows "\<exists>p. previous_node ns m i = Some (Inr p) \<and> (p, m) \<in> links (length ns) (nexts ns)"
  using assms
proof (induction rule: converse_rtrancl_induct)
  case (step y z)
  then have y: "nnext (ns ! y) = Some z" by (simp add: links_def)
  show ?case
  proof (cases "z = m")
    case True
    then show ?thesis using y step(1) by (auto simp: previous_node.simps [of ns m y])
  next
    case False
    then show ?thesis using y step.IH by (simp add: previous_node.simps [of ns m y])
  qed
qed simp

lemma correct_firstfree_run:
  "case correct_firstfree ns ff of
     Some i \<Rightarrow> i \<le> ff \<and> is_null (nkey (ns ! i)) \<and> nnext (ns ! i) = None \<and>
       (\<forall>j. i < j \<longrightarrow> j \<le> ff \<longrightarrow> \<not> (is_null (nkey (ns ! j)) \<and> nnext (ns ! j) = None))
   | None \<Rightarrow> \<forall>j \<le> ff. \<not> (is_null (nkey (ns ! j)) \<and> nnext (ns ! j) = None)"
proof (induction ff)
  case 0
  then show ?case by (simp add: correct_firstfree.simps [of ns 0])
next
  case (Suc ff)
  show ?case
  proof (cases "is_null (nkey (ns ! Suc ff)) \<and> nnext (ns ! Suc ff) = None")
    case True
    then show ?thesis by (simp add: correct_firstfree.simps [of ns "Suc ff"])
  next
    case False
    then have "correct_firstfree ns (Suc ff) = correct_firstfree ns ff"
      by (auto simp: correct_firstfree.simps [of ns "Suc ff"])
    then show ?thesis using Suc.IH False by (auto simp: le_Suc_eq split: option.splits)
  qed
qed

end
