(* ===== verification/Sq_Table_Slots.thy ===== *)
theory Sq_Table_Slots
  imports Sq_Table_Map
begin

text \<open>New slots in a table, with the rehashing that makes room for them.\<close>

section \<open>Taking a place\<close>

lemma nodes_upd:
  assumes "m < length ns"
  shows "keys (ns[m := x]) = (keys ns)(m := nkey x)" "vals (ns[m := x]) = (vals ns)(m := nval x)"
    "nexts (ns[m := x]) = (nexts ns)(m := nnext x)"
  using assms by (auto simp: fun_eq_iff nth_list_update)

lemma entries_new:
  assumes "m < L" "is_null (K m)" "\<not> is_null k"
  shows "entries L (K(m := k)) (V(m := v)) = insert (k, v) (entries L K V)"
  using assms by (auto simp: entries_def)

lemma entries_move:
  assumes "m < L" "f < L" "is_null (K f)" "m \<noteq> f" "\<not> is_null k" "\<not> is_null (K m)"
  shows "entries L (K(f := K m, m := k)) (V(f := V m, m := v)) = insert (k, v) (entries L K V)"
proof -
  have "entries L (K(f := K m, m := k)) (V(f := V m, m := v)) \<subseteq> insert (k, v) (entries L K V)"
    using assms by (auto simp: entries_def)
  moreover have "(K i, V i) \<in> entries L (K(f := K m, m := k)) (V(f := V m, m := v))" if "i < L" "\<not> is_null (K i)" for i
  proof (cases "i = m")
    case True
    then show ?thesis using assms by (auto simp: entries_def intro!: exI [of _ f])
  next
    case False
    then show ?thesis using assms that by (auto simp: entries_def intro!: exI [of _ i])
  qed
  moreover have "(k, v) \<in> entries L (K(f := K m, m := k)) (V(f := V m, m := v))"
    using assms by (auto simp: entries_def intro!: exI [of _ m])
  ultimately show ?thesis by (auto simp: entries_def [of L K V])
qed

text \<open>A place is found for a key that is not there, by one of the three ways there are.\<close>

definition placed :: "sqheap \<Rightarrow> hash_node list \<Rightarrow> nat \<Rightarrow> sqobject \<Rightarrow> nat \<Rightarrow> hash_node list \<Rightarrow> bool" where
  "placed H ns ff k m ns1 \<longleftrightarrow>
     length ns1 = length ns \<and> m < length ns \<and> nkey (ns1 ! m) = k \<and> table_chains H ns1 ff \<and>
     (\<forall>v. entries (length ns) (keys ns1) ((vals ns1)(m := v)) = insert (k, v) (entries (length ns) (keys ns) (vals ns))) \<and>
     ((\<forall>i < length ns. is_null (nkey (ns ! i)) \<longrightarrow> nnext (ns ! i) = None \<and> i \<le> ff) \<longrightarrow>
      (\<forall>i < length ns. is_null (nkey (ns1 ! i)) \<longrightarrow> nnext (ns1 ! i) = None \<and> i \<le> ff))"

lemma take_place_run:
  assumes "table_chains H (nodes t) (firstfree t)" "length (nodes t) < 2 ^ 63" "is_null (nkey (nodes t ! firstfree t))"
    and "nnext (nodes t ! firstfree t) = None" "\<not> is_null k" "\<forall>i < length (nodes t). nkey (nodes t ! i) \<noteq> k"
  shows "\<exists>m ns. take_place H t (key_place H t k) = Some (Inr (m, ns)) \<and>
     placed H (nodes t) (firstfree t) k m (ns[m := (ns ! m)\<lparr>nkey := k\<rparr>])"
proof -
  let ?ns = "nodes t" and ?ff = "firstfree t"
  let ?L = "length ?ns" and ?P = "main_place H (length ?ns)" and ?m = "key_place H t k"
  have ok: "chains_ok ?L ?P (keys ?ns) (nexts ?ns) ?ff" using assms(1) by (simp add: table_chains_def)
  have ff: "?ff < ?L" using chains_okD(1) [OF ok] .
  have less: "?P k' < ?L" for k' by (rule main_place_less) (use ff assms(2) in auto)
  have nk: "i < ?L \<Longrightarrow> nkey (?ns ! i) \<noteq> k" for i using assms(6) by blast
  let ?o = "?P (nkey (?ns ! ?m))"
  consider (main) "is_null (nkey (?ns ! ?m))"
    | (moving) "\<not> is_null (nkey (?ns ! ?m))" "?ff < ?m" "?o \<noteq> ?m"
    | (behind) "\<not> is_null (nkey (?ns ! ?m))" "\<not> (?ff < ?m \<and> ?o \<noteq> ?m)" by blast
  then show ?thesis
  proof cases
    case main
    let ?n = "?ns[?m := (?ns ! ?m)\<lparr>nkey := k\<rparr>]"
    have "chains_ok ?L ?P ((keys ?ns)(?m := k)) (nexts ?ns) ?ff"
      by (rule insert_main [OF ok]) (use main less nk assms(5) in auto)
    then have "table_chains H ?n ?ff" using less by (simp add: table_chains_def nodes_upd fun_upd_idem)
    moreover have "entries ?L (keys ?n) ((vals ?n)(?m := v)) = insert (k, v) (entries ?L (keys ?ns) (vals ?ns))" for v
      using entries_new [of ?m ?L "keys ?ns" k "vals ?ns" v] main less assms(5) by (simp add: nodes_upd)
    ultimately have "placed H ?ns ?ff k ?m ?n" using less assms(5) by (auto simp: placed_def nth_list_update)
    then show ?thesis using main by (auto simp: take_place_def Let_def)
  next
    case moving
    obtain p where p: "previous_node ?ns ?m ?o = Some (Inr p)" "(p, ?m) \<in> links ?L (nexts ?ns)"
      using previous_node_run [OF chains_okD(7) [OF ok less moving(1)] moving(3)] by blast
    have pl: "p < ?L" "p \<noteq> ?m" "p \<noteq> ?ff" "nnext (?ns ! p) = Some ?m"
      using p(2) chains_okD(2) [OF ok] assms(4) by (auto simp: links_def acyclic_def)
    have ne: "?m \<noteq> ?ff" using assms(3) moving(1) by auto
    define ns1 where "ns1 = ?ns[p := (?ns ! p)\<lparr>nnext := Some ?ff\<rparr>]"
    define ns2 where "ns2 = ns1[?ff := \<lparr>nval = nval (ns1 ! ?m), nkey = nkey (ns1 ! ?m), nnext = nnext (ns1 ! ?m)\<rparr>]"
    define ns3 where "ns3 = ns2[?m := empty_node]"
    let ?n = "ns3[?m := (ns3 ! ?m)\<lparr>nkey := k\<rparr>]"
    have run: "take_place H t ?m = Some (Inr (?m, ns3))"
      using moving p(1) by (simp add: take_place_def Let_def ns3_def ns2_def ns1_def)
    have K: "keys ?n = (keys ?ns)(?ff := nkey (?ns ! ?m), ?m := k)"
      using less pl ff ne by (auto simp: fun_eq_iff ns3_def ns2_def ns1_def nth_list_update)
    have V: "(vals ?n)(?m := v) = (vals ?ns)(?ff := nval (?ns ! ?m), ?m := v)" for v
      using less pl ff ne by (auto simp: fun_eq_iff ns3_def ns2_def ns1_def nth_list_update)
    have N: "nexts ?n = (nexts ?ns)(p := Some ?ff, ?ff := nnext (?ns ! ?m), ?m := None)"
      using less pl ff ne by (auto simp: fun_eq_iff ns3_def ns2_def ns1_def nth_list_update empty_node_def)
    have L: "length ?n = ?L" by (simp add: ns3_def ns2_def ns1_def)
    have "chains_ok ?L ?P ((keys ?ns)(?ff := nkey (?ns ! ?m), ?m := k)) ((nexts ?ns)(p := Some ?ff, ?ff := nnext (?ns ! ?m), ?m := None)) ?ff"
      by (rule insert_moving [OF ok assms(3,4) less refl assms(5) nk moving(1,3) p(2) pl(1)])
    then have "table_chains H ?n ?ff" unfolding table_chains_def L K N .
    moreover have "entries ?L (keys ?n) ((vals ?n)(?m := v)) = insert (k, v) (entries ?L (keys ?ns) (vals ?ns))" for v
      unfolding K V by (rule entries_move [OF less ff assms(3) ne assms(5) moving(1)])
    moreover have "is_null (nkey (?n ! i)) \<longrightarrow> nnext (?n ! i) = None \<and> i \<le> ?ff"
      if "\<forall>i < ?L. is_null (nkey (?ns ! i)) \<longrightarrow> nnext (?ns ! i) = None \<and> i \<le> ?ff" "i < ?L" for i
    proof -
      have "nkey (?n ! i) = ((keys ?ns)(?ff := nkey (?ns ! ?m), ?m := k)) i"
        "nnext (?n ! i) = ((nexts ?ns)(p := Some ?ff, ?ff := nnext (?ns ! ?m), ?m := None)) i"
        using fun_cong [OF K, of i] fun_cong [OF N, of i] by simp_all
      then show ?thesis using that pl(1,4) moving(1) assms(5) by auto
    qed
    moreover have "nkey (?n ! ?m) = k" using less L by simp
    ultimately have "placed H ?ns ?ff k ?m ?n" using less L unfolding placed_def by blast
    then show ?thesis using run by blast
  next
    case behind
    have om: "?o = ?m"
    proof (rule ccontr)
      assume "?o \<noteq> ?m"
      then show False using low_main [OF ok assms(3,4), of ?m] behind by simp
    qed
    have ne: "?m \<noteq> ?ff" using assms(3) behind(1) by auto
    define ns1 where "ns1 = ?ns[?ff := (?ns ! ?ff)\<lparr>nnext := nnext (?ns ! ?m)\<rparr>]"
    define ns2 where "ns2 = ns1[?m := (ns1 ! ?m)\<lparr>nnext := Some ?ff\<rparr>]"
    let ?n = "ns2[?ff := (ns2 ! ?ff)\<lparr>nkey := k\<rparr>]"
    have run: "take_place H t ?m = Some (Inr (?ff, ns2))"
      using behind om by (simp add: take_place_def Let_def ns2_def ns1_def)
    have K: "keys ?n = (keys ?ns)(?ff := k)"
      using less ff ne by (auto simp: fun_eq_iff ns2_def ns1_def nth_list_update)
    have V: "(vals ?n)(?ff := v) = (vals ?ns)(?ff := v)" for v
      using less ff ne by (auto simp: fun_eq_iff ns2_def ns1_def nth_list_update)
    have N: "nexts ?n = (nexts ?ns)(?ff := nnext (?ns ! ?m), ?m := Some ?ff)"
      using less ff ne by (auto simp: fun_eq_iff ns2_def ns1_def nth_list_update)
    have L: "length ?n = ?L" by (simp add: ns2_def ns1_def)
    have "chains_ok ?L ?P ((keys ?ns)(?ff := k)) ((nexts ?ns)(?ff := nnext (?ns ! ?m), ?m := Some ?ff)) ?ff"
      by (rule insert_behind [OF ok assms(3,4) less refl assms(5) nk behind(1) om])
    then have "table_chains H ?n ?ff" unfolding table_chains_def L K N .
    moreover have "entries ?L (keys ?n) ((vals ?n)(?ff := v)) = insert (k, v) (entries ?L (keys ?ns) (vals ?ns))" for v
      unfolding K V by (rule entries_new) (use ff assms(3,5) in auto)
    moreover have "is_null (nkey (?n ! i)) \<longrightarrow> nnext (?n ! i) = None \<and> i \<le> ?ff"
      if "\<forall>i < ?L. is_null (nkey (?ns ! i)) \<longrightarrow> nnext (?ns ! i) = None \<and> i \<le> ?ff" "i < ?L" for i
    proof -
      have "nkey (?n ! i) = ((keys ?ns)(?ff := k)) i"
        "nnext (?n ! i) = ((nexts ?ns)(?ff := nnext (?ns ! ?m), ?m := Some ?ff)) i"
        using fun_cong [OF K, of i] fun_cong [OF N, of i] by simp_all
      then show ?thesis using that behind(1) assms(5) by auto
    qed
    moreover have "nkey (?n ! ?ff) = k" using ff L by simp
    ultimately have "placed H ?ns ?ff k ?ff ?n" using ff L unfolding placed_def by blast
    then show ?thesis using run by blast
  qed
qed

section \<open>Inserting\<close>

lemma slot_found:
  assumes "table_ok H t" "length (nodes t) < 2 ^ 63" "\<not> is_null k" "i < length (nodes t)" "nkey (nodes t ! i) = k"
    and "u = t\<lparr>nodes := (nodes t)[i := (nodes t ! i)\<lparr>nval := v\<rparr>]\<rparr>"
  shows "NewSlot_depth (Suc d) H t k v = Some (Inr (False, u))" "table_ok H u"
    "table_map (nodes u) = (table_map (nodes t))(k \<mapsto> v)"
proof -
  have ch: "table_chains H (nodes t) (firstfree t)" using assms(1) by (simp add: table_ok_def)
  note dist = chains_distinct [OF ch]
  show "NewSlot_depth (Suc d) H t k v = Some (Inr (False, u))"
    using get_node_place(1) [OF ch assms(3,2,4,5)] assms(3,6) by (simp add: NewSlot_depth.simps(2))
  have K: "keys (nodes u) = keys (nodes t)" "nexts (nodes u) = nexts (nodes t)" "vals (nodes u) = (vals (nodes t))(i := v)"
    and L: "length (nodes u) = length (nodes t)" "firstfree u = firstfree t" "usednodes u = usednodes t"
    using assms(4,6) by (simp_all add: nodes_upd fun_upd_idem)
  have ch': "table_chains H (nodes u) (firstfree t)" using ch unfolding table_chains_def K L .
  show map: "table_map (nodes u) = (table_map (nodes t))(k \<mapsto> v)"
  proof (rule map_eqI)
    fix k' v'
    have "table_map (nodes u) k' = Some v' \<longleftrightarrow> (k', v') \<in> entries (length (nodes t)) (keys (nodes t)) ((vals (nodes t))(i := v))"
      using table_map_iff [OF chains_distinct [OF ch'], of k' v'] unfolding K L .
    also have "\<dots> \<longleftrightarrow> (if k' = k then v' = v else (k', v') \<in> entries (length (nodes t)) (keys (nodes t)) (vals (nodes t)))"
      using assms(3-5) dist by (auto simp: entries_def key_distinct_def)
    also have "\<dots> \<longleftrightarrow> ((table_map (nodes t))(k \<mapsto> v)) k' = Some v'" using table_map_iff [OF dist] by auto
    finally show "table_map (nodes u) k' = Some v' \<longleftrightarrow> ((table_map (nodes t))(k \<mapsto> v)) k' = Some v'" .
  qed
  have "k \<in> dom (table_map (nodes t))" using table_map_at [OF dist assms(4)] assms(3,5) by auto
  then have "dom (table_map (nodes u)) = dom (table_map (nodes t))" unfolding map by auto
  then show "table_ok H u"
    using assms(1) ch' fun_cong [OF K(1), of "firstfree t"] fun_cong [OF K(2), of "firstfree t"] L
    by (simp add: table_ok_def)
qed

text \<open>The nodes with the new key and its value, whatever becomes of the free places.\<close>

lemma placed_map:
  assumes "placed H ns ff k m ns1" "table_chains H ns ff" "\<not> is_null k"
  shows "table_map (ns1[m := (ns1 ! m)\<lparr>nval := v\<rparr>]) = (table_map ns)(k \<mapsto> v)" (is "table_map ?ns2 = _")
    and "key_distinct ns1" and "keys (ns1[m := (ns1 ! m)\<lparr>nval := v\<rparr>]) = keys ns1"
    and "nexts (ns1[m := (ns1 ! m)\<lparr>nval := v\<rparr>]) = nexts ns1"
proof -
  have m: "m < length ns1" "length ns1 = length ns" and ch: "table_chains H ns1 ff"
    and E: "entries (length ns) (keys ns1) ((vals ns1)(m := v)) = insert (k, v) (entries (length ns) (keys ns) (vals ns))"
    using assms(1) unfolding placed_def by auto
  show K: "keys ?ns2 = keys ns1" "nexts ?ns2 = nexts ns1" using m by (simp_all add: nodes_upd fun_upd_idem)
  have V: "vals ?ns2 = (vals ns1)(m := v)" using m by (simp add: nodes_upd)
  show d: "key_distinct ns1" using chains_distinct [OF ch] .
  have d2: "key_distinct ?ns2" using d fun_cong [OF K(1)] by (simp add: key_distinct_def)
  note dist = chains_distinct [OF assms(2)]
  have E2: "entries (length ?ns2) (keys ?ns2) (vals ?ns2) = insert (k, v) (entries (length ns) (keys ns) (vals ns))"
    unfolding K V using E m(2) by simp
  show "table_map ?ns2 = (table_map ns)(k \<mapsto> v)"
  proof (rule map_eqI)
    fix k' v'
    have one: "(k, w) \<in> entries (length ?ns2) (keys ?ns2) (vals ?ns2) \<Longrightarrow> w = v" for w
      using table_map_iff [OF d2] E2 by (metis insertI1 option.inject)
    show "table_map ?ns2 k' = Some v' \<longleftrightarrow> ((table_map ns)(k \<mapsto> v)) k' = Some v'"
      using table_map_iff [OF d2, of k' v'] table_map_iff [OF dist, of k' v'] one E2 by auto
  qed
qed

lemma slot_new:
  assumes "table_ok H t" "length (nodes t) < 2 ^ 63" "\<not> is_null k" "\<forall>i < length (nodes t). nkey (nodes t ! i) \<noteq> k"
  shows "\<exists>m ns1. placed H (nodes t) (firstfree t) k m ns1 \<and>
     NewSlot_depth (Suc d) H t k v =
       (case correct_firstfree ns1 (firstfree t) of
          Some i \<Rightarrow> Some (Inr (True, t\<lparr>nodes := ns1[m := (ns1 ! m)\<lparr>nval := v\<rparr>], firstfree := i, usednodes := usednodes t + 1\<rparr>))
        | None \<Rightarrow> run_then (Rehash (NewSlot_depth d H) True (t\<lparr>nodes := ns1, firstfree := 0\<rparr>)) (\<lambda>u. NewSlot_depth d H u k v))"
proof -
  have ch: "table_chains H (nodes t) (firstfree t)" "is_null (nkey (nodes t ! firstfree t))" "nnext (nodes t ! firstfree t) = None"
    using assms(1) by (simp_all add: table_ok_def)
  obtain m ns where m: "take_place H t (key_place H t k) = Some (Inr (m, ns))"
    "placed H (nodes t) (firstfree t) k m (ns[m := (ns ! m)\<lparr>nkey := k\<rparr>])"
    using take_place_run [OF ch(1) assms(2) ch(2,3) assms(3,4)] by blast
  have "get_node (nodes t) k (key_place H t k) = Some None" by (rule get_node_place(2) [OF ch(1) assms(3,2,4)])
  then show ?thesis using m assms(3)
    by (intro exI [of _ m] exI [of _ "ns[m := (ns ! m)\<lparr>nkey := k\<rparr>]"]) (simp add: NewSlot_depth.simps(2) Let_def)
qed

lemma slot_with_room:
  assumes "table_ok H t" "length (nodes t) < 2 ^ 63" "\<not> is_null k" "placed H (nodes t) (firstfree t) k m ns1"
    and "correct_firstfree ns1 (firstfree t) = Some i" "k \<notin> dom (table_map (nodes t))"
    and "u = t\<lparr>nodes := ns1[m := (ns1 ! m)\<lparr>nval := v\<rparr>], firstfree := i, usednodes := usednodes t + 1\<rparr>"
  shows "table_ok H u" "table_map (nodes u) = (table_map (nodes t))(k \<mapsto> v)" "no_gaps t \<Longrightarrow> no_gaps u"
    "length (nodes u) = length (nodes t)"
proof -
  have ch: "table_chains H (nodes t) (firstfree t)" using assms(1) by (simp add: table_ok_def)
  note pm = placed_map(1,3,4) [OF assms(4) ch assms(3), of v]
  have ch1: "table_chains H ns1 (firstfree t)" and L: "length ns1 = length (nodes t)" "m < length (nodes t)"
    using assms(4) by (simp_all add: placed_def)
  have i: "i \<le> firstfree t" "is_null (nkey (ns1 ! i))" "nnext (ns1 ! i) = None"
    "\<forall>j. i < j \<longrightarrow> j \<le> firstfree t \<longrightarrow> \<not> (is_null (nkey (ns1 ! j)) \<and> nnext (ns1 ! j) = None)"
    using correct_firstfree_run [of "firstfree t" ns1] assms(5) by auto
  have "chains_ok (length ns1) (main_place H (length ns1)) (keys ns1) (nexts ns1) i"
    by (rule lower_free) (use ch1 i in \<open>auto simp: table_chains_def\<close>)
  then have "table_chains H (nodes u) i" using pm(2,3) by (simp add: table_chains_def assms(7))
  moreover show map: "table_map (nodes u) = (table_map (nodes t))(k \<mapsto> v)" using pm(1) assms(7) by simp
  moreover have "card (dom ((table_map (nodes t))(k \<mapsto> v))) = Suc (card (dom (table_map (nodes t))))"
    using assms(6) by simp
  ultimately show "table_ok H u"
    using assms(1) i fun_cong [OF pm(2), of i] fun_cong [OF pm(3), of i] L by (simp add: table_ok_def assms(7))
  show "length (nodes u) = length (nodes t)" using L assms(7) by simp
  show "no_gaps u" if c: "no_gaps t"
  proof -
    have "\<forall>j < length (nodes t). is_null (nkey (ns1 ! j)) \<longrightarrow> nnext (ns1 ! j) = None \<and> j \<le> firstfree t"
      using assms(4) c unfolding placed_def no_gaps_def by blast
    then have "\<forall>j < length (nodes t). is_null (nkey (ns1 ! j)) \<longrightarrow> nnext (ns1 ! j) = None \<and> j \<le> i"
      using i(4) by (metis not_le)
    then show ?thesis using fun_cong [OF pm(2)] fun_cong [OF pm(3)] L by (simp add: no_gaps_def assms(7))
  qed
qed

lemma not_in_table:
  assumes "table_ok H t" "\<not> is_null k" "k \<notin> dom (table_map (nodes t))"
  shows "\<forall>i < length (nodes t). nkey (nodes t ! i) \<noteq> k"
proof -
  have "key_distinct (nodes t)" using assms(1) chains_distinct unfolding table_ok_def by blast
  then show ?thesis using table_map_at assms(2,3) by (metis domI)
qed

text \<open>As long as a table has no gaps and is not full, inserting needs no rehashing.\<close>

lemma slot_compact:
  assumes "table_ok H t" "no_gaps t" "length (nodes t) < 2 ^ 63" "\<not> is_null k" "k \<notin> dom (table_map (nodes t))"
    and "Suc (card (dom (table_map (nodes t)))) < length (nodes t)"
  shows "\<exists>u. NewSlot_depth (Suc d) H t k v = Some (Inr (True, u)) \<and> table_ok H u \<and> no_gaps u \<and>
     length (nodes u) = length (nodes t) \<and> table_map (nodes u) = (table_map (nodes t))(k \<mapsto> v) \<and> delegate u = delegate t"
proof -
  have no: "\<forall>i < length (nodes t). nkey (nodes t ! i) \<noteq> k" by (rule not_in_table [OF assms(1,4,5)])
  obtain m ns1 where m: "placed H (nodes t) (firstfree t) k m ns1"
    "NewSlot_depth (Suc d) H t k v =
       (case correct_firstfree ns1 (firstfree t) of
          Some i \<Rightarrow> Some (Inr (True, t\<lparr>nodes := ns1[m := (ns1 ! m)\<lparr>nval := v\<rparr>], firstfree := i, usednodes := usednodes t + 1\<rparr>))
        | None \<Rightarrow> run_then (Rehash (NewSlot_depth d H) True (t\<lparr>nodes := ns1, firstfree := 0\<rparr>)) (\<lambda>u. NewSlot_depth d H u k v))"
    using slot_new [OF assms(1,3,4) no] by blast
  have ch: "table_chains H (nodes t) (firstfree t)" using assms(1) by (simp add: table_ok_def)
  note pm = placed_map(1,3,4) [OF m(1) ch assms(4), of v] and pd = placed_map(2) [OF m(1) ch assms(4)]
  let ?ns2 = "ns1[m := (ns1 ! m)\<lparr>nval := v\<rparr>]"
  have L: "length ns1 = length (nodes t)" using m(1) by (simp add: placed_def)
  obtain i where i: "correct_firstfree ns1 (firstfree t) = Some i"
  proof (cases "correct_firstfree ns1 (firstfree t)")
    case None
    then have all: "\<forall>j \<le> firstfree t. \<not> (is_null (nkey (ns1 ! j)) \<and> nnext (ns1 ! j) = None)"
      using correct_firstfree_run [of "firstfree t" ns1] by simp
    have "\<forall>j < length (nodes t). is_null (nkey (ns1 ! j)) \<longrightarrow> nnext (ns1 ! j) = None \<and> j \<le> firstfree t"
      using m(1) assms(2) unfolding placed_def no_gaps_def by blast
    then have "used ns1 = {..< length (nodes t)}" using all L by (auto simp: used_def)
    moreover have "used ?ns2 = used ns1" using fun_cong [OF pm(2)] by (simp add: used_def)
    moreover have "key_distinct ?ns2" using pd fun_cong [OF pm(2)] by (simp add: key_distinct_def)
    then have "card (used ?ns2) = card (dom ((table_map (nodes t))(k \<mapsto> v)))" using card_used(1) pm(1) by metis
    ultimately show ?thesis using assms(5,6) by simp
  qed blast
  show ?thesis using slot_with_room [OF assms(1,3,4) m(1) i assms(5) refl] m(2) i assms(2) by simp
qed

end
