(* ===== verification/Sq_Table_Ops.thy ===== *)
theory Sq_Table_Ops
  imports Sq_Table_Slots
begin

text \<open>
  Rehashing, and with it every operation of a table: the calls between inserting and rehashing end,
  and the table afterwards is sound and holds the map it should.
\<close>

section \<open>Rehashing\<close>

lemma table_map_replicate [simp]: "table_map (replicate n empty_node) = Map.empty"
  by (induction n) (simp_all add: empty_node_def acyclic_def)

lemma alloc_ok:
  assumes "n = 2 ^ j" "2 \<le> j"
  shows "table_ok H ((AllocNodes n t)\<lparr>usednodes := 0\<rparr>)" "no_gaps ((AllocNodes n t)\<lparr>usednodes := 0\<rparr>)"
proof -
  have links: "links n (nexts (replicate n empty_node)) = {}" by (auto simp: links_def empty_node_def)
  have "0 < n" using assms by simp
  then show "table_ok H ((AllocNodes n t)\<lparr>usednodes := 0\<rparr>)"
    using assms links
    by (auto simp: table_ok_def table_chains_def chains_ok_def AllocNodes_def) (simp_all add: empty_node_def acyclic_def)
  show "no_gaps ((AllocNodes n t)\<lparr>usednodes := 0\<rparr>)" by (auto simp: no_gaps_def AllocNodes_def empty_node_def)
qed

lemma key_distinct_tail:
  assumes "key_distinct (n # ns)" "\<not> is_null (nkey n)"
  shows "nkey n \<notin> dom (table_map ns)"
proof -
  have "\<forall>i < length ns. nkey (ns ! i) \<noteq> nkey n" using key_distinct_Cons(2) [OF assms] by blast
  then show ?thesis using table_map_None by (simp add: domIff)
qed

lemma reinsert_run:
  assumes "table_ok H t" "no_gaps t" "length (nodes t) < 2 ^ 63" "key_distinct ns"
    and "dom (table_map (nodes t)) \<inter> dom (table_map ns) = {}"
    and "card (dom (table_map (nodes t))) + card (dom (table_map ns)) < length (nodes t)"
  shows "\<exists>u. reinsert (NewSlot_depth (Suc d) H) ns t = Some (Inr u) \<and> table_ok H u \<and> no_gaps u \<and>
     length (nodes u) = length (nodes t) \<and> table_map (nodes u) = table_map (nodes t) ++ table_map ns \<and> delegate u = delegate t"
  using assms
proof (induction ns arbitrary: t)
  case (Cons n ns)
  note d = key_distinct_Cons(1) [OF Cons.prems(4)]
  show ?case
  proof (cases "is_null (nkey n)")
    case True
    then show ?thesis using Cons.IH [of t] Cons.prems d by simp
  next
    case False
    let ?k = "nkey n" and ?m = "table_map (nodes t)"
    have new: "?k \<notin> dom (table_map ns)" by (rule key_distinct_tail [OF Cons.prems(4) False])
    have k: "?k \<notin> dom ?m" using Cons.prems(5) False by auto
    have c: "card (dom (table_map (n # ns))) = Suc (card (dom (table_map ns)))" using new False by simp
    have "Suc (card (dom ?m)) < length (nodes t)" using Cons.prems(6) unfolding c by simp
    from slot_compact [OF Cons.prems(1-3) False k this, of d "nval n"]
    obtain u where u: "NewSlot_depth (Suc d) H t ?k (nval n) = Some (Inr (True, u))" "table_ok H u" "no_gaps u"
      "length (nodes u) = length (nodes t)" "table_map (nodes u) = ?m(?k \<mapsto> nval n)" "delegate u = delegate t" by blast
    have dj: "dom (table_map (nodes u)) \<inter> dom (table_map ns) = {}" using u(5) Cons.prems(5) new False by auto
    have cu: "card (dom (table_map (nodes u))) + card (dom (table_map ns)) < length (nodes u)"
      using u(4,5) k Cons.prems(6) c by simp
    from Cons.IH [OF u(2,3) _ d dj cu] obtain w where w: "reinsert (NewSlot_depth (Suc d) H) ns u = Some (Inr w)"
      "table_ok H w" "no_gaps w" "length (nodes w) = length (nodes t)" "table_map (nodes w) = table_map (nodes u) ++ table_map ns"
      "delegate w = delegate t"
      using u(4,6) Cons.prems(3) by auto
    have "table_map (nodes w) = ?m ++ table_map (n # ns)"
      using w(5) u(5) new False by (auto simp: map_add_def fun_eq_iff domIff split: option.splits)
    then show ?thesis using u(1) w(1-4,6) False by (intro exI [of _ w]) (simp del: table_map.simps)
  qed
qed simp

text \<open>How an operation may change the number of places: it grows only when three in four are used.\<close>

definition resized :: "sqtable \<Rightarrow> nat \<Rightarrow> sqtable \<Rightarrow> bool" where
  "resized t c u \<longleftrightarrow> length (nodes u) \<le> 2 * length (nodes t) \<and>
     (length (nodes u) \<le> length (nodes t) \<or> 3 * length (nodes u) \<le> 8 * c)"

lemma resized_same [simp]: "length (nodes u) = length (nodes t) \<Longrightarrow> resized t c u"
  by (simp add: resized_def)

lemma resized_mono:
  "resized s c u \<Longrightarrow> length (nodes s) = length (nodes t) \<Longrightarrow> c \<le> c' \<Longrightarrow> resized t c' u"
  by (auto simp: resized_def)

text \<open>The sizes rehashing chooses leave room for one more key.\<close>

lemma new_size_room:
  assumes "length (nodes t) = 2 ^ j" "2 \<le> j" "new_size force t = Some n"
    and "int c \<le> usednodes t + 1" "c \<le> length (nodes t)" "0 \<le> usednodes t"
  shows "c < n" "n \<le> 2 * length (nodes t)" "\<exists>i \<ge> 2. n = 2 ^ i"
    "n \<le> length (nodes t) \<or> 3 * int n \<le> 8 * usednodes t"
proof -
  let ?o = "length (nodes t)"
  have o4: "4 \<le> ?o" using assms(1,2) power_increasing [of 2 j "2 :: nat"] by simp
  obtain i where i: "j = Suc (Suc i)" using assms(2) by (metis Suc_le_D numeral_2_eq_2 Suc_le_mono)
  have o: "?o = 4 * 2 ^ i" using assms(1) i by simp
  have div: "?o div 4 = 2 ^ i" "?o div 2 = 2 * 2 ^ i" "?o - 2 ^ i = 3 * 2 ^ i" using o by simp_all
  have mx: "max 4 ?o = ?o" using o4 by simp
  consider (grow) "n = ?o * 2" "int (3 * 2 ^ i) \<le> usednodes t" | (shrink) "usednodes t \<le> int (2 ^ i)" "4 < ?o" "n = 2 * 2 ^ i"
    | (same) "usednodes t < int (3 * 2 ^ i)" "n = ?o"
    using assms(3) unfolding new_size_def mx Let_def MINPOWER2_def div by (auto split: if_splits)
  then have "c < n \<and> n \<le> 2 * ?o \<and> (\<exists>i \<ge> 2. n = 2 ^ i) \<and> (n \<le> ?o \<or> 3 * int n \<le> 8 * usednodes t)"
  proof cases
    case grow
    then have "3 * int n \<le> 8 * usednodes t" using o by simp
    then show ?thesis using grow assms(1,2,5) o4 by (auto intro!: exI [of _ "Suc j"])
  next
    case shrink
    then have "0 < i" using o by (cases i) simp_all
    then obtain l where l: "i = Suc l" using gr0_implies_Suc by blast
    have "int c \<le> int (2 ^ i) + 1" using shrink(1) assms(4) by linarith
    then have "c \<le> 2 ^ i + 1" by linarith
    moreover have "1 \<le> (2 :: nat) ^ l" "(2 :: nat) ^ i = 2 * 2 ^ l" using l by simp_all
    ultimately have "c < n" using shrink(3) by linarith
    moreover have "n = 2 ^ Suc (Suc l)" using shrink(3) l by simp
    ultimately show ?thesis using shrink(3) o by (auto intro!: exI [of _ "Suc (Suc l)"])
  next
    case same
    have "int c < int (3 * 2 ^ i) + 1" using same(1) assms(4) by linarith
    then have "c \<le> 3 * 2 ^ i" by linarith
    moreover have "1 \<le> (2 :: nat) ^ i" by simp
    ultimately have "c < n" using same(2) o by linarith
    then show ?thesis using same(2) o assms(1,2) by (auto intro!: exI [of _ j])
  qed
  then show "c < n" "n \<le> 2 * length (nodes t)" "\<exists>i \<ge> 2. n = 2 ^ i"
    "n \<le> length (nodes t) \<or> 3 * int n \<le> 8 * usednodes t" by blast+
qed

lemma new_size_forced: "\<exists>n. new_size True t = Some n"
  by (simp add: new_size_def Let_def)

lemma rehash_run:
  assumes "length (nodes t) = 2 ^ j" "2 \<le> j" "key_distinct (nodes t)" "length (nodes t) < 2 ^ 62" "new_size force t = Some n"
    and "int (card (dom (table_map (nodes t)))) \<le> usednodes t + 1" "0 \<le> usednodes t"
  shows "\<exists>u. Rehash (NewSlot_depth (Suc d) H) force t = Some (Inr u) \<and> table_ok H u \<and>
     resized t (nat (usednodes t)) u \<and> table_map (nodes u) = table_map (nodes t) \<and> delegate u = delegate t"
proof -
  let ?c = "card (dom (table_map (nodes t)))" and ?f = "(AllocNodes n t)\<lparr>usednodes := 0\<rparr>"
  have c: "?c \<le> length (nodes t)" using card_used [OF assms(3)] by simp
  note size = new_size_room [OF assms(1,2,5,6) c assms(7)]
  obtain i where i: "2 \<le> i" "n = 2 ^ i" using size(3) by blast
  have f: "nodes ?f = replicate n empty_node" "delegate ?f = delegate t" by (simp_all add: AllocNodes_def)
  have "\<not> length (nodes t) < 4" using power_increasing [OF assms(2), of "2 :: nat"] assms(1) by simp
  moreover have "\<exists>u. reinsert (NewSlot_depth (Suc d) H) (nodes t) ?f = Some (Inr u) \<and> table_ok H u \<and> no_gaps u \<and>
     length (nodes u) = length (nodes ?f) \<and> table_map (nodes u) = table_map (nodes ?f) ++ table_map (nodes t) \<and> delegate u = delegate ?f"
    by (rule reinsert_run [OF alloc_ok [OF i(2,1)] _ assms(3)]) (use size f assms(4) in auto)
  moreover have "n \<le> length (nodes t) \<or> 3 * n \<le> 8 * nat (usednodes t)" using size(4) assms(7) by linarith
  ultimately obtain u where u: "reinsert (NewSlot_depth (Suc d) H) (nodes t) ?f = Some (Inr u)" "table_ok H u"
    "length (nodes u) = n" "table_map (nodes u) = table_map (nodes t)" "delegate u = delegate t"
    "n \<le> length (nodes t) \<or> 3 * n \<le> 8 * nat (usednodes t)" "\<not> length (nodes t) < 4"
    using f by auto
  then have "Rehash (NewSlot_depth (Suc d) H) force t = Some (Inr u)" using assms(5) by (simp add: Rehash_def)
  then show ?thesis using u size(2) by (auto simp: resized_def)
qed

section \<open>The operations\<close>

lemma NewSlot_run:
  assumes "table_ok H t" "length (nodes t) < 2 ^ 62" "\<not> is_null k"
  shows "\<exists>b u. NewSlot_depth (Suc (Suc d)) H t k v = Some (Inr (b, u)) \<and> table_ok H u \<and>
     resized t (card (dom (table_map (nodes t)))) u \<and> table_map (nodes u) = (table_map (nodes t))(k \<mapsto> v) \<and> delegate u = delegate t \<and>
     (b \<longrightarrow> k \<notin> dom (table_map (nodes t)))"
proof (cases "\<exists>i < length (nodes t). nkey (nodes t ! i) = k")
  case True
  then obtain i where i: "i < length (nodes t)" "nkey (nodes t ! i) = k" by blast
  have "length (nodes t) < 2 ^ 63" using assms(2) by simp
  note len = this
  show ?thesis
    using slot_found(1) [OF assms(1) len assms(3) i refl, of "Suc d" v] slot_found(2,3) [OF assms(1) len assms(3) i refl, of v]
    by auto
next
  case False
  have len: "length (nodes t) < 2 ^ 63" using assms(2) by simp
  have no: "\<forall>i < length (nodes t). nkey (nodes t ! i) \<noteq> k" using False by blast
  have dom: "k \<notin> dom (table_map (nodes t))" using table_map_None [OF no] by (simp add: domIff)
  obtain m ns1 where m: "placed H (nodes t) (firstfree t) k m ns1"
    "NewSlot_depth (Suc (Suc d)) H t k v =
       (case correct_firstfree ns1 (firstfree t) of
          Some i \<Rightarrow> Some (Inr (True, t\<lparr>nodes := ns1[m := (ns1 ! m)\<lparr>nval := v\<rparr>], firstfree := i, usednodes := usednodes t + 1\<rparr>))
        | None \<Rightarrow> run_then (Rehash (NewSlot_depth (Suc d) H) True (t\<lparr>nodes := ns1, firstfree := 0\<rparr>)) (\<lambda>u. NewSlot_depth (Suc d) H u k v))"
    using slot_new [OF assms(1) len assms(3) no] by blast
  show ?thesis
  proof (cases "correct_firstfree ns1 (firstfree t)")
    case (Some i)
    then show ?thesis using slot_with_room [OF assms(1) len assms(3) m(1) Some dom refl] m(2) dom by (intro exI [of _ True]) simp
  next
    case None
    have ch: "table_chains H (nodes t) (firstfree t)" using assms(1) by (simp add: table_ok_def)
    let ?w = "nval (ns1 ! m)"
    have L: "length ns1 = length (nodes t)" "m < length ns1" "nkey (ns1 ! m) = k" using m(1) by (simp_all add: placed_def)
    have self: "ns1[m := (ns1 ! m)\<lparr>nval := ?w\<rparr>] = ns1" by simp
    have map1: "table_map ns1 = (table_map (nodes t))(k \<mapsto> ?w)"
      using placed_map(1) [OF m(1) ch assms(3), of ?w] unfolding self .
    have d1: "key_distinct ns1" by (rule placed_map(2) [OF m(1) ch assms(3)])
    let ?t = "t\<lparr>nodes := ns1, firstfree := 0\<rparr>"
    obtain j where j: "2 \<le> j" "length (nodes ?t) = 2 ^ j" using assms(1) L(1) by (auto simp: table_ok_def)
    have used: "usednodes ?t = int (card (dom (table_map (nodes t))))" using assms(1) by (simp add: table_ok_def)
    have c: "int (card (dom (table_map (nodes ?t)))) \<le> usednodes ?t + 1" "0 \<le> usednodes ?t"
      using used dom by (simp_all add: map1)
    obtain n where n: "new_size True ?t = Some n" using new_size_forced by blast
    have "key_distinct (nodes ?t)" "length (nodes ?t) < 2 ^ 62" using d1 L(1) assms(2) by simp_all
    from rehash_run [OF j(2,1) this n c, of d H] obtain u where u:
      "Rehash (NewSlot_depth (Suc d) H) True ?t = Some (Inr u)" "table_ok H u" "resized ?t (nat (usednodes ?t)) u"
      "table_map (nodes u) = table_map ns1" "delegate u = delegate t"
      by auto
    have rs: "resized t (card (dom (table_map (nodes t)))) u"
      by (rule resized_mono [OF u(3)]) (use used L(1) in simp_all)
    have du: "key_distinct (nodes u)" using u(2) chains_distinct unfolding table_ok_def by blast
    have "(k, ?w) \<in> entries (length (nodes u)) (keys (nodes u)) (vals (nodes u))"
      using table_map_iff [OF du, of k ?w] u(4) map1 by simp
    then obtain i where i: "i < length (nodes u)" "nkey (nodes u ! i) = k" by (auto simp: entries_def)
    have lu: "length (nodes u) < 2 ^ 63" using rs assms(2) by (simp add: resized_def)
    note f = slot_found(1) [OF u(2) lu assms(3) i refl, of d v] slot_found(2,3) [OF u(2) lu assms(3) i refl, of v]
    show ?thesis
      using m(2) None u rs f map1 by (auto simp: fun_upd_idem_iff resized_def)
  qed
qed

lemma delete_run:
  assumes "table_ok H t" "length (nodes t) < 2 ^ 62" "\<not> is_null k"
  shows "\<exists>u. table_Remove H t k = Some (Inr u) \<and> table_ok H u \<and> resized t (card (dom (table_map (nodes t)))) u \<and>
     table_map (nodes u) = (table_map (nodes t))(k := None) \<and> delegate u = delegate t"
proof (cases "\<exists>i < length (nodes t). nkey (nodes t ! i) = k")
  case False
  have ch: "table_chains H (nodes t) (firstfree t)" using assms(1) by (simp add: table_ok_def)
  have no: "\<forall>i < length (nodes t). nkey (nodes t ! i) \<noteq> k" using False by blast
  have "get_node (nodes t) k (key_place H t k) = Some None"
    by (rule get_node_place(2) [OF ch assms(3) _ no]) (use assms(2) in simp)
  then show ?thesis using assms(1) table_map_None [OF no] by (simp add: table_Remove_def fun_upd_idem)
next
  case True
  then obtain i where i: "i < length (nodes t)" "nkey (nodes t ! i) = k" by blast
  have ch: "table_chains H (nodes t) (firstfree t)" and free: "is_null (nkey (nodes t ! firstfree t))" "nnext (nodes t ! firstfree t) = None"
    using assms(1) by (simp_all add: table_ok_def)
  note dist = chains_distinct [OF ch]
  define ns where "ns = (nodes t)[i := (nodes t ! i)\<lparr>nval := null_object, nkey := null_object\<rparr>]"
  define t1 where "t1 = t\<lparr>nodes := ns, usednodes := usednodes t - 1\<rparr>"
  have K: "keys ns = (keys (nodes t))(i := null_object)" "nexts ns = nexts (nodes t)" "vals ns = (vals (nodes t))(i := null_object)"
    and L: "length ns = length (nodes t)" using i(1) by (simp_all add: ns_def nodes_upd fun_upd_idem)
  have ch1: "table_chains H ns (firstfree t)"
    using remove_key [of "length (nodes t)" "main_place H (length (nodes t))" "keys (nodes t)" "nexts (nodes t)" "firstfree t" i] ch free
    unfolding table_chains_def L K by blast
  note d1 = chains_distinct [OF ch1]
  have map1: "table_map ns = (table_map (nodes t))(k := None)"
  proof (rule map_eqI)
    fix k' v'
    have "(k', v') \<in> entries (length ns) (keys ns) (vals ns) \<longleftrightarrow>
        k' \<noteq> k \<and> (k', v') \<in> entries (length (nodes t)) (keys (nodes t)) (vals (nodes t))"
      unfolding K L using i assms(3) dist by (auto simp: entries_def key_distinct_def)
    then show "table_map ns k' = Some v' \<longleftrightarrow> ((table_map (nodes t))(k := None)) k' = Some v'"
      using table_map_iff [OF d1] table_map_iff [OF dist] by simp
  qed
  have k: "k \<in> dom (table_map (nodes t))" using table_map_at [OF dist i(1)] i(2) assms(3) by auto
  have used: "usednodes t1 = int (card (dom (table_map ns)))"
  proof -
    have "0 < card (dom (table_map (nodes t)))" using k by (auto simp: card_gt_0_iff)
    moreover have "usednodes t = int (card (dom (table_map (nodes t))))" using assms(1) by (simp add: table_ok_def)
    ultimately show ?thesis using k by (simp add: t1_def map1 card_Diff_singleton of_nat_diff)
  qed
  have run: "table_Remove H t k = Rehash (NewSlot H) False t1"
    using get_node_place(1) [OF ch assms(3) _ i] assms(2) by (simp add: table_Remove_def t1_def ns_def)
  show ?thesis
  proof (cases "new_size False t1")
    case None
    have "table_ok H t1"
      using assms(1) ch1 used L fun_cong [OF K(1), of "firstfree t"] fun_cong [OF K(2), of "firstfree t"] free
      by (simp add: table_ok_def t1_def)
    then show ?thesis using run None map1 L by (simp add: Rehash_def t1_def)
  next
    case (Some n)
    obtain j where j: "2 \<le> j" "length (nodes t1) = 2 ^ j" using assms(1) L by (auto simp: table_ok_def t1_def)
    have "key_distinct (nodes t1)" "length (nodes t1) < 2 ^ 62" using d1 L assms(2) by (simp_all add: t1_def)
    then obtain u where u: "Rehash (NewSlot H) False t1 = Some (Inr u)" "table_ok H u" "resized t1 (nat (usednodes t1)) u"
      "table_map (nodes u) = table_map ns" "delegate u = delegate t"
      using rehash_run [OF j(2,1) _ _ Some, of "Suc 0" H] used by (auto simp: t1_def NewSlot_def numeral_2_eq_2)
    have "resized t (card (dom (table_map (nodes t)))) u"
      by (rule resized_mono [OF u(3)]) (use used L in \<open>simp_all add: t1_def map1 card_mono\<close>)
    then show ?thesis using u run map1 by auto
  qed
qed

lemma clear_run:
  assumes "table_ok H t" "length (nodes t) < 2 ^ 62"
  shows "\<exists>u. table_Clear H t = Some (Inr u) \<and> table_ok H u \<and> length (nodes u) \<le> length (nodes t) \<and> table_map (nodes u) = Map.empty \<and> delegate u = delegate t"
proof -
  let ?t = "(ClearNodes t)\<lparr>usednodes := 0\<rparr>"
  have null: "is_null (nkey (nodes ?t ! i))" if "i < length (nodes ?t)" for i using that by (simp add: ClearNodes_def)
  obtain j where j: "2 \<le> j" "length (nodes ?t) = 2 ^ j" using assms(1) by (auto simp: table_ok_def ClearNodes_def)
  have d: "key_distinct (nodes ?t)" using null by (auto simp: key_distinct_def)
  have "table_map (nodes ?t) k = None" for k
  proof (rule ccontr)
    assume "table_map (nodes ?t) k \<noteq> None"
    then obtain v where "(k, v) \<in> entries (length (nodes ?t)) (keys (nodes ?t)) (vals (nodes ?t))"
      using table_map_iff [OF d] by blast
    then show False using null by (auto simp: entries_def)
  qed
  then have empty: "table_map (nodes ?t) = Map.empty" by blast
  obtain n where n: "new_size True ?t = Some n" using new_size_forced by blast
  have "length (nodes ?t) < 2 ^ 62" using assms(2) by (simp add: ClearNodes_def)
  from rehash_run [OF j(2,1) d this n, of "Suc 0" H] empty show ?thesis
    by (auto simp: table_Clear_def NewSlot_def numeral_2_eq_2 ClearNodes_def resized_def)
qed

lemma set_run:
  assumes "table_ok H t" "length (nodes t) < 2 ^ 62" "\<not> is_null k"
  shows "\<exists>u. table_Set H t k v = Some (k \<in> dom (table_map (nodes t)), u) \<and> table_ok H u \<and> length (nodes u) = length (nodes t) \<and>
     table_map (nodes u) = (if k \<in> dom (table_map (nodes t)) then (table_map (nodes t))(k \<mapsto> v) else table_map (nodes t))"
proof -
  have ch: "table_chains H (nodes t) (firstfree t)" using assms(1) by (simp add: table_ok_def)
  have len: "length (nodes t) < 2 ^ 63" using assms(2) by simp
  show ?thesis
  proof (cases "\<exists>i < length (nodes t). nkey (nodes t ! i) = k")
    case True
    then obtain i where i: "i < length (nodes t)" "nkey (nodes t ! i) = k" by blast
    have "k \<in> dom (table_map (nodes t))" using table_map_at [OF chains_distinct [OF ch] i(1)] i(2) assms(3) by auto
    then show ?thesis
      using get_node_place(1) [OF ch assms(3) len i] slot_found(2,3) [OF assms(1) len assms(3) i refl, of v]
      by (simp add: table_Set_def)
  next
    case False
    then have no: "\<forall>i < length (nodes t). nkey (nodes t ! i) \<noteq> k" by blast
    show ?thesis using get_node_place(2) [OF ch assms(3) len no] table_map_None [OF no] assms(1)
      by (simp add: table_Set_def domIff)
  qed
qed

end
