(* ===== verification/Sq_Table_Run.thy ===== *)
theory Sq_Table_Run
  imports Sq_Table_Ops
begin

text \<open>What a table promises its users over a run of operations, and copying one.\<close>

section \<open>New tables\<close>

lemma pow2size_power:
  assumes "0 < p"
  shows "\<exists>i. pow2size n p = p * 2 ^ i \<and> n \<le> pow2size n p \<and> pow2size n p \<le> max p (2 * n)"
  using assms
proof (induction n p rule: pow2size.induct)
  case (1 n p)
  show ?case
  proof (cases "p < n")
    case True
    then have eq: "pow2size n p = pow2size n (2 * p)" using 1(2) by (subst pow2size.simps) simp
    obtain i where i: "pow2size n (2 * p) = 2 * p * 2 ^ i" "n \<le> pow2size n (2 * p)" "pow2size n (2 * p) \<le> max (2 * p) (2 * n)"
      using 1(1) True 1(2) by auto
    have "p * 2 ^ Suc i = pow2size n p" using eq i(1) by simp
    then show ?thesis using i(2,3) True eq by (intro exI [of _ "Suc i"]) auto
  next
    case False
    then have "pow2size n p = p" by (subst pow2size.simps) simp
    then show ?thesis using False by (intro exI [of _ 0]) simp
  qed
qed

lemma pow2size_exact: "0 < p \<Longrightarrow> pow2size (p * 2 ^ i) p = p * 2 ^ i"
proof (induction i arbitrary: p)
  case 0
  then show ?case by (subst pow2size.simps) simp
next
  case (Suc i)
  have "p < p * 2 ^ Suc i" using Suc.prems one_less_power [of "2 :: nat" "Suc i"] by simp
  then have "pow2size (p * 2 ^ Suc i) p = pow2size (2 * p * 2 ^ i) (2 * p)"
    using Suc.prems by (subst pow2size.simps) (simp add: mult.assoc mult.left_commute)
  then show ?case using Suc.IH [of "2 * p"] Suc.prems by (simp add: mult.assoc mult.left_commute)
qed

lemma create_ok:
  shows "table_ok H (table_create n)" "no_gaps (table_create n)" "table_map (nodes (table_create n)) = Map.empty"
    "length (nodes (table_create n)) \<le> max 4 (2 * n)"
    "(2 :: nat) \<le> j \<Longrightarrow> length (nodes (table_create (2 ^ j))) = 2 ^ j"
proof -
  let ?t = "\<lparr>firstfree = 0, nodes = [], usednodes = 0, delegate = 0\<rparr>"
  obtain i where i: "pow2size n 4 = 4 * 2 ^ i" "pow2size n 4 \<le> max 4 (2 * n)" using pow2size_power [of 4 n] by auto
  have p: "pow2size n 4 = 2 ^ (i + 2)" using i(1) by simp
  have eq: "table_create m = (AllocNodes (pow2size m 4) ?t)\<lparr>usednodes := 0\<rparr>" for m
    by (simp add: table_create_def MINPOWER2_def AllocNodes_def)
  show "table_ok H (table_create n)" "no_gaps (table_create n)" unfolding eq by (rule alloc_ok [OF p], simp)+
  show "table_map (nodes (table_create n)) = Map.empty" "length (nodes (table_create n)) \<le> max 4 (2 * n)"
    unfolding eq using i(2) by (simp_all add: AllocNodes_def)
  assume "2 \<le> j"
  then obtain l where "j = l + 2" by (metis le_add_diff_inverse2)
  then have "(2 :: nat) ^ j = 4 * 2 ^ l" by simp
  then show "length (nodes (table_create (2 ^ j))) = 2 ^ j"
    unfolding eq using pow2size_exact [of 4 l] by (simp add: AllocNodes_def)
qed

section \<open>Runs\<close>

datatype table_op = Slot sqobject sqobject | Assign sqobject sqobject | Delete sqobject | Empty

fun run_op :: "sqheap \<Rightarrow> table_op \<Rightarrow> sqtable \<Rightarrow> sqtable res option" where
  "run_op H (Slot k v) t = run_then (NewSlot H t k v) (\<lambda>(_, u). Some (Inr u))"
| "run_op H (Assign k v) t = map_option (\<lambda>(_, u). Inr u) (table_Set H t k v)"
| "run_op H (Delete k) t = table_Remove H t k"
| "run_op H Empty t = table_Clear H t"

fun run_ops :: "sqheap \<Rightarrow> table_op list \<Rightarrow> sqtable \<Rightarrow> sqtable res option" where
  "run_ops H [] t = Some (Inr t)"
| "run_ops H (p # ps) t = run_then (run_op H p t) (run_ops H ps)"

fun op_on_map :: "table_op \<Rightarrow> (sqobject \<rightharpoonup> sqobject) \<Rightarrow> sqobject \<rightharpoonup> sqobject" where
  "op_on_map (Slot k v) m = m(k \<mapsto> v)"
| "op_on_map (Assign k v) m = (if k \<in> dom m then m(k \<mapsto> v) else m)"
| "op_on_map (Delete k) m = m(k := None)"
| "op_on_map Empty m = Map.empty"

fun op_key :: "table_op \<Rightarrow> bool" where
  "op_key (Slot k v) \<longleftrightarrow> \<not> is_null k"
| "op_key (Assign k v) \<longleftrightarrow> \<not> is_null k"
| "op_key (Delete k) \<longleftrightarrow> \<not> is_null k"
| "op_key Empty \<longleftrightarrow> True"

lemma run_op_ok:
  assumes "table_ok H t" "length (nodes t) < 2 ^ 62" "op_key p"
  shows "\<exists>u. run_op H p t = Some (Inr u) \<and> table_ok H u \<and> resized t (card (dom (table_map (nodes t)))) u \<and>
     table_map (nodes u) = op_on_map p (table_map (nodes t)) \<and> card (dom (table_map (nodes u))) \<le> Suc (card (dom (table_map (nodes t))))"
proof (cases p)
  case (Slot k v)
  from NewSlot_run [OF assms(1,2), of k 0 v] obtain b u where u: "NewSlot H t k v = Some (Inr (b, u))" "table_ok H u"
    "resized t (card (dom (table_map (nodes t)))) u" "table_map (nodes u) = (table_map (nodes t))(k \<mapsto> v)"
    using assms(3) Slot by (auto simp: NewSlot_def numeral_2_eq_2)
  moreover have "card (dom ((table_map (nodes t))(k \<mapsto> v))) \<le> Suc (card (dom (table_map (nodes t))))"
    by (simp add: card_insert_le_m1 card_insert_if)
  ultimately show ?thesis using Slot by auto
next
  case (Assign k v)
  from set_run [OF assms(1,2), of k v] assms(3) Assign obtain u where u: "run_op H p t = Some (Inr u)" "table_ok H u"
    "length (nodes u) = length (nodes t)" "table_map (nodes u) = op_on_map p (table_map (nodes t))" by auto
  moreover have "dom (op_on_map p (table_map (nodes t))) = dom (table_map (nodes t))" using Assign by auto
  ultimately show ?thesis by auto
next
  case (Delete k)
  from delete_run [OF assms(1,2), of k] assms(3) Delete obtain u where "run_op H p t = Some (Inr u)" "table_ok H u"
    "resized t (card (dom (table_map (nodes t)))) u" "table_map (nodes u) = (table_map (nodes t))(k := None)" by auto
  moreover have "card (dom ((table_map (nodes t))(k := None))) \<le> card (dom (table_map (nodes t)))" by (auto intro: card_mono)
  ultimately show ?thesis using Delete by auto
next
  case Empty
  from clear_run [OF assms(1,2)] show ?thesis using Empty by (auto simp: resized_def)
qed

lemma run_ops_ok:
  assumes "table_ok H t" "card (dom (table_map (nodes t))) \<le> c" "length (nodes t) \<le> L \<or> 3 * length (nodes t) \<le> 8 * c"
    and "L < 2 ^ 62" "c + length ps < 2 ^ 60" "\<forall>p \<in> set ps. op_key p"
  shows "\<exists>u. run_ops H ps t = Some (Inr u) \<and> table_ok H u \<and> length (nodes u) < 2 ^ 62 \<and>
     table_map (nodes u) = foldl (\<lambda>m p. op_on_map p m) (table_map (nodes t)) ps"
  using assms
proof (induction ps arbitrary: t c)
  case Nil
  then have "length (nodes t) < 2 ^ 62" by auto
  then show ?case using Nil by simp
next
  case (Cons p ps)
  have len: "length (nodes t) < 2 ^ 62" using Cons.prems(3-5) by auto
  obtain u where u: "run_op H p t = Some (Inr u)" "table_ok H u" "resized t (card (dom (table_map (nodes t)))) u"
    "table_map (nodes u) = op_on_map p (table_map (nodes t))" "card (dom (table_map (nodes u))) \<le> Suc (card (dom (table_map (nodes t))))"
    using run_op_ok [OF Cons.prems(1) len, of p] Cons.prems(6) by (meson list.set_intros(1))
  have "card (dom (table_map (nodes u))) \<le> Suc c" using u(5) Cons.prems(2) by simp
  moreover have "length (nodes u) \<le> L \<or> 3 * length (nodes u) \<le> 8 * Suc c"
    using u(3) Cons.prems(3) le_trans [OF _ mult_le_mono2 [OF Cons.prems(2), of 8]] unfolding resized_def by fastforce
  moreover have "Suc c + length ps < 2 ^ 60" "\<forall>p \<in> set ps. op_key p" using Cons.prems(5,6) by simp_all
  ultimately obtain w where "run_ops H ps u = Some (Inr w)" "table_ok H w" "length (nodes w) < 2 ^ 62"
    "table_map (nodes w) = foldl (\<lambda>m p. op_on_map p m) (table_map (nodes u)) ps"
    using Cons.IH [OF u(2) _ _ Cons.prems(4)] by blast
  then show ?case using u by auto
qed

section \<open>Copying\<close>

lemma table_Next_skip:
  assumes "i < length (nodes t)" "is_null (nkey (nodes t ! i))"
  shows "table_Next H b t i = table_Next H b t (Suc i)"
  using assms by (simp add: table_Next_def upt_conv_Cons)

lemma table_Next_here:
  assumes "i < length (nodes t)" "\<not> is_null (nkey (nodes t ! i))"
  shows "table_Next H True t i = Some (Suc i, nkey (nodes t ! i), nval (nodes t ! i))"
  using assms by (simp add: table_Next_def upt_conv_Cons Let_def)

lemma clone_loop_reinsert:
  assumes "i \<le> length (nodes t)"
  shows "clone_loop H t i nt = reinsert (NewSlot H) (drop i (nodes t)) nt"
  using assms
proof (induction "length (nodes t) - i" arbitrary: i nt)
  case 0
  then have "table_Next H True t i = None" by (simp add: table_Next_def)
  then show ?case using 0 by (simp add: clone_loop.simps [of H t i])
next
  case (Suc n)
  then have i: "i < length (nodes t)" and n: "n = length (nodes t) - Suc i" by simp_all
  have d: "drop i (nodes t) = nodes t ! i # drop (Suc i) (nodes t)" using i by (simp add: Cons_nth_drop_Suc)
  have IH: "clone_loop H t (Suc i) = reinsert (NewSlot H) (drop (Suc i) (nodes t))"
    using Suc.hyps(1) [OF n] i by (intro ext) simp
  show ?case
  proof (cases "is_null (nkey (nodes t ! i))")
    case True
    have "clone_loop H t i nt = clone_loop H t (Suc i) nt"
      unfolding clone_loop.simps [of H t i] clone_loop.simps [of H t "Suc i"] table_Next_skip [OF i True] by simp
    then show ?thesis using IH d True by simp
  next
    case False
    then show ?thesis using IH d table_Next_here [OF i False] by (simp add: clone_loop.simps [of H t i])
  qed
qed

lemma clone_run:
  assumes "table_ok H t" "length (nodes t) < 2 ^ 62"
  shows "\<exists>u. table_Clone H t = Some (Inr u) \<and> table_ok H u \<and> length (nodes u) = length (nodes t) \<and>
     table_map (nodes u) = table_map (nodes t) \<and> delegate u = delegate t"
proof -
  let ?L = "length (nodes t)"
  let ?n = "table_create ?L"
  obtain j where j: "2 \<le> j" "?L = 2 ^ j" using assms(1) by (auto simp: table_ok_def)
  have L: "length (nodes ?n) = ?L" using create_ok(5) [OF j(1)] j(2) by simp
  have dist: "key_distinct (nodes t)" using assms(1) chains_distinct unfolding table_ok_def by blast
  have "used (nodes t) \<subseteq> {..< ?L} - {firstfree t}" using assms(1) by (auto simp: used_def table_ok_def)
  then have "card (used (nodes t)) \<le> card ({..< ?L} - {firstfree t})" by (intro card_mono) simp_all
  moreover have "firstfree t < ?L" using assms(1) chains_okD(1) by (fastforce simp: table_ok_def table_chains_def)
  ultimately have room: "card (dom (table_map (nodes t))) < ?L" using card_used(1) [OF dist] by simp
  have "\<exists>u. reinsert (NewSlot_depth (Suc (Suc 0)) H) (nodes t) ?n = Some (Inr u) \<and> table_ok H u \<and> no_gaps u \<and>
     length (nodes u) = length (nodes ?n) \<and> table_map (nodes u) = table_map (nodes ?n) ++ table_map (nodes t) \<and> delegate u = delegate ?n"
    by (rule reinsert_run [OF create_ok(1,2) _ dist]) (use L room assms(2) in \<open>simp_all add: create_ok(3)\<close>)
  then obtain u where u: "clone_loop H t 0 ?n = Some (Inr u)" "table_ok H u" "length (nodes u) = ?L"
    "table_map (nodes u) = table_map (nodes t)"
    using clone_loop_reinsert [of 0 t H ?n] L by (auto simp: create_ok(3) NewSlot_def numeral_2_eq_2)
  then show ?thesis by (auto simp: table_Clone_def table_ok_def)
qed

section \<open>Properties\<close>

text \<open>C10: over any run of operations on a new table, inserting and rehashing always end, no assertion fails,
  and the table implements a map: looking a key up gives what was stored under it last, and the count of used
  nodes is the number of keys.\<close>

theorem table_run_refines:
  assumes "n < 2 ^ 60" "length ps < 2 ^ 59" "\<forall>p \<in> set ps. op_key p"
  shows "\<exists>t. run_ops H ps (table_create n) = Some (Inr t) \<and>
     (let m = foldl (\<lambda>m p. op_on_map p m) Map.empty ps in
        (\<forall>k. table_Get H t k = Some (if is_null k then None else map_option (realval H) (m k))) \<and>
        usednodes t = int (card (dom m)))"
proof -
  have "max 4 (2 * n) < 2 ^ 62" "0 + length ps < 2 ^ 60" using assms(1,2) by simp_all
  then obtain t where t: "run_ops H ps (table_create n) = Some (Inr t)" "table_ok H t" "length (nodes t) < 2 ^ 62"
    "table_map (nodes t) = foldl (\<lambda>m p. op_on_map p m) Map.empty ps"
    using run_ops_ok [OF create_ok(1), of n 0 "max 4 (2 * n)" ps H] create_ok(3,4) [of n] assms(3) by auto
  have "length (nodes t) < 2 ^ 63" using t(3) by simp
  then show ?thesis using t table_Get_map [OF t(2)] by (simp add: table_ok_def)
qed

text \<open>a copy of a table is filled without ever being rehashed: it holds the same map in as many places, and
  it can be used like any other table.\<close>

theorem table_clone_correct:
  assumes "table_ok H t" "length (nodes t) < 2 ^ 62"
  shows "\<exists>u. table_Clone H t = Some (Inr u) \<and> table_ok H u \<and> length (nodes u) = length (nodes t) \<and>
     (\<forall>k. table_Get H u k = table_Get H t k) \<and> delegate u = delegate t"
proof -
  obtain u where u: "table_Clone H t = Some (Inr u)" "table_ok H u" "length (nodes u) = length (nodes t)"
    "table_map (nodes u) = table_map (nodes t)" "delegate u = delegate t" using clone_run [OF assms] by blast
  have "length (nodes u) < 2 ^ 63" "length (nodes t) < 2 ^ 63" using u(3) assms(2) by simp_all
  then have "table_Get H u k = table_Get H t k" for k using table_Get_map u(2,4) assms(1) by simp
  then show ?thesis using u by blast
qed

text \<open>a search by characters finds what a search with the string itself finds, when equal strings are one
  object that holds its own hash value.\<close>

theorem get_str_is_get:
  assumes "table_ok H t" "length (nodes t) < 2 ^ 63" "o_type ob = OT_STRING" "str_val H (o_raw ob) = s" "str_hash H (o_raw ob) = hashstr s"
    and "\<forall>i < length (nodes t). o_type (nkey (nodes t ! i)) = OT_STRING \<and> str_val H (o_raw (nkey (nodes t ! i))) = s \<longrightarrow> nkey (nodes t ! i) = ob"
  shows "table_GetStr H t s = table_Get H t ob"
proof -
  let ?ns = "nodes t"
  have ch: "chains_ok (length ?ns) (main_place H (length ?ns)) (keys ?ns) (nexts ?ns) (firstfree t)"
    using assms(1) by (simp add: table_ok_def table_chains_def)
  have same: "get_str_node H ?ns s i = get_node ?ns ob i" if "i < length ?ns" for i
    using that
  proof (induction i rule: wf_induct_rule [OF chains_wf [OF ch]])
    case (1 i)
    have here: "o_type (nkey (?ns ! i)) = OT_STRING \<and> str_val H (o_raw (nkey (?ns ! i))) = s \<longleftrightarrow> nkey (?ns ! i) = ob"
      using assms(3,4,6) 1(2) by auto
    have there: "get_str_node H ?ns s j = get_node ?ns ob j" if "nnext (?ns ! i) = Some j" for j
    proof -
      have "(i, j) \<in> links (length ?ns) (nexts ?ns)" using that 1(2) by (simp add: links_def)
      then show ?thesis using 1(1) chains_okD(3) [OF ch] by simp
    qed
    show ?case
      unfolding get_str_node.simps [of H ?ns s i] get_node.simps [of ?ns ob i] here
      using there by (auto split: option.splits)
  qed
  have "unat (hashstr s AND (of_nat (length ?ns) - 1)) = key_place H t ob"
    using assms(3,5) by (simp add: main_place_def HashObj_def)
  moreover have "key_place H t ob < length ?ns" using main_place_less [of "length ?ns" H ob] table_ok_length [OF assms(1)] assms(2) by force
  moreover have "\<not> is_null ob" using assms(3) by (simp add: is_null_def)
  ultimately show ?thesis using same by (simp add: table_GetStr_def table_Get_def)
qed

text \<open>storing under the null key, which no table can hold, is accepted by every table whose first place
  has no key: the value goes into a free node, and looking it up again does not find it.\<close>

theorem set_null_accepted:
  assumes "nkey (nodes t ! 0) = null_object" "nodes t \<noteq> []"
  shows "\<exists>u. table_Set H t null_object v = Some (True, u) \<and> nval (nodes u ! 0) = v \<and> table_Get H u null_object = Some None"
proof -
  have "key_place H t null_object = 0"
    by (simp add: main_place_def HashObj_def hashptr_def null_object_def)
  then have "get_node (nodes t) null_object (key_place H t null_object) = Some (Some 0)"
    using assms(1) by (simp add: get_node.simps)
  then show ?thesis using assms(2) by (simp add: table_Set_def table_Get_def)
qed

section \<open>Witnesses\<close>

definition example_heap :: sqheap where
  "example_heap = \<lparr>str_hash = (\<lambda>p. p), str_val = (\<lambda>_. []), weak_obj = (\<lambda>_. null_object)\<rparr>"

definition int_object :: "u64 \<Rightarrow> sqobject" where
  "int_object n = \<lparr>o_type = OT_INTEGER, o_raw = n\<rparr>"

lemma int_object_not_null [simp]: "\<not> is_null (int_object n)"
  by (simp add: is_null_def int_object_def)

theorem table_run_refines_witness:
  "\<exists>t. run_ops example_heap [Slot (int_object 4) (int_object 1), Slot (int_object 8) (int_object 2), Delete (int_object 4)] (table_create 0) = Some (Inr t) \<and>
     table_Get example_heap t (int_object 8) = Some (Some (int_object 2)) \<and> table_Get example_heap t (int_object 4) = Some None \<and> usednodes t = 1"
proof -
  have ne: "int_object 4 \<noteq> int_object 8" by (simp add: int_object_def)
  have rv: "realval example_heap (int_object 2) = int_object 2" by (simp add: realval_def int_object_def)
  let ?ps = "[Slot (int_object 4) (int_object 1), Slot (int_object 8) (int_object 2), Delete (int_object 4)]"
  have "foldl (\<lambda>m p. op_on_map p m) Map.empty ?ps = [int_object 8 \<mapsto> int_object 2]" using ne by (auto simp: fun_eq_iff)
  then show ?thesis using table_run_refines [of 0 ?ps example_heap] ne rv by (auto simp: Let_def)
qed

theorem table_clone_correct_witness:
  "\<exists>u. table_Clone example_heap (table_create 4) = Some (Inr u) \<and> table_Get example_heap u (int_object 1) = Some None"
proof -
  have len: "length (nodes (table_create 4)) = 4" using create_ok(5) [of 2] by simp
  have "table_Get example_heap (table_create 4) (int_object 1) = Some None"
    using table_Get_map [OF create_ok(1) [of example_heap 4], of "int_object 1"] len by (simp add: create_ok(3))
  then show ?thesis using table_clone_correct [OF create_ok(1) [of example_heap 4]] len by auto
qed

theorem get_str_is_get_witness:
  "table_GetStr (example_heap\<lparr>str_hash := (\<lambda>_. hashstr ''while''), str_val := (\<lambda>_. ''while'')\<rparr>) (table_create 4) ''while'' =
    table_Get (example_heap\<lparr>str_hash := (\<lambda>_. hashstr ''while''), str_val := (\<lambda>_. ''while'')\<rparr>) (table_create 4) \<lparr>o_type = OT_STRING, o_raw = 16\<rparr>"
proof (rule get_str_is_get)
  have len: "length (nodes (table_create 4)) = 4" using create_ok(5) [of 2] by simp
  then show "length (nodes (table_create 4)) < 2 ^ 63" by simp
  show "table_ok (example_heap\<lparr>str_hash := (\<lambda>_. hashstr ''while''), str_val := (\<lambda>_. ''while'')\<rparr>) (table_create 4)" by (rule create_ok(1))
  have "nkey (nodes (table_create 4) ! i) = null_object" if "i < 4" for i
    using that len by (simp add: table_create_def AllocNodes_def empty_node_def)
  then show "\<forall>i < length (nodes (table_create 4)). o_type (nkey (nodes (table_create 4) ! i)) = OT_STRING \<and>
      str_val (example_heap\<lparr>str_hash := (\<lambda>_. hashstr ''while''), str_val := (\<lambda>_. ''while'')\<rparr>) (o_raw (nkey (nodes (table_create 4) ! i))) = ''while'' \<longrightarrow>
      nkey (nodes (table_create 4) ! i) = \<lparr>o_type = OT_STRING, o_raw = 16\<rparr>"
    using len by (simp add: null_object_def)
qed simp_all

theorem set_null_accepted_witness:
  "\<exists>u. table_Set example_heap (table_create 4) null_object (int_object 7) = Some (True, u) \<and>
     table_Get example_heap u null_object = Some None"
proof -
  have len: "length (nodes (table_create 4)) = 4" using create_ok(5) [of 2] by simp
  have "nkey (nodes (table_create 4) ! 0) = null_object" using len
    by (simp add: table_create_def AllocNodes_def empty_node_def)
  then show ?thesis using set_null_accepted [of "table_create 4" example_heap "int_object 7"] len by fastforce
qed

text \<open>A slot that is new is reported as an old one when the table was rehashed for it.\<close>

lemma new_slot_misreported:
  "(case run_ops example_heap [Slot (int_object 0) null_object, Slot (int_object 1) null_object, Slot (int_object 2) null_object]
       (table_create 0) of
      Some (Inr t) \<Rightarrow> table_Get example_heap t (int_object 3) = Some None \<and>
        map_option (map_sum id fst) (NewSlot example_heap t (int_object 3) (int_object 9)) = Some (Inr False)
    | _ \<Rightarrow> False)"
  by code_simp

end
