(* ===== verification/Pointer_Chains.thy ===== *)
theory Pointer_Chains
  imports Prelude
begin

text \<open>
  Chains of nodes that end in a null pointer, as the buckets of the runtime's hash tables are: the
  list of the nodes on a chain, and what taking a node out of it or putting one in front does.
\<close>

fun chain :: "('a \<Rightarrow> 'a option) \<Rightarrow> 'a option \<Rightarrow> 'a list \<Rightarrow> bool" where
  "chain nx p [] \<longleftrightarrow> p = None"
| "chain nx p (x # xs) \<longleftrightarrow> p = Some x \<and> chain nx (nx x) xs"

lemma chain_frame: "\<forall>x \<in> set xs. nx' x = nx x \<Longrightarrow> chain nx' p xs \<longleftrightarrow> chain nx p xs"
  by (induction xs arbitrary: p) auto

lemma chain_None [simp]: "chain nx None xs \<longleftrightarrow> xs = []"
  by (cases xs) auto

lemma chain_Some: "chain nx (Some x) xs \<longleftrightarrow> (\<exists>ys. xs = x # ys \<and> chain nx (nx x) ys)"
  by (cases xs) auto

lemma chain_unique: "chain nx p xs \<Longrightarrow> chain nx p ys \<Longrightarrow> xs = ys"
proof (induction xs arbitrary: p ys)
  case (Cons x xs)
  then show ?case by (cases ys) auto
qed simp

text \<open>A segment of a chain, up to a pointer that need not be null.\<close>

fun segment :: "('a \<Rightarrow> 'a option) \<Rightarrow> 'a option \<Rightarrow> 'a list \<Rightarrow> 'a option \<Rightarrow> bool" where
  "segment nx p [] q \<longleftrightarrow> p = q"
| "segment nx p (x # xs) q \<longleftrightarrow> p = Some x \<and> segment nx (nx x) xs q"

lemma chain_append: "chain nx p (xs @ ys) \<longleftrightarrow> (\<exists>q. segment nx p xs q \<and> chain nx q ys)"
  by (induction xs arbitrary: p) auto

lemma segment_frame: "\<forall>x \<in> set xs. nx' x = nx x \<Longrightarrow> segment nx' p xs q \<longleftrightarrow> segment nx p xs q"
  by (induction xs arbitrary: p) auto

lemma segment_append: "segment nx p (xs @ ys) q \<longleftrightarrow> (\<exists>r. segment nx p xs r \<and> segment nx r ys q)"
  by (induction xs arbitrary: p) auto

text \<open>Taking out the node behind another one.\<close>

lemma chain_unlink:
  assumes "chain nx p (xs @ [z] @ y # ys)" "distinct (xs @ [z] @ y # ys)"
  shows "chain (nx(z := nx y)) p (xs @ [z] @ ys)"
proof -
  have s: "segment nx p xs (Some z)" "nx z = Some y" "chain nx (nx y) ys"
    using assms(1) by (auto simp: chain_append)
  have "segment (nx(z := nx y)) p xs (Some z)" "chain (nx(z := nx y)) (nx y) ys"
    using s assms(2) segment_frame [of xs "nx(z := nx y)" nx] chain_frame [of ys "nx(z := nx y)" nx] by auto
  then show ?thesis by (auto simp: chain_append)
qed

lemma chain_push: "chain nx p xs \<Longrightarrow> a \<notin> set xs \<Longrightarrow> chain (nx(a := p)) (Some a) (a # xs)"
  using chain_frame [of xs "nx(a := p)" nx p] by auto

section \<open>Buckets\<close>

text \<open>
  An array of chains, each node on the chain of its place; \<open>B h\<close> is the list of the nodes on chain \<open>h\<close>.
\<close>

definition in_buckets :: "('a \<Rightarrow> 'a option) \<Rightarrow> ('a \<Rightarrow> nat) \<Rightarrow> 'a option list \<Rightarrow> (nat \<Rightarrow> 'a list) \<Rightarrow> bool" where
  "in_buckets nx pl ss B \<longleftrightarrow>
     (\<forall>h < length ss. chain nx (ss ! h) (B h) \<and> distinct (B h) \<and> (\<forall>a \<in> set (B h). pl a = h))"

definition bucket_members :: "nat \<Rightarrow> (nat \<Rightarrow> 'a list) \<Rightarrow> 'a set" where
  "bucket_members n B = (\<Union>h < n. set (B h))"

lemma finite_members [simp]: "finite (bucket_members n B)"
  by (simp add: bucket_members_def)

lemma members_at:
  assumes "in_buckets nx pl ss B"
  shows "a \<in> set (B h) \<Longrightarrow> h < length ss \<Longrightarrow> a \<in> bucket_members (length ss) B"
    "a \<in> bucket_members (length ss) B \<Longrightarrow> a \<in> set (B (pl a)) \<and> pl a < length ss"
  using assms by (auto simp: bucket_members_def in_buckets_def)

lemma buckets_disjoint:
  assumes "in_buckets nx pl ss B" "i < length ss" "h < length ss" "i \<noteq> h"
  shows "set (B i) \<inter> set (B h) = {}"
proof -
  have at: "\<forall>a \<in> set (B j). pl a = j" if "j < length ss" for j using assms(1) that by (simp add: in_buckets_def)
  show ?thesis using at [OF assms(2)] at [OF assms(3)] assms(4) by auto
qed

lemma no_buckets: "in_buckets nx pl (replicate n None) (\<lambda>_. [])" "bucket_members n (\<lambda>_. []) = {}"
  by (simp_all add: in_buckets_def bucket_members_def)

text \<open>Putting a node in front of the chain of its place.\<close>

lemma buckets_push:
  assumes "in_buckets nx pl ss B" "h < length ss" "a \<notin> bucket_members (length ss) B"
    and "nx' = nx(a := ss ! h)" "pl' a = h" "\<forall>b \<in> bucket_members (length ss) B. pl' b = pl b"
  shows "in_buckets nx' pl' (ss[h := Some a]) (B(h := a # B h))"
    "bucket_members (length ss) (B(h := a # B h)) = insert a (bucket_members (length ss) B)"
proof -
  have no: "a \<notin> set (B i)" if "i < length ss" for i using assms(3) that by (auto simp: bucket_members_def)
  show "in_buckets nx' pl' (ss[h := Some a]) (B(h := a # B h))"
    unfolding in_buckets_def
  proof (intro allI impI)
    fix i assume "i < length (ss[h := Some a])"
    then have i: "i < length ss" by simp
    have old: "chain nx (ss ! i) (B i)" "distinct (B i)" "\<forall>b \<in> set (B i). pl b = i"
      using assms(1) i by (simp_all add: in_buckets_def)
    have pl: "\<forall>b \<in> set (B i). pl' b = i" using old(3) assms(6) i by (auto simp: bucket_members_def)
    have fr: "chain nx' (ss ! i) (B i)" using old(1) no [OF i] chain_frame [of "B i" nx' nx] assms(4) by auto
    show "chain nx' (ss[h := Some a] ! i) ((B(h := a # B h)) i) \<and> distinct ((B(h := a # B h)) i) \<and>
        (\<forall>b \<in> set ((B(h := a # B h)) i). pl' b = i)"
    proof (cases "i = h")
      case True
      then have "chain nx' (Some a) (a # B h)" using chain_push [of nx "ss ! h" "B h" a] old(1) no [OF i] assms(4) by simp
      then show ?thesis using True old(2) pl no [OF i] assms(2,5) by auto
    next
      case False
      then show ?thesis using fr old(2) pl by simp
    qed
  qed
  show "bucket_members (length ss) (B(h := a # B h)) = insert a (bucket_members (length ss) B)"
    using assms(2) by (auto simp: bucket_members_def split: if_splits)
qed

text \<open>Taking a node off its chain: the pointer to it is the one of the node before it, or the bucket's.\<close>

lemma members_unlink:
  assumes "in_buckets nx pl ss B" "h < length ss" "B h = ys @ b # zs"
  shows "bucket_members (length ss) (B(h := ys @ zs)) = bucket_members (length ss) B - {b}"
proof -
  let ?n = "length ss"
  have "distinct (B h)" using assms(1,2) by (simp add: in_buckets_def)
  then have b: "b \<notin> set ys \<union> set zs" "set (B h) = insert b (set ys \<union> set zs)" using assms(3) by auto
  have other: "i < ?n \<Longrightarrow> i \<noteq> h \<Longrightarrow> set (B i) \<inter> set (B h) = {}" for i by (rule buckets_disjoint [OF assms(1) _ assms(2)])
  have "x \<in> bucket_members ?n (B(h := ys @ zs)) \<longleftrightarrow> x \<in> bucket_members ?n B - {b}" for x
  proof -
    consider (here) "x \<in> set (B h)" | (there) i where "i < ?n" "i \<noteq> h" "x \<in> set (B i)" | (absent) "\<forall>i < ?n. x \<notin> set (B i)"
      by blast
    then show ?thesis
    proof cases
      case here
      then have "\<forall>i < ?n. i \<noteq> h \<longrightarrow> x \<notin> set (B i)" using other by blast
      then show ?thesis using here assms(2) b by (auto simp: bucket_members_def)
    next
      case there
      then have "x \<notin> set (B h)" using other by blast
      then show ?thesis using there b by (auto simp: bucket_members_def)
    next
      case absent
      then have "x \<notin> set (B h)" using assms(2) by blast
      then show ?thesis using absent b by (auto simp: bucket_members_def)
    qed
  qed
  then show ?thesis by blast
qed

lemma buckets_unlink:
  assumes "in_buckets nx pl ss B" "h < length ss" "B h = ys @ b # zs" "length ss' = length ss"
    and "ys = [] \<Longrightarrow> ss' = ss[h := nx b] \<and> (\<forall>a \<in> bucket_members (length ss) B - {b}. nx' a = nx a)"
    and "ys \<noteq> [] \<Longrightarrow> ss' = ss \<and> nx' (List.last ys) = nx b \<and> (\<forall>a \<in> bucket_members (length ss) B - {b, List.last ys}. nx' a = nx a)"
    and "\<forall>a \<in> bucket_members (length ss) B - {b}. pl' a = pl a"
  shows "in_buckets nx' pl' ss' (B(h := ys @ zs))"
  unfolding in_buckets_def
proof (intro allI impI)
  fix i assume "i < length ss'"
  then have i: "i < length ss" using assms(4) by simp
  have at: "chain nx (ss ! j) (B j)" "distinct (B j)" "\<forall>a \<in> set (B j). pl a = j" "set (B j) \<subseteq> bucket_members (length ss) B"
    if "j < length ss" for j using assms(1) that by (auto simp: in_buckets_def bucket_members_def)
  have d: "distinct (ys @ b # zs)" using at(2) [OF assms(2)] assms(3) by simp
  have sub: "set (ys @ zs) \<subseteq> bucket_members (length ss) B - {b}" using at(4) [OF assms(2)] d assms(3) by auto
  show "chain nx' (ss' ! i) ((B(h := ys @ zs)) i) \<and> distinct ((B(h := ys @ zs)) i) \<and> (\<forall>a \<in> set ((B(h := ys @ zs)) i). pl' a = i)"
  proof (cases "i = h")
    case True
    have "chain nx' (ss' ! h) (ys @ zs)"
    proof (cases ys rule: rev_cases)
      case Nil
      have "\<forall>a \<in> set zs. nx' a = nx a" using assms(5) Nil sub by auto
      then show ?thesis using at(1) [OF assms(2)] assms(2,3,5) Nil chain_frame [of zs nx' nx] by simp
    next
      case (snoc xs z)
      have "chain (nx(z := nx b)) (ss ! h) (xs @ [z] @ zs)"
        using chain_unlink [of nx "ss ! h" xs z b zs] at(1) [OF assms(2)] d assms(3) snoc by simp
      moreover have "\<forall>a \<in> set (xs @ [z] @ zs). nx' a = (nx(z := nx b)) a" using assms(6) snoc sub d by auto
      ultimately show ?thesis using chain_frame [of "xs @ [z] @ zs" nx' "nx(z := nx b)"] assms(6) snoc by simp
    qed
    moreover have "pl' a = h" if "a \<in> set (ys @ zs)" for a
    proof -
      have "pl' a = pl a" using sub assms(7) that by blast
      then show ?thesis using at(3) [OF assms(2)] that assms(3) by auto
    qed
    ultimately show ?thesis using True d by simp
  next
    case False
    have dj: "set (B i) \<inter> set (B h) = {}" by (rule buckets_disjoint [OF assms(1) i assms(2) False])
    have l: "ys \<noteq> [] \<Longrightarrow> List.last ys \<in> set (B h)" "b \<in> set (B h)" using assms(3) by auto
    have "nx' a = nx a" if "a \<in> set (B i)" for a
    proof (cases "ys = []")
      case True
      then show ?thesis using assms(5) that dj l at(4) [OF i] by blast
    next
      case False
      then show ?thesis using assms(6) that dj l at(4) [OF i] by blast
    qed
    then have "chain nx' (ss ! i) (B i)" using at(1) [OF i] chain_frame [of "B i" nx' nx] by blast
    moreover have "ss' ! i = ss ! i" using assms(5,6) False by (cases "ys = []") auto
    moreover have "pl' a = i" if "a \<in> set (B i)" for a
    proof -
      have "pl' a = pl a" using at(4) [OF i] assms(7) dj l(2) that by blast
      then show ?thesis using at(3) [OF i] that by simp
    qed
    ultimately show ?thesis using False at(2) [OF i] by simp
  qed
qed

text \<open>All chains, one behind the other.\<close>

lemma buckets_concat:
  assumes "in_buckets nx pl ss B" "k \<le> length ss"
  shows "distinct (concat (map B [0 ..< k]))" "set (concat (map B [0 ..< k])) = bucket_members k B"
proof -
  have set: "set (concat (map B [0 ..< k])) = bucket_members k B" for k by (auto simp: bucket_members_def)
  show "set (concat (map B [0 ..< k])) = bucket_members k B" by (rule set)
  show "distinct (concat (map B [0 ..< k]))"
    using assms(2)
  proof (induction k)
    case (Suc k)
    have "set (B k) \<inter> bucket_members k B = {}"
    proof (rule ccontr)
      assume "set (B k) \<inter> bucket_members k B \<noteq> {}"
      then obtain b i where "b \<in> set (B k)" "i < k" "b \<in> set (B i)" by (auto simp: bucket_members_def)
      then show False using buckets_disjoint [OF assms(1), of i k] Suc.prems by auto
    qed
    moreover have "distinct (B k)" using assms(1) Suc.prems by (simp add: in_buckets_def)
    moreover have "concat (map B [0 ..< Suc k]) = concat (map B [0 ..< k]) @ B k" by simp
    ultimately show ?case using Suc set [of k] by (simp only: distinct_append) auto
  qed simp
qed

end
