(* ===== verification/Sq_Strings.thy ===== *)
theory Sq_Strings
  imports Sq_Object Pointer_Chains
begin

text \<open>
  The table of strings of the runtime (\<open>SQStringTable\<close> of \<open>squirrel/squirrel/sqstate.cpp\<close>): equal
  strings are one object, so that comparing pointers compares strings. Where a new string is
  allocated is an argument.
\<close>

section \<open>The table\<close>

record sqstring =
  s_val :: string
  s_len :: nat
  s_hash :: u64
  s_next :: "nat option"

record string_table =
  strings :: "nat option list"
  slotused :: nat
  store :: "nat \<Rightarrow> sqstring"

definition strings_AllocNodes :: "nat \<Rightarrow> string_table \<Rightarrow> string_table" where
  "strings_AllocNodes n t = t\<lparr>strings := replicate n None\<rparr>"

definition SQStringTable :: "(nat \<Rightarrow> sqstring) \<Rightarrow> string_table" where
  "SQStringTable mem = strings_AllocNodes 4 \<lparr>strings = [], slotused = 0, store = mem\<rparr>"

text \<open>The slot of a hash value.\<close>

definition slot :: "nat \<Rightarrow> u64 \<Rightarrow> nat" where
  "slot n h = unat (h AND (of_nat n - 1))"

partial_function (option) find_string :: "(nat \<Rightarrow> sqstring) \<Rightarrow> string \<Rightarrow> nat option \<Rightarrow> nat option option" where
  "find_string mem news s =
     (case s of
        None \<Rightarrow> Some None
      | Some a \<Rightarrow>
          if s_len (mem a) = length news \<and> take (length news) (s_val (mem a)) = news then Some (Some a)
          else find_string mem news (s_next (mem a)))"

text \<open>Resizing links every string into its new slot.\<close>

partial_function (option) move_chain :: "(nat \<Rightarrow> sqstring) \<Rightarrow> nat option list \<Rightarrow> nat option \<Rightarrow> ((nat \<Rightarrow> sqstring) \<times> nat option list) option" where
  "move_chain mem ss p =
     (case p of
        None \<Rightarrow> Some (mem, ss)
      | Some a \<Rightarrow>
          let nx = s_next (mem a); h = slot (length ss) (s_hash (mem a))
          in move_chain (mem(a := (mem a)\<lparr>s_next := ss ! h\<rparr>)) (ss[h := Some a]) nx)"

fun move_chains :: "(nat \<Rightarrow> sqstring) \<Rightarrow> nat option list \<Rightarrow> nat option list \<Rightarrow> ((nat \<Rightarrow> sqstring) \<times> nat option list) option" where
  "move_chains mem ss [] = Some (mem, ss)"
| "move_chains mem ss (p # ps) =
     (case move_chain mem ss p of None \<Rightarrow> None | Some (mem', ss') \<Rightarrow> move_chains mem' ss' ps)"

definition strings_Resize :: "nat \<Rightarrow> string_table \<Rightarrow> string_table option" where
  "strings_Resize n t =
     map_option (\<lambda>(mem, ss). t\<lparr>store := mem, strings := ss\<rparr>)
       (move_chains (store t) (strings (strings_AllocNodes n t)) (strings t))"

definition strings_Add :: "string \<Rightarrow> nat \<Rightarrow> string_table \<Rightarrow> (nat \<times> string_table) option" where
  "strings_Add news a t =
     (let newhash = hashstr news; h = slot (length (strings t)) newhash in
      case find_string (store t) news (strings t ! h) of
        None \<Rightarrow> None
      | Some (Some s) \<Rightarrow> Some (s, t)
      | Some None \<Rightarrow>
          let t1 = t\<lparr>store := (store t)(a := \<lparr>s_val = news, s_len = length news, s_hash = newhash, s_next = strings t ! h\<rparr>),
                strings := (strings t)[h := Some a], slotused := slotused t + 1\<rparr>
          in if length (strings t1) < slotused t1
             then map_option (Pair a) (strings_Resize (length (strings t1) * 2) t1)
             else Some (a, t1))"

text \<open>Removing a string that has no references left; it must be there.\<close>

definition unlink_string :: "nat \<Rightarrow> nat option \<Rightarrow> nat \<Rightarrow> string_table \<Rightarrow> string_table" where
  "unlink_string h prev a t =
     (let t1 = (case prev of
          Some p \<Rightarrow> t\<lparr>store := (store t)(p := (store t p)\<lparr>s_next := s_next (store t a)\<rparr>)\<rparr>
        | None \<Rightarrow> t\<lparr>strings := (strings t)[h := s_next (store t a)]\<rparr>)
      in t1\<lparr>slotused := slotused t1 - 1\<rparr>)"

partial_function (option) remove_string :: "string_table \<Rightarrow> nat \<Rightarrow> nat \<Rightarrow> nat option \<Rightarrow> nat option \<Rightarrow> string_table res option" where
  "remove_string t h bs prev s =
     (case s of
        None \<Rightarrow> Some (Inl (Undefined ''assert(0)''))
      | Some a \<Rightarrow>
          if a = bs then Some (Inr (unlink_string h prev a t))
          else remove_string t h bs s (s_next (store t a)))"

definition strings_Remove :: "nat \<Rightarrow> string_table \<Rightarrow> string_table res option" where
  "strings_Remove bs t =
     (let h = slot (length (strings t)) (s_hash (store t bs))
      in remove_string t h bs None (strings t ! h))"

declare find_string.simps [code] move_chain.simps [code] remove_string.simps [code]

section \<open>What a table holds\<close>

text \<open>The strings of every slot.\<close>

abbreviation follow :: "(nat \<Rightarrow> sqstring) \<Rightarrow> nat \<Rightarrow> nat option" where
  "follow mem \<equiv> \<lambda>a. s_next (mem a)"

abbreviation slots_ok :: "(nat \<Rightarrow> sqstring) \<Rightarrow> nat option list \<Rightarrow> (nat \<Rightarrow> nat list) \<Rightarrow> bool" where
  "slots_ok mem ss B \<equiv> in_buckets (follow mem) (\<lambda>a. slot (length ss) (s_hash (mem a))) ss B"

definition interned :: "(nat \<Rightarrow> sqstring) \<Rightarrow> nat set \<Rightarrow> bool" where
  "interned mem A \<longleftrightarrow>
     (\<forall>a \<in> A. s_len (mem a) = length (s_val (mem a)) \<and> s_hash (mem a) = hashstr (s_val (mem a))) \<and>
     inj_on (\<lambda>a. s_val (mem a)) A"

definition table_rel :: "string_table \<Rightarrow> (nat \<Rightarrow> nat list) \<Rightarrow> bool" where
  "table_rel t B \<longleftrightarrow>
     slots_ok (store t) (strings t) B \<and> interned (store t) (bucket_members (length (strings t)) B) \<and>
     slotused t = card (bucket_members (length (strings t)) B) \<and> 0 < length (strings t)"

text \<open>The map from contents to strings, by the search the code makes.\<close>

definition string_map :: "string_table \<Rightarrow> string \<rightharpoonup> nat" where
  "string_map t s =
     (case find_string (store t) s (strings t ! slot (length (strings t)) (hashstr s)) of Some r \<Rightarrow> r | None \<Rightarrow> None)"

lemma slot_less: "0 < n \<Longrightarrow> n < 2 ^ 63 \<Longrightarrow> slot n h < n"
  using main_place_less [of n "\<lparr>str_hash = (\<lambda>_. h), str_val = (\<lambda>_. []), weak_obj = (\<lambda>_. null_object)\<rparr>" "\<lparr>o_type = OT_STRING, o_raw = 0\<rparr>"]
  by (simp add: main_place_def slot_def HashObj_def)

lemma find_string_run:
  assumes "chain (follow mem) p xs" "\<forall>a \<in> set xs. s_len (mem a) = length (s_val (mem a))" "inj_on (\<lambda>a. s_val (mem a)) (set xs)"
  shows "a \<in> set xs \<Longrightarrow> s_val (mem a) = s \<Longrightarrow> find_string mem s p = Some (Some a)"
    "\<forall>a \<in> set xs. s_val (mem a) \<noteq> s \<Longrightarrow> find_string mem s p = Some None"
  using assms
proof (induction xs arbitrary: p)
  case Nil
  {
    case 1
    then show ?case by simp
  next
    case 2
    then show ?case by (simp add: find_string.simps)
  }
next
  case (Cons x xs)
  have eq: "(s_len (mem x) = length s \<and> take (length s) (s_val (mem x)) = s) \<longleftrightarrow> s_val (mem x) = s"
    if "s_len (mem x) = length (s_val (mem x))" using that by auto
  {
    case 1
    then have x: "p = Some x" "chain (follow mem) (s_next (mem x)) xs" "s_len (mem x) = length (s_val (mem x))" by simp_all
    show ?case
    proof (cases "s_val (mem x) = s")
      case True
      then have "a = x" using 1(1,2,5) by (auto simp: inj_on_def)
      then show ?thesis using x(1) eq [OF x(3)] True by (auto simp: find_string.simps [of mem s "Some x"])
    next
      case False
      then have "a \<in> set xs" using 1(1,2) by auto
      then have "find_string mem s (s_next (mem x)) = Some (Some a)" using Cons.IH(1) [OF _ 1(2) x(2)] 1(4,5) by simp
      then show ?thesis using x(1) eq [OF x(3)] False by (auto simp: find_string.simps [of mem s "Some x"])
    qed
  next
    case 2
    then have x: "p = Some x" "chain (follow mem) (s_next (mem x)) xs" "s_len (mem x) = length (s_val (mem x))" by simp_all
    have "find_string mem s (s_next (mem x)) = Some None" using Cons.IH(2) [OF _ x(2)] 2(1,3,4) by simp
    then show ?case using x(1) eq [OF x(3)] 2(1) by (auto simp: find_string.simps [of mem s "Some x"])
  }
qed

text \<open>The search finds a string in the slot of its hash value, and there is only one.\<close>

lemma string_map_iff:
  assumes "table_rel t B" "length (strings t) < 2 ^ 63"
  shows "string_map t s = Some a \<longleftrightarrow> a \<in> bucket_members (length (strings t)) B \<and> s_val (store t a) = s"
    "find_string (store t) s (strings t ! slot (length (strings t)) (hashstr s)) = Some (string_map t s)"
proof -
  let ?n = "length (strings t)" and ?mem = "store t" and ?h = "slot (length (strings t)) (hashstr s)"
  have h: "?h < ?n" using slot_less assms by (simp add: table_rel_def)
  have so: "slots_ok ?mem (strings t) B" and it: "interned ?mem (bucket_members ?n B)" using assms(1) by (simp_all add: table_rel_def)
  have sub: "set (B ?h) \<subseteq> bucket_members ?n B" using h by (auto simp: bucket_members_def)
  have c: "chain (follow ?mem) (strings t ! ?h) (B ?h)" using so h by (simp add: in_buckets_def)
  have l: "\<forall>a \<in> set (B ?h). s_len (?mem a) = length (s_val (?mem a))" using it sub by (auto simp: interned_def)
  have i: "inj_on (\<lambda>a. s_val (?mem a)) (set (B ?h))" using it sub by (auto simp: interned_def intro: inj_on_subset)
  have here: "a \<in> set (B ?h)" if "a \<in> bucket_members ?n B" "s_val (?mem a) = s" for a
    using that it so by (auto simp: bucket_members_def interned_def in_buckets_def)
  note run = find_string_run [OF c l i]
  show "string_map t s = Some a \<longleftrightarrow> a \<in> bucket_members ?n B \<and> s_val (?mem a) = s" "find_string ?mem s (strings t ! ?h) = Some (string_map t s)"
  proof -
    consider (yes) b where "b \<in> set (B ?h)" "s_val (?mem b) = s" | (no) "\<forall>b \<in> set (B ?h). s_val (?mem b) \<noteq> s" by blast
    then have "(string_map t s = Some a \<longleftrightarrow> a \<in> bucket_members ?n B \<and> s_val (?mem a) = s) \<and>
        find_string ?mem s (strings t ! ?h) = Some (string_map t s)"
    proof cases
      case yes
      then have f: "find_string ?mem s (strings t ! ?h) = Some (Some b)" by (rule run(1))
      have "a \<in> bucket_members ?n B \<and> s_val (?mem a) = s \<longleftrightarrow> a = b"
        using here [of a] yes sub i by (auto simp: inj_on_def)
      then show ?thesis using f by (auto simp: string_map_def)
    next
      case no
      then have f: "find_string ?mem s (strings t ! ?h) = Some None" by (rule run(2))
      then show ?thesis using here no by (auto simp: string_map_def)
    qed
    then show "string_map t s = Some a \<longleftrightarrow> a \<in> bucket_members ?n B \<and> s_val (?mem a) = s" "find_string ?mem s (strings t ! ?h) = Some (string_map t s)"
      by blast+
  qed
qed

section \<open>Resizing\<close>

text \<open>Putting a string in front of a slot.\<close>

lemma slots_push:
  assumes "slots_ok mem ss B" "h < length ss" "a \<notin> bucket_members (length ss) B"
    and "mem' = mem(a := x)" "s_next x = ss ! h" "slot (length ss) (s_hash x) = h"
  shows "slots_ok mem' (ss[h := Some a]) (B(h := a # B h))" "bucket_members (length ss) (B(h := a # B h)) = insert a (bucket_members (length ss) B)"
proof -
  have "follow mem' = (follow mem)(a := ss ! h)" using assms(4,5) by auto
  note push = buckets_push [OF assms(1-3) this, of "\<lambda>b. slot (length ss) (s_hash (mem' b))"]
  have "\<forall>b \<in> bucket_members (length ss) B. slot (length ss) (s_hash (mem' b)) = slot (length ss) (s_hash (mem b))"
    using assms(3,4) by auto
  then show "slots_ok mem' (ss[h := Some a]) (B(h := a # B h))" "bucket_members (length ss) (B(h := a # B h)) = insert a (bucket_members (length ss) B)"
    using push assms(4,6) by simp_all
qed

definition same_strings :: "(nat \<Rightarrow> sqstring) \<Rightarrow> (nat \<Rightarrow> sqstring) \<Rightarrow> bool" where
  "same_strings mem mem' \<longleftrightarrow> (\<forall>a. s_val (mem' a) = s_val (mem a) \<and> s_len (mem' a) = s_len (mem a) \<and> s_hash (mem' a) = s_hash (mem a))"

lemma move_chain_run:
  assumes "chain (follow mem) p xs" "distinct xs" "slots_ok mem ss B" "0 < length ss" "length ss < 2 ^ 63"
    and "set xs \<inter> bucket_members (length ss) B = {}"
  shows "\<exists>mem' ss' B'. move_chain mem ss p = Some (mem', ss') \<and> slots_ok mem' ss' B' \<and> length ss' = length ss \<and>
     bucket_members (length ss) B' = bucket_members (length ss) B \<union> set xs \<and> same_strings mem mem' \<and> (\<forall>a. a \<notin> set xs \<longrightarrow> mem' a = mem a)"
  using assms
proof (induction xs arbitrary: p mem ss B)
  case Nil
  then show ?case by (intro exI [of _ mem] exI [of _ ss] exI [of _ B]) (simp add: move_chain.simps same_strings_def)
next
  case (Cons x xs)
  define h where "h = slot (length ss) (s_hash (mem x))"
  define mem1 where "mem1 = mem(x := (mem x)\<lparr>s_next := ss ! h\<rparr>)"
  define B1 where "B1 = B(h := x # B h)"
  have h: "h < length ss" unfolding h_def by (rule slot_less [OF Cons.prems(4,5)])
  have x: "p = Some x" "chain (follow mem) (s_next (mem x)) xs" "x \<notin> set xs" "x \<notin> bucket_members (length ss) B"
    using Cons.prems(1,2,6) by auto
  have push: "slots_ok mem1 (ss[h := Some x]) B1" "bucket_members (length ss) B1 = insert x (bucket_members (length ss) B)"
    using slots_push [OF Cons.prems(3) h x(4) mem1_def] unfolding B1_def h_def by simp_all
  have c: "chain (follow mem1) (s_next (mem x)) xs"
    using x(2,3) chain_frame [of xs "follow mem1" "follow mem"] by (auto simp: mem1_def)
  have len: "0 < length (ss[h := Some x])" "length (ss[h := Some x]) < 2 ^ 63" using Cons.prems(4,5) by simp_all
  have dj: "set xs \<inter> bucket_members (length (ss[h := Some x])) B1 = {}" using push(2) x(3) Cons.prems(6) by auto
  obtain mem' ss' B' where r: "move_chain mem1 (ss[h := Some x]) (s_next (mem x)) = Some (mem', ss')" "slots_ok mem' ss' B'"
    "length ss' = length ss" "bucket_members (length ss) B' = bucket_members (length ss) B \<union> set (x # xs)" "same_strings mem1 mem'"
    "\<forall>a. a \<notin> set xs \<longrightarrow> mem' a = mem1 a"
    using Cons.IH [OF c _ push(1) len dj] Cons.prems(2) push(2) by auto
  have "move_chain mem ss p = Some (mem', ss')"
    using r(1) x(1) by (simp add: move_chain.simps [of mem ss "Some x"] Let_def h_def mem1_def)
  moreover have "same_strings mem mem'" using r(5) by (auto simp: same_strings_def mem1_def)
  moreover have "\<forall>a. a \<notin> set (x # xs) \<longrightarrow> mem' a = mem a" using r(6) by (auto simp: mem1_def)
  ultimately show ?case using r(2-4) by blast
qed

lemma move_chains_run:
  assumes "list_all2 (chain (follow mem)) ps xss" "distinct (concat xss)" "slots_ok mem ss B" "0 < length ss" "length ss < 2 ^ 63"
    and "set (concat xss) \<inter> bucket_members (length ss) B = {}"
  shows "\<exists>mem' ss' B'. move_chains mem ss ps = Some (mem', ss') \<and> slots_ok mem' ss' B' \<and> length ss' = length ss \<and>
     bucket_members (length ss) B' = bucket_members (length ss) B \<union> set (concat xss) \<and> same_strings mem mem'"
  using assms
proof (induction ps arbitrary: xss mem ss B)
  case Nil
  then show ?case by (intro exI [of _ mem] exI [of _ ss] exI [of _ B]) (auto simp: same_strings_def)
next
  case (Cons p ps)
  obtain xs xss' where p: "xss = xs # xss'" "chain (follow mem) p xs" "list_all2 (chain (follow mem)) ps xss'"
    using Cons.prems(1) by (auto simp: list_all2_Cons1)
  have xs: "distinct xs" "set xs \<inter> bucket_members (length ss) B = {}" "set xs \<inter> set (concat xss') = {}" "distinct (concat xss')"
    using Cons.prems(2,6) p(1) by auto
  obtain mem1 ss1 B1 where 1: "move_chain mem ss p = Some (mem1, ss1)" "slots_ok mem1 ss1 B1" "length ss1 = length ss"
    "bucket_members (length ss) B1 = bucket_members (length ss) B \<union> set xs" "same_strings mem mem1" "\<forall>a. a \<notin> set xs \<longrightarrow> mem1 a = mem a"
    using move_chain_run [OF p(2) xs(1) Cons.prems(3-5) xs(2)] by blast
  have "list_all2 (chain (follow mem1)) ps xss'"
    using p(3)
  proof (rule list.rel_mono_strong)
    fix q ys assume "ys \<in> set xss'" "chain (follow mem) q ys"
    then show "chain (follow mem1) q ys"
      using chain_frame [of ys "follow mem1" "follow mem"] 1(6) xs(3) by (metis (no_types, lifting) UN_I disjoint_iff set_concat)
  qed
  moreover have "set (concat xss') \<inter> bucket_members (length ss1) B1 = {}" using 1(3,4) xs(3) Cons.prems(6) p(1) by auto
  ultimately obtain mem' ss' B' where 2: "move_chains mem1 ss1 ps = Some (mem', ss')" "slots_ok mem' ss' B'" "length ss' = length ss"
    "bucket_members (length ss) B' = bucket_members (length ss) B1 \<union> set (concat xss')" "same_strings mem1 mem'"
    using Cons.IH [OF _ xs(4) 1(2)] 1(3) Cons.prems(4,5) by metis
  have "same_strings mem mem'" using 1(5) 2(5) by (simp add: same_strings_def)
  then show ?case using p(1) 1 2 by (auto simp: Un_assoc)
qed

lemma members_same: "same_strings mem mem' \<Longrightarrow> interned mem A \<Longrightarrow> interned mem' A"
  by (auto simp: same_strings_def interned_def inj_on_def)

lemma resize_run:
  assumes "table_rel t B" "0 < n" "n < 2 ^ 63"
  shows "\<exists>u B'. strings_Resize n t = Some u \<and> table_rel u B' \<and> length (strings u) = n \<and>
     bucket_members n B' = bucket_members (length (strings t)) B \<and> same_strings (store t) (store u)"
proof -
  let ?m = "length (strings t)"
  have so: "slots_ok (store t) (strings t) B" using assms(1) by (simp add: table_rel_def)
  note cc = buckets_concat [OF so order_refl]
  have l: "list_all2 (chain (follow (store t))) (strings t) (map B [0 ..< ?m])"
    using so by (simp add: list_all2_conv_all_nth in_buckets_def)
  have new: "slots_ok (store t) (replicate n None) (\<lambda>_. [])" "bucket_members n (\<lambda>_. [] :: nat list) = {}"
    by (simp_all add: in_buckets_def bucket_members_def)
  obtain mem' ss' B' where r: "move_chains (store t) (replicate n None) (strings t) = Some (mem', ss')" "slots_ok mem' ss' B'"
    "length ss' = n" "bucket_members n B' = bucket_members ?m B" "same_strings (store t) mem'"
    using move_chains_run [OF l cc(1) new(1)] new(2) cc(2) assms(2,3) by auto
  have "interned mem' (bucket_members ?m B)" using members_same [OF r(5)] assms(1) by (simp add: table_rel_def)
  then show ?thesis
    using r assms(1,2) by (auto simp: strings_Resize_def strings_AllocNodes_def table_rel_def)
qed

section \<open>Adding and removing\<close>

lemma add_run:
  fixes s :: string
  assumes "table_rel t B" "length (strings t) < 2 ^ 62" "slotused t \<le> length (strings t)"
    and "a \<notin> bucket_members (length (strings t)) B"
  defines "r \<equiv> (case string_map t s of Some b \<Rightarrow> b | None \<Rightarrow> a)"
  shows "\<exists>u B'. strings_Add s a t = Some (r, u) \<and> table_rel u B' \<and>
     bucket_members (length (strings u)) B' = insert r (bucket_members (length (strings t)) B) \<and> s_val (store u r) = s \<and>
     (\<forall>b \<in> bucket_members (length (strings t)) B. s_val (store u b) = s_val (store t b)) \<and>
     slotused u \<le> slotused t + 1 \<and> slotused u \<le> length (strings u) \<and>
     length (strings u) \<le> max (length (strings t)) (2 * slotused u)"
proof -
  let ?n = "length (strings t)" and ?mem = "store t"
  define h where "h = slot ?n (hashstr s)"
  have n: "0 < ?n" "?n < 2 ^ 63" using assms(1,2) by (simp_all add: table_rel_def)
  have h: "h < ?n" unfolding h_def by (rule slot_less [OF n])
  note found = string_map_iff [OF assms(1) n(2), of s, folded h_def]
  show ?thesis
  proof (cases "string_map t s")
    case (Some b)
    then have "b \<in> bucket_members ?n B" "s_val (?mem b) = s" using found(1) by auto
    then show ?thesis
      using assms(1,3) found(2) Some
      by (intro exI [of _ t] exI [of _ B]) (auto simp: strings_Add_def Let_def h_def r_def)
  next
    case None
    define x where "x = \<lparr>s_val = s, s_len = length s, s_hash = hashstr s, s_next = strings t ! h\<rparr>"
    define t1 where "t1 = t\<lparr>store := ?mem(a := x), strings := (strings t)[h := Some a], slotused := slotused t + 1\<rparr>"
    define B1 where "B1 = B(h := a # B h)"
    have so: "slots_ok ?mem (strings t) B" and it: "interned ?mem (bucket_members ?n B)" using assms(1) by (simp_all add: table_rel_def)
    have sx: "s_next x = strings t ! h" "slot ?n (s_hash x) = h" by (simp_all add: x_def h_def)
    note push = slots_push [OF so h assms(4) refl sx]
    have "s_val (?mem b) \<noteq> s" if "b \<in> bucket_members ?n B" for b
    proof
      assume "s_val (?mem b) = s"
      then have "string_map t s = Some b" using found(1) [of b] that by simp
      then show False using None by simp
    qed
    then have "interned (?mem(a := x)) (insert a (bucket_members ?n B))"
      using it assms(4) by (auto simp: interned_def inj_on_def x_def)
    then have rel: "table_rel t1 B1"
      using push assms(1,4) by (simp add: table_rel_def t1_def B1_def)
    have mem1: "bucket_members (length (strings t1)) B1 = insert a (bucket_members ?n B)" using push(2) by (simp add: t1_def B1_def)
    have keep: "s_val (store t1 a) = s" "\<forall>b \<in> bucket_members ?n B. s_val (store t1 b) = s_val (?mem b)" "length (strings t1) = ?n"
      "slotused t1 = slotused t + 1"
      using assms(4) by (auto simp: t1_def x_def)
    have add: "strings_Add s a t = (if ?n < slotused t + 1 then map_option (Pair a) (strings_Resize (?n * 2) t1) else Some (a, t1))"
      using found(2) None by (simp add: strings_Add_def Let_def h_def [symmetric] t1_def x_def)
    have r: "r = a" by (simp add: r_def None)
    show ?thesis
    proof (cases "?n < slotused t + 1")
      case True
      obtain u B' where u: "strings_Resize (?n * 2) t1 = Some u" "table_rel u B'" "length (strings u) = ?n * 2"
        "bucket_members (?n * 2) B' = bucket_members (length (strings t1)) B1" "same_strings (store t1) (store u)"
        using resize_run [OF rel, of "?n * 2"] n(1) assms(2) by auto
      have "slotused u = slotused t + 1" using u(2-4) rel keep(4) by (simp add: table_rel_def)
      moreover have "slotused t + 1 \<le> ?n * 2" using assms(3) n(1) by linarith
      ultimately show ?thesis using True u add mem1 keep r assms(3) by (intro exI [of _ u] exI [of _ B']) (simp add: same_strings_def)
    next
      case False
      then show ?thesis using add rel mem1 keep r by (intro exI [of _ t1] exI [of _ B1]) simp
    qed
  qed
qed

lemma remove_walk:
  assumes "chain (follow (store t)) p (ys @ b # zs)" "b \<notin> set ys"
  shows "remove_string t h b prev p = Some (Inr (unlink_string h (if ys = [] then prev else Some (List.last ys)) b t))"
  using assms
proof (induction ys arbitrary: p prev)
  case Nil
  then show ?case by (simp add: remove_string.simps [of t h b prev "Some b"])
next
  case (Cons y ys)
  then have y: "p = Some y" "chain (follow (store t)) (s_next (store t y)) (ys @ b # zs)" "y \<noteq> b" "b \<notin> set ys" by auto
  show ?case using Cons.IH [OF y(2,4), of "Some y"] y(1,3) by (simp add: remove_string.simps [of t h b prev "Some y"])
qed

lemma remove_absent:
  assumes "chain (follow (store t)) p ys" "b \<notin> set ys"
  shows "remove_string t h b prev p = Some (Inl (Undefined ''assert(0)''))"
  using assms
proof (induction ys arbitrary: p prev)
  case Nil
  then show ?case by (simp add: remove_string.simps)
next
  case (Cons y ys)
  then show ?case by (simp add: remove_string.simps [of t h b prev "Some y"])
qed

lemma unlink_run:
  assumes "slots_ok (store t) (strings t) B" "h < length (strings t)" "B h = ys @ b # zs"
  defines "u \<equiv> unlink_string h (if ys = [] then None else Some (List.last ys)) b t"
  shows "slots_ok (store u) (strings u) (B(h := ys @ zs))" "length (strings u) = length (strings t)"
    "same_strings (store t) (store u)" "slotused u = slotused t - 1"
    "bucket_members (length (strings t)) (B(h := ys @ zs)) = bucket_members (length (strings t)) B - {b}"
proof -
  show same: "same_strings (store t) (store u)" "slotused u = slotused t - 1" "length (strings u) = length (strings t)"
    by (auto simp: u_def unlink_string_def Let_def same_strings_def)
  have sl: "slot (length (strings u)) (s_hash (store u a)) = slot (length (strings t)) (s_hash (store t a))" for a
    using same by (simp add: same_strings_def)
  show "slots_ok (store u) (strings u) (B(h := ys @ zs))"
    by (rule buckets_unlink [OF assms(1-3) same(3)]) (auto simp: sl, auto simp: u_def unlink_string_def split: if_splits)
  show "bucket_members (length (strings t)) (B(h := ys @ zs)) = bucket_members (length (strings t)) B - {b}"
    by (rule members_unlink [OF assms(1-3)])
qed

end
