(* ===== verification/Sq_Strings_Run.thy ===== *)
theory Sq_Strings_Run
  imports Sq_Strings
begin

text \<open>
  What the table of strings promises the runtime over a run of operations: it is a map from contents
  to the one string that has them, which a string leaves when its last reference goes.
\<close>

datatype string_op = Intern string nat | Drop nat

definition string_step :: "string_op \<Rightarrow> string_table \<Rightarrow> (nat \<times> string_table) res option" where
  "string_step p t =
     (case p of
        Intern s a \<Rightarrow> map_option Inr (strings_Add s a t)
      | Drop a \<Rightarrow> map_option (map_sum id (Pair a)) (strings_Remove a t))"

primrec string_steps :: "string_op list \<Rightarrow> string_table \<Rightarrow> (nat list \<times> string_table) res option" where
  "string_steps [] t = Some (Inr ([], t))"
| "string_steps (p # ps) t =
     run_then (string_step p t) (\<lambda>(r, u). run_then (string_steps ps u) (\<lambda>(rs, v). Some (Inr (r # rs, v))))"

text \<open>The map: an address that is handed out for a new string is not in use, one that is dropped is.\<close>

definition intern_spec :: "string_op \<Rightarrow> (string \<rightharpoonup> nat) \<Rightarrow> (nat \<times> (string \<rightharpoonup> nat)) option" where
  "intern_spec p m =
     (case p of
        Intern s a \<Rightarrow> (case m s of
            Some b \<Rightarrow> Some (b, m)
          | None \<Rightarrow> if a \<in> ran m then None else Some (a, m(s \<mapsto> a)))
      | Drop a \<Rightarrow> if a \<in> ran m then Some (a, \<lambda>s. if m s = Some a then None else m s) else None)"

primrec intern_specs :: "string_op list \<Rightarrow> (string \<rightharpoonup> nat) \<Rightarrow> (nat list \<times> (string \<rightharpoonup> nat)) option" where
  "intern_specs [] m = Some ([], m)"
| "intern_specs (p # ps) m =
     (case intern_spec p m of
        None \<Rightarrow> None
      | Some (r, n) \<Rightarrow> map_option (\<lambda>(rs, l). (r # rs, l)) (intern_specs ps n))"

definition holds_strings :: "nat \<Rightarrow> string_table \<Rightarrow> (string \<rightharpoonup> nat) \<Rightarrow> bool" where
  "holds_strings k t m \<longleftrightarrow>
     (\<exists>B. table_rel t B \<and> slotused t \<le> length (strings t) \<and> slotused t \<le> k \<and> length (strings t) \<le> 4 + 2 * k \<and>
        ran m = bucket_members (length (strings t)) B \<and> (\<forall>s a. m s = Some a \<longleftrightarrow> a \<in> ran m \<and> s_val (store t a) = s))"

lemma holds_string_map:
  assumes "holds_strings k t m" "k < 2 ^ 60"
  shows "string_map t = m" "\<forall>s a. m s = Some a \<longrightarrow> s_val (store t a) = s" "slotused t = card (ran m)"
proof -
  obtain B where B: "table_rel t B" "length (strings t) \<le> 4 + 2 * k" "ran m = bucket_members (length (strings t)) B"
    "\<forall>s a. m s = Some a \<longleftrightarrow> a \<in> ran m \<and> s_val (store t a) = s"
    using assms(1) by (auto simp: holds_strings_def)
  have "length (strings t) < 2 ^ 63" using B(2) assms(2) by simp
  then have iff: "string_map t s = Some a \<longleftrightarrow> m s = Some a" for s a
    using string_map_iff(1) [OF B(1)] B(3,4) by simp
  have "string_map t s = m s" for s using iff [of s] by (metis not_None_eq)
  then show "string_map t = m" by blast
  show "\<forall>s a. m s = Some a \<longrightarrow> s_val (store t a) = s" using B(4) by blast
  show "slotused t = card (ran m)" using B(1,3) by (simp add: table_rel_def)
qed

lemma add_holds:
  assumes "holds_strings k t m" "k < 2 ^ 60" "intern_spec (Intern s a) m = Some (r, n)"
  shows "\<exists>u. string_step (Intern s a) t = Some (Inr (r, u)) \<and> holds_strings (Suc k) u n"
proof -
  obtain B where B: "table_rel t B" "slotused t \<le> length (strings t)" "slotused t \<le> k" "length (strings t) \<le> 4 + 2 * k"
    "ran m = bucket_members (length (strings t)) B" "\<forall>s a. m s = Some a \<longleftrightarrow> a \<in> ran m \<and> s_val (store t a) = s"
    using assms(1) by (auto simp: holds_strings_def)
  have len: "length (strings t) < 2 ^ 62" using B(4) assms(2) by simp
  note map = holds_string_map(1) [OF assms(1,2)]
  have "\<exists>b. b \<notin> bucket_members (length (strings t)) B" by (rule ex_new_if_finite) simp_all
  then obtain b where b: "b \<notin> bucket_members (length (strings t)) B" "m s = None \<Longrightarrow> b = a"
    using assms(3) B(5) by (cases "m s") (auto simp: intern_spec_def split: if_splits)
  define q where "q = (case string_map t s of Some c \<Rightarrow> c | None \<Rightarrow> b)"
  have r: "q = r" "n = m(s \<mapsto> r)"
    using assms(3) b(2) map by (auto simp: q_def intern_spec_def split: option.splits if_splits)
  obtain u B' where u: "strings_Add s b t = Some (r, u)" "table_rel u B'"
    "bucket_members (length (strings u)) B' = insert r (ran m)" "s_val (store u r) = s"
    "\<forall>c \<in> ran m. s_val (store u c) = s_val (store t c)" "slotused u \<le> slotused t + 1" "slotused u \<le> length (strings u)"
    "length (strings u) \<le> max (length (strings t)) (2 * slotused u)"
    using add_run [OF B(1) len B(2) b(1), of s] unfolding q_def [symmetric] r(1) B(5) by blast
  have same: "strings_Add s a t = strings_Add s b t"
  proof (cases "m s")
    case (Some c)
    have "find_string (store t) s (strings t ! slot (length (strings t)) (hashstr s)) = Some (Some c)"
      using string_map_iff(2) [OF B(1), of s] len map Some by simp
    then show ?thesis by (simp add: strings_Add_def Let_def)
  qed (simp add: b(2))
  have ran: "ran n = insert r (ran m)"
  proof (cases "m s")
    case (Some c)
    then have "c = r" using assms(3) by (simp add: intern_spec_def)
    then have "n = m" "r \<in> ran m" using Some r(2) by (auto intro: ranI)
    then show ?thesis by blast
  qed (simp add: r(2))
  have "n x = Some c \<longleftrightarrow> c \<in> ran n \<and> s_val (store u c) = x" for x c
  proof (cases "c = r")
    case True
    have "x = s" if "m x = Some r" using that B(6) u(4,5) by metis
    then show ?thesis using True u(4) ran r(2) by auto
  next
    case False
    have "m s = Some c \<Longrightarrow> c = r" using assms(3) by (auto simp: intern_spec_def)
    then show ?thesis using False u(5) ran r(2) B(6) by (auto simp: fun_upd_apply)
  qed
  then have "holds_strings (Suc k) u n"
    using u(2,3,6-8) B(3,4) ran unfolding holds_strings_def by (intro exI [of _ B']) auto
  then show ?thesis using same u(1) by (simp add: string_step_def)
qed

lemma drop_holds:
  assumes "holds_strings k t m" "k < 2 ^ 60" "intern_spec (Drop a) m = Some (r, n)"
  shows "\<exists>u. string_step (Drop a) t = Some (Inr (r, u)) \<and> holds_strings (Suc k) u n"
proof -
  let ?n = "length (strings t)"
  obtain B where B: "table_rel t B" "slotused t \<le> ?n" "slotused t \<le> k" "?n \<le> 4 + 2 * k"
    "ran m = bucket_members ?n B" "\<forall>s a. m s = Some a \<longleftrightarrow> a \<in> ran m \<and> s_val (store t a) = s"
    using assms(1) by (auto simp: holds_strings_def)
  define h where "h = slot ?n (s_hash (store t a))"
  have h: "h < ?n" unfolding h_def using slot_less B(1,4) assms(2) by (simp add: table_rel_def)
  have a: "a \<in> ran m" "r = a" "n = (\<lambda>s. if m s = Some a then None else m s)"
    using assms(3) by (auto simp: intern_spec_def split: if_splits)
  have so: "slots_ok (store t) (strings t) B" using B(1) by (simp add: table_rel_def)
  have "a \<in> set (B h)" using a(1) B(5) so by (auto simp: bucket_members_def in_buckets_def h_def)
  then obtain ys zs where split: "B h = ys @ a # zs" "a \<notin> set ys" by (meson split_list_first)
  define u where "u = unlink_string h (if ys = [] then None else Some (List.last ys)) a t"
  have "chain (follow (store t)) (strings t ! h) (ys @ a # zs)"
    using so h by (auto simp: in_buckets_def split(1) [symmetric])
  then have "strings_Remove a t = Some (Inr u)"
    using remove_walk [of t "strings t ! h" ys a zs h None] split(2)
    by (simp add: strings_Remove_def Let_def h_def [symmetric] u_def in_buckets_def)
  note un = unlink_run [OF so h split(1), folded u_def]
  have rem: "bucket_members (length (strings u)) (B(h := ys @ zs)) = ran m - {a}" using un(2,5) B(5) by simp
  have "table_rel u (B(h := ys @ zs))"
    unfolding table_rel_def
  proof (intro conjI)
    have "interned (store u) (ran m)" using members_same [OF un(3)] B(1,5) by (simp add: table_rel_def)
    then show "interned (store u) (bucket_members (length (strings u)) (B(h := ys @ zs)))"
      unfolding rem by (auto simp: interned_def intro: inj_on_subset)
    show "slotused u = card (bucket_members (length (strings u)) (B(h := ys @ zs)))"
      unfolding rem un(4) using B(1,5) a(1) by (simp add: table_rel_def card_Diff_singleton)
  qed (use un B(1) in \<open>simp_all add: table_rel_def\<close>)
  moreover have ran: "ran n = ran m - {a}"
  proof -
    have "n x = Some c \<longleftrightarrow> m x = Some c \<and> c \<noteq> a" for x c by (auto simp: a(3))
    then show ?thesis by (auto simp: ran_def)
  qed
  moreover have "n x = Some c \<longleftrightarrow> c \<in> ran n \<and> s_val (store u c) = x" for x c
  proof -
    have "s_val (store u c) = s_val (store t c)" using un(3) by (simp add: same_strings_def)
    moreover have "n x = Some c \<longleftrightarrow> m x = Some c \<and> c \<noteq> a" by (auto simp: a(3))
    ultimately show ?thesis using B(6) ran by auto
  qed
  ultimately have "holds_strings (Suc k) u n"
    using rem un(2,4) B(2-4) unfolding holds_strings_def by (intro exI [of _ "B(h := ys @ zs)"]) auto
  then show ?thesis using \<open>strings_Remove a t = Some (Inr u)\<close> a(2) by (simp add: string_step_def)
qed

lemma steps_hold:
  assumes "holds_strings k t m" "k + length ps \<le> 2 ^ 60" "intern_specs ps m = Some (rs, n)"
  shows "\<exists>u. string_steps ps t = Some (Inr (rs, u)) \<and> holds_strings (k + length ps) u n"
  using assms
proof (induction ps arbitrary: k t m rs)
  case (Cons p ps)
  obtain r m' rs' where s: "intern_spec p m = Some (r, m')" "intern_specs ps m' = Some (rs', n)" "rs = r # rs'"
    using Cons.prems(3) by (auto split: option.splits)
  have k: "k < 2 ^ 60" "Suc k + length ps \<le> 2 ^ 60" using Cons.prems(2) by simp_all
  obtain u where u: "string_step p t = Some (Inr (r, u))" "holds_strings (Suc k) u m'"
    using s(1) add_holds [OF Cons.prems(1) k(1)] drop_holds [OF Cons.prems(1) k(1)] by (cases p) blast+
  then show ?case using Cons.IH [OF u(2) k(2) s(2)] s(3) by auto
qed auto

lemma new_strings: "holds_strings 0 (SQStringTable mem) Map.empty"
  unfolding holds_strings_def
  by (intro exI [of _ "\<lambda>_. []"])
    (simp add: SQStringTable_def strings_AllocNodes_def table_rel_def in_buckets_def interned_def bucket_members_def)

text \<open>C11: over any run of operations in which a new string is put at an address that is not in use and only
  strings of the table are dropped, the table is the map from contents to strings: adding gives the
  string that has the contents, an old one if there is one, and the search for contents finds exactly
  the strings that were added and not dropped.\<close>

theorem strings_refine:
  assumes "intern_specs ps Map.empty = Some (rs, m)" "length ps < 2 ^ 60"
  shows "\<exists>t. string_steps ps (SQStringTable mem) = Some (Inr (rs, t)) \<and> string_map t = m \<and>
     (\<forall>s a. m s = Some a \<longrightarrow> s_val (store t a) = s) \<and> slotused t = card (ran m)"
proof -
  obtain t where t: "string_steps ps (SQStringTable mem) = Some (Inr (rs, t))" "holds_strings (length ps) t m"
    using steps_hold [OF new_strings, of ps rs m] assms by auto
  then show ?thesis using holds_string_map [OF t(2) assms(2)] by blast
qed

text \<open>A string that is not in the table fails the assertion.\<close>

lemma drop_unknown:
  assumes "holds_strings k t m" "k < 2 ^ 60" "a \<notin> ran m"
  shows "strings_Remove a t = Some (Inl (Undefined ''assert(0)''))"
proof -
  obtain B where B: "table_rel t B" "length (strings t) \<le> 4 + 2 * k" "ran m = bucket_members (length (strings t)) B"
    using assms(1) by (auto simp: holds_strings_def)
  have h: "slot (length (strings t)) (s_hash (store t a)) < length (strings t)"
    using slot_less B(1,2) assms(2) by (simp add: table_rel_def)
  then have "a \<notin> set (B (slot (length (strings t)) (s_hash (store t a))))" using assms(3) B(3) by (auto simp: bucket_members_def)
  then show ?thesis using remove_absent B(1) h by (auto simp: strings_Remove_def table_rel_def in_buckets_def Let_def)
qed

theorem strings_refine_witness:
  "\<exists>t. string_steps [Intern ''osc'' 5, Intern ''midi'' 6, Intern ''osc'' 7, Drop 5] (SQStringTable (\<lambda>_. \<lparr>s_val = [], s_len = 0, s_hash = 0, s_next = None\<rparr>)) = Some (Inr ([5, 6, 5, 5], t)) \<and>
     string_map t ''osc'' = None \<and> string_map t ''midi'' = Some 6"
proof -
  let ?ps = "[Intern ''osc'' 5, Intern ''midi'' 6, Intern ''osc'' 7, Drop 5]"
  let ?m = "(\<lambda>s. if [''osc'' \<mapsto> 5 :: nat, ''midi'' \<mapsto> 6] s = Some 5 then None else [''osc'' \<mapsto> 5, ''midi'' \<mapsto> 6] s)"
  have "intern_specs ?ps Map.empty = Some ([5, 6, 5, 5], ?m)"
    by (simp add: intern_spec_def ran_def)
  then show ?thesis using strings_refine [of ?ps "[5, 6, 5, 5]" ?m "\<lambda>_. \<lparr>s_val = [], s_len = 0, s_hash = 0, s_next = None\<rparr>"] by auto
qed

end
