(* ===== verification/Sq_Refs.thy ===== *)
theory Sq_Refs
  imports Sq_Object Pointer_Chains
begin

text \<open>
  The references the host program holds (\<open>RefTable\<close> of \<open>squirrel/squirrel/sqstate.cpp\<close>, reached by
  \<open>sq_addref\<close>, \<open>sq_release\<close> and \<open>sq_getrefcount\<close>): how often each object is held, in a table whose
  nodes are on the chain of their bucket or on the list of free ones. Nodes are indices into the
  array; a failed assertion and a null pointer that is followed are errors.
\<close>

record ref_node =
  robj :: sqobject
  rcount :: u64
  rnext :: "nat option"

record ref_table =
  rnodes :: "ref_node list"
  freelist :: "nat option"
  rbuckets :: "nat option list"
  rslotused :: nat

definition refs_AllocNodes :: "nat \<Rightarrow> ref_table" where
  "refs_AllocNodes n =
     \<lparr>rnodes = map (\<lambda>i. \<lparr>robj = null_object, rcount = 0, rnext = if i < n - 1 then Some (Suc i) else None\<rparr>) [0 ..< n],
      freelist = Some 0, rbuckets = replicate n None, rslotused = 0\<rparr>"

definition RefTable :: ref_table where
  "RefTable = refs_AllocNodes 4"

definition refs_Add :: "nat \<Rightarrow> sqobject \<Rightarrow> ref_table \<Rightarrow> (nat \<times> ref_table) res" where
  "refs_Add mainpos ob t =
     (case freelist t of
        None \<Rightarrow> Inl (Undefined ''null pointer'')
      | Some f \<Rightarrow>
          let nd = rnodes t ! f in
          if rcount nd \<noteq> 0 then Inl (Undefined ''assertion newnode->refs == 0'')
          else Inr (f, t\<lparr>rnodes := (rnodes t)[f := nd\<lparr>robj := ob, rnext := rbuckets t ! mainpos\<rparr>],
            rbuckets := (rbuckets t)[mainpos := Some f], freelist := rnext nd, rslotused := rslotused t + 1\<rparr>))"

text \<open>The search along a bucket, with the node before.\<close>

partial_function (option) refs_search :: "ref_node list \<Rightarrow> sqobject \<Rightarrow> nat option \<Rightarrow> nat option \<Rightarrow> (nat option \<times> nat option) option" where
  "refs_search ns ob prev ref =
     (case ref of
        None \<Rightarrow> Some (prev, None)
      | Some r \<Rightarrow> if same_object (robj (ns ! r)) ob then Some (prev, Some r) else refs_search ns ob ref (rnext (ns ! r)))"

declare refs_search.simps [code]

definition set_count :: "nat \<Rightarrow> u64 \<Rightarrow> ref_table \<Rightarrow> ref_table" where
  "set_count f c t = t\<lparr>rnodes := (rnodes t)[f := (rnodes t ! f)\<lparr>rcount := c\<rparr>]\<rparr>"

text \<open>Every node of the old array goes into the new one; all of them must be in use.\<close>

fun refs_readd :: "sqheap \<Rightarrow> ref_node list \<Rightarrow> ref_table \<Rightarrow> ref_table res" where
  "refs_readd H [] t = Inr t"
| "refs_readd H (old # ns) t =
     (if is_null (robj old) then refs_readd H ns t
      else if rcount old = 0 then Inl (Undefined ''assertion t->refs != 0'')
      else (case refs_Add (main_place H (length (rnodes t)) (robj old)) (robj old) t of
        Inl e \<Rightarrow> Inl e
      | Inr (f, u) \<Rightarrow> refs_readd H ns (set_count f (rcount old) u)))"

definition refs_Resize :: "sqheap \<Rightarrow> nat \<Rightarrow> ref_table \<Rightarrow> ref_table res" where
  "refs_Resize H n t =
     (case refs_readd H (rnodes t) (refs_AllocNodes n) of
        Inl e \<Rightarrow> Inl e
      | Inr u \<Rightarrow>
          if length (filter (\<lambda>nd. \<not> is_null (robj nd)) (rnodes t)) \<noteq> length (rnodes t)
          then Inl (Undefined ''assertion nfound == oldnumofslots'')
          else Inr u)"

definition refs_Get :: "sqheap \<Rightarrow> sqobject \<Rightarrow> bool \<Rightarrow> ref_table \<Rightarrow> (nat \<times> nat option \<times> nat option \<times> ref_table) res option" where
  "refs_Get H ob add t =
     (let mainpos = main_place H (length (rnodes t)) ob in
      case refs_search (rnodes t) ob None (rbuckets t ! mainpos) of
        None \<Rightarrow> None
      | Some (prev, Some r) \<Rightarrow> Some (Inr (mainpos, prev, Some r, t))
      | Some (prev, None) \<Rightarrow>
          if \<not> add then Some (Inr (mainpos, prev, None, t))
          else if rslotused t = length (rnodes t)
          then if freelist t \<noteq> None then Some (Inl (Undefined ''assertion _freelist == 0''))
            else run_then (Some (refs_Resize H (length (rnodes t) * 2) t)) (\<lambda>u.
              let mainpos = main_place H (length (rnodes u)) ob
              in Some (map_sum id (\<lambda>(f, v). (mainpos, prev, Some f, v)) (refs_Add mainpos ob u)))
          else Some (map_sum id (\<lambda>(f, v). (mainpos, prev, Some f, v)) (refs_Add mainpos ob t)))"

definition refs_AddRef :: "sqheap \<Rightarrow> sqobject \<Rightarrow> ref_table \<Rightarrow> ref_table res option" where
  "refs_AddRef H ob t =
     run_then (refs_Get H ob True t) (\<lambda>(_, _, ref, u).
       case ref of
         None \<Rightarrow> Some (Inl (Undefined ''null pointer''))
       | Some f \<Rightarrow> Some (Inr (set_count f (rcount (rnodes u ! f) + 1) u)))"

definition refs_GetRefCount :: "sqheap \<Rightarrow> sqobject \<Rightarrow> ref_table \<Rightarrow> (u64 \<times> ref_table) res option" where
  "refs_GetRefCount H ob t =
     run_then (refs_Get H ob True t) (\<lambda>(_, _, ref, u).
       case ref of
         None \<Rightarrow> Some (Inl (Undefined ''null pointer''))
       | Some f \<Rightarrow> Some (Inr (rcount (rnodes u ! f), u)))"

text \<open>A node that is not used any more leaves its bucket for the list of free ones.\<close>

definition free_ref :: "nat \<Rightarrow> nat option \<Rightarrow> nat \<Rightarrow> ref_table \<Rightarrow> ref_table" where
  "free_ref mainpos prev f t =
     (let nx = rnext (rnodes t ! f);
          t1 = (case prev of
            Some p \<Rightarrow> t\<lparr>rnodes := (rnodes t)[p := (rnodes t ! p)\<lparr>rnext := nx\<rparr>]\<rparr>
          | None \<Rightarrow> t\<lparr>rbuckets := (rbuckets t)[mainpos := nx]\<rparr>)
      in t1\<lparr>rnodes := (rnodes t1)[f := (rnodes t1 ! f)\<lparr>rnext := freelist t1, robj := null_object\<rparr>],
           freelist := Some f, rslotused := rslotused t1 - 1\<rparr>)"

definition refs_Release :: "sqheap \<Rightarrow> sqobject \<Rightarrow> ref_table \<Rightarrow> (bool \<times> ref_table) res option" where
  "refs_Release H ob t =
     run_then (refs_Get H ob False t) (\<lambda>(mainpos, prev, ref, u).
       case ref of
         None \<Rightarrow> Some (Inl (Undefined ''assertion 0''))
       | Some f \<Rightarrow>
           let u1 = set_count f (rcount (rnodes u ! f) - 1) u in
           if rcount (rnodes u1 ! f) = 0 then Some (Inr (True, free_ref mainpos prev f u1))
           else Some (Inr (False, u1)))"

definition refs_Finalize :: "ref_table \<Rightarrow> ref_table" where
  "refs_Finalize t = t\<lparr>rnodes := map (\<lambda>nd. nd\<lparr>robj := null_object\<rparr>) (rnodes t)\<rparr>"

section \<open>The interface of the runtime\<close>

fun is_refcounted :: "sqtype \<Rightarrow> bool" where
  "is_refcounted OT_NULL = False"
| "is_refcounted OT_INTEGER = False"
| "is_refcounted OT_FLOAT = False"
| "is_refcounted OT_BOOL = False"
| "is_refcounted OT_USERPOINTER = False"
| "is_refcounted _ = True"

definition sq_addref :: "sqheap \<Rightarrow> sqobject \<Rightarrow> ref_table \<Rightarrow> ref_table res option" where
  "sq_addref H po t = (if \<not> is_refcounted (o_type po) then Some (Inr t) else refs_AddRef H po t)"

definition sq_getrefcount :: "sqheap \<Rightarrow> sqobject \<Rightarrow> ref_table \<Rightarrow> (u64 \<times> ref_table) res option" where
  "sq_getrefcount H po t = (if \<not> is_refcounted (o_type po) then Some (Inr (0, t)) else refs_GetRefCount H po t)"

definition sq_release :: "sqheap \<Rightarrow> sqobject \<Rightarrow> ref_table \<Rightarrow> (bool \<times> ref_table) res option" where
  "sq_release H po t = (if \<not> is_refcounted (o_type po) then Some (Inr (True, t)) else refs_Release H po t)"

section \<open>What a table holds\<close>

text \<open>
  Each node is on the chain of its object's place or on the list of free ones, and the map gives
  the counts of the objects.
\<close>

abbreviation next_ref :: "ref_table \<Rightarrow> nat \<Rightarrow> nat option" where
  "next_ref t \<equiv> \<lambda>i. rnext (rnodes t ! i)"

abbreviation ref_place :: "sqheap \<Rightarrow> ref_table \<Rightarrow> nat \<Rightarrow> nat" where
  "ref_place H t \<equiv> \<lambda>i. main_place H (length (rnodes t)) (robj (rnodes t ! i))"

abbreviation ref_members :: "ref_table \<Rightarrow> (nat \<Rightarrow> nat list) \<Rightarrow> nat set" where
  "ref_members t B \<equiv> bucket_members (length (rbuckets t)) B"

definition refs_shape :: "sqheap \<Rightarrow> ref_table \<Rightarrow> (nat \<Rightarrow> nat list) \<Rightarrow> nat list \<Rightarrow> bool" where
  "refs_shape H t B fs \<longleftrightarrow>
     0 < length (rnodes t) \<and> length (rbuckets t) = length (rnodes t) \<and>
     in_buckets (next_ref t) (ref_place H t) (rbuckets t) B \<and>
     chain (next_ref t) (freelist t) fs \<and> distinct fs \<and>
     set fs \<inter> ref_members t B = {} \<and> set fs \<union> ref_members t B = {..< length (rnodes t)} \<and>
     rslotused t = card (ref_members t B) \<and>
     (\<forall>f \<in> set fs. is_null (robj (rnodes t ! f)) \<and> rcount (rnodes t ! f) = 0) \<and>
     (\<forall>f \<in> ref_members t B. \<not> is_null (robj (rnodes t ! f)))"

definition refs_rel :: "sqheap \<Rightarrow> ref_table \<Rightarrow> (nat \<Rightarrow> nat list) \<Rightarrow> nat list \<Rightarrow> (sqobject \<rightharpoonup> u64) \<Rightarrow> bool" where
  "refs_rel H t B fs m \<longleftrightarrow>
     refs_shape H t B fs \<and> inj_on (\<lambda>f. robj (rnodes t ! f)) (ref_members t B) \<and>
     (\<forall>f \<in> ref_members t B. m (robj (rnodes t ! f)) = Some (rcount (rnodes t ! f))) \<and>
     dom m = (\<lambda>f. robj (rnodes t ! f)) ` ref_members t B"

lemma refs_shapeD:
  assumes "refs_shape H t B fs"
  shows "0 < length (rnodes t)" "length (rbuckets t) = length (rnodes t)"
    "in_buckets (next_ref t) (ref_place H t) (rbuckets t) B" "chain (next_ref t) (freelist t) fs" "distinct fs"
    "set fs \<inter> ref_members t B = {}" "set fs \<union> ref_members t B = {..< length (rnodes t)}"
    "rslotused t = card (ref_members t B)"
    "\<forall>f \<in> set fs. is_null (robj (rnodes t ! f)) \<and> rcount (rnodes t ! f) = 0"
    "\<forall>f \<in> ref_members t B. \<not> is_null (robj (rnodes t ! f))"
  using assms unfolding refs_shape_def by blast+

lemma refs_relD:
  assumes "refs_rel H t B fs m"
  shows "refs_shape H t B fs" "inj_on (\<lambda>f. robj (rnodes t ! f)) (ref_members t B)"
    "f \<in> ref_members t B \<Longrightarrow> m (robj (rnodes t ! f)) = Some (rcount (rnodes t ! f))"
    "dom m = (\<lambda>f. robj (rnodes t ! f)) ` ref_members t B"
  using assms unfolding refs_rel_def by blast+

lemma free_and_used:
  assumes "refs_shape H t B fs"
  shows "length fs + rslotused t = length (rnodes t)"
proof -
  have "card (set fs \<union> ref_members t B) = card (set fs) + card (ref_members t B)"
    using refs_shapeD(6) [OF assms] by (simp add: card_Un_disjoint)
  then show ?thesis using refs_shapeD(5,7,8) [OF assms] by (simp add: distinct_card)
qed

lemma alloc_rel:
  assumes "0 < n"
  shows "refs_rel H (refs_AllocNodes n) (\<lambda>_. []) [0 ..< n] Map.empty"
proof -
  have "chain (next_ref (refs_AllocNodes n)) (Some k) [k ..< n]" if "k < n" for k
    using that
  proof (induction "n - k" arbitrary: k)
    case (Suc d)
    have node: "rnodes (refs_AllocNodes n) ! k = \<lparr>robj = null_object, rcount = 0, rnext = if k < n - 1 then Some (Suc k) else None\<rparr>"
      using Suc.prems by (simp add: refs_AllocNodes_def)
    show ?case
    proof (cases "k < n - 1")
      case True
      then show ?thesis using Suc.hyps(1) [of "Suc k"] Suc.hyps(2) Suc.prems node by (simp add: upt_conv_Cons)
    next
      case False
      then have "[k ..< n] = [k]" using Suc.prems by (simp add: upt_conv_Cons)
      then show ?thesis using False node by simp
    qed
  qed simp
  from this [OF assms] show ?thesis
    using assms by (auto simp: refs_rel_def refs_shape_def refs_AllocNodes_def no_buckets)
qed

lemma search_found:
  assumes "chain (\<lambda>i. rnext (ns ! i)) p (ys @ f # zs)" "\<forall>y \<in> set ys. robj (ns ! y) \<noteq> robj (ns ! f)"
  shows "refs_search ns (robj (ns ! f)) prev p = Some (if ys = [] then prev else Some (List.last ys), Some f)"
  using assms
proof (induction ys arbitrary: p prev)
  case Nil
  then show ?case by (simp add: refs_search.simps [of ns _ prev "Some f"])
next
  case (Cons y ys)
  then have "p = Some y" "chain (\<lambda>i. rnext (ns ! i)) (rnext (ns ! y)) (ys @ f # zs)" "robj (ns ! y) \<noteq> robj (ns ! f)" by auto
  then show ?case using Cons.IH [of "rnext (ns ! y)" "Some y"] Cons.prems(2) by (simp add: refs_search.simps [of ns _ prev "Some y"])
qed

lemma search_absent:
  assumes "chain (\<lambda>i. rnext (ns ! i)) p ys" "\<forall>y \<in> set ys. robj (ns ! y) \<noteq> ob"
  shows "\<exists>q. refs_search ns ob prev p = Some (q, None)"
  using assms
proof (induction ys arbitrary: p prev)
  case Nil
  then show ?case by (simp add: refs_search.simps)
next
  case (Cons y ys)
  then show ?case by (simp add: refs_search.simps [of ns ob prev "Some y"])
qed

text \<open>The search in a table.\<close>

lemma table_search:
  assumes "refs_rel H t B fs m" "length (rnodes t) < 2 ^ 63"
  defines "h \<equiv> \<lambda>ob. main_place H (length (rnodes t)) ob"
  shows "m ob = Some c \<Longrightarrow> \<exists>ys f zs. B (h ob) = ys @ f # zs \<and> robj (rnodes t ! f) = ob \<and> rcount (rnodes t ! f) = c \<and>
      f \<in> ref_members t B \<and>
      refs_search (rnodes t) ob None (rbuckets t ! h ob) = Some (if ys = [] then None else Some (List.last ys), Some f)"
    "m ob = None \<Longrightarrow> \<exists>q. refs_search (rnodes t) ob None (rbuckets t ! h ob) = Some (q, None)"
proof -
  note sh = refs_shapeD [OF refs_relD(1) [OF assms(1)]] and rel = refs_relD [OF assms(1)]
  have h: "h ob < length (rbuckets t)" for ob using main_place_less [OF sh(1) assms(2)] sh(2) by (simp add: h_def)
  have c: "chain (next_ref t) (rbuckets t ! h ob) (B (h ob))" "distinct (B (h ob))" "set (B (h ob)) \<subseteq> ref_members t B" for ob
    using sh(3) h by (auto simp: in_buckets_def bucket_members_def)
  show "\<exists>q. refs_search (rnodes t) ob None (rbuckets t ! h ob) = Some (q, None)" if "m ob = None"
  proof (rule search_absent [OF c(1)])
    show "\<forall>y \<in> set (B (h ob)). robj (rnodes t ! y) \<noteq> ob" using that rel(3) c(3) [of ob] by fastforce
  qed
  assume some: "m ob = Some c"
  then have "ob \<in> (\<lambda>f. robj (rnodes t ! f)) ` ref_members t B" using rel(4) by blast
  then obtain f where f: "f \<in> ref_members t B" "robj (rnodes t ! f) = ob" by blast
  then have "f \<in> set (B (h ob))" using members_at(2) [OF sh(3)] by (auto simp: h_def)
  then obtain ys zs where B: "B (h ob) = ys @ f # zs" "f \<notin> set ys" by (meson split_list_first)
  have "\<forall>y \<in> set ys. robj (rnodes t ! y) \<noteq> robj (rnodes t ! f)"
    using rel(2) f(1) B c(3) [of ob] by (auto simp: inj_on_def)
  then have "refs_search (rnodes t) ob None (rbuckets t ! h ob) = Some (if ys = [] then None else Some (List.last ys), Some f)"
    using search_found [of "rnodes t" "rbuckets t ! h ob" ys f zs None] c(1) [of ob] B(1) f(2) by simp
  then show "\<exists>ys f zs. B (h ob) = ys @ f # zs \<and> robj (rnodes t ! f) = ob \<and> rcount (rnodes t ! f) = c \<and> f \<in> ref_members t B \<and>
      refs_search (rnodes t) ob None (rbuckets t ! h ob) = Some (if ys = [] then None else Some (List.last ys), Some f)"
    using B(1) f rel(3) [OF f(1)] some by auto
qed

end
