(* ===== verification/Sq_Refs_Run.thy ===== *)
theory Sq_Refs_Run
  imports Sq_Refs
begin

text \<open>
  What the table of references promises the host over a run of calls: it keeps, for every object,
  how often it is held, and an object leaves it with the last release.
\<close>

section \<open>Nodes coming and going\<close>

lemma add_rel:
  assumes "refs_rel H t B (f # fs) m" "\<not> is_null ob" "m ob = None" "length (rnodes t) < 2 ^ 63"
  defines "h \<equiv> main_place H (length (rnodes t)) ob"
  shows "\<exists>u. refs_Add h ob t = Inr (f, u) \<and> refs_rel H u (B(h := f # B h)) fs (m(ob \<mapsto> 0)) \<and>
     f \<in> ref_members u (B(h := f # B h)) \<and> robj (rnodes u ! f) = ob \<and> rcount (rnodes u ! f) = 0 \<and>
     length (rnodes u) = length (rnodes t)"
proof -
  note rel = refs_relD [OF assms(1)]
  note sh = refs_shapeD [OF rel(1)]
  let ?nd = "rnodes t ! f"
  define u where "u = t\<lparr>rnodes := (rnodes t)[f := ?nd\<lparr>robj := ob, rnext := rbuckets t ! h\<rparr>],
    rbuckets := (rbuckets t)[h := Some f], freelist := rnext ?nd, rslotused := rslotused t + 1\<rparr>"
  have h: "h < length (rbuckets t)" using main_place_less [OF sh(1) assms(4)] sh(2) by (simp add: h_def)
  have f: "f < length (rnodes t)" "f \<notin> ref_members t B" "f \<notin> set fs" "rcount ?nd = 0" "freelist t = Some f"
    "chain (next_ref t) (rnext ?nd) fs"
    using sh(4-7,9) by auto
  have add: "refs_Add h ob t = Inr (f, u)" using f(4,5) by (simp add: refs_Add_def Let_def u_def)
  have len: "length (rnodes u) = length (rnodes t)" "length (rbuckets u) = length (rbuckets t)" by (simp_all add: u_def)
  have nodes: "rnodes u ! i = (if i = f then ?nd\<lparr>robj := ob, rnext := rbuckets t ! h\<rparr> else rnodes t ! i)" for i
    using f(1) by (simp add: u_def)
  have nx: "next_ref u = (next_ref t)(f := rbuckets t ! h)" by (auto simp: nodes)
  have pl: "ref_place H u f = h" "\<forall>b \<in> ref_members t B. ref_place H u b = ref_place H t b"
    using f(2) by (auto simp: nodes len(1) h_def)
  have rb: "rbuckets u = (rbuckets t)[h := Some f]" by (simp add: u_def)
  note push = buckets_push [OF sh(3) h f(2) nx pl]
  have B: "in_buckets (next_ref u) (ref_place H u) (rbuckets u) (B(h := f # B h))"
    "ref_members u (B(h := f # B h)) = insert f (ref_members t B)"
    unfolding len(2) using push unfolding rb by simp_all
  have new: "ob \<noteq> robj (rnodes t ! g)" if "g \<in> ref_members t B" for g using rel(3) [OF that] assms(3) by auto
  have "\<forall>x \<in> set fs. next_ref u x = next_ref t x" using f(3) by (auto simp: nodes)
  from chain_frame [OF this, of "freelist u"] have "chain (next_ref u) (freelist u) fs"
    using f(6) by (simp add: u_def)
  then have "refs_shape H u (B(h := f # B h)) fs"
    unfolding refs_shape_def B(2)
    using B(1) len sh(1,2,5-10) f(1-3) assms(2) by (auto simp: nodes, simp_all add: u_def)
  moreover have "inj_on (\<lambda>g. robj (rnodes u ! g)) (insert f (ref_members t B))"
    using rel(2) new f(2) by (auto simp: inj_on_def nodes)
  moreover have "\<forall>g \<in> insert f (ref_members t B). (m(ob \<mapsto> 0)) (robj (rnodes u ! g)) = Some (rcount (rnodes u ! g))"
    using rel(3) new f(2,4) by (auto simp: nodes)
  moreover have "dom (m(ob \<mapsto> 0)) = (\<lambda>g. robj (rnodes u ! g)) ` insert f (ref_members t B)"
    using rel(4) f(2) by (auto simp: nodes image_iff)
  ultimately have "refs_rel H u (B(h := f # B h)) fs (m(ob \<mapsto> 0))" unfolding refs_rel_def B(2) by blast
  then show ?thesis using add B(2) len f(4) by (intro exI [of _ u]) (simp add: nodes)
qed

lemma count_rel:
  assumes "refs_rel H t B fs m" "f \<in> ref_members t B"
  shows "refs_rel H (set_count f c t) B fs (m(robj (rnodes t ! f) \<mapsto> c))"
    "rnodes (set_count f c t) ! f = (rnodes t ! f)\<lparr>rcount := c\<rparr>"
    "length (rnodes (set_count f c t)) = length (rnodes t)" "ref_members (set_count f c t) B = ref_members t B"
proof -
  note rel = refs_relD [OF assms(1)]
  note sh = refs_shapeD [OF rel(1)]
  let ?u = "set_count f c t"
  have f: "f < length (rnodes t)" "f \<notin> set fs" using assms(2) sh(6,7) by blast+
  have nodes: "rnodes ?u ! i = (if i = f then (rnodes t ! f)\<lparr>rcount := c\<rparr> else rnodes t ! i)" for i
    using f(1) by (simp add: set_count_def)
  show "rnodes ?u ! f = (rnodes t ! f)\<lparr>rcount := c\<rparr>" "length (rnodes ?u) = length (rnodes t)" "ref_members ?u B = ref_members t B"
    by (simp_all add: nodes) (simp_all add: set_count_def)
  have same: "next_ref ?u = next_ref t" "robj (rnodes ?u ! i) = robj (rnodes t ! i)" for i by (auto simp: nodes)
  have keep: "length (rnodes ?u) = length (rnodes t)" "rbuckets ?u = rbuckets t" "freelist ?u = freelist t" "rslotused ?u = rslotused t"
    by (simp_all add: set_count_def)
  have "\<forall>g \<in> set fs. is_null (robj (rnodes t ! g)) \<and> rcount (rnodes ?u ! g) = 0" using sh(9) f(2) by (auto simp: nodes)
  then have "refs_shape H ?u B fs" unfolding refs_shape_def same keep by (intro conjI sh)
  moreover have "\<forall>g \<in> ref_members t B. (m(robj (rnodes t ! f) \<mapsto> c)) (robj (rnodes t ! g)) = Some (rcount (rnodes ?u ! g))"
    using rel(2,3) assms(2) by (auto simp: nodes inj_on_def)
  moreover have "dom (m(robj (rnodes t ! f) \<mapsto> c)) = (\<lambda>g. robj (rnodes t ! g)) ` ref_members t B"
    using rel(4) assms(2) by auto
  ultimately show "refs_rel H ?u B fs (m(robj (rnodes t ! f) \<mapsto> c))"
    using rel(2) unfolding refs_rel_def same by (simp add: set_count_def)
qed

section \<open>Resizing\<close>

definition node_counts :: "ref_node list \<Rightarrow> (sqobject \<rightharpoonup> u64)" where
  "node_counts ns = map_of (map (\<lambda>nd. (robj nd, rcount nd)) ns)"

lemma readd_rel:
  assumes "refs_rel H t B fs m" "length (rnodes t) < 2 ^ 63" "length ns \<le> length fs" "distinct (map robj ns)"
    and "\<forall>nd \<in> set ns. \<not> is_null (robj nd) \<and> rcount nd \<noteq> 0 \<and> m (robj nd) = None"
  shows "\<exists>u B' fs'. refs_readd H ns t = Inr u \<and> refs_rel H u B' fs' (m ++ node_counts ns) \<and>
     length (rnodes u) = length (rnodes t) \<and> length fs' = length fs - length ns"
  using assms
proof (induction ns arbitrary: t B fs m)
  case Nil
  then show ?case by (auto simp: node_counts_def)
next
  case (Cons old ns)
  let ?h = "main_place H (length (rnodes t)) (robj old)"
  obtain f fs1 where fs: "fs = f # fs1" using Cons.prems(3) by (cases fs) auto
  have old: "\<not> is_null (robj old)" "rcount old \<noteq> 0" "m (robj old) = None" using Cons.prems(5) by simp_all
  obtain u where u: "refs_Add ?h (robj old) t = Inr (f, u)" "refs_rel H u (B(?h := f # B ?h)) fs1 (m(robj old \<mapsto> 0))"
    "f \<in> ref_members u (B(?h := f # B ?h))" "robj (rnodes u ! f) = robj old" "length (rnodes u) = length (rnodes t)"
    using add_rel [OF Cons.prems(1) [unfolded fs] old(1,3) Cons.prems(2)] by blast
  let ?v = "set_count f (rcount old) u" and ?m = "m(robj old \<mapsto> rcount old)"
  have v: "refs_rel H ?v (B(?h := f # B ?h)) fs1 ?m" using count_rel(1) [OF u(2,3), of "rcount old"] u(4) by simp
  have len: "length (rnodes ?v) = length (rnodes t)" using u(5) by (simp add: set_count_def)
  have ns: "\<forall>nd \<in> set ns. \<not> is_null (robj nd) \<and> rcount nd \<noteq> 0 \<and> ?m (robj nd) = None" using Cons.prems(4,5) by (auto simp: image_iff)
  have side: "length (rnodes ?v) < 2 ^ 63" "length ns \<le> length fs1" "distinct (map robj ns)"
    using Cons.prems(2-4) len fs by simp_all
  obtain w B' fs' where w: "refs_readd H ns ?v = Inr w" "refs_rel H w B' fs' (?m ++ node_counts ns)"
    "length (rnodes w) = length (rnodes t)" "length fs' = length fs1 - length ns"
    using Cons.IH [OF v side ns] unfolding len by blast
  have "?m ++ node_counts ns = m ++ node_counts (old # ns)"
  proof -
    have "robj old \<notin> dom (node_counts ns)" using Cons.prems(4) by (simp add: node_counts_def dom_map_of_conv_image_fst image_image)
    then show ?thesis by (auto simp: node_counts_def map_add_def fun_eq_iff split: option.splits)
  qed
  then show ?case using w u(1) old(1,2) fs by auto
qed

lemma resize_rel:
  assumes "refs_rel H t B fs m" "2 * length (rnodes t) < 2 ^ 63" "rslotused t = length (rnodes t)" "0 \<notin> ran m"
  shows "\<exists>u B' fs'. refs_Resize H (length (rnodes t) * 2) t = Inr u \<and> refs_rel H u B' fs' m \<and>
     length (rnodes u) = 2 * length (rnodes t) \<and> fs' \<noteq> []"
proof -
  let ?n = "length (rnodes t)"
  note rel = refs_relD [OF assms(1)]
  note sh = refs_shapeD [OF rel(1)]
  have "fs = []" using free_and_used [OF rel(1)] assms(3) by simp
  then have all: "ref_members t B = {..< ?n}" using sh(7) by simp
  have obj: "robj ` set (rnodes t) = (\<lambda>f. robj (rnodes t ! f)) ` {..< ?n}" "\<forall>nd \<in> set (rnodes t). \<exists>f < ?n. nd = rnodes t ! f"
    by (auto simp: set_conv_nth)
  have dist: "distinct (map robj (rnodes t))" using rel(2) unfolding all by (auto simp: distinct_conv_nth inj_on_def)
  have cond: "\<forall>nd \<in> set (rnodes t). \<not> is_null (robj nd) \<and> rcount nd \<noteq> 0"
  proof
    fix nd assume "nd \<in> set (rnodes t)"
    then obtain f where f: "f < ?n" "nd = rnodes t ! f" using obj(2) by blast
    then have "m (robj nd) = Some (rcount nd)" "\<not> is_null (robj nd)" using rel(3) [of f] sh(10) all by auto
    then show "\<not> is_null (robj nd) \<and> rcount nd \<noteq> 0" using assms(4) by (metis ranI)
  qed
  obtain u B' fs' where u: "refs_readd H (rnodes t) (refs_AllocNodes (?n * 2)) = Inr u" "refs_rel H u B' fs' (Map.empty ++ node_counts (rnodes t))"
    "length (rnodes u) = length (rnodes (refs_AllocNodes (?n * 2)))" "length fs' = length [0 ..< ?n * 2] - ?n"
    using readd_rel [OF alloc_rel [of "?n * 2" H] _ _ dist] cond sh(1) assms(2) by (force simp: refs_AllocNodes_def)
  have d: "dom m = robj ` set (rnodes t)" using rel(4) unfolding all obj(1) .
  have "node_counts (rnodes t) ob = m ob" for ob
  proof (cases "m ob")
    case None
    then have "ob \<notin> robj ` set (rnodes t)" unfolding d [symmetric] by (simp add: domIff)
    then show ?thesis using None by (simp add: node_counts_def map_of_eq_None_iff image_image)
  next
    case (Some c)
    then obtain f where f: "f < ?n" "robj (rnodes t ! f) = ob" "rcount (rnodes t ! f) = c"
      using rel(3,4) all by (metis (no_types, lifting) domI imageE lessThan_iff option.inject)
    then have "(ob, c) \<in> set (map (\<lambda>nd. (robj nd, rcount nd)) (rnodes t))" by (force simp: set_conv_nth)
    then show ?thesis using Some dist by (auto simp: node_counts_def comp_def intro: map_of_is_SomeI)
  qed
  then have m: "Map.empty ++ node_counts (rnodes t) = m" by auto
  have "filter (\<lambda>nd. \<not> is_null (robj nd)) (rnodes t) = rnodes t" using cond by simp
  then have "refs_Resize H (?n * 2) t = Inr u" using u(1) by (simp add: refs_Resize_def)
  moreover have "fs' \<noteq> []" using u(4) sh(1) by auto
  ultimately show ?thesis using u(2,3) unfolding m by (auto simp: refs_AllocNodes_def)
qed

section \<open>Looking up\<close>

lemma get_known:
  assumes "refs_rel H t B fs m" "length (rnodes t) < 2 ^ 63" "m ob = Some c"
  defines "h \<equiv> main_place H (length (rnodes t)) ob"
  shows "\<exists>ys f zs. refs_Get H ob add t = Some (Inr (h, if ys = [] then None else Some (List.last ys), Some f, t)) \<and>
     B h = ys @ f # zs \<and> robj (rnodes t ! f) = ob \<and> rcount (rnodes t ! f) = c \<and> f \<in> ref_members t B"
proof -
  obtain ys f zs where f: "B h = ys @ f # zs" "robj (rnodes t ! f) = ob" "rcount (rnodes t ! f) = c" "f \<in> ref_members t B"
    "refs_search (rnodes t) ob None (rbuckets t ! h) = Some (if ys = [] then None else Some (List.last ys), Some f)"
    using table_search(1) [OF assms(1-3)] unfolding h_def by blast
  have "refs_Get H ob add t = Some (Inr (h, if ys = [] then None else Some (List.last ys), Some f, t))"
    unfolding refs_Get_def Let_def h_def [symmetric] f(5) by simp
  then show ?thesis using f by blast
qed

lemma get_new:
  assumes "refs_rel H t B fs m" "2 * length (rnodes t) < 2 ^ 63" "m ob = None" "\<not> is_null ob"
    and "rslotused t = length (rnodes t) \<Longrightarrow> 0 \<notin> ran m"
  shows "\<exists>mp pv f u B' fs'. refs_Get H ob True t = Some (Inr (mp, pv, Some f, u)) \<and> refs_rel H u B' fs' (m(ob \<mapsto> 0)) \<and>
     f \<in> ref_members u B' \<and> robj (rnodes u ! f) = ob \<and> rcount (rnodes u ! f) = 0 \<and>
     length (rnodes u) \<le> max (length (rnodes t)) (2 * rslotused t)"
proof -
  have len: "length (rnodes t) < 2 ^ 63" using assms(2) by simp
  obtain q where q: "refs_search (rnodes t) ob None (rbuckets t ! main_place H (length (rnodes t)) ob) = Some (q, None)"
    using table_search(2) [OF assms(1) len assms(3)] by blast
  note free = free_and_used [OF refs_relD(1) [OF assms(1)]]
  show ?thesis
  proof (cases "rslotused t = length (rnodes t)")
    case True
    then have "fs = []" using free by simp
    then have fl: "freelist t = None" using refs_shapeD(4) [OF refs_relD(1) [OF assms(1)]] by simp
    obtain u B1 fs1 where u: "refs_Resize H (length (rnodes t) * 2) t = Inr u" "refs_rel H u B1 fs1 m"
      "length (rnodes u) = 2 * length (rnodes t)" "fs1 \<noteq> []"
      using resize_rel [OF assms(1,2) True assms(5) [OF True]] by blast
    obtain f fs2 where fs1: "fs1 = f # fs2" using u(4) by (cases fs1) auto
    have "length (rnodes u) < 2 ^ 63" using u(3) assms(2) by simp
    from add_rel [OF u(2) [unfolded fs1] assms(4,3) this] obtain v B2 where
      v: "refs_Add (main_place H (length (rnodes u)) ob) ob u = Inr (f, v)" "refs_rel H v B2 fs2 (m(ob \<mapsto> 0))"
        "f \<in> ref_members v B2" "robj (rnodes v ! f) = ob" "rcount (rnodes v ! f) = 0" "length (rnodes v) = length (rnodes u)"
      by blast
    have "refs_Get H ob True t = Some (Inr (main_place H (length (rnodes u)) ob, q, Some f, v))"
      unfolding refs_Get_def Let_def q using True fl u(1) v(1) by simp
    then show ?thesis using v u(3) True by (metis max.cobounded2)
  next
    case False
    then obtain f fs2 where fs: "fs = f # fs2" using free by (cases fs) auto
    from add_rel [OF assms(1) [unfolded fs] assms(4,3) len] obtain v B2 where
      v: "refs_Add (main_place H (length (rnodes t)) ob) ob t = Inr (f, v)" "refs_rel H v B2 fs2 (m(ob \<mapsto> 0))"
        "f \<in> ref_members v B2" "robj (rnodes v ! f) = ob" "rcount (rnodes v ! f) = 0" "length (rnodes v) = length (rnodes t)"
      by blast
    have "refs_Get H ob True t = Some (Inr (main_place H (length (rnodes t)) ob, q, Some f, v))"
      unfolding refs_Get_def Let_def q using False v(1) by simp
    then show ?thesis using v by (metis max.cobounded1)
  qed
qed

section \<open>Releasing\<close>

lemma free_rel:
  assumes "refs_rel H t B fs m" "h < length (rbuckets t)" "B h = ys @ f # zs" "rcount (rnodes t ! f) = 0"
  defines "u \<equiv> free_ref h (if ys = [] then None else Some (List.last ys)) f t"
  shows "refs_rel H u (B(h := ys @ zs)) (f # fs) (m(robj (rnodes t ! f) := None))" "length (rnodes u) = length (rnodes t)"
    "rslotused u = rslotused t - 1"
proof -
  note rel = refs_relD [OF assms(1)]
  note sh = refs_shapeD [OF rel(1)]
  let ?M = "ref_members t B" and ?n = "length (rnodes t)"
  have sub: "set (B h) \<subseteq> ?M" "distinct (B h)" using sh(3) assms(2) by (auto simp: in_buckets_def bucket_members_def)
  have f: "f \<in> ?M" "f < ?n" "f \<notin> set fs" using sub(1) assms(3) sh(6,7) by auto
  have lst: "List.last ys \<in> ?M" "List.last ys < ?n" "List.last ys \<noteq> f" if "ys \<noteq> []"
  proof -
    have l: "List.last ys \<in> set ys" using that by simp
    then show "List.last ys \<in> ?M" "List.last ys \<noteq> f" using sub assms(3) by auto
    then show "List.last ys < ?n" using sh(7) by auto
  qed
  have nodes: "rnodes u ! i = (if i = f then (rnodes t ! f)\<lparr>rnext := freelist t, robj := null_object\<rparr>
      else if ys \<noteq> [] \<and> i = List.last ys then (rnodes t ! i)\<lparr>rnext := rnext (rnodes t ! f)\<rparr> else rnodes t ! i)" for i
    using f(2) lst by (auto simp: u_def free_ref_def Let_def)
  show len: "length (rnodes u) = ?n" "rslotused u = rslotused t - 1" by (auto simp: u_def free_ref_def Let_def)
  have rb: "rbuckets u = (if ys = [] then (rbuckets t)[h := rnext (rnodes t ! f)] else rbuckets t)"
    by (auto simp: u_def free_ref_def Let_def)
  have rl: "length (rbuckets u) = length (rbuckets t)" by (simp add: rb)
  have M: "ref_members u (B(h := ys @ zs)) = ?M - {f}" unfolding rl by (rule members_unlink [OF sh(3) assms(2,3)])
  have same: "robj (rnodes u ! g) = robj (rnodes t ! g)" "rcount (rnodes u ! g) = rcount (rnodes t ! g)" if "g \<noteq> f" for g
    using that by (simp_all add: nodes)
  have "in_buckets (next_ref u) (ref_place H u) (rbuckets u) (B(h := ys @ zs))"
  proof (rule buckets_unlink [OF sh(3) assms(2,3)])
    show "length (rbuckets u) = length (rbuckets t)" by (rule rl)
    show "rbuckets u = (rbuckets t)[h := next_ref t f] \<and> (\<forall>a \<in> ?M - {f}. next_ref u a = next_ref t a)" if "ys = []"
      using that by (simp add: rb nodes)
    show "rbuckets u = rbuckets t \<and> next_ref u (List.last ys) = next_ref t f \<and>
        (\<forall>a \<in> ?M - {f, List.last ys}. next_ref u a = next_ref t a)" if "ys \<noteq> []"
      using that lst by (simp add: rb nodes)
    show "\<forall>a \<in> ?M - {f}. ref_place H u a = ref_place H t a" using same(1) len(1) by simp
  qed
  moreover have "chain (next_ref u) (freelist u) (f # fs)"
  proof -
    have "\<forall>x \<in> set fs. next_ref u x = next_ref t x"
    proof
      fix x assume x: "x \<in> set fs"
      then have "x \<noteq> f" "ys \<noteq> [] \<Longrightarrow> x \<noteq> List.last ys" using f(3) lst(1) sh(6) by auto
      then show "next_ref u x = next_ref t x" by (auto simp: nodes)
    qed
    from chain_frame [OF this, of "freelist t"] have "chain (next_ref u) (freelist t) fs" using sh(4) by simp
    moreover have "freelist u = Some f" by (simp add: u_def free_ref_def Let_def)
    ultimately show ?thesis by (simp add: nodes)
  qed
  moreover have "set (f # fs) \<inter> (?M - {f}) = {}" "set (f # fs) \<union> (?M - {f}) = {..< ?n}" using sh(6,7) f(1) by auto
  moreover have "rslotused u = card (?M - {f})" using len(2) sh(8) f(1) by simp
  moreover have "\<forall>g \<in> set (f # fs). is_null (robj (rnodes u ! g)) \<and> rcount (rnodes u ! g) = 0"
  proof
    fix g assume g: "g \<in> set (f # fs)"
    show "is_null (robj (rnodes u ! g)) \<and> rcount (rnodes u ! g) = 0"
      using g same [of g] sh(9) assms(4) by (cases "g = f") (auto simp: nodes)
  qed
  moreover have "\<forall>g \<in> ?M - {f}. \<not> is_null (robj (rnodes u ! g))" using sh(10) same by auto
  moreover have "length (rbuckets u) = ?n" using rl sh(2) by simp
  ultimately have shape: "refs_shape H u (B(h := ys @ zs)) (f # fs)"
    unfolding refs_shape_def M len(1) using sh(1,5) f(3) by simp
  have ne: "robj (rnodes t ! g) \<noteq> robj (rnodes t ! f)" if "g \<in> ?M - {f}" for g
    using rel(2) that f(1) by (auto simp: inj_on_def)
  have "inj_on (\<lambda>g. robj (rnodes u ! g)) (?M - {f})" using rel(2) same by (auto simp: inj_on_def)
  moreover have "\<forall>g \<in> ?M - {f}. (m(robj (rnodes t ! f) := None)) (robj (rnodes u ! g)) = Some (rcount (rnodes u ! g))"
    using ne same rel(3) by auto
  moreover have "dom (m(robj (rnodes t ! f) := None)) = (\<lambda>g. robj (rnodes u ! g)) ` (?M - {f})"
  proof -
    have "(\<lambda>g. robj (rnodes u ! g)) ` (?M - {f}) = (\<lambda>g. robj (rnodes t ! g)) ` (?M - {f})" using same by (intro image_cong) auto
    also have "\<dots> = (\<lambda>g. robj (rnodes t ! g)) ` ?M - {robj (rnodes t ! f)}" using ne by auto
    finally show ?thesis using rel(4) by (simp add: dom_fun_upd)
  qed
  ultimately show "refs_rel H u (B(h := ys @ zs)) (f # fs) (m(robj (rnodes t ! f) := None))"
    using shape unfolding refs_rel_def M by blast
qed

end
