(* ===== verification/Sq_Refs_Spec.thy ===== *)
theory Sq_Refs_Spec
  imports Sq_Refs_Run
begin

text \<open>
  The contract of the host's references: a count for every object that is held, whatever buckets and
  free nodes the table keeps them in.
\<close>

datatype ref_op = Hold sqobject | Count sqobject | Unhold sqobject

datatype ref_result = Held | Counted u64 | Released bool

definition ref_step :: "sqheap \<Rightarrow> ref_op \<Rightarrow> ref_table \<Rightarrow> (ref_result \<times> ref_table) res option" where
  "ref_step H p t =
     (case p of
        Hold ob \<Rightarrow> map_option (map_sum id (Pair Held)) (sq_addref H ob t)
      | Count ob \<Rightarrow> map_option (map_sum id (map_prod Counted id)) (sq_getrefcount H ob t)
      | Unhold ob \<Rightarrow> map_option (map_sum id (map_prod Released id)) (sq_release H ob t))"

primrec ref_steps :: "sqheap \<Rightarrow> ref_op list \<Rightarrow> ref_table \<Rightarrow> (ref_result list \<times> ref_table) res option" where
  "ref_steps H [] t = Some (Inr ([], t))"
| "ref_steps H (p # ps) t =
     run_then (ref_step H p t) (\<lambda>(r, u). run_then (ref_steps H ps u) (\<lambda>(rs, v). Some (Inr (r # rs, v))))"

text \<open>Only objects that are held may be released or asked for.\<close>

definition ref_spec :: "ref_op \<Rightarrow> (sqobject \<rightharpoonup> nat) \<Rightarrow> (ref_result \<times> (sqobject \<rightharpoonup> nat)) option" where
  "ref_spec p m =
     (case p of
        Hold ob \<Rightarrow> Some (Held, if is_refcounted (o_type ob) then m(ob \<mapsto> case m ob of None \<Rightarrow> 1 | Some c \<Rightarrow> c + 1) else m)
      | Count ob \<Rightarrow> if is_refcounted (o_type ob) then map_option (\<lambda>c. (Counted (of_nat c), m)) (m ob) else Some (Counted 0, m)
      | Unhold ob \<Rightarrow>
          if is_refcounted (o_type ob)
          then map_option (\<lambda>c. (Released (c = 1), m(ob := if c = 1 then None else Some (c - 1)))) (m ob)
          else Some (Released True, m))"

primrec ref_specs :: "ref_op list \<Rightarrow> (sqobject \<rightharpoonup> nat) \<Rightarrow> (ref_result list \<times> (sqobject \<rightharpoonup> nat)) option" where
  "ref_specs [] m = Some ([], m)"
| "ref_specs (p # ps) m =
     (case ref_spec p m of
        None \<Rightarrow> None
      | Some (r, n) \<Rightarrow> map_option (\<lambda>(rs, l). (r # rs, l)) (ref_specs ps n))"

definition held :: "sqheap \<Rightarrow> ref_table \<Rightarrow> sqobject \<Rightarrow> u64 option" where
  "held H t ob =
     (case refs_Get H ob False t of
        Some (Inr (_, _, Some f, _)) \<Rightarrow> Some (rcount (rnodes t ! f))
      | _ \<Rightarrow> None)"

definition word_counts :: "(sqobject \<rightharpoonup> nat) \<Rightarrow> (sqobject \<rightharpoonup> u64)" where
  "word_counts m = (\<lambda>ob. map_option of_nat (m ob))"

definition holds_refs :: "sqheap \<Rightarrow> nat \<Rightarrow> ref_table \<Rightarrow> (sqobject \<rightharpoonup> nat) \<Rightarrow> bool" where
  "holds_refs H k t m \<longleftrightarrow>
     (\<exists>B fs. refs_rel H t B fs (word_counts m)) \<and> (\<forall>ob c. m ob = Some c \<longrightarrow> 0 < c \<and> c \<le> k) \<and>
     rslotused t \<le> k \<and> length (rnodes t) \<le> 4 + 2 * k"

lemma refcounted_not_null: "is_refcounted (o_type ob) \<Longrightarrow> \<not> is_null ob"
  by (auto simp: is_null_def)

lemma word_counts_upd [simp]:
  "word_counts (m(ob \<mapsto> c)) = (word_counts m)(ob \<mapsto> of_nat c)" "word_counts (m(ob := None)) = (word_counts m)(ob := None)"
  by (auto simp: word_counts_def)

lemma holds_refsD:
  assumes "holds_refs H k t m" "k < 2 ^ 60"
  shows "2 * length (rnodes t) < 2 ^ 63" "length (rnodes t) < 2 ^ 63" "0 \<notin> ran (word_counts m)" "rslotused t = card (dom m)"
proof -
  show "2 * length (rnodes t) < 2 ^ 63" "length (rnodes t) < 2 ^ 63" using assms by (auto simp: holds_refs_def)
  have "(of_nat c :: u64) \<noteq> 0" if "m ob = Some c" for ob c
  proof -
    have "0 < c" "c \<le> k" using assms(1) that by (auto simp: holds_refs_def)
    then have "c < 2 ^ 60" using assms(2) by simp
    then show ?thesis using \<open>0 < c\<close> by (auto simp: word_of_nat_eq_0_iff dest: dvd_imp_le)
  qed
  then show "0 \<notin> ran (word_counts m)" by (auto simp: word_counts_def ran_def)
  obtain B fs where B: "refs_rel H t B fs (word_counts m)" using assms(1) by (auto simp: holds_refs_def)
  have "card (dom (word_counts m)) = card (ref_members t B)"
    using refs_relD(2,4) [OF B] by (simp add: card_image)
  moreover have "dom (word_counts m) = dom m" by (auto simp: word_counts_def)
  ultimately show "rslotused t = card (dom m)" using refs_shapeD(8) [OF refs_relD(1) [OF B]] by simp
qed

lemma held_iff:
  assumes "holds_refs H k t m" "k < 2 ^ 60"
  shows "held H t ob = word_counts m ob"
proof -
  obtain B fs where B: "refs_rel H t B fs (word_counts m)" using assms(1) by (auto simp: holds_refs_def)
  note len = holds_refsD(2) [OF assms]
  show ?thesis
  proof (cases "word_counts m ob")
    case None
    then show ?thesis using table_search(2) [OF B len None] by (auto simp: held_def refs_Get_def Let_def)
  next
    case (Some c)
    then show ?thesis using get_known [OF B len Some, of False] by (auto simp: held_def)
  qed
qed

lemma hold_run:
  assumes "holds_refs H k t m" "k < 2 ^ 60" "is_refcounted (o_type ob)"
  shows "\<exists>u. refs_AddRef H ob t = Some (Inr u) \<and> holds_refs H (Suc k) u (m(ob \<mapsto> case m ob of None \<Rightarrow> 1 | Some c \<Rightarrow> c + 1))"
proof -
  obtain B fs where B: "refs_rel H t B fs (word_counts m)" using assms(1) by (auto simp: holds_refs_def)
  note k = holds_refsD [OF assms(1,2)]
  have bounds: "\<forall>ob c. m ob = Some c \<longrightarrow> 0 < c \<and> c \<le> k" "rslotused t \<le> k" "length (rnodes t) \<le> 4 + 2 * k"
    using assms(1) by (auto simp: holds_refs_def)
  define c where "c = (case m ob of None \<Rightarrow> 0 | Some c \<Rightarrow> c)"
  have new: "(case m ob of None \<Rightarrow> 1 | Some c \<Rightarrow> c + 1) = c + 1" by (simp add: c_def split: option.splits)
  have "\<exists>mp pv f u B' fs'. refs_Get H ob True t = Some (Inr (mp, pv, Some f, u)) \<and>
      refs_rel H u B' fs' ((word_counts m)(ob \<mapsto> of_nat c)) \<and> f \<in> ref_members u B' \<and> robj (rnodes u ! f) = ob \<and>
      rcount (rnodes u ! f) = of_nat c \<and> length (rnodes u) \<le> max (length (rnodes t)) (2 * rslotused t)"
  proof (cases "m ob")
    case None
    then have n: "word_counts m ob = None" "c = 0" by (simp_all add: word_counts_def c_def)
    show ?thesis using get_new [OF B k(1) n(1) refcounted_not_null [OF assms(3)] k(3)] n(2) by auto
  next
    case (Some d)
    then have n: "word_counts m ob = Some (of_nat c)" by (simp add: word_counts_def c_def)
    have "(word_counts m)(ob \<mapsto> of_nat c) = word_counts m" using n by auto
    then show ?thesis using get_known [OF B k(2) n, of True] B by (metis max.cobounded1)
  qed
  then obtain mp pv f u B' fs' where g: "refs_Get H ob True t = Some (Inr (mp, pv, Some f, u))"
    "refs_rel H u B' fs' ((word_counts m)(ob \<mapsto> of_nat c))" "f \<in> ref_members u B'" "robj (rnodes u ! f) = ob"
    "rcount (rnodes u ! f) = of_nat c" "length (rnodes u) \<le> max (length (rnodes t)) (2 * rslotused t)"
    by blast
  let ?v = "set_count f (rcount (rnodes u ! f) + 1) u"
  have run: "refs_AddRef H ob t = Some (Inr ?v)" using g(1) by (simp add: refs_AddRef_def)
  have "((word_counts m)(ob \<mapsto> of_nat c))(robj (rnodes u ! f) \<mapsto> rcount (rnodes u ! f) + 1) = word_counts (m(ob \<mapsto> c + 1))"
    using g(4,5) by (simp add: add.commute)
  then have rel: "refs_rel H ?v B' fs' (word_counts (m(ob \<mapsto> c + 1)))" using count_rel(1) [OF g(2,3)] by metis
  have len: "length (rnodes ?v) \<le> 4 + 2 * Suc k" using g(6) bounds(2,3) by (simp add: set_count_def)
  have dom: "dom (word_counts (m(ob \<mapsto> c + 1))) = insert ob (dom m)" by (auto simp: word_counts_def)
  have "rslotused ?v = card (dom (word_counts (m(ob \<mapsto> c + 1))))"
    using refs_shapeD(8) [OF refs_relD(1) [OF rel]] refs_relD(2,4) [OF rel] by (simp add: card_image)
  also have "\<dots> \<le> Suc (card (dom m))" unfolding dom using card_insert_le_m1 card_insert_if by (metis (no_types) card_Suc_eq_finite card.infinite finite_insert le_SucI le_refl zero_le)
  finally have used: "rslotused ?v \<le> Suc k" using k(4) bounds(2) by simp
  have "c \<le> k" using bounds(1) by (auto simp: c_def split: option.splits)
  then have "\<forall>x d. (m(ob \<mapsto> c + 1)) x = Some d \<longrightarrow> 0 < d \<and> d \<le> Suc k" using bounds(1) by (auto intro: le_SucI)
  then show ?thesis using run rel len used unfolding new holds_refs_def by blast
qed

lemma unhold_run:
  assumes "holds_refs H k t m" "k < 2 ^ 60" "is_refcounted (o_type ob)" "m ob = Some c"
  shows "\<exists>u. refs_Release H ob t = Some (Inr (c = 1, u)) \<and> holds_refs H (Suc k) u (m(ob := if c = 1 then None else Some (c - 1)))"
proof -
  obtain B fs where B: "refs_rel H t B fs (word_counts m)" using assms(1) by (auto simp: holds_refs_def)
  note k = holds_refsD [OF assms(1,2)]
  have bounds: "\<forall>ob c. m ob = Some c \<longrightarrow> 0 < c \<and> c \<le> k" "rslotused t \<le> k" "length (rnodes t) \<le> 4 + 2 * k"
    using assms(1) by (auto simp: holds_refs_def)
  have c: "0 < c" "c < 2 ^ 60" using bounds(1) [rule_format, OF assms(4)] assms(2) by simp_all
  let ?h = "main_place H (length (rnodes t)) ob"
  have w: "word_counts m ob = Some (of_nat c)" using assms(4) by (simp add: word_counts_def)
  obtain ys f zs where f: "refs_Get H ob False t = Some (Inr (?h, if ys = [] then None else Some (List.last ys), Some f, t))"
    "B ?h = ys @ f # zs" "robj (rnodes t ! f) = ob" "rcount (rnodes t ! f) = of_nat c" "f \<in> ref_members t B"
    using get_known [OF B k(2) w, of False] by blast
  define u where "u = set_count f (of_nat c - 1) t"
  have u: "refs_rel H u B fs ((word_counts m)(ob \<mapsto> of_nat c - 1))" "rcount (rnodes u ! f) = of_nat c - 1" "robj (rnodes u ! f) = ob"
    "length (rnodes u) = length (rnodes t)" "ref_members u B = ref_members t B" "rslotused u = rslotused t" "rbuckets u = rbuckets t"
    using count_rel [OF B f(5), of "of_nat c - 1"] f(3) by (simp_all add: u_def) (simp_all add: set_count_def)
  have pred: "(of_nat c - 1 :: u64) = of_nat (c - 1)" using c(1) by (simp add: of_nat_diff)
  have z: "(of_nat d :: u64) = 0 \<longleftrightarrow> d = 0" if "d < 2 ^ 60" for d
  proof -
    have "unat (of_nat d :: u64) = d" using that by (simp add: unsigned_of_nat take_bit_nat_eq_self)
    then show ?thesis using unat_eq_zero [of "of_nat d :: u64"] by simp
  qed
  have "c - 1 < 2 ^ 60" using c(2) by linarith
  then have zero: "(of_nat c - 1 :: u64) = 0 \<longleftrightarrow> c = 1" unfolding pred z [OF \<open>c - 1 < 2 ^ 60\<close>] using c(1) by auto
  have run: "refs_Release H ob t = (if c = 1 then Some (Inr (True, free_ref ?h (if ys = [] then None else Some (List.last ys)) f u))
      else Some (Inr (False, u)))"
    unfolding refs_Release_def f(1) run_then_simps prod.case option.case Let_def f(4) u_def [symmetric] u(2) zero by (rule refl)
  show ?thesis
  proof (cases "c = 1")
    case True
    have h: "?h < length (rbuckets u)"
      using main_place_less [OF refs_shapeD(1) [OF refs_relD(1) [OF B]] k(2)] refs_shapeD(2) [OF refs_relD(1) [OF B]] u(7) by simp
    have z: "rcount (rnodes u ! f) = 0" using u(2) zero True by simp
    note fr = free_rel [OF u(1) h f(2) z]
    have "((word_counts m)(ob \<mapsto> of_nat c - 1))(robj (rnodes u ! f) := None) = word_counts (m(ob := None))"
      using u(3) by simp
    then have "\<exists>B' fs'. refs_rel H (free_ref ?h (if ys = [] then None else Some (List.last ys)) f u) B' fs' (word_counts (m(ob := None)))"
      using fr(1) by metis
    then show ?thesis
      using run True fr(2,3) u(4,6) bounds unfolding holds_refs_def by (auto intro: le_SucI)
  next
    case False
    have "(word_counts m)(ob \<mapsto> of_nat c - 1) = word_counts (m(ob \<mapsto> c - 1))" by (simp add: pred)
    then have "refs_rel H u B fs (word_counts (m(ob \<mapsto> c - 1)))" using u(1) by metis
    moreover have "\<forall>x d. (m(ob \<mapsto> c - 1)) x = Some d \<longrightarrow> 0 < d \<and> d \<le> Suc k"
    proof (intro allI impI)
      fix x d assume "(m(ob \<mapsto> c - 1)) x = Some d"
      then consider "d = c - 1" | "m x = Some d" by (cases "x = ob") simp_all
      then show "0 < d \<and> d \<le> Suc k"
      proof cases
        case 1
        then show ?thesis using c(1) False bounds(1) [rule_format, OF assms(4)] by linarith
      next
        case 2
        then show ?thesis using bounds(1) by (simp add: le_SucI)
      qed
    qed
    ultimately show ?thesis
      using run False u(4,6) bounds unfolding holds_refs_def by auto
  qed
qed

lemma ref_step_run:
  assumes "holds_refs H k t m" "k < 2 ^ 60" "ref_spec p m = Some (r, n)"
  shows "\<exists>u. ref_step H p t = Some (Inr (r, u)) \<and> holds_refs H (Suc k) u n"
proof -
  have mono: "holds_refs H (Suc k) t m" using assms(1) by (auto simp: holds_refs_def intro: le_SucI)
  show ?thesis
  proof (cases p)
    case (Hold ob)
    then show ?thesis using assms(3) mono hold_run [OF assms(1,2), of ob]
      by (cases "is_refcounted (o_type ob)") (auto simp: ref_spec_def ref_step_def sq_addref_def)
  next
    case (Count ob)
    show ?thesis
    proof (cases "is_refcounted (o_type ob)")
      case True
      then obtain c where c: "m ob = Some c" "r = Counted (of_nat c)" "n = m" using assms(3) Count by (auto simp: ref_spec_def)
      obtain B fs where B: "refs_rel H t B fs (word_counts m)" using assms(1) by (auto simp: holds_refs_def)
      have w: "word_counts m ob = Some (of_nat c)" using c(1) by (simp add: word_counts_def)
      show ?thesis using get_known [OF B holds_refsD(2) [OF assms(1,2)] w, of True] Count True c mono
        by (auto simp: ref_step_def sq_getrefcount_def refs_GetRefCount_def)
    qed (use assms(3) mono Count in \<open>auto simp: ref_spec_def ref_step_def sq_getrefcount_def\<close>)
  next
    case (Unhold ob)
    then show ?thesis using assms(3) mono unhold_run [OF assms(1,2), of ob]
      by (cases "is_refcounted (o_type ob)") (auto simp: ref_spec_def ref_step_def sq_release_def)
  qed
qed

lemma ref_steps_run:
  assumes "holds_refs H k t m" "k + length ps \<le> 2 ^ 60" "ref_specs ps m = Some (rs, n)"
  shows "\<exists>u. ref_steps H ps t = Some (Inr (rs, u)) \<and> holds_refs H (k + length ps) u n"
  using assms
proof (induction ps arbitrary: k t m rs)
  case (Cons p ps)
  obtain r m' rs' where s: "ref_spec p m = Some (r, m')" "ref_specs ps m' = Some (rs', n)" "rs = r # rs'"
    using Cons.prems(3) by (auto split: option.splits)
  have k: "k < 2 ^ 60" "Suc k + length ps \<le> 2 ^ 60" using Cons.prems(2) by simp_all
  obtain u where u: "ref_step H p t = Some (Inr (r, u))" "holds_refs H (Suc k) u m'"
    using ref_step_run [OF Cons.prems(1) k(1) s(1)] by blast
  then show ?case using Cons.IH [OF u(2) k(2) s(2)] s(3) by auto
qed auto

lemma new_refs: "holds_refs H 0 RefTable Map.empty"
proof -
  have "word_counts Map.empty = Map.empty" by (simp add: word_counts_def)
  then have "\<exists>B fs. refs_rel H RefTable B fs (word_counts Map.empty)" using alloc_rel [of 4 H] by (auto simp: RefTable_def)
  then show ?thesis by (simp add: holds_refs_def) (simp add: RefTable_def refs_AllocNodes_def)
qed

text \<open>C12: over any run of calls in which only objects that are held are released or asked for, the table of
  references is a map from objects to counts: a call returns what the map says, a release says true
  with the last reference and only then, and the table holds the objects that are held.\<close>

theorem refs_refine:
  assumes "ref_specs ps Map.empty = Some (rs, m)" "length ps < 2 ^ 60"
  shows "\<exists>t. ref_steps H ps RefTable = Some (Inr (rs, t)) \<and> (\<forall>ob. held H t ob = map_option of_nat (m ob)) \<and>
     rslotused t = card (dom m)"
proof -
  obtain t where t: "ref_steps H ps RefTable = Some (Inr (rs, t))" "holds_refs H (length ps) t m"
    using ref_steps_run [OF new_refs, of ps rs m] assms by auto
  then show ?thesis using held_iff [OF t(2) assms(2)] holds_refsD(4) [OF t(2) assms(2)] by (auto simp: word_counts_def)
qed

definition ref_heap :: sqheap where
  "ref_heap = \<lparr>str_hash = (\<lambda>p. p), str_val = (\<lambda>_. []), weak_obj = (\<lambda>_. null_object)\<rparr>"

theorem refs_refine_witness:
  "\<exists>t. ref_steps ref_heap [Hold \<lparr>o_type = OT_TABLE, o_raw = 64\<rparr>, Hold \<lparr>o_type = OT_TABLE, o_raw = 64\<rparr>,
       Hold \<lparr>o_type = OT_CLOSURE, o_raw = 96\<rparr>, Unhold \<lparr>o_type = OT_TABLE, o_raw = 64\<rparr>, Unhold \<lparr>o_type = OT_CLOSURE, o_raw = 96\<rparr>] RefTable =
     Some (Inr ([Held, Held, Held, Released False, Released True], t)) \<and>
     held ref_heap t \<lparr>o_type = OT_TABLE, o_raw = 64\<rparr> = Some 1 \<and> rslotused t = 1"
proof -
  let ?a = "\<lparr>o_type = OT_TABLE, o_raw = 64\<rparr>" and ?b = "\<lparr>o_type = OT_CLOSURE, o_raw = 96\<rparr>"
  let ?ps = "[Hold ?a, Hold ?a, Hold ?b, Unhold ?a, Unhold ?b]"
  have "ref_specs ?ps Map.empty = Some ([Held, Held, Held, Released False, Released True], [?a \<mapsto> 1])"
    by (auto simp: ref_spec_def)
  then show ?thesis using refs_refine [of ?ps "[Held, Held, Held, Released False, Released True]" "[?a \<mapsto> 1]" ref_heap] by auto
qed

text \<open>
  Asking for the count of an object that is not held takes a node for it, with no references: the
  table cannot grow any more.
\<close>

lemma count_stops_growth:
  "ref_steps ref_heap [Count \<lparr>o_type = OT_TABLE, o_raw = 8\<rparr>, Hold \<lparr>o_type = OT_TABLE, o_raw = 16\<rparr>, Hold \<lparr>o_type = OT_TABLE, o_raw = 24\<rparr>,
      Hold \<lparr>o_type = OT_TABLE, o_raw = 32\<rparr>, Hold \<lparr>o_type = OT_TABLE, o_raw = 40\<rparr>] RefTable =
    Some (Inl (Undefined ''assertion t->refs != 0''))"
  by code_simp

end
