(* ===== verification/Spec2Isabelle.thy ===== *)
theory Spec2Isabelle
  imports Engine Routing Script_Host Midi_Handlers Transport Mixer Lv2_Plugin Trackers Drum_Tab Abc_Reader Mml_Reader Osc Tlsf_Walk Tlsf_Realloc
    Sq_Table_Run Sq_Strings_Run Sq_Refs_Spec
begin

text \<open>
  A verification development for bipscript, a host that runs Squirrel scripts which make music: a
  script creates objects (ports, plugins, mixers, readers, trackers, the transport), connects them
  and schedules notes and control messages on them; an audio callback plays what is due.

  \<^bold>\<open>The program.\<close> Two kinds of threads share the objects. The script thread (\<open>src/scripthost.cpp\<close>)
  runs the script, hands events and objects over through lock-free queues, dispatches the closures
  the audio side asks for, and then waits for the engine to request another run. The process thread
  (\<open>src/audioengine.cpp\<close>, called by JACK) runs every active processor once per period, in an order
  that follows the connections between them; a processor takes the events that are due in the period
  out of its buffers, and what it is done with goes back to the script thread through a collector,
  because only that thread may free memory. Musical time (bars and fractions of bars) is turned into
  frames with the transport's position. On a repositioning the script is run again and caches keep
  the objects it asks for a second time.

  \<^bold>\<open>Theories and sources\<close> (paths below \<open>src/\<close> of the repository).
  \<^item> \<open>Prelude\<close>, \<open>Floats\<close>: faults, results and actions; rounding of single and double arithmetic.
  \<^item> \<open>Musical_Time\<close>: \<open>src/position.h\<close>, \<open>position.cpp\<close>, \<open>timeposition.h\<close>, \<open>timesignature.h\<close>.
  \<^item> \<open>Intrusive_Lists\<close>, \<open>Queues\<close>, \<open>Event_Buffer\<close>: \<open>listable.h\<close>, \<open>eventlist.h\<close>, \<open>objectcollector.cpp\<close>,
    \<open>methodqueue.cpp\<close>, \<open>event.h\<close>, \<open>eventbuffer.h\<close>.
  \<^item> \<open>Midi_Data\<close>, \<open>Midi_Sink\<close>, \<open>Midi_Handlers\<close>, \<open>Ports\<close>: \<open>midievent.cpp\<close>, \<open>midimessage.h\<close>,
    \<open>midipattern.cpp\<close>, \<open>miditune.cpp\<close>, \<open>midisink.cpp\<close>, \<open>midiconnection.h\<close>, \<open>midiport.cpp\<close>,
    \<open>audioport.cpp\<close>.
  \<^item> \<open>Object_Cache\<close>, \<open>Routing\<close>, \<open>Engine\<close>, \<open>Script_Host\<close>, \<open>Script_Values\<close>, \<open>Transport\<close>:
    \<open>objectcache.h\<close>, \<open>processor.h\<close>, \<open>source.h\<close>, \<open>audioengine.cpp\<close>, \<open>scripthost.cpp\<close>,
    \<open>extension.cpp\<close>, \<open>main.cpp\<close>, \<open>scripttypes.cpp\<close>, \<open>transport.cpp\<close>, \<open>transportmaster.cpp\<close>.
  \<^item> \<open>Mixer\<close>: \<open>mixer.cpp\<close>. \<open>Lv2_Host\<close>, \<open>Lv2_Midi\<close>, \<open>Lv2_Plugin\<close>: \<open>lv2plugin.cpp\<close>.
  \<^item> \<open>Trackers\<close>: \<open>beattracker.cpp\<close>, \<open>onsetdetector.cpp\<close>. \<open>Osc\<close>: \<open>oscmessage.h\<close>, \<open>oscinput.cpp\<close>,
    \<open>oscoutput.cpp\<close>.
  \<^item> \<open>Ticks\<close>, \<open>Drum_Tab\<close>, \<open>Abc_Reader\<close>, \<open>Mml_Parser\<close>, \<open>Mml_Syntax\<close>, \<open>Mml_Reader\<close>:
    \<open>drumtabreader.cpp\<close>, \<open>abcreader.cpp\<close>, \<open>tinymml/mml.c\<close>, \<open>mmlreader.cpp\<close>.
  \<^item> \<open>Tlsf_Mapping\<close>, \<open>Tlsf\<close> and the theories \<open>Tlsf_Lists\<close> to \<open>Tlsf_Realloc\<close>: \<open>memorypool.h\<close> and the
    allocator of \<open>tlsf/tlsf.c\<close> that the process thread's closures are allocated with.
  \<^item> \<open>Sq_Object\<close>, \<open>Sq_Table\<close> and the theories \<open>Sq_Chains\<close> to \<open>Sq_Table_Run\<close>: the hash tables of the
    scripting language, \<open>squirrel/squirrel/sqtable.cpp\<close>, which every object and namespace of a script
    is; \<open>Pointer_Chains\<close>, \<open>Sq_Strings\<close>, \<open>Sq_Strings_Run\<close>, \<open>Sq_Refs\<close>, \<open>Sq_Refs_Run\<close>, \<open>Sq_Refs_Spec\<close>: its
    table of strings and the references the host holds, \<open>squirrel/squirrel/sqstate.cpp\<close>.

  \<^bold>\<open>How the code is modelled.\<close> A class is a record, its methods are functions on it; a method that can
  throw, assert or read through a bad pointer ends in a \<open>fault\<close>, and the state reached before it is
  kept where the caller can see it. Machine integers are words, or unbounded integers with the
  wrap-around written out. Floating point numbers are rationals rounded after every operation;
  infinities and NaN are left out. Intrusive lists are a heap of next pointers. A loop that may not
  end is a \<open>partial_function\<close> whose value \<open>None\<close> is not returning, so that returning is proved.

  \<^bold>\<open>Interfaces.\<close> What the sources call and do not contain is a parameter with its documented laws in a
  locale: Boost's queues (\<open>fifo\<close>, and \<open>event_queues\<close>, \<open>engine_queues\<close> over it), JACK's MIDI buffers
  (\<open>midi_buffer\<close>, \<open>midi_port\<close>), the LV2 atom buffers and ring buffers (\<open>atom_port\<close>, \<open>ringbuffer\<close>),
  liblo's messages (\<open>liblo\<close>), the environment an object cache registers with (\<open>object_registry\<close>,
  interpreted on the engine). Every one is interpreted: on list models of the libraries, or on the
  model of the component that provides it. JACK's answers, the plugins' run functions, lilv, the
  beat tracking analysis and the ABC parser's callbacks are plain arguments.

  \<^bold>\<open>What is shown.\<close> Events are neither lost nor duplicated on their way from the script to the frame
  they are due at, and late ones are recycled; the intrusive lists implement sorted insertion;
  musical arithmetic is exact where its cross products fit and its normal form is unique, and frame
  offsets respect the order of time through all roundings; repositioning is a handshake the two
  threads keep to; caches and engine stay in step; each period runs every processor once, when the
  connections have no cycle; mixer, ports and plugins produce what their inputs say; readers produce
  the notes of the text they read, compared with reference semantics of the notations; the parsers
  end; the allocator never faults under its client, what it hands out is disjoint and inside the
  pool, and its own integrity checks pass. The tables of the scripting language refine a map, its
  table of strings a map from contents to the one string that has them, the host's references a
  count for each object, over any run of their operations. Where the code deviates from what it means to do, a theorem
  exhibits it.

  \<^bold>\<open>Bounds and fuel.\<close> Theorems on musical time state the range in which the 32-bit products do not
  wrap. Theorems on the allocator hold for pools below \<open>2 ^ 32\<close> bytes and requests of at most
  \<open>2 ^ 31\<close>; beyond that the code misbehaves, which is shown. Where a loop has fuel, the amount is a
  hypothesis or computed from the input, and the theorem says the loop returns. Inserting into a
  hash table and rehashing it call each other: two levels of calls are enough, because the larger
  table has room. The runs on tables, strings and references have fewer than \<open>2 ^ 59\<close> (\<open>2 ^ 60\<close>) operations, so
  that sizes and counts stay in 64 bits.

  \<^bold>\<open>Not modelled.\<close> Interleavings inside one operation: threads interact through queues and atomic
  flags, and the steps of the models are the operations on these. The Squirrel compiler and virtual
  machine, abcmidi's parser and the BTrack analysis (vendored programs of their own, present here as
  arguments); the generated bindings under \<open>bindings/\<close>, which unpack a script's arguments and call
  the modelled methods; terminal output, signal handlers and dynamic loading.
\<close>

end
